(* ===== verification/Ha_Prelude.thy ===== *)
theory Ha_Prelude
  imports Main "HOL-Library.Word" "HOL-Library.Signed_Division"
begin

text \<open>
  Shared vocabulary of the development: the machine types the C code uses, the faults a C
  function can run into, the lemma collections the component theories fill, and generic lemmas
  on lists, loops and 32-bit words.

  HAProxy is compiled with \<^verbatim>\<open>-fwrapv\<close>, so \<open>+\<close>, \<open>-\<close> and \<open>*\<close> wrap on
  signed and unsigned 32-bit values alike. Both are 32-bit words here; a C \<^verbatim>\<open>int\<close> is read
  with \<open>sint\<close> and compared with the signed comparisons, an \<^verbatim>\<open>unsigned int\<close> with
  \<open>unat\<close> and the unsigned ones.
\<close>

unbundle bit_operations_syntax

type_synonym u8 = "8 word"
type_synonym u32 = "32 word"
type_synonym u64 = "64 word"
type_synonym c_int = "32 word"

text \<open>Servers of a proxy are chained by their \<^verbatim>\<open>next\<close> pointer in declaration order; a
  \<^verbatim>\<open>struct server *\<close> is the position of the server in that chain.\<close>

type_synonym srv_ref = nat

text \<open>What can go wrong in the C code beyond an error return.\<close>

datatype c_fault =
    NullDeref          \<comment> \<open>a null pointer is read\<close>
  | OutOfBounds        \<comment> \<open>an array is indexed outside of its bounds\<close>
  | BufferOverflow     \<comment> \<open>a string is written past the end of its buffer\<close>
  | FileNotFound       \<comment> \<open>\<^verbatim>\<open>err(1, ...)\<close> ends the process\<close>
  | DivideByZero       \<comment> \<open>an integer division by zero\<close>
  | Aborted            \<comment> \<open>\<^verbatim>\<open>abort()\<close>\<close>

type_synonym 'a c_result = "c_fault + 'a"

definition c_bind :: "'a c_result \<Rightarrow> ('a \<Rightarrow> 'b c_result) \<Rightarrow> 'b c_result" where
  "c_bind r f = (case r of Inl e \<Rightarrow> Inl e | Inr x \<Rightarrow> f x)"

lemma c_bind_simps [simp]: "c_bind (Inl e) f = Inl e" "c_bind (Inr x) f = f x"
  by (simp_all add: c_bind_def)

lemma c_bind_Inr_iff: "c_bind r f = Inr y \<longleftrightarrow> (\<exists>x. r = Inr x \<and> f x = Inr y)"
  by (cases r) auto

text \<open>A counted loop whose body may fault.\<close>

fun c_fold :: "(nat \<Rightarrow> 'a \<Rightarrow> 'a c_result) \<Rightarrow> nat list \<Rightarrow> 'a \<Rightarrow> 'a c_result" where
  "c_fold f [] s = Inr s"
| "c_fold f (i # is) s = c_bind (f i s) (c_fold f is)"

lemma c_bind_assoc: "c_bind (c_bind r f) g = c_bind r (\<lambda>x. c_bind (f x) g)"
  by (cases r) simp_all

lemma c_bind_Inr_right [simp]: "c_bind r Inr = r"
  by (cases r) simp_all

lemma c_fold_append: "c_fold f (is @ js) s = c_bind (c_fold f is s) (c_fold f js)"
  by (induction "is" arbitrary: s) (auto simp: c_bind_def split: sum.splits)

lemma c_fold_upt_rule:
  assumes "P 0 s" and "\<And>i t. i < n \<Longrightarrow> P i t \<Longrightarrow> \<exists>u. f i t = Inr u \<and> P (Suc i) u"
  shows "\<exists>u. c_fold f [0..<n] s = Inr u \<and> P n u"
  using assms
proof (induction n)
  case (Suc n)
  then obtain t where "c_fold f [0..<n] s = Inr t" "P n t" by (metis less_SucI)
  moreover from this Suc.prems(2) [of n t] obtain u where "f n t = Inr u" "P (Suc n) u" by auto
  ultimately show ?case by (simp add: c_fold_append)
qed simp

named_theorems srv_simps \<open>accessors of one server and of the server chain\<close>
named_theorems px_frame \<open>which proxy fields an operation leaves alone\<close>

section \<open>Counted loops\<close>

text \<open>
  A loop \<^verbatim>\<open>for (i = 0; i < n; i++)\<close> is \<open>fold body [0..<n]\<close>. The rule below is its
  invariant rule.
\<close>

lemma fold_upt_rule:
  assumes "P 0 s" and "\<And>i t. i < n \<Longrightarrow> P i t \<Longrightarrow> P (Suc i) (f i t)"
  shows "P n (fold f [0..<n] s)"
  using assms by (induction n) auto

lemma fold_upt_Suc [simp]: "fold f [0..<Suc n] s = f n (fold f [0..<n] s)"
  by simp

section \<open>Positions in a list\<close>

fun find_idx :: "('a \<Rightarrow> bool) \<Rightarrow> 'a list \<Rightarrow> nat option" where
  "find_idx P [] = None"
| "find_idx P (x # xs) = (if P x then Some 0 else map_option Suc (find_idx P xs))"

lemma find_idx_None_iff: "find_idx P xs = None \<longleftrightarrow> (\<forall>x \<in> set xs. \<not> P x)"
  by (induction xs) auto

lemma find_idx_Some_iff:
  "find_idx P xs = Some i \<longleftrightarrow> i < length xs \<and> P (xs ! i) \<and> (\<forall>j < i. \<not> P (xs ! j))"
proof (induction xs arbitrary: i)
  case Nil
  then show ?case by simp
next
  case (Cons x xs)
  show ?case
  proof (cases i)
    case 0
    then show ?thesis by auto
  next
    case (Suc k)
    then show ?thesis using Cons.IH [of k] by (auto simp: less_Suc_eq_0_disj)
  qed
qed

lemma find_idx_cong:
  assumes "length xs = length ys" and "\<And>i. i < length xs \<Longrightarrow> P (xs ! i) \<longleftrightarrow> Q (ys ! i)"
  shows "find_idx P xs = find_idx Q ys"
  using assms
proof (induction xs ys rule: list_induct2)
  case Nil
  then show ?case by simp
next
  case (Cons x xs y ys)
  from Cons.prems [of 0] have "P x \<longleftrightarrow> Q y" by simp
  moreover have "find_idx P xs = find_idx Q ys"
    using Cons.prems by (intro Cons.IH) force
  ultimately show ?case by simp
qed

lemma find_idx_append:
  "find_idx P (xs @ ys) =
     (case find_idx P xs of Some i \<Rightarrow> Some i | None \<Rightarrow> map_option (plus (length xs)) (find_idx P ys))"
proof (induction xs)
  case Nil
  then show ?case by (cases "find_idx P ys") auto
next
  case (Cons x xs)
  then show ?case by (cases "find_idx P ys") (auto split: option.splits)
qed

lemma map_of_rev_distinct:
  assumes "distinct (map fst xs)"
  shows "map_of (rev xs) = map_of xs"
proof
  fix k
  show "map_of (rev xs) k = map_of xs k"
  proof (cases "map_of xs k")
    case None
    then have "map_of (rev xs) k = None" by (simp add: map_of_eq_None_iff)
    with None show ?thesis by simp
  next
    case (Some v)
    then have "(k, v) \<in> set (rev xs)" by (simp add: map_of_SomeD)
    moreover have "distinct (map fst (rev xs))" using assms by (metis distinct_rev rev_map)
    ultimately have "map_of (rev xs) k = Some v" by (metis map_of_is_SomeI)
    with Some show ?thesis by simp
  qed
qed

section \<open>Words\<close>

lemma unat_less_2p32: "unat (x :: u32) < 2 ^ 32"
proof -
  have "unat x < 2 ^ LENGTH(32)" by (rule unsigned_less)
  then show ?thesis by simp
qed

lemma unat_add_1_less: "unat x < unat y \<Longrightarrow> unat (x + 1) = Suc (unat x)" for x y :: u32
  using unat_less_2p32 [of y] by (simp add: unat_word_ariths)

end
