(* ===== verification/Eb32_Spec.thy ===== *)
theory Eb32_Spec
  imports Ha_Prelude
begin

text \<open>
  What the load-balancing code relies on of the elastic binary trees of
  \<^verbatim>\<open>include/import/eb32tree.h\<close>: a tree is the sequence of its leaves in ascending key
  order, leaves of equal keys standing in insertion order. A leaf is a pair of its 32-bit key
  and the object the \<^verbatim>\<open>struct eb32_node\<close> is embedded in.
\<close>

type_synonym 'n eb_root = "(u32 \<times> 'n) list"

fun eb32_insert :: "u32 \<Rightarrow> 'n \<Rightarrow> 'n eb_root \<Rightarrow> 'n eb_root" where
  "eb32_insert k n [] = [(k, n)]"
| "eb32_insert k n (e # t) = (if fst e \<le> k then e # eb32_insert k n t else (k, n) # e # t)"

definition eb32_delete :: "'n \<Rightarrow> 'n eb_root \<Rightarrow> 'n eb_root" where
  "eb32_delete n t = filter (\<lambda>e. snd e \<noteq> n) t"

definition eb32_first :: "'n eb_root \<Rightarrow> (u32 \<times> 'n) option" where
  "eb32_first t = (case t of [] \<Rightarrow> None | e # _ \<Rightarrow> Some e)"

definition eb32_last :: "'n eb_root \<Rightarrow> (u32 \<times> 'n) option" where
  "eb32_last t = (if t = [] then None else Some (last t))"

text \<open>\<open>eb32_after n t\<close> is what the walk \<open>eb32_next\<close> visits after leaf \<open>n\<close>.\<close>

definition eb32_after :: "'n \<Rightarrow> 'n eb_root \<Rightarrow> 'n eb_root" where
  "eb32_after n t = drop 1 (dropWhile (\<lambda>e. snd e \<noteq> n) t)"

definition eb32_next :: "'n \<Rightarrow> 'n eb_root \<Rightarrow> (u32 \<times> 'n) option" where
  "eb32_next n t = eb32_first (eb32_after n t)"

definition eb32_prev :: "'n \<Rightarrow> 'n eb_root \<Rightarrow> (u32 \<times> 'n) option" where
  "eb32_prev n t = eb32_last (takeWhile (\<lambda>e. snd e \<noteq> n) t)"

definition eb32_lookup_ge :: "u32 \<Rightarrow> 'n eb_root \<Rightarrow> (u32 \<times> 'n) option" where
  "eb32_lookup_ge x t = find (\<lambda>e. x \<le> fst e) t"

text \<open>\<^verbatim>\<open>node.leaf_p\<close> is non-null exactly while the leaf is in a tree.\<close>

definition eb32_in_tree :: "'n \<Rightarrow> 'n eb_root \<Rightarrow> bool" where
  "eb32_in_tree n t \<longleftrightarrow> n \<in> snd ` set t"

definition eb_nodes :: "'n eb_root \<Rightarrow> 'n list" where
  "eb_nodes t = map snd t"

definition eb_ordered :: "'n eb_root \<Rightarrow> bool" where
  "eb_ordered t \<longleftrightarrow> sorted (map fst t) \<and> distinct (eb_nodes t)"

section \<open>Lemmas\<close>

lemma set_eb32_insert [simp]: "set (eb32_insert k n t) = insert (k, n) (set t)"
  by (induction t) auto

lemma set_eb_nodes: "set (eb_nodes t) = snd ` set t"
  by (simp add: eb_nodes_def)

lemma eb32_in_tree_iff: "eb32_in_tree n t \<longleftrightarrow> n \<in> set (eb_nodes t)"
  by (simp add: eb32_in_tree_def set_eb_nodes)

lemma eb_nodes_insert [simp]: "set (eb_nodes (eb32_insert k n t)) = insert n (set (eb_nodes t))"
  by (auto simp: set_eb_nodes)

lemma eb_nodes_delete [simp]: "set (eb_nodes (eb32_delete n t)) = set (eb_nodes t) - {n}"
  by (auto simp: set_eb_nodes eb32_delete_def)

lemma sorted_eb32_insert: "sorted (map fst t) \<Longrightarrow> sorted (map fst (eb32_insert k n t))"
proof (induction t)
  case Nil
  then show ?case by simp
next
  case (Cons e t)
  then show ?case by (fastforce intro: order.trans less_imp_le)
qed

lemma distinct_eb32_insert:
  "n \<notin> set (eb_nodes t) \<Longrightarrow> distinct (eb_nodes t) \<Longrightarrow> distinct (eb_nodes (eb32_insert k n t))"
  by (induction t) (auto simp: eb_nodes_def)

lemma eb_ordered_Nil [simp]: "eb_ordered []"
  by (simp add: eb_ordered_def eb_nodes_def)

lemma eb_ordered_insert:
  "eb_ordered t \<Longrightarrow> n \<notin> set (eb_nodes t) \<Longrightarrow> eb_ordered (eb32_insert k n t)"
  by (simp add: eb_ordered_def sorted_eb32_insert distinct_eb32_insert)

lemma eb_ordered_filter: "eb_ordered t \<Longrightarrow> eb_ordered (filter P t)"
  by (auto simp: eb_ordered_def eb_nodes_def distinct_map_filter sorted_filter)

lemma eb_ordered_delete: "eb_ordered t \<Longrightarrow> eb_ordered (eb32_delete n t)"
  by (simp add: eb32_delete_def eb_ordered_filter)

lemma eb32_delete_notin: "n \<notin> set (eb_nodes t) \<Longrightarrow> eb32_delete n t = t"
  by (force simp: eb32_delete_def set_eb_nodes filter_id_conv)

lemma eb32_delete_insert_same:
  "n \<notin> set (eb_nodes t) \<Longrightarrow> eb32_delete n (eb32_insert k n t) = t"
proof (induction t)
  case Nil
  then show ?case by (simp add: eb32_delete_def)
next
  case (Cons e t)
  then show ?case
    using eb32_delete_notin [of n "e # t"] eb32_delete_notin [of n t]
    by (auto simp: eb32_delete_def eb_nodes_def)
qed

lemma eb32_first_min:
  assumes "eb_ordered t" and "eb32_first t = Some (k, n)"
  shows "(k, n) \<in> set t" and "\<forall>e \<in> set t. k \<le> fst e"
  using assms by (auto simp: eb32_first_def eb_ordered_def split: list.splits)

lemma eb32_first_None [simp]: "eb32_first t = None \<longleftrightarrow> t = []"
  by (cases t) (auto simp: eb32_first_def)

lemma eb32_last_None [simp]: "eb32_last t = None \<longleftrightarrow> t = []"
  by (simp add: eb32_last_def)

lemma eb32_first_in: "eb32_first t = Some e \<Longrightarrow> e \<in> set t"
  by (auto simp: eb32_first_def split: list.splits)

lemma eb32_last_in: "eb32_last t = Some e \<Longrightarrow> e \<in> set t"
  by (auto simp: eb32_last_def split: if_splits)

lemma length_eb32_insert [simp]: "length (eb32_insert k n t) = Suc (length t)"
  by (induction t) auto

lemma set_eb32_after: "set (eb32_after n t) \<subseteq> set t"
  by (auto simp: eb32_after_def dest: in_set_dropD set_dropWhileD)

lemma eb32_next_in: "eb32_next n t = Some e \<Longrightarrow> e \<in> set t"
  unfolding eb32_next_def by (meson eb32_first_in set_eb32_after subsetD)

lemma eb32_prev_in: "eb32_prev n t = Some e \<Longrightarrow> e \<in> set t"
  by (auto simp: eb32_prev_def dest!: eb32_last_in dest: set_takeWhileD)

lemma eb32_lookup_ge_Some:
  assumes "eb32_lookup_ge x t = Some (k, n)"
  shows "(k, n) \<in> set t" and "x \<le> k"
  using assms by (auto simp: eb32_lookup_ge_def find_Some_iff in_set_conv_nth) (metis fst_conv)+

lemma eb32_lookup_ge_least:
  assumes "eb_ordered t" and "eb32_lookup_ge x t = Some (k, n)" and "e \<in> set t" and "x \<le> fst e"
  shows "k \<le> fst e"
  using assms
proof (induction t)
  case Nil
  then show ?case by simp
next
  case (Cons a t)
  show ?case
  proof (cases "x \<le> fst a")
    case True
    with Cons.prems show ?thesis by (auto simp: eb32_lookup_ge_def eb_ordered_def)
  next
    case False
    with Cons.prems have "e \<in> set t" and "eb32_lookup_ge x t = Some (k, n)"
      by (auto simp: eb32_lookup_ge_def)
    moreover from Cons.prems have "eb_ordered t"
      by (auto simp: eb_ordered_def eb_nodes_def)
    ultimately show ?thesis using Cons.IH Cons.prems by blast
  qed
qed

lemma eb32_lookup_ge_None: "eb32_lookup_ge x t = None \<longleftrightarrow> (\<forall>e \<in> set t. fst e < x)"
  by (auto simp: eb32_lookup_ge_def find_None_iff not_le)

end
