(* ===== verification/Eb32_Tree.thy ===== *)
theory Eb32_Tree
  imports Eb32_Spec
begin

text \<open>
  Elastic binary trees with 32-bit keys: \<^verbatim>\<open>include/import/ebtree.h\<close>,
  \<^verbatim>\<open>include/import/eb32tree.h\<close> and \<^verbatim>\<open>src/eb32tree.c\<close>. Each \<^verbatim>\<open>struct eb32_node\<close> is a leaf
  and may lend its node part to an inner node, so an inner node carries its bit and the object that owns
  it, whose key the descent compares with. Links to parents are positions: where the C code walks up
  through \<^verbatim>\<open>leaf_p\<close> and \<^verbatim>\<open>node_p\<close>, the model has the list of the sides and siblings on the way
  to the root. A negative bit marks the trees of duplicate keys.
\<close>

section \<open>Data\<close>

type_synonym 'n eb32_node = "u32 \<times> 'n"

datatype 'n eb_troot =
    EB_LEAF "'n eb32_node"
  | EB_NODE int "'n eb32_node" "'n eb_troot" "'n eb_troot"

text \<open>The root: its left branch, and whether its right branch carries the tag \<^verbatim>\<open>EB_UNIQUE\<close>.\<close>

record 'n eb_top =
  b_left :: "'n eb_troot option"
  eb_unique :: bool

definition EB_ROOT :: "'n eb_top" where
  "EB_ROOT = \<lparr>b_left = None, eb_unique = False\<rparr>"

fun eb_leaves :: "'n eb_troot \<Rightarrow> 'n eb32_node list" where
  "eb_leaves (EB_LEAF e) = [e]"
| "eb_leaves (EB_NODE b e l r) = eb_leaves l @ eb_leaves r"

section \<open>Walking\<close>

text \<open>The side is true for the right one.\<close>

fun eb_walk_down :: "'n eb_troot \<Rightarrow> bool \<Rightarrow> 'n eb32_node" where
  "eb_walk_down (EB_LEAF e) side = e"
| "eb_walk_down (EB_NODE b e l r) side = eb_walk_down (if side then r else l) side"

definition ebt_first :: "'n eb_top \<Rightarrow> 'n eb32_node option" where
  "ebt_first root = map_option (\<lambda>t. eb_walk_down t False) (b_left root)"

definition ebt_last :: "'n eb_top \<Rightarrow> 'n eb32_node option" where
  "ebt_last root = map_option (\<lambda>t. eb_walk_down t True) (b_left root)"

text \<open>The way up from a position: the side of each branch and the sibling on the other side.\<close>

type_synonym 'n eb_up = "(bool \<times> 'n eb_troot) list"

fun eb_up_next :: "'n eb_up \<Rightarrow> 'n eb32_node option" where
  "eb_up_next [] = None"
| "eb_up_next ((side, sib) # up) = (if side then eb_up_next up else Some (eb_walk_down sib False))"

fun eb_up_prev :: "'n eb_up \<Rightarrow> 'n eb32_node option" where
  "eb_up_prev [] = None"
| "eb_up_prev ((side, sib) # up) = (if side then Some (eb_walk_down sib True) else eb_up_prev up)"

text \<open>Where the leaf of an object is.\<close>

fun eb_leaf_p :: "'n \<Rightarrow> 'n eb_troot \<Rightarrow> 'n eb_up \<Rightarrow> 'n eb_up option" where
  "eb_leaf_p n (EB_LEAF e) up = (if snd e = n then Some up else None)"
| "eb_leaf_p n (EB_NODE b e l r) up =
     (case eb_leaf_p n l ((False, r) # up) of
        Some u \<Rightarrow> Some u
      | None \<Rightarrow> eb_leaf_p n r ((True, l) # up))"

definition eb_locate :: "'n \<Rightarrow> 'n eb_top \<Rightarrow> 'n eb_up option" where
  "eb_locate n root = Option.bind (b_left root) (\<lambda>t. eb_leaf_p n t [])"

definition ebt_next :: "'n \<Rightarrow> 'n eb_top \<Rightarrow> 'n eb32_node option" where
  "ebt_next n root = Option.bind (eb_locate n root) eb_up_next"

definition ebt_prev :: "'n \<Rightarrow> 'n eb_top \<Rightarrow> 'n eb32_node option" where
  "ebt_prev n root = Option.bind (eb_locate n root) eb_up_prev"

section \<open>Insertion\<close>

text \<open>The highest set bit, counted from 1.\<close>

definition fls_step :: "u32 \<Rightarrow> nat \<Rightarrow> u32 \<times> nat \<Rightarrow> u32 \<times> nat" where
  "fls_step m k s = (if fst s AND m \<noteq> 0 then (fst s AND m, snd s + k) else s)"

definition flsnz :: "u32 \<Rightarrow> nat" where
  "flsnz a =
     (let s = (a, 0);
          s = fls_step 0xffff0000 16 s;
          s = fls_step 0xff00ff00 8 s;
          s = fls_step 0xf0f0f0f0 4 s;
          s = fls_step 0xcccccccc 2 s;
          s = fls_step 0xaaaaaaaa 1 s
      in snd s + 1)"

text \<open>The walk along the right branches of a tree of duplicates returns the bit of its last inner node
  and two depths: that of this node, and that of the last node above which a bit is free.\<close>

fun eb_dup_walk :: "'n eb_troot \<Rightarrow> nat \<Rightarrow> nat \<Rightarrow> int \<times> nat \<times> nat" where
  "eb_dup_walk (EB_NODE b e l (EB_NODE b' e' l' r')) head sub =
     eb_dup_walk (EB_NODE b' e' l' r') (Suc head) (if b + 1 < b' then Suc head else sub)"
| "eb_dup_walk (EB_NODE b e l (EB_LEAF x)) head sub = (b, head, sub)"
| "eb_dup_walk (EB_LEAF x) head sub = (0, head, sub)"

text \<open>Replace the subtree at some depth of the right branches.\<close>

fun eb_at_right :: "nat \<Rightarrow> ('n eb_troot \<Rightarrow> 'n eb_troot) \<Rightarrow> 'n eb_troot \<Rightarrow> 'n eb_troot" where
  "eb_at_right 0 f t = f t"
| "eb_at_right (Suc d) f (EB_NODE b e l r) = EB_NODE b e l (eb_at_right d f r)"
| "eb_at_right (Suc d) f (EB_LEAF e) = EB_LEAF e"

fun eb_bit :: "'n eb_troot \<Rightarrow> int" where
  "eb_bit (EB_NODE b e l r) = b"
| "eb_bit (EB_LEAF e) = 0"

definition ebt_insert_dup :: "'n eb_troot \<Rightarrow> 'n eb32_node \<Rightarrow> 'n eb_troot" where
  "ebt_insert_dup t new =
     (case eb_dup_walk t 0 0 of (last_bit, head, sub) \<Rightarrow>
        if last_bit < -1 then eb_at_right (Suc head) (\<lambda>leaf. EB_NODE (-1) new leaf (EB_LEAF new)) t
        else eb_at_right sub (\<lambda>sub. EB_NODE (eb_bit sub - 1) new sub (EB_LEAF new)) t)"

fun eb_is_leaf :: "'n eb_troot \<Rightarrow> bool" where
  "eb_is_leaf (EB_LEAF e) = True"
| "eb_is_leaf (EB_NODE b e l r) = False"

text \<open>Inserting \<^verbatim>\<open>new\<close> above \<^verbatim>\<open>troot\<close>, where the descent stopped in front of \<^verbatim>\<open>old\<close>; the
  object that stands in the tree for the key is returned too.\<close>

definition eb32_attach ::
    "bool \<Rightarrow> 'n eb32_node \<Rightarrow> 'n eb_troot \<Rightarrow> 'n eb32_node \<Rightarrow> 'n eb_troot \<times> 'n eb32_node" where
  "eb32_attach unique new troot old =
     (if fst new = fst old then
        if unique then (troot, old)
        else if \<not> eb_is_leaf troot then (ebt_insert_dup troot new, new)
        else (EB_NODE (-1) new troot (EB_LEAF new), new)
      else
        let new_bit = int (flsnz (fst new XOR fst old)) - 1
        in if fst old \<le> fst new then (EB_NODE new_bit new troot (EB_LEAF new), new)
           else (EB_NODE new_bit new (EB_LEAF new) troot, new))"

fun eb32_descend :: "bool \<Rightarrow> 'n eb32_node \<Rightarrow> 'n eb_troot \<Rightarrow> 'n eb_troot \<times> 'n eb32_node" where
  "eb32_descend unique new (EB_LEAF old) = eb32_attach unique new (EB_LEAF old) old"
| "eb32_descend unique new (EB_NODE b old l r) =
     (if b < 0 \<or> 2 \<le> drop_bit (nat b) (fst new XOR fst old) then eb32_attach unique new (EB_NODE b old l r) old
      else if drop_bit (nat b) (fst new) AND 1 = 0 then
        (let (l, ret) = eb32_descend unique new l in (EB_NODE b old l r, ret))
      else
        (let (r, ret) = eb32_descend unique new r in (EB_NODE b old l r, ret)))"

definition ebt_insert :: "'n eb32_node \<Rightarrow> 'n eb_top \<Rightarrow> 'n eb_top \<times> 'n eb32_node" where
  "ebt_insert new root =
     (case b_left root of
        None \<Rightarrow> (root\<lparr>b_left := Some (EB_LEAF new)\<rparr>, new)
      | Some t \<Rightarrow> let (t, ret) = eb32_descend (eb_unique root) new t in (root\<lparr>b_left := Some t\<rparr>, ret))"

section \<open>Deletion\<close>

text \<open>The parent of the leaf is replaced by the sibling of the leaf; the owner of the parent, whose
  node part is free now, is returned.\<close>

fun eb_is_leaf_of :: "'n \<Rightarrow> 'n eb_troot \<Rightarrow> bool" where
  "eb_is_leaf_of n (EB_LEAF e) = (snd e = n)"
| "eb_is_leaf_of n (EB_NODE b e l r) = False"

fun eb_release :: "'n \<Rightarrow> 'n eb_troot \<Rightarrow> ('n eb_troot \<times> 'n eb32_node) option" where
  "eb_release n (EB_LEAF e) = None"
| "eb_release n (EB_NODE b e l r) =
     (if eb_is_leaf_of n l then Some (r, e)
      else if eb_is_leaf_of n r then Some (l, e)
      else case eb_release n l of
        Some (l', parent) \<Rightarrow> Some (EB_NODE b e l' r, parent)
      | None \<Rightarrow> map_option (\<lambda>(r', parent). (EB_NODE b e l r', parent)) (eb_release n r))"

text \<open>The inner node that uses the node part of the removed object takes the free one instead.\<close>

fun eb_takeover :: "'n \<Rightarrow> 'n eb32_node \<Rightarrow> 'n eb_troot \<Rightarrow> 'n eb_troot" where
  "eb_takeover n parent (EB_LEAF e) = EB_LEAF e"
| "eb_takeover n parent (EB_NODE b e l r) =
     EB_NODE b (if snd e = n then parent else e) (eb_takeover n parent l) (eb_takeover n parent r)"

definition ebt_delete :: "'n \<Rightarrow> 'n eb_top \<Rightarrow> 'n eb_top" where
  "ebt_delete n root =
     (case b_left root of
        None \<Rightarrow> root
      | Some t \<Rightarrow>
          if eb_is_leaf_of n t then root\<lparr>b_left := None\<rparr>
          else case eb_release n t of
            None \<Rightarrow> root
          | Some (t', parent) \<Rightarrow> root\<lparr>b_left := Some (eb_takeover n parent t')\<rparr>)"

section \<open>Lookups\<close>

text \<open>\<^verbatim>\<open>eb32_lookup\<close> shifts by the bit of a node even when it is negative; x86 takes the shift count
  modulo 32.\<close>

fun eb32_find :: "u32 \<Rightarrow> 'n eb_troot \<Rightarrow> 'n eb32_node option" where
  "eb32_find x (EB_LEAF node) = (if fst node = x then Some node else None)"
| "eb32_find x (EB_NODE b node l r) =
     (let y = fst node XOR x in
      if y = 0 then Some (if b < 0 then eb_walk_down l False else node)
      else if 2 \<le> drop_bit (nat (b mod 32)) y then None
      else eb32_find x (if drop_bit (nat (b mod 32)) x AND 1 = 0 then l else r))"

definition ebt_lookup :: "u32 \<Rightarrow> 'n eb_top \<Rightarrow> 'n eb32_node option" where
  "ebt_lookup x root = Option.bind (b_left root) (eb32_find x)"

fun eb32_find_ge :: "u32 \<Rightarrow> 'n eb_troot \<Rightarrow> 'n eb_up \<Rightarrow> 'n eb32_node option" where
  "eb32_find_ge x (EB_LEAF node) up = (if x \<le> fst node then Some node else eb_up_next up)"
| "eb32_find_ge x (EB_NODE b node l r) up =
     (if b < 0 then (if x \<le> fst node then Some (eb_walk_down l False) else eb_up_next up)
      else if 2 \<le> drop_bit (nat b) (x XOR fst node) then
        (if drop_bit (nat b) x < drop_bit (nat b) (fst node) then Some (eb_walk_down l False) else eb_up_next up)
      else if drop_bit (nat b) x AND 1 = 0 then eb32_find_ge x l ((False, r) # up)
      else eb32_find_ge x r ((True, l) # up))"

definition ebt_lookup_ge :: "u32 \<Rightarrow> 'n eb_top \<Rightarrow> 'n eb32_node option" where
  "ebt_lookup_ge x root = Option.bind (b_left root) (\<lambda>t. eb32_find_ge x t [])"

fun eb32_find_le :: "u32 \<Rightarrow> 'n eb_troot \<Rightarrow> 'n eb_up \<Rightarrow> 'n eb32_node option" where
  "eb32_find_le x (EB_LEAF node) up = (if fst node \<le> x then Some node else eb_up_prev up)"
| "eb32_find_le x (EB_NODE b node l r) up =
     (if b < 0 then (if fst node \<le> x then Some (eb_walk_down r True) else eb_up_prev up)
      else if 2 \<le> drop_bit (nat b) (x XOR fst node) then
        (if drop_bit (nat b) (fst node) < drop_bit (nat b) x then Some (eb_walk_down r True) else eb_up_prev up)
      else if drop_bit (nat b) x AND 1 = 0 then eb32_find_le x l ((False, r) # up)
      else eb32_find_le x r ((True, l) # up))"

definition ebt_lookup_le :: "u32 \<Rightarrow> 'n eb_top \<Rightarrow> 'n eb32_node option" where
  "ebt_lookup_le x root = Option.bind (b_left root) (\<lambda>t. eb32_find_le x t [])"

section \<open>Bits\<close>

text \<open>Two keys have the same bits above bit \<open>b\<close>.\<close>

definition eb_prefix :: "nat \<Rightarrow> u32 \<Rightarrow> u32 \<Rightarrow> bool" where
  "eb_prefix b x y \<longleftrightarrow> drop_bit (Suc b) x = drop_bit (Suc b) y"

lemma eb_prefix_bits: "eb_prefix b x y \<longleftrightarrow> (\<forall>i > b. bit x i = bit y i)"
proof
  assume e: "eb_prefix b x y"
  show "\<forall>i > b. bit x i = bit y i"
  proof (intro allI impI)
    fix i assume "b < i"
    then have "bit (drop_bit (Suc b) z) (i - Suc b) = bit z i" for z :: u32 by (simp add: bit_drop_bit_eq)
    then show "bit x i = bit y i" using e unfolding eb_prefix_def by metis
  qed
next
  assume "\<forall>i > b. bit x i = bit y i"
  then show "eb_prefix b x y" unfolding eb_prefix_def by (intro bit_word_eqI) (simp add: bit_drop_bit_eq)
qed

lemma eb_prefix_refl [simp]: "eb_prefix b x x"
  by (simp add: eb_prefix_def)

lemma eb_prefix_sym: "eb_prefix b x y \<Longrightarrow> eb_prefix b y x"
  by (simp add: eb_prefix_def)

lemma eb_prefix_trans: "eb_prefix b x y \<Longrightarrow> eb_prefix b y z \<Longrightarrow> eb_prefix b x z"
  by (simp add: eb_prefix_def)

lemma eb_prefix_mono: "eb_prefix b x y \<Longrightarrow> b \<le> c \<Longrightarrow> eb_prefix c x y"
  by (simp add: eb_prefix_bits)

lemma word_ge_2: "2 \<le> z \<longleftrightarrow> drop_bit 1 z \<noteq> 0" for z :: u32
proof -
  have "unat (2 :: u32) = 2" by simp
  then show ?thesis
    by (simp add: word_le_nat_alt drop_bit_eq_div unat_eq_0 [symmetric] unat_div div_eq_0_iff del: unat_eq_0) linarith
qed

text \<open>The tests of the descents.\<close>

lemma xor_zero_iff: "u XOR v = 0 \<longleftrightarrow> u = v" for u v :: u32
  by (metis xor.right_neutral xor.assoc xor_self_eq xor.left_neutral)

lemma eb_stop_iff:
  fixes x y :: u32
  shows "2 \<le> drop_bit b (x XOR y) \<longleftrightarrow> \<not> eb_prefix b x y" "2 \<le> drop_bit b x XOR drop_bit b y \<longleftrightarrow> \<not> eb_prefix b x y"
proof -
  have "drop_bit 1 (drop_bit b (x XOR y)) = drop_bit (Suc b) x XOR drop_bit (Suc b) y"
    by (rule bit_word_eqI) (simp add: bit_simps)
  then show "2 \<le> drop_bit b (x XOR y) \<longleftrightarrow> \<not> eb_prefix b x y" by (simp add: word_ge_2 eb_prefix_def xor_zero_iff)
  then show "2 \<le> drop_bit b x XOR drop_bit b y \<longleftrightarrow> \<not> eb_prefix b x y" by simp
qed

lemma eb_side_iff: "drop_bit b x AND 1 = 0 \<longleftrightarrow> \<not> bit x b" for x :: u32
  by (simp add: and_one_eq bit_iff_odd_drop_bit mod2_eq_if)

lemma unat_drop_bit_div: "unat (drop_bit k x) = unat x div 2 ^ k" for x :: u32
  unfolding unat_drop_bit_eq by (rule drop_bit_eq_div)

lemma drop_bit_mono: "x \<le> y \<Longrightarrow> drop_bit k x \<le> drop_bit k y" for x y :: u32
  by (simp add: word_le_nat_alt unat_drop_bit_div div_le_mono)

lemma half_parity:
  fixes u v :: nat
  assumes "u div 2 = v div 2"
  shows "odd u = odd v \<Longrightarrow> u = v" "even u \<Longrightarrow> odd v \<Longrightarrow> v = Suc u"
  using assms by presburger+

lemma bit_less:
  fixes x y :: u32
  assumes "eb_prefix b x y" and "\<not> bit x b" and "bit y b"
  shows "x < y"
proof (rule ccontr)
  assume "\<not> x < y"
  then have "drop_bit b y \<le> drop_bit b x" by (intro drop_bit_mono) simp
  then have "unat y div 2 ^ b \<le> unat x div 2 ^ b"
    by (simp add: word_le_nat_alt unat_drop_bit_div)
  moreover have "unat x div 2 ^ b div 2 = unat y div 2 ^ b div 2"
    using assms(1) by (simp add: eb_prefix_def word_unat_eq_iff unat_drop_bit_div div_mult2_eq mult.commute [of 2])
  moreover have "even (unat x div 2 ^ b)" "odd (unat y div 2 ^ b)"
  proof -
    have "odd (unat z div 2 ^ b) \<longleftrightarrow> bit z b" for z :: u32
      unfolding bit_iff_odd [symmetric] by (simp add: bit_unsigned_iff)
    with assms(2,3) show "even (unat x div 2 ^ b)" "odd (unat y div 2 ^ b)" by blast+
  qed
  ultimately show False using half_parity(2) [of "unat x div 2 ^ b" "unat y div 2 ^ b"] by simp
qed

text \<open>One step of the search for the highest bit \<open>m\<close>: the bits left agree with \<open>m\<close> on the digits
  seen so far.\<close>

definition fls_inv :: "nat \<Rightarrow> nat \<Rightarrow> u32 \<times> nat \<Rightarrow> bool" where
  "fls_inv m k s \<longleftrightarrow> bit (fst s) m \<and> (\<forall>i. bit (fst s) i \<longrightarrow> i \<le> m \<and> i div k = m div k) \<and> snd s = m div k * k"

lemma fls_step_inv:
  assumes inv: "fls_inv m (2 * k) s" and mask: "\<forall>i < 32. bit msk i = odd (i div k)"
  shows "fls_inv m k (fls_step msk k s)"
proof -
  note i = inv [unfolded fls_inv_def]
  have dd: "i div k div 2 = i div (2 * k)" for i by (simp add: div_mult2_eq mult.commute [of 2])
  have same: "i \<le> m" "i div k div 2 = m div k div 2" if "bit (fst s) i" for i
    unfolding dd using i that by blast+
  have two: "m div (2 * k) * (2 * k) = 2 * (m div k div 2) * k" unfolding dd by simp
  have bm: "bit (fst s AND msk) i \<longleftrightarrow> bit (fst s) i \<and> odd (i div k)" for i
    using mask [rule_format, of i] bit_imp_le_length [of "fst s" i] by (auto simp: bit_and_iff)
  show ?thesis
  proof (cases "odd (m div k)")
    case True
    then have m: "bit (fst s AND msk) m" using i bm by blast
    then have "fst s AND msk \<noteq> 0" by auto
    then have "fls_step msk k s = (fst s AND msk, snd s + k)" by (simp add: fls_step_def)
    moreover have "m div k * k = snd s + k"
    proof -
      have "m div k = Suc (2 * (m div k div 2))" using True by simp
      then show ?thesis using i two by (metis add.commute mult_Suc)
    qed
    moreover have "i \<le> m \<and> i div k = m div k" if "bit (fst s AND msk) i" for i
      using that [unfolded bm] half_parity(1) [OF same(2)] same(1) True by blast
    ultimately show ?thesis using m unfolding fls_inv_def by (metis fst_conv snd_conv)
  next
    case False
    have none: "even (i div k)" if "bit (fst s) i" for i
    proof (rule ccontr)
      assume "odd (i div k)"
      then have "i div k = Suc (m div k)" using half_parity(2) [OF same(2) [OF that, symmetric]] False by blast
      moreover have "i div k \<le> m div k" using same(1) [OF that] by (rule div_le_mono)
      ultimately show False by simp
    qed
    have "fst s AND msk = 0" by (rule bit_word_eqI) (use none in \<open>auto simp: bm\<close>)
    then have "fls_step msk k s = s" by (simp add: fls_step_def)
    moreover have "i \<le> m \<and> i div k = m div k" if "bit (fst s) i" for i
      using that half_parity(1) [OF same(2)] same(1) False none [of i] by blast
    moreover have "m div k * k = snd s" using False i two by (metis dvd_mult_div_cancel)
    ultimately show ?thesis using i unfolding fls_inv_def by metis
  qed
qed

lemma all_below_32: "(\<forall>i < 32. P i) \<longleftrightarrow> list_all P [0..<32]"
  by (auto simp: list_all_iff)

lemma fls_masks:
  "\<forall>i < 32. bit (0xffff0000 :: u32) i = odd (i div 16)" "\<forall>i < 32. bit (0xff00ff00 :: u32) i = odd (i div 8)"
  "\<forall>i < 32. bit (0xf0f0f0f0 :: u32) i = odd (i div 4)" "\<forall>i < 32. bit (0xcccccccc :: u32) i = odd (i div 2)"
  "\<forall>i < 32. bit (0xaaaaaaaa :: u32) i = odd (i div 1)"
  unfolding all_below_32 by (simp_all add: upt_rec)

lemma flsnz_highest:
  assumes "x \<noteq> 0"
  shows "bit x (flsnz x - 1)" "\<forall>i \<ge> flsnz x. \<not> bit x i" "0 < flsnz x" "flsnz x \<le> 32"
proof -
  define m where "m = Max {i. bit x i}"
  have fin: "finite {i. bit x i}" by (rule finite_subset [of _ "{..<32}"]) (use bit_imp_le_length [of x] in auto)
  have "{i. bit x i} \<noteq> {}" using assms by (metis (mono_tags) bit_eqI bit_0_eq bot_apply bot_bool_def empty_Collect_eq)
  then have m: "bit x m" using Max_in [OF fin] by (simp add: m_def)
  have le: "i \<le> m" if "bit x i" for i using Max_ge [OF fin] that by (simp add: m_def)
  have m32: "m < 32" using m bit_imp_le_length [of x m] by simp
  have "fls_inv m 32 (x, 0)" using m le m32 by (auto simp: fls_inv_def intro!: div_less dest: le_less_trans)
  then have "fls_inv m 1 (fls_step 0xaaaaaaaa 1 (fls_step 0xcccccccc 2 (fls_step 0xf0f0f0f0 4
      (fls_step 0xff00ff00 8 (fls_step 0xffff0000 16 (x, 0))))))"
    using fls_step_inv [OF _ fls_masks(1)] fls_step_inv [OF _ fls_masks(2)] fls_step_inv [OF _ fls_masks(3)]
      fls_step_inv [OF _ fls_masks(4)] fls_step_inv [OF _ fls_masks(5)] by simp
  then have f: "flsnz x = Suc m" by (simp add: flsnz_def Let_def fls_inv_def)
  show "bit x (flsnz x - 1)" "\<forall>i \<ge> flsnz x. \<not> bit x i" "0 < flsnz x" "flsnz x \<le> 32"
    using m le m32 f by (auto simp: not_less_eq_eq dest: le)
qed

text \<open>The bit of a new node: the keys have the same bits above it and differ there.\<close>

lemma eb_new_bit:
  assumes "x \<noteq> y"
  shows "eb_prefix (flsnz (x XOR y) - 1) x y" "bit x (flsnz (x XOR y) - 1) \<noteq> bit y (flsnz (x XOR y) - 1)"
    "flsnz (x XOR y) - 1 < 32" "0 < flsnz (x XOR y)"
proof -
  have "x XOR y \<noteq> 0" using assms by (simp add: xor_zero_iff)
  note f = flsnz_highest [OF this]
  from f show "eb_prefix (flsnz (x XOR y) - 1) x y" "bit x (flsnz (x XOR y) - 1) \<noteq> bit y (flsnz (x XOR y) - 1)"
    "flsnz (x XOR y) - 1 < 32" "0 < flsnz (x XOR y)"
    by (auto simp: eb_prefix_bits bit_xor_iff)
qed

end
