(* ===== verification/Eb32_Refine.thy ===== *)
theory Eb32_Refine
  imports Eb32_Tree "HOL-Library.Multiset"
begin

text \<open>
  The elastic binary trees implement the ordered sequences of \<^theory_text>\<open>Eb32_Spec\<close>, which the balancing
  code is modelled on: the leaves from left to right are in ascending key order, equal keys in the order
  of insertion, and every operation has on the leaves the effect of its counterpart there.
\<close>

section \<open>The invariant\<close>

definition eb_dup_child :: "int \<Rightarrow> 'n eb_troot \<Rightarrow> bool" where
  "eb_dup_child b t \<longleftrightarrow> eb_is_leaf t \<or> (b < eb_bit t \<and> eb_bit t < 0)"

definition eb_keys_eq :: "u32 \<Rightarrow> 'n eb_troot \<Rightarrow> bool" where
  "eb_keys_eq k t \<longleftrightarrow> (\<forall>x \<in> set (eb_leaves t). fst x = k)"

lemma eb_keys_eq_simps [simp]:
  "eb_keys_eq k (EB_LEAF e) \<longleftrightarrow> fst e = k" "eb_keys_eq k (EB_NODE b e l r) \<longleftrightarrow> eb_keys_eq k l \<and> eb_keys_eq k r"
  by (auto simp: eb_keys_eq_def)

lemma eb_keys_eqD: "eb_keys_eq k t \<Longrightarrow> x \<in> set (eb_leaves t) \<Longrightarrow> fst x = k"
  by (simp add: eb_keys_eq_def)

text \<open>The keys below a node with bit \<open>b\<close> have the bits above \<open>b\<close> of its owner, and bit \<open>b\<close> tells the
  side. Below a node of duplicates all keys are equal, bits increase on the way down, and the owner is
  the first leaf on the right.\<close>

fun eb_wf :: "'n eb_troot \<Rightarrow> bool" where
  "eb_wf (EB_LEAF e) = True"
| "eb_wf (EB_NODE b e l r) =
     (eb_wf l \<and> eb_wf r \<and>
      (if b < 0
       then eb_keys_eq (fst e) l \<and> eb_keys_eq (fst e) r \<and> e = hd (eb_leaves r) \<and>
         eb_dup_child b l \<and> eb_dup_child b r
       else b < 32 \<and> e \<in> set (eb_leaves l) \<union> set (eb_leaves r) \<and>
         (\<forall>x \<in> set (eb_leaves l) \<union> set (eb_leaves r). eb_prefix (nat b) (fst e) (fst x)) \<and>
         (\<forall>x \<in> set (eb_leaves l). \<not> bit (fst x) (nat b)) \<and> (\<forall>x \<in> set (eb_leaves r). bit (fst x) (nat b))))"

fun eb_owners :: "'n eb_troot \<Rightarrow> 'n list" where
  "eb_owners (EB_LEAF e) = []"
| "eb_owners (EB_NODE b e l r) = snd e # eb_owners l @ eb_owners r"

definition eb_abs :: "'n eb_top \<Rightarrow> 'n eb_root" where
  "eb_abs root = (case b_left root of None \<Rightarrow> [] | Some t \<Rightarrow> eb_leaves t)"

text \<open>No object is linked twice, neither its leaf nor its node part.\<close>

definition eb_inv :: "'n eb_top \<Rightarrow> bool" where
  "eb_inv root = (case b_left root of None \<Rightarrow> True
     | Some t \<Rightarrow> eb_wf t \<and> distinct (map snd (eb_leaves t)) \<and> distinct (eb_owners t))"

lemma eb_leaves_nonempty [simp]: "eb_leaves t \<noteq> []"
  by (induction t) simp_all

lemma eb_walk_down_leaves: "eb_walk_down t False = hd (eb_leaves t)" "eb_walk_down t True = last (eb_leaves t)"
  by (induction t) simp_all

lemma eb_wf_sorted: "eb_wf t \<Longrightarrow> sorted (map fst (eb_leaves t))"
proof (induction t)
  case (EB_NODE b e l r)
  have "fst x \<le> fst y" if "x \<in> set (eb_leaves l)" "y \<in> set (eb_leaves r)" for x y
  proof (cases "b < 0")
    case False
    then have "eb_prefix (nat b) (fst x) (fst y)"
      using EB_NODE.prems that by (auto intro: eb_prefix_trans [OF eb_prefix_sym])
    from bit_less [OF this] False show ?thesis using EB_NODE.prems that by (auto intro: less_imp_le)
  qed (use EB_NODE.prems that eb_keys_eqD [of "fst e" l x] eb_keys_eqD [of "fst e" r y] in auto)
  with EB_NODE show ?case by (auto simp: sorted_append)
qed simp

lemma eb_inv_ordered: "eb_inv root \<Longrightarrow> eb_ordered (eb_abs root)"
  by (auto simp: eb_inv_def eb_abs_def eb_ordered_def eb_nodes_def eb_wf_sorted split: option.splits)

section \<open>Insertion into the sequence\<close>

lemma eb32_insert_append_left: "(\<forall>e \<in> set ys. k < fst e) \<Longrightarrow> eb32_insert k n (xs @ ys) = eb32_insert k n xs @ ys"
  by (induction xs) (cases ys; auto)+

lemma eb32_insert_append_right: "(\<forall>e \<in> set xs. fst e \<le> k) \<Longrightarrow> eb32_insert k n (xs @ ys) = xs @ eb32_insert k n ys"
  by (induction xs) auto

lemma eb32_insert_last: "(\<forall>e \<in> set xs. fst e \<le> k) \<Longrightarrow> eb32_insert k n xs = xs @ [(k, n)]"
  using eb32_insert_append_right [of xs k n "[]"] by simp

lemma eb32_insert_first: "(\<forall>e \<in> set xs. k < fst e) \<Longrightarrow> eb32_insert k n xs = (k, n) # xs"
  using eb32_insert_append_left [of xs k n "[]"] by simp

section \<open>Trees of duplicates\<close>

text \<open>What an insertion at the end of a tree of duplicates gives.\<close>

definition eb_dup_added :: "'n eb32_node \<Rightarrow> 'n eb_troot \<Rightarrow> 'n eb_troot \<Rightarrow> bool" where
  "eb_dup_added new t t' \<longleftrightarrow> eb_wf t' \<and> \<not> eb_is_leaf t' \<and> eb_bit t' < 0 \<and> eb_leaves t' = eb_leaves t @ [new] \<and> eb_keys_eq (fst new) t' \<and>
     mset (eb_owners t') = add_mset (snd new) (mset (eb_owners t))"

lemma eb_dup_added_right:
  assumes "eb_wf (EB_NODE b e l r)" and "b < 0" and "fst e = fst new" and "eb_dup_added new r r'" and "b < eb_bit r'"
  shows "eb_dup_added new (EB_NODE b e l r) (EB_NODE b e l r')"
  using assms by (auto simp: eb_dup_added_def eb_dup_child_def)

lemma eb_dup_added_above:
  assumes "eb_wf t" and "eb_keys_eq (fst new) t" and "b < 0" and "eb_dup_child b t"
  shows "eb_dup_added new t (EB_NODE b new t (EB_LEAF new))"
  using assms by (auto simp: eb_dup_added_def eb_dup_child_def)

lemma eb_wf_dup_subtree:
  assumes "eb_wf (EB_NODE b e l r)" and "b < 0" and "\<not> eb_is_leaf r"
  shows "eb_wf r" "b < eb_bit r" "eb_bit r < 0" "eb_keys_eq (fst e) r"
  using assms by (auto simp: eb_dup_child_def)

lemma eb_wf_owner: "eb_wf (EB_NODE b e l r) \<Longrightarrow> e \<in> set (eb_leaves l) \<union> set (eb_leaves r)"
  by (auto split: if_splits)

lemma eb_wf_owner_key: "eb_wf (EB_NODE b e l r) \<Longrightarrow> eb_keys_eq k (EB_NODE b e l r) \<Longrightarrow> fst e = k"
  using eb_wf_owner [of b e l r] eb_keys_eqD [of k l e] eb_keys_eqD [of k r e] by auto

lemma eb_dup_walk_sub:
  "eb_dup_walk t d s = (b, h, u) \<Longrightarrow> u = s \<or> d < u"
  by (induction t d s rule: eb_dup_walk.induct) (auto split: if_splits)

lemma eb_dup_walk_leaf:
  assumes "eb_dup_walk t d s = (b, h, u)" and "\<not> eb_is_leaf t" and "eb_wf t" "eb_bit t < 0" "eb_keys_eq (fst new) t" and "b < -1"
  shows "d \<le> h \<and> eb_dup_added new t (eb_at_right (Suc h - d) (\<lambda>leaf. EB_NODE (-1) new leaf (EB_LEAF new)) t) \<and>
    eb_bit (eb_at_right (Suc h - d) (\<lambda>leaf. EB_NODE (-1) new leaf (EB_LEAF new)) t) = eb_bit t"
  using assms
proof (induction t d s rule: eb_dup_walk.induct)
  case (1 b0 e l b' e' l' r' d s)
  let ?r = "EB_NODE b' e' l' r'" and ?f = "\<lambda>leaf. EB_NODE (-1) new leaf (EB_LEAF new)"
  have k: "fst e = fst new" using 1(4,6) by (rule eb_wf_owner_key)
  have "eb_wf ?r" "b0 < b'" "b' < 0" using 1(4,5) by (auto simp: eb_dup_child_def)
  with 1 have IH: "Suc d \<le> h" "eb_dup_added new ?r (eb_at_right (Suc h - Suc d) ?f ?r)"
      "eb_bit (eb_at_right (Suc h - Suc d) ?f ?r) = b'" by auto
  have n: "Suc h - d = Suc (Suc h - Suc d)" using IH(1) by simp
  show ?case
    unfolding n eb_at_right.simps
    using IH eb_dup_added_right [OF 1(4) _ k IH(2)] 1(5) \<open>b0 < b'\<close> by simp
next
  case (2 b0 e l x d s)
  have k: "fst e = fst new" using 2(3,5) by (rule eb_wf_owner_key)
  have "eb_dup_added new (EB_LEAF x) (EB_NODE (-1) new (EB_LEAF x) (EB_LEAF new))"
    using 2(5) by (intro eb_dup_added_above) (auto simp: eb_dup_child_def)
  moreover have "h = d" "b0 < -1" using 2(1,6) by simp_all
  ultimately show ?case using eb_dup_added_right [OF 2(3) _ k] by simp
qed simp

lemma eb_dup_walk_above:
  assumes "eb_dup_walk t d s = (b, h, u)" and "\<not> eb_is_leaf t" and "eb_wf t" "eb_bit t < 0" "eb_keys_eq (fst new) t"
    and "s \<le> d" and "d < u"
  shows "eb_dup_added new t (eb_at_right (u - d) (\<lambda>sub. EB_NODE (eb_bit sub - 1) new sub (EB_LEAF new)) t) \<and>
    eb_bit (eb_at_right (u - d) (\<lambda>sub. EB_NODE (eb_bit sub - 1) new sub (EB_LEAF new)) t) = eb_bit t"
  using assms
proof (induction t d s rule: eb_dup_walk.induct)
  case (1 b0 e l b' e' l' r' d s)
  let ?r = "EB_NODE b' e' l' r'" and ?f = "\<lambda>sub. EB_NODE (eb_bit sub - 1) new sub (EB_LEAF new)"
  let ?s = "if b0 + 1 < b' then Suc d else s"
  have k: "fst e = fst new" using 1(4,6) by (rule eb_wf_owner_key)
  have r: "eb_wf ?r" "b0 < b'" "b' < 0" "eb_keys_eq (fst new) ?r" using 1(4,5,6) by (auto simp: eb_dup_child_def)
  have w: "eb_dup_walk ?r (Suc d) ?s = (b, h, u)" using 1(2) by simp
  have n: "u - d = Suc (u - Suc d)" using 1(8) by simp
  show ?case
  proof (cases "Suc d < u")
    case True
    then have IH: "eb_dup_added new ?r (eb_at_right (u - Suc d) ?f ?r)" "eb_bit (eb_at_right (u - Suc d) ?f ?r) = b'"
      using 1(1) [OF w] r 1(7) by auto
    show ?thesis
      unfolding n eb_at_right.simps using IH(2) eb_dup_added_right [OF 1(4) _ k IH(1)] 1(5) r(2) by simp
  next
    case False
    then have "u = Suc d" using 1(8) by simp
    then have hole: "b0 + 1 < b'" using eb_dup_walk_sub [OF w] 1(7) by (auto split: if_splits)
    have "eb_dup_added new ?r (EB_NODE (b' - 1) new ?r (EB_LEAF new))"
      using r by (intro eb_dup_added_above) (auto simp: eb_dup_child_def)
    from eb_dup_added_right [OF 1(4) _ k this] hole 1(5) show ?thesis
      unfolding n using \<open>u = Suc d\<close> by simp
  qed
qed simp_all

lemma ebt_insert_dup_added:
  assumes "\<not> eb_is_leaf t" and "eb_wf t" and "eb_bit t < 0" and "eb_keys_eq (fst new) t"
  shows "eb_dup_added new t (ebt_insert_dup t new)"
proof -
  obtain b h u where w: "eb_dup_walk t 0 0 = (b, h, u)" by (metis prod_cases3)
  show ?thesis
  proof (cases "b < -1")
    case True
    then show ?thesis using eb_dup_walk_leaf [OF w assms True] by (simp add: ebt_insert_dup_def w)
  next
    case False
    have "eb_dup_added new t (eb_at_right u (\<lambda>sub. EB_NODE (eb_bit sub - 1) new sub (EB_LEAF new)) t)"
    proof (cases "u = 0")
      case True
      have "eb_dup_added new t (EB_NODE (eb_bit t - 1) new t (EB_LEAF new))"
        using assms by (intro eb_dup_added_above) (auto simp: eb_dup_child_def)
      with True show ?thesis by simp
    qed (use eb_dup_walk_above [OF w assms] in simp)
    with False show ?thesis by (simp add: ebt_insert_dup_def w)
  qed
qed

section \<open>Insertion\<close>

definition eb_added :: "'n eb32_node \<Rightarrow> 'n eb_troot \<Rightarrow> 'n eb_troot \<Rightarrow> bool" where
  "eb_added new t t' \<longleftrightarrow> eb_wf t' \<and> eb_leaves t' = eb32_insert (fst new) (snd new) (eb_leaves t) \<and>
     mset (eb_owners t') = add_mset (snd new) (mset (eb_owners t))"

text \<open>Where the descent stops, all leaves below agree with the owner from the highest differing bit on.\<close>

lemma eb_stop_agree:
  assumes "eb_wf t" and "fst new \<noteq> fst old" and "x \<in> set (eb_leaves t)"
    and "t = EB_LEAF old \<or> (\<exists>b l r. t = EB_NODE b old l r \<and> (b < 0 \<or> \<not> eb_prefix (nat b) (fst new) (fst old)))"
  defines "m \<equiv> flsnz (fst new XOR fst old) - 1"
  shows "eb_prefix m (fst new) (fst x)" "bit (fst x) m = bit (fst old) m"
proof -
  note m = eb_new_bit [OF assms(2), folded m_def]
  have above: "bit (fst x) i = bit (fst old) i" if "m \<le> i" for i
    using assms(4)
  proof
    assume "t = EB_LEAF old"
    then show ?thesis using assms(3) by simp
  next
    assume "\<exists>b l r. t = EB_NODE b old l r \<and> (b < 0 \<or> \<not> eb_prefix (nat b) (fst new) (fst old))"
    then obtain b l r where t: "t = EB_NODE b old l r" and b: "b < 0 \<or> \<not> eb_prefix (nat b) (fst new) (fst old)" by blast
    show ?thesis
    proof (cases "b < 0")
      case True
      then show ?thesis using assms(1,3) t eb_keys_eqD [of "fst old" l x] eb_keys_eqD [of "fst old" r x] by auto
    next
      case False
      then have "nat b < m" using b m(1) eb_prefix_mono [of m "fst new" "fst old" "nat b"] by force
      moreover have "eb_prefix (nat b) (fst old) (fst x)" using assms(1,3) t False by auto
      ultimately show ?thesis using that by (simp add: eb_prefix_bits)
    qed
  qed
  then show "eb_prefix m (fst new) (fst x)" "bit (fst x) m = bit (fst old) m"
    using m(1) by (simp_all add: eb_prefix_bits)
qed

lemma eb_attach_differing:
  assumes "eb_wf t" and "fst new \<noteq> fst old"
    and "t = EB_LEAF old \<or> (\<exists>b l r. t = EB_NODE b old l r \<and> (b < 0 \<or> \<not> eb_prefix (nat b) (fst new) (fst old)))"
  shows "snd (eb32_attach u new t old) = new \<and> eb_added new t (fst (eb32_attach u new t old))"
proof -
  define m where "m = flsnz (fst new XOR fst old) - 1"
  note mb = eb_new_bit [OF assms(2), folded m_def]
  have im: "int (flsnz (fst new XOR fst old)) - 1 = int m" using mb(4) by (simp add: m_def)
  note agree = eb_stop_agree [OF assms(1,2) _ assms(3), folded m_def]
  show ?thesis
  proof (cases "fst old \<le> fst new")
    case True
    then have "\<not> bit (fst old) m" "bit (fst new) m" using bit_less [OF mb(1)] mb(2) by (auto simp: not_less [symmetric])
    then have b: "\<forall>x \<in> set (eb_leaves t). eb_prefix m (fst new) (fst x) \<and> \<not> bit (fst x) m \<and> fst x < fst new"
      using agree bit_less [OF eb_prefix_sym [OF agree(1)]] by blast
    then have "eb_leaves t @ [new] = eb32_insert (fst new) (snd new) (eb_leaves t)"
      by (subst eb32_insert_last) (auto intro: less_imp_le)
    then show ?thesis
      using True assms(1,2) b \<open>bit (fst new) m\<close> mb(3) by (simp add: eb32_attach_def im eb_added_def)
  next
    case False
    then have "bit (fst old) m" "\<not> bit (fst new) m" using bit_less [OF eb_prefix_sym [OF mb(1)]] mb(2) by auto
    then have b: "\<forall>x \<in> set (eb_leaves t). eb_prefix m (fst new) (fst x) \<and> bit (fst x) m \<and> fst new < fst x"
      using agree bit_less [OF agree(1)] by blast
    then have "new # eb_leaves t = eb32_insert (fst new) (snd new) (eb_leaves t)"
      by (subst eb32_insert_first) auto
    then show ?thesis
      using False assms(1,2) b \<open>\<not> bit (fst new) m\<close> mb(3) by (simp add: eb32_attach_def im eb_added_def)
  qed
qed

lemma eb_attach_equal:
  assumes "eb_wf t" and "fst new = fst old" and "t = EB_LEAF old \<or> (\<exists>b l r. t = EB_NODE b old l r \<and> b < 0)"
  shows "snd (eb32_attach False new t old) = new \<and> eb_added new t (fst (eb32_attach False new t old))"
    and "eb32_attach True new t old = (t, old)" and "eb_keys_eq (fst new) t" and "old \<in> set (eb_leaves t)"
proof -
  show eq: "eb_keys_eq (fst new) t" and "old \<in> set (eb_leaves t)" using assms by (auto split: if_splits)
  show "eb32_attach True new t old = (t, old)" using assms(2) by (simp add: eb32_attach_def)
  have ins: "eb32_insert (fst new) (snd new) (eb_leaves t) = eb_leaves t @ [new]"
    using eb_keys_eqD [OF eq] by (subst eb32_insert_last) auto
  show "snd (eb32_attach False new t old) = new \<and> eb_added new t (fst (eb32_attach False new t old))"
  proof (cases "eb_is_leaf t")
    case True
    then show ?thesis using assms ins by (auto simp: eb32_attach_def eb_added_def eb_dup_child_def)
  next
    case False
    then have "eb_bit t < 0" using assms(3) by auto
    from ebt_insert_dup_added [OF False assms(1) this eq] False show ?thesis
      using assms(2) ins by (simp add: eb32_attach_def eb_added_def eb_dup_added_def)
  qed
qed

text \<open>Below an inner node the key goes to the side of its bit.\<close>

lemma eb_wf_split:
  assumes "eb_wf (EB_NODE b e l r)" and "0 \<le> b"
  shows "\<And>x. x \<in> set (eb_leaves l) \<Longrightarrow> eb_prefix (nat b) (fst e) (fst x) \<and> \<not> bit (fst x) (nat b)"
    and "\<And>x. x \<in> set (eb_leaves r) \<Longrightarrow> eb_prefix (nat b) (fst e) (fst x) \<and> bit (fst x) (nat b)"
    and "\<And>x k. eb_prefix (nat b) k (fst e) \<Longrightarrow> \<not> bit k (nat b) \<Longrightarrow> x \<in> set (eb_leaves r) \<Longrightarrow> k < fst x"
    and "\<And>x k. eb_prefix (nat b) k (fst e) \<Longrightarrow> bit k (nat b) \<Longrightarrow> x \<in> set (eb_leaves l) \<Longrightarrow> fst x < k"
proof -
  show l: "\<And>x. x \<in> set (eb_leaves l) \<Longrightarrow> eb_prefix (nat b) (fst e) (fst x) \<and> \<not> bit (fst x) (nat b)"
    and r: "\<And>x. x \<in> set (eb_leaves r) \<Longrightarrow> eb_prefix (nat b) (fst e) (fst x) \<and> bit (fst x) (nat b)"
    using assms by auto
  show "\<And>x k. eb_prefix (nat b) k (fst e) \<Longrightarrow> \<not> bit k (nat b) \<Longrightarrow> x \<in> set (eb_leaves r) \<Longrightarrow> k < fst x"
    using r bit_less eb_prefix_trans by blast
  show "\<And>x k. eb_prefix (nat b) k (fst e) \<Longrightarrow> bit k (nat b) \<Longrightarrow> x \<in> set (eb_leaves l) \<Longrightarrow> fst x < k"
    using l bit_less eb_prefix_trans eb_prefix_sym by blast
qed

lemma eb_added_left:
  assumes "eb_wf (EB_NODE b e l r)" and "0 \<le> b" and "eb_prefix (nat b) (fst new) (fst e)" and "\<not> bit (fst new) (nat b)"
    and "eb_added new l l'"
  shows "eb_added new (EB_NODE b e l r) (EB_NODE b e l' r)"
proof -
  have "eb32_insert (fst new) (snd new) (eb_leaves l @ eb_leaves r) = eb_leaves l' @ eb_leaves r"
    using eb32_insert_append_left [of "eb_leaves r" "fst new" "snd new" "eb_leaves l"] eb_wf_split(3) [OF assms(1-4)] assms(5)
    by (simp add: eb_added_def)
  then show ?thesis using assms by (auto simp: eb_added_def eb_prefix_sym)
qed

lemma eb_added_right:
  assumes "eb_wf (EB_NODE b e l r)" and "0 \<le> b" and "eb_prefix (nat b) (fst new) (fst e)" and "bit (fst new) (nat b)"
    and "eb_added new r r'"
  shows "eb_added new (EB_NODE b e l r) (EB_NODE b e l r')"
proof -
  have "eb32_insert (fst new) (snd new) (eb_leaves l @ eb_leaves r) = eb_leaves l @ eb_leaves r'"
    using eb32_insert_append_right [of "eb_leaves l" "fst new" "snd new" "eb_leaves r"] eb_wf_split(4) [OF assms(1-4)] assms(5)
    by (simp add: eb_added_def less_imp_le)
  then show ?thesis using assms by (auto simp: eb_added_def eb_prefix_sym)
qed

lemma eb32_descend_added:
  assumes "eb_wf t"
  shows "if u \<and> fst new \<in> fst ` set (eb_leaves t)
    then fst (eb32_descend u new t) = t \<and> snd (eb32_descend u new t) \<in> set (eb_leaves t) \<and> fst (snd (eb32_descend u new t)) = fst new
    else snd (eb32_descend u new t) = new \<and> eb_added new t (fst (eb32_descend u new t))"
  using assms
proof (induction t)
  case (EB_LEAF old)
  show ?case
  proof (cases "fst new = fst old")
    case True
    then show ?thesis using eb_attach_equal [OF EB_LEAF True] by (cases u) simp_all
  next
    case False
    then show ?thesis using eb_attach_differing [OF EB_LEAF False] by simp
  qed
next
  case (EB_NODE b old l r)
  let ?t = "EB_NODE b old l r"
  show ?case
  proof (cases "b < 0 \<or> \<not> eb_prefix (nat b) (fst new) (fst old)")
    case stop: True
    then have d: "eb32_descend u new ?t = eb32_attach u new ?t old" by (simp add: eb_stop_iff)
    show ?thesis
    proof (cases "fst new = fst old")
      case True
      then have "b < 0" using stop by simp
      then show ?thesis
        using eb_attach_equal [OF EB_NODE.prems True] True unfolding d by (cases u) (auto simp del: eb_wf.simps intro: rev_image_eqI)
    next
      case False
      have "fst new \<noteq> fst x" if "x \<in> set (eb_leaves ?t)" for x
        using eb_stop_agree(2) [OF EB_NODE.prems False that] eb_new_bit(2) [OF False] stop by metis
      then have "fst new \<notin> fst ` set (eb_leaves ?t)" by blast
      then show ?thesis using eb_attach_differing [OF EB_NODE.prems False, of u] stop unfolding d by simp
    qed
  next
    case False
    then have b: "0 \<le> b" "eb_prefix (nat b) (fst new) (fst old)" by simp_all
    note sp = eb_wf_split [OF EB_NODE.prems b(1)]
    have wf: "eb_wf l" "eb_wf r" using EB_NODE.prems by simp_all
    show ?thesis
    proof (cases "bit (fst new) (nat b)")
      case True
      have "fst new \<in> fst ` set (eb_leaves ?t) \<longleftrightarrow> fst new \<in> fst ` set (eb_leaves r)" using sp(4) [OF b(2) True] by fastforce
      then show ?thesis
        using EB_NODE.IH(2) [OF wf(2)] eb_added_right [OF EB_NODE.prems b True] False True
        by (auto simp: eb_stop_iff eb_side_iff split_beta simp del: eb_wf.simps split: if_splits)
    next
      case clear: False
      have "fst new \<in> fst ` set (eb_leaves ?t) \<longleftrightarrow> fst new \<in> fst ` set (eb_leaves l)" using sp(3) [OF b(2) clear] by fastforce
      then show ?thesis
        using EB_NODE.IH(1) [OF wf(1)] eb_added_left [OF EB_NODE.prems b clear] False clear
        by (auto simp: eb_stop_iff eb_side_iff split_beta simp del: eb_wf.simps split: if_splits)
    qed
  qed
qed

lemma eb_owners_leaves: "eb_wf t \<Longrightarrow> set (eb_owners t) \<subseteq> snd ` set (eb_leaves t)"
proof (induction t)
  case (EB_NODE b e l r)
  from eb_wf_owner [OF EB_NODE.prems] EB_NODE show ?case by auto
qed simp

lemma ebt_insert_ok:
  assumes inv: "eb_inv root" and new: "n \<notin> set (eb_nodes (eb_abs root))"
  shows "if eb_unique root \<and> k \<in> fst ` set (eb_abs root)
    then fst (ebt_insert (k, n) root) = root \<and> snd (ebt_insert (k, n) root) \<in> set (eb_abs root) \<and> fst (snd (ebt_insert (k, n) root)) = k
    else snd (ebt_insert (k, n) root) = (k, n) \<and> eb_inv (fst (ebt_insert (k, n) root)) \<and>
      eb_abs (fst (ebt_insert (k, n) root)) = eb32_insert k n (eb_abs root)"
proof (cases "b_left root")
  case None
  then show ?thesis by (simp add: ebt_insert_def eb_inv_def eb_abs_def)
next
  case (Some t)
  have t: "eb_wf t" "distinct (map snd (eb_leaves t))" "distinct (eb_owners t)" "n \<notin> snd ` set (eb_leaves t)"
    using inv new Some by (simp_all add: eb_inv_def eb_abs_def set_eb_nodes)
  define t' where "t' = fst (eb32_descend (eb_unique root) (k, n) t)"
  have "distinct (map snd (eb_leaves t')) \<and> distinct (eb_owners t')" if "eb_added (k, n) t t'"
  proof -
    have "mset (eb_owners t') = mset (n # eb_owners t)" and l: "eb_leaves t' = eb32_insert k n (eb_leaves t)"
      using that by (simp_all add: eb_added_def)
    moreover have "distinct (n # eb_owners t)" using t(3,4) eb_owners_leaves [OF t(1)] by auto
    ultimately have "distinct (eb_owners t')" using mset_eq_imp_distinct_iff by blast
    then show ?thesis
      using distinct_eb32_insert [of n "eb_leaves t" k] t(2,4) by (simp add: l eb_nodes_def)
  qed
  with eb32_descend_added [OF t(1), of "eb_unique root" "(k, n)"] Some show ?thesis
    unfolding t'_def
    by (cases "eb_unique root \<and> k \<in> fst ` set (eb_leaves t)") (auto simp: ebt_insert_def split_beta eb_inv_def eb_abs_def eb_added_def)
qed

section \<open>Neighbours\<close>

text \<open>The leaves before and after a position.\<close>

fun eb_up_left :: "'n eb_up \<Rightarrow> 'n eb32_node list" where
  "eb_up_left [] = []"
| "eb_up_left ((side, sib) # up) = eb_up_left up @ (if side then eb_leaves sib else [])"

fun eb_up_right :: "'n eb_up \<Rightarrow> 'n eb32_node list" where
  "eb_up_right [] = []"
| "eb_up_right ((side, sib) # up) = (if side then [] else eb_leaves sib) @ eb_up_right up"

lemma eb32_first_append: "eb32_first (xs @ ys) = (if xs = [] then eb32_first ys else Some (hd xs))"
  by (cases xs) (auto simp: eb32_first_def)

lemma eb32_last_append: "eb32_last (xs @ ys) = (if ys = [] then eb32_last xs else Some (last ys))"
  by (simp add: eb32_last_def)

lemma eb32_first_leaves: "eb32_first (eb_leaves t) = Some (hd (eb_leaves t))"
  using eb32_first_append [of "eb_leaves t" "[]"] by simp

lemma eb_up_next_first: "eb_up_next up = eb32_first (eb_up_right up)"
  by (induction up rule: eb_up_next.induct) (simp_all add: eb32_first_append eb_walk_down_leaves, simp add: eb32_first_def)

lemma eb_up_prev_last: "eb_up_prev up = eb32_last (eb_up_left up)"
  by (induction up rule: eb_up_prev.induct) (simp_all add: eb32_last_append eb_walk_down_leaves, simp add: eb32_last_def)

lemma eb_leaf_p_leaves:
  "case eb_leaf_p n t up of
     None \<Rightarrow> n \<notin> snd ` set (eb_leaves t)
   | Some u \<Rightarrow> \<exists>k. eb_up_left up @ eb_leaves t @ eb_up_right up = eb_up_left u @ (k, n) # eb_up_right u"
proof (induction t arbitrary: up)
  case (EB_LEAF e)
  then show ?case by (cases e) auto
next
  case (EB_NODE b e l r)
  from EB_NODE(1) [of "(False, r) # up"] EB_NODE(2) [of "(True, l) # up"] show ?case
    by (auto split: option.splits)
qed

lemma eb_locate_abs:
  assumes "eb_inv root" and "n \<in> set (eb_nodes (eb_abs root))"
  obtains u k where "eb_locate n root = Some u" "eb_abs root = eb_up_left u @ (k, n) # eb_up_right u"
    "n \<notin> snd ` set (eb_up_left u)"
proof -
  obtain t where t: "b_left root = Some t" using assms(2) by (cases "b_left root") (simp_all add: eb_abs_def eb_nodes_def)
  then obtain u where u: "eb_leaf_p n t [] = Some u"
    using eb_leaf_p_leaves [of n t "[]"] assms(2) by (cases "eb_leaf_p n t []") (auto simp: eb_abs_def set_eb_nodes)
  then obtain k where k: "eb_leaves t = eb_up_left u @ (k, n) # eb_up_right u"
    using eb_leaf_p_leaves [of n t "[]"] by auto
  have "distinct (map snd (eb_leaves t))" using assms(1) t by (simp add: eb_inv_def)
  then have "n \<notin> snd ` set (eb_up_left u)" by (auto simp: k)
  with that u k t show thesis by (simp add: eb_locate_def eb_abs_def)
qed

lemma ebt_walks_ok:
  assumes "eb_inv root"
  shows "ebt_first root = eb32_first (eb_abs root)" "ebt_last root = eb32_last (eb_abs root)"
    "n \<in> set (eb_nodes (eb_abs root)) \<Longrightarrow> ebt_next n root = eb32_next n (eb_abs root)"
    "n \<in> set (eb_nodes (eb_abs root)) \<Longrightarrow> ebt_prev n root = eb32_prev n (eb_abs root)"
proof -
  show "ebt_first root = eb32_first (eb_abs root)"
    by (cases "b_left root") (simp_all add: ebt_first_def eb_abs_def eb_walk_down_leaves eb32_first_leaves eb32_first_def [of "[]"])
  show "ebt_last root = eb32_last (eb_abs root)"
    by (cases "b_left root") (simp_all add: ebt_last_def eb_abs_def eb_walk_down_leaves eb32_last_def)
  assume "n \<in> set (eb_nodes (eb_abs root))"
  with assms obtain u k where u: "eb_locate n root = Some u" and
    abs: "eb_abs root = eb_up_left u @ (k, n) # eb_up_right u" "n \<notin> snd ` set (eb_up_left u)"
    by (rule eb_locate_abs)
  have "\<forall>e \<in> set (eb_up_left u). snd e \<noteq> n" using abs(2) by auto
  then show "ebt_next n root = eb32_next n (eb_abs root)" "ebt_prev n root = eb32_prev n (eb_abs root)"
    using u by (simp_all add: ebt_next_def ebt_prev_def eb_up_next_first eb_up_prev_last abs(1) eb32_next_def eb32_prev_def
        eb32_after_def dropWhile_append takeWhile_append2)
qed

section \<open>Lookups\<close>

lemma eb_prefix_order:
  assumes "\<not> eb_prefix b x y" and "eb_prefix b y z"
  shows "drop_bit b x < drop_bit b y \<Longrightarrow> x < z" "\<not> drop_bit b x < drop_bit b y \<Longrightarrow> z < x"
proof -
  have ne: "drop_bit (Suc b) x \<noteq> drop_bit (Suc b) z" and eq: "drop_bit (Suc b) y = drop_bit (Suc b) z"
    using assms by (simp_all add: eb_prefix_def)
  have up: "drop_bit (Suc b) u \<le> drop_bit (Suc b) v" if "drop_bit b u \<le> drop_bit b v" for u v :: u32
    using drop_bit_mono [OF that, of 1] by simp
  show "x < z" if "drop_bit b x < drop_bit b y"
    using up [of x y] that ne eq drop_bit_mono [of z x "Suc b"] by (metis less_imp_le not_less order.antisym)
  show "z < x" if "\<not> drop_bit b x < drop_bit b y"
    using up [of y x] that ne eq drop_bit_mono [of x z "Suc b"] by (metis not_less order.antisym)
qed

lemma find_all: "(\<forall>e \<in> set xs. P e) \<Longrightarrow> xs \<noteq> [] \<Longrightarrow> find P xs = Some (hd xs)"
  by (cases xs) auto

lemma find_none: "(\<forall>e \<in> set xs. \<not> P e) \<Longrightarrow> find P xs = None"
  by (simp add: find_None_iff)

lemma find_append: "find P (xs @ ys) = (case find P xs of Some e \<Rightarrow> Some e | None \<Rightarrow> find P ys)"
  by (induction xs) auto

text \<open>What the tests of the lookups at an inner node say about the leaves below.\<close>

lemma eb_node_tests:
  assumes "eb_wf (EB_NODE b e l r)"
  shows "b < 0 \<Longrightarrow> y \<in> set (eb_leaves l @ eb_leaves r) \<Longrightarrow> fst y = fst e"
    and "0 \<le> b \<Longrightarrow> \<not> eb_prefix (nat b) x (fst e) \<Longrightarrow> drop_bit (nat b) x < drop_bit (nat b) (fst e) \<Longrightarrow>
      y \<in> set (eb_leaves l @ eb_leaves r) \<Longrightarrow> x < fst y"
    and "0 \<le> b \<Longrightarrow> \<not> eb_prefix (nat b) x (fst e) \<Longrightarrow> \<not> drop_bit (nat b) x < drop_bit (nat b) (fst e) \<Longrightarrow>
      y \<in> set (eb_leaves l @ eb_leaves r) \<Longrightarrow> fst y < x"
proof -
  show "b < 0 \<Longrightarrow> y \<in> set (eb_leaves l @ eb_leaves r) \<Longrightarrow> fst y = fst e"
    using assms eb_keys_eqD by (metis UnE eb_wf.simps(2) set_append)
  have pre: "eb_prefix (nat b) (fst e) (fst y)" if "0 \<le> b" "y \<in> set (eb_leaves l @ eb_leaves r)"
    using that eb_wf_split(1,2) [OF assms that(1), of y] by auto
  show "0 \<le> b \<Longrightarrow> \<not> eb_prefix (nat b) x (fst e) \<Longrightarrow> drop_bit (nat b) x < drop_bit (nat b) (fst e) \<Longrightarrow>
      y \<in> set (eb_leaves l @ eb_leaves r) \<Longrightarrow> x < fst y"
    "0 \<le> b \<Longrightarrow> \<not> eb_prefix (nat b) x (fst e) \<Longrightarrow> \<not> drop_bit (nat b) x < drop_bit (nat b) (fst e) \<Longrightarrow>
      y \<in> set (eb_leaves l @ eb_leaves r) \<Longrightarrow> fst y < x"
    using eb_prefix_order pre by blast+
qed

lemma eb32_find_ge_find:
  assumes "eb_wf t"
  shows "eb32_find_ge x t up = (case find (\<lambda>e. x \<le> fst e) (eb_leaves t) of Some e \<Rightarrow> Some e | None \<Rightarrow> eb_up_next up)"
  using assms
proof (induction t arbitrary: up)
  case (EB_NODE b e l r)
  let ?P = "\<lambda>e. x \<le> fst e" and ?xs = "eb_leaves l @ eb_leaves r"
  note tests = eb_node_tests [OF EB_NODE.prems]
  have all: "find ?P ?xs = Some (hd (eb_leaves l))" if "\<And>y. y \<in> set ?xs \<Longrightarrow> ?P y"
    using that by (subst find_all) simp_all
  have none: "find ?P ?xs = None" if "\<And>y. y \<in> set ?xs \<Longrightarrow> \<not> ?P y"
    using that by (intro find_none) simp
  have wf: "eb_wf l" "eb_wf r" using EB_NODE.prems by simp_all
  consider (dup) "b < 0" | (stop) "0 \<le> b" "\<not> eb_prefix (nat b) x (fst e)" | (go) "0 \<le> b" "eb_prefix (nat b) x (fst e)" by linarith
  then show ?case
  proof cases
    case dup
    then show ?thesis using all none tests(1) by (cases "x \<le> fst e") (simp_all add: eb_walk_down_leaves)
  next
    case stop
    then show ?thesis using all none tests(2,3) [OF stop]
      by (cases "drop_bit (nat b) x < drop_bit (nat b) (fst e)") (simp_all add: eb_stop_iff eb_walk_down_leaves less_imp_le not_le)
  next
    case go
    show ?thesis
    proof (cases "bit x (nat b)")
      case True
      then have "find ?P (eb_leaves l) = None"
        using eb_wf_split(4) [OF EB_NODE.prems go True] by (intro find_none) (simp add: not_le)
      then show ?thesis using EB_NODE.IH(2) [OF wf(2)] go True
        by (simp add: eb_stop_iff eb_side_iff find_append split: option.splits)
    next
      case False
      then have "find ?P (eb_leaves r) = Some (hd (eb_leaves r))"
        using eb_wf_split(3) [OF EB_NODE.prems go False] by (intro find_all) (simp_all add: less_imp_le)
      then show ?thesis using EB_NODE.IH(1) [OF wf(1)] go False
        by (simp add: eb_stop_iff eb_side_iff find_append eb_walk_down_leaves split: option.splits)
    qed
  qed
qed simp

lemma eb32_find_le_find:
  assumes "eb_wf t"
  shows "eb32_find_le x t up = (case find (\<lambda>e. fst e \<le> x) (rev (eb_leaves t)) of Some e \<Rightarrow> Some e | None \<Rightarrow> eb_up_prev up)"
  using assms
proof (induction t arbitrary: up)
  case (EB_NODE b e l r)
  let ?P = "\<lambda>e. fst e \<le> x" and ?xs = "rev (eb_leaves r) @ rev (eb_leaves l)"
  have tests: "b < 0 \<Longrightarrow> y \<in> set ?xs \<Longrightarrow> fst y = fst e"
    "0 \<le> b \<Longrightarrow> \<not> eb_prefix (nat b) x (fst e) \<Longrightarrow> drop_bit (nat b) x < drop_bit (nat b) (fst e) \<Longrightarrow> y \<in> set ?xs \<Longrightarrow> x < fst y"
    "0 \<le> b \<Longrightarrow> \<not> eb_prefix (nat b) x (fst e) \<Longrightarrow> \<not> drop_bit (nat b) x < drop_bit (nat b) (fst e) \<Longrightarrow> y \<in> set ?xs \<Longrightarrow> fst y < x" for y
    using eb_node_tests [OF EB_NODE.prems, where y = y] by auto
  have all: "find ?P ?xs = Some (last (eb_leaves r))" if "\<And>y. y \<in> set ?xs \<Longrightarrow> ?P y"
    using that by (subst find_all) (simp_all add: hd_rev)
  have none: "find ?P ?xs = None" if "\<And>y. y \<in> set ?xs \<Longrightarrow> \<not> ?P y"
    using that by (intro find_none) simp
  have lt: "drop_bit (nat b) (fst e) < drop_bit (nat b) x \<longleftrightarrow> \<not> drop_bit (nat b) x < drop_bit (nat b) (fst e)"
    if "\<not> eb_prefix (nat b) x (fst e)"
  proof -
    have "drop_bit 1 (drop_bit (nat b) x) \<noteq> drop_bit 1 (drop_bit (nat b) (fst e))" using that by (simp add: eb_prefix_def)
    then show ?thesis by (metis linorder_neqE less_asym)
  qed
  have wf: "eb_wf l" "eb_wf r" using EB_NODE.prems by simp_all
  consider (dup) "b < 0" | (stop) "0 \<le> b" "\<not> eb_prefix (nat b) x (fst e)" | (go) "0 \<le> b" "eb_prefix (nat b) x (fst e)" by linarith
  then show ?case
  proof cases
    case dup
    then show ?thesis using all none tests(1) by (cases "fst e \<le> x") (simp_all add: eb_walk_down_leaves)
  next
    case stop
    then show ?thesis using all none tests(2,3) [OF stop] lt [OF stop(2)]
      by (cases "drop_bit (nat b) x < drop_bit (nat b) (fst e)") (simp_all add: eb_stop_iff eb_walk_down_leaves less_imp_le not_le)
  next
    case go
    show ?thesis
    proof (cases "bit x (nat b)")
      case True
      then have "find ?P (rev (eb_leaves l)) = Some (last (eb_leaves l))"
        using eb_wf_split(4) [OF EB_NODE.prems go True] by (subst find_all) (simp_all add: hd_rev less_imp_le)
      then show ?thesis using EB_NODE.IH(2) [OF wf(2)] go True
        by (simp add: eb_stop_iff eb_side_iff find_append eb_walk_down_leaves split: option.splits)
    next
      case False
      then have "find ?P (rev (eb_leaves r)) = None"
        using eb_wf_split(3) [OF EB_NODE.prems go False] by (intro find_none) (simp add: not_le)
      then show ?thesis using EB_NODE.IH(1) [OF wf(1)] go False
        by (simp add: eb_stop_iff eb_side_iff find_append split: option.splits)
    qed
  qed
qed simp

text \<open>An object whose node part is not used in a tree is the first of its key there.\<close>

lemma eb_free_first:
  assumes "eb_wf t" and "e \<in> set (eb_leaves t)" and "snd e \<notin> set (eb_owners t)"
  shows "find (\<lambda>y. fst y = fst e) (eb_leaves t) = Some e"
  using assms
proof (induction t)
  case (EB_NODE b p l r)
  let ?P = "\<lambda>y. fst y = fst e"
  have wf: "eb_wf l" "eb_wf r" and p: "p \<noteq> e" using EB_NODE.prems by auto
  show ?case
  proof (cases "e \<in> set (eb_leaves l)")
    case True
    then show ?thesis using EB_NODE.IH(1) [OF wf(1)] EB_NODE.prems(3) by (simp add: find_append)
  next
    case False
    then have r: "find ?P (eb_leaves r) = Some e" using EB_NODE.IH(2) [OF wf(2)] EB_NODE.prems(2,3) by simp
    show ?thesis
    proof (cases "b < 0")
      case True
      then have "\<forall>y \<in> set (eb_leaves r). ?P y"
        using eb_node_tests(1) [OF EB_NODE.prems(1) True] EB_NODE.prems(2) by (metis Un_iff eb_leaves.simps(2) set_append)
      then have "e = hd (eb_leaves r)" using r find_all [of "eb_leaves r" ?P] by simp
      with True EB_NODE.prems(1) p show ?thesis by simp
    next
      case b: False
      then have "0 \<le> b" by simp
      note sp = eb_wf_split [OF EB_NODE.prems(1) this]
      have "e \<in> set (eb_leaves r)" using False EB_NODE.prems(2) by simp
      then have "\<not> ?P y" if "y \<in> set (eb_leaves l)" for y using sp(1) [OF that] sp(2) by metis
      then show ?thesis using r find_none [of "eb_leaves l" ?P] by (simp add: find_append)
    qed
  qed
qed simp

lemma eb32_find_other: "eb_wf t \<Longrightarrow> eb_keys_eq k t \<Longrightarrow> k \<noteq> x \<Longrightarrow> eb32_find x t = None"
proof (induction t)
  case (EB_NODE b e l r)
  then show ?case using eb_wf_owner_key [OF EB_NODE.prems(1,2)] by (auto simp: Let_def xor_zero_iff)
qed auto

lemma eb32_find_find:
  assumes "eb_wf t" and "distinct (eb_owners t)"
  shows "eb32_find x t = find (\<lambda>e. fst e = x) (eb_leaves t)"
  using assms
proof (induction t)
  case (EB_NODE b e l r)
  let ?P = "\<lambda>e. fst e = x"
  have wf: "eb_wf l" "eb_wf r" "distinct (eb_owners l)" "distinct (eb_owners r)" using EB_NODE.prems by simp_all
  show ?case
  proof (cases "b < 0")
    case True
    note k = eb_node_tests(1) [OF EB_NODE.prems(1) True]
    have eq: "eb_keys_eq (fst e) (EB_NODE b e l r)"
      using EB_NODE.prems(1) True by (metis eb_wf.simps(2) eb_keys_eq_simps(2))
    show ?thesis
    proof (cases "fst e = x")
      case x: True
      then have "\<forall>y \<in> set (eb_leaves l @ eb_leaves r). ?P y" using k by metis
      then have "find ?P (eb_leaves l @ eb_leaves r) = Some (hd (eb_leaves l))" by (subst find_all) simp_all
      then show ?thesis using True x by (simp add: eb_walk_down_leaves)
    next
      case False
      then have "find ?P (eb_leaves l @ eb_leaves r) = None" using k by (intro find_none) metis
      then show ?thesis using eb32_find_other [OF EB_NODE.prems(1) eq False] by simp
    qed
  next
    case b: False
    then have b0: "0 \<le> b" and b32: "b mod 32 = b" using EB_NODE.prems(1) by simp_all
    note sp = eb_wf_split [OF EB_NODE.prems(1) b0]
    consider (here) "fst e = x" | (stop) "fst e \<noteq> x" "\<not> eb_prefix (nat b) x (fst e)" | (go) "fst e \<noteq> x" "eb_prefix (nat b) x (fst e)" by blast
    then show ?thesis
    proof cases
      case here
      have "find ?P (eb_leaves l @ eb_leaves r) = Some e"
      proof (cases "e \<in> set (eb_leaves l)")
        case True
        then show ?thesis using eb_free_first [OF wf(1) True] EB_NODE.prems(2) here by (simp add: find_append)
      next
        case False
        then have r: "e \<in> set (eb_leaves r)" using eb_wf_owner [OF EB_NODE.prems(1)] by simp
        then have "find ?P (eb_leaves l) = None" using sp(1) sp(2) [OF r] here by (intro find_none) metis
        then show ?thesis using eb_free_first [OF wf(2) r] EB_NODE.prems(2) here by (simp add: find_append)
      qed
      then show ?thesis using here b by simp
    next
      case stop
      have "find ?P (eb_leaves l @ eb_leaves r) = None"
      proof (rule find_none, rule ballI)
        fix y assume "y \<in> set (eb_leaves l @ eb_leaves r)"
        then show "\<not> ?P y" using sp(1) [of y] sp(2) [of y] stop(2) eb_prefix_sym by auto
      qed
      moreover have "\<not> eb_prefix (nat b) (fst e) x" using stop(2) eb_prefix_sym by blast
      ultimately show ?thesis using stop(1) b32 by (simp add: Let_def eb_stop_iff xor_zero_iff)
    next
      case go
      have pre: "eb_prefix (nat b) (fst e) x" using go(2) by (rule eb_prefix_sym)
      show ?thesis
      proof (cases "bit x (nat b)")
        case True
        then have "find ?P (eb_leaves l) = None" using sp(4) [OF go(2) True] by (intro find_none) auto
        then show ?thesis using EB_NODE.IH(2) [OF wf(2,4)] go(1) pre b32 True
          by (simp add: Let_def eb_stop_iff eb_side_iff xor_zero_iff find_append)
      next
        case False
        then have "find ?P (eb_leaves r) = None" using sp(3) [OF go(2) False] by (intro find_none) auto
        then show ?thesis using EB_NODE.IH(1) [OF wf(1,3)] go(1) pre b32 False
          by (simp add: Let_def eb_stop_iff eb_side_iff xor_zero_iff find_append split: option.splits)
      qed
    qed
  qed
qed auto

end
