(* ===== verification/Eb32_Ops.thy ===== *)
theory Eb32_Ops
  imports Eb32_Refine
begin

text \<open>
  Deletion from elastic binary trees, the interface of ordered trees that the balancing code uses, and
  its implementation by the trees.
\<close>

section \<open>Deletion\<close>

lemma eb_owners_takeover: "eb_owners (eb_takeover n p t) = map (\<lambda>x. if x = n then snd p else x) (eb_owners t)"
  by (induction t) simp_all

lemma eb_leaves_takeover [simp]: "eb_leaves (eb_takeover n p t) = eb_leaves t" "eb_bit (eb_takeover n p t) = eb_bit t"
    "eb_is_leaf (eb_takeover n p t) = eb_is_leaf t"
  by (induction t) simp_all

lemma eb_takeover_id: "n \<notin> set (eb_owners t) \<Longrightarrow> eb_takeover n p t = t"
  by (induction t) auto

lemma eb_is_leaf_of_iff: "eb_is_leaf_of n t \<longleftrightarrow> (\<exists>k. t = EB_LEAF (k, n))"
  by (cases t) auto

lemma eb_release_none: "\<not> eb_is_leaf_of n t \<Longrightarrow> eb_release n t = None \<longleftrightarrow> n \<notin> snd ` set (eb_leaves t)"
proof (induction t)
  case (EB_NODE b e l r)
  then show ?case
    by (cases "eb_is_leaf_of n l"; cases "eb_is_leaf_of n r") (auto simp: eb_is_leaf_of_iff split: option.splits)
qed auto

text \<open>What the removal of the leaf \<open>n\<close> makes of a tree in which it is not the only leaf.\<close>

definition eb_removed :: "'n \<Rightarrow> 'n eb32_node \<Rightarrow> 'n eb_troot \<Rightarrow> 'n eb_troot \<Rightarrow> bool" where
  "eb_removed n p t t' \<longleftrightarrow> eb_wf (eb_takeover n p t') \<and> eb_leaves t' = eb32_delete n (eb_leaves t) \<and>
     p \<in> set (eb_leaves t) \<and> mset (eb_owners t) = add_mset (snd p) (mset (eb_owners t')) \<and>
     (eb_bit t < 0 \<longrightarrow> eb_is_leaf t' \<or> (eb_bit t \<le> eb_bit t' \<and> eb_bit t' < 0)) \<and>
     (eb_bit t < 0 \<longrightarrow> snd (hd (eb_leaves t)) = n \<longrightarrow> p = hd (eb_leaves t'))"

lemma eb32_delete_append: "eb32_delete n (xs @ ys) = eb32_delete n xs @ eb32_delete n ys"
  by (simp add: eb32_delete_def)

lemma eb32_delete_leaves_notin: "n \<notin> snd ` set (eb_leaves t) \<Longrightarrow> eb32_delete n (eb_leaves t) = eb_leaves t"
  by (simp add: eb32_delete_notin set_eb_nodes)

lemma eb_removed_facts:
  assumes "eb_removed n p t t'"
  shows "set (eb_leaves t') = {x \<in> set (eb_leaves t). snd x \<noteq> n}" "\<not> eb_is_leaf t" "snd p \<in> set (eb_owners t)"
    "p \<in> set (eb_leaves t)" "eb_wf (eb_takeover n p t')" "eb_leaves t' = eb32_delete n (eb_leaves t)"
    "set (eb_owners t') \<subseteq> set (eb_owners t)"
proof -
  have o: "mset (eb_owners t) = add_mset (snd p) (mset (eb_owners t'))" using assms by (simp add: eb_removed_def)
  then show "snd p \<in> set (eb_owners t)" by (metis union_single_eq_member set_mset_mset)
  then show "\<not> eb_is_leaf t" by (cases t) auto
  show "set (eb_leaves t') = {x \<in> set (eb_leaves t). snd x \<noteq> n}" using assms by (auto simp: eb_removed_def eb32_delete_def)
  show "set (eb_owners t') \<subseteq> set (eb_owners t)" using o by (metis set_mset_mset set_mset_add_mset_insert subset_insertI)
  show "p \<in> set (eb_leaves t)" "eb_wf (eb_takeover n p t')" "eb_leaves t' = eb32_delete n (eb_leaves t)"
    using assms by (simp_all add: eb_removed_def)
qed

lemma eb_removed_child:
  assumes "eb_removed n p t t'" and "eb_dup_child b t"
  shows "eb_dup_child b (eb_takeover n p t')"
  using assms eb_removed_facts(2) [OF assms(1)] by (auto simp: eb_removed_def eb_dup_child_def)

lemma eb_keys_eq_subset: "eb_keys_eq k t \<Longrightarrow> set (eb_leaves t') \<subseteq> set (eb_leaves t) \<Longrightarrow> eb_keys_eq k t'"
  by (auto simp: eb_keys_eq_def)

text \<open>The owner of an inner node after the removal of a leaf below it.\<close>

lemma eb_wf_nonneg_rebuild:
  assumes "eb_wf (EB_NODE b e l r)" and "0 \<le> b" and "eb_wf l'" "eb_wf r'"
    and "set (eb_leaves l') \<subseteq> set (eb_leaves l)" "set (eb_leaves r') \<subseteq> set (eb_leaves r)"
    and "e' \<in> set (eb_leaves l') \<union> set (eb_leaves r')"
  shows "eb_wf (EB_NODE b e' l' r')"
proof -
  note sp = eb_wf_split [OF assms(1,2)]
  have pre: "eb_prefix (nat b) (fst e) (fst x)" if "x \<in> set (eb_leaves l') \<union> set (eb_leaves r')" for x
    using that sp(1) [of x] sp(2) [of x] assms(5,6) by blast
  have "eb_prefix (nat b) (fst e') (fst x)" if "x \<in> set (eb_leaves l') \<union> set (eb_leaves r')" for x
    using eb_prefix_trans [OF eb_prefix_sym [OF pre [OF assms(7)]] pre [OF that]] .
  moreover have "b < 32" using assms(1,2) by simp
  moreover have "\<not> bit (fst x) (nat b)" if "x \<in> set (eb_leaves l')" for x using that sp(1) assms(5) by blast
  moreover have "bit (fst x) (nat b)" if "x \<in> set (eb_leaves r')" for x using that sp(2) assms(6) by blast
  ultimately show ?thesis using assms(2,3,4,7) by simp
qed

lemma eb_release_left:
  assumes wf: "eb_wf (EB_NODE b e l r)" and names: "distinct (map snd (eb_leaves l @ eb_leaves r))"
    and owners: "distinct (snd e # eb_owners l @ eb_owners r)" and n: "n \<in> snd ` set (eb_leaves l)" and rem: "eb_removed n p l l'"
  shows "eb_removed n p (EB_NODE b e l r) (EB_NODE b e l' r)"
proof -
  note f = eb_removed_facts [OF rem]
  have nr: "n \<notin> snd ` set (eb_leaves r)" using names n by auto
  then have r: "eb_takeover n p r = r" "eb32_delete n (eb_leaves r) = eb_leaves r"
    using wf eb_owners_leaves [of r] by (auto intro!: eb_takeover_id eb32_delete_leaves_notin)
  have sub: "set (eb_leaves l') \<subseteq> set (eb_leaves l)" using f(1) by auto
  let ?e = "if snd e = n then p else e"
  have "eb_wf (EB_NODE b ?e (eb_takeover n p l') r)"
  proof (cases "b < 0")
    case True
    then have e: "e = hd (eb_leaves r)" "eb_keys_eq (fst e) l" "eb_keys_eq (fst e) r" "eb_dup_child b l" "eb_dup_child b r" "eb_wf r"
      using wf by (metis eb_wf.simps(2))+
    have "e \<in> set (eb_leaves r)" using e(1) by simp
    then have "snd e \<noteq> n" using nr by auto
    moreover have "eb_keys_eq (fst e) (eb_takeover n p l')" using eb_keys_eq_subset [OF e(2)] sub by simp
    ultimately show ?thesis using True e f(5) eb_removed_child [OF rem e(4)] by simp
  next
    case False
    have "?e \<in> set (eb_leaves l') \<union> set (eb_leaves r)"
      using f(1,3,4) owners eb_wf_owner [OF wf] by auto
    then show ?thesis using False f(5) wf sub by (intro eb_wf_nonneg_rebuild [OF wf]) auto
  qed
  moreover have "p = hd (eb_leaves l' @ eb_leaves r)" if "b < 0" "snd (hd (eb_leaves l @ eb_leaves r)) = n"
  proof -
    have "eb_bit l < 0" using wf that(1) f(2) by (simp add: eb_dup_child_def)
    then have "p = hd (eb_leaves l')" using rem that(2) by (simp add: eb_removed_def)
    then show ?thesis by simp
  qed
  ultimately show ?thesis using rem f(4) r unfolding eb_removed_def by (simp add: eb32_delete_append del: eb_wf.simps)
qed

lemma eb_release_right:
  assumes wf: "eb_wf (EB_NODE b e l r)" and names: "distinct (map snd (eb_leaves l @ eb_leaves r))"
    and owners: "distinct (snd e # eb_owners l @ eb_owners r)" and n: "n \<in> snd ` set (eb_leaves r)" and rem: "eb_removed n p r r'"
  shows "eb_removed n p (EB_NODE b e l r) (EB_NODE b e l r')"
proof -
  note f = eb_removed_facts [OF rem]
  have nl: "n \<notin> snd ` set (eb_leaves l)" using names n by auto
  then have l: "eb_takeover n p l = l" "eb32_delete n (eb_leaves l) = eb_leaves l"
    using wf eb_owners_leaves [of l] by (auto intro!: eb_takeover_id eb32_delete_leaves_notin)
  have sub: "set (eb_leaves r') \<subseteq> set (eb_leaves r)" using f(1) by auto
  let ?e = "if snd e = n then p else e"
  have "eb_wf (EB_NODE b ?e l (eb_takeover n p r'))"
  proof (cases "b < 0")
    case True
    then have e: "e = hd (eb_leaves r)" "eb_keys_eq (fst e) l" "eb_keys_eq (fst e) r" "eb_dup_child b l" "eb_dup_child b r" "eb_wf l"
      using wf by (metis eb_wf.simps(2))+
    have "?e = hd (eb_leaves r')"
    proof (cases "snd e = n")
      case n: True
      have "eb_bit r < 0" using e(5) f(2) by (simp add: eb_dup_child_def)
      then show ?thesis using rem n e(1) by (simp add: eb_removed_def)
    next
      case False
      then show ?thesis using f(6) e(1) by (cases "eb_leaves r") (simp_all add: eb32_delete_def)
    qed
    moreover have "fst ?e = fst e" using f(4) eb_keys_eqD [OF e(3)] by simp
    moreover have "eb_keys_eq (fst e) (eb_takeover n p r')" using eb_keys_eq_subset [OF e(3)] sub by simp
    ultimately show ?thesis using True e f(5) eb_removed_child [OF rem e(5)] by simp
  next
    case False
    have "?e \<in> set (eb_leaves l) \<union> set (eb_leaves r')"
      using f(1,3,4) owners eb_wf_owner [OF wf] nl by auto
    then show ?thesis using False f(5) wf sub by (intro eb_wf_nonneg_rebuild [OF wf]) auto
  qed
  moreover have "snd (hd (eb_leaves l @ eb_leaves r)) \<noteq> n"
    using nl hd_in_set [OF eb_leaves_nonempty, of l] by auto
  ultimately show ?thesis using rem f(4) l unfolding eb_removed_def by (simp add: eb32_delete_append del: eb_wf.simps)
qed

lemma eb_release_removed:
  assumes "eb_wf t" and "distinct (map snd (eb_leaves t))" and "distinct (eb_owners t)" and "eb_release n t = Some (t', p)"
  shows "eb_removed n p t t'"
  using assms
proof (induction t arbitrary: t' p)
  case (EB_NODE b e l r)
  have wf: "eb_wf l" "eb_wf r" using EB_NODE.prems(1) by simp_all
  have names: "distinct (map snd (eb_leaves l @ eb_leaves r))" and owners: "distinct (snd e # eb_owners l @ eb_owners r)"
    using EB_NODE.prems(2,3) by simp_all
  have in_l: "n \<in> snd ` set (eb_leaves l)" if "eb_release n l \<noteq> None" and "\<not> eb_is_leaf_of n l"
    using eb_release_none [OF that(2)] that(1) by blast
  have in_r: "n \<in> snd ` set (eb_leaves r)" if "eb_release n r \<noteq> None" and "\<not> eb_is_leaf_of n r"
    using eb_release_none [OF that(2)] that(1) by blast
  consider (ll) k where "l = EB_LEAF (k, n)" "t' = r" "p = e" | (rl) k where "r = EB_LEAF (k, n)" "t' = l" "p = e"
    | (l) l' where "\<not> eb_is_leaf_of n l" "eb_release n l = Some (l', p)" "t' = EB_NODE b e l' r"
    | (r) r' where "\<not> eb_is_leaf_of n r" "eb_release n r = Some (r', p)" "t' = EB_NODE b e l r'"
    using EB_NODE.prems(4)
    by (auto simp: eb_is_leaf_of_iff split: if_splits option.splits)
  then show ?case
  proof cases
    case ll
    then have nr: "n \<notin> snd ` set (eb_leaves r)" using names by auto
    then have "eb_takeover n p r = r" using eb_owners_leaves [OF wf(2)] by (auto intro!: eb_takeover_id)
    moreover have "e = hd (eb_leaves r)" if "b < 0" using EB_NODE.prems(1) that by (metis eb_wf.simps(2))
    moreover have "eb_is_leaf r \<or> b \<le> eb_bit r \<and> eb_bit r < 0" if "b < 0"
      using EB_NODE.prems(1) that by (auto simp: eb_dup_child_def)
    ultimately show ?thesis
      using ll wf eb_wf_owner [OF EB_NODE.prems(1)] eb32_delete_leaves_notin [OF nr] by (auto simp: eb_removed_def eb32_delete_def)
  next
    case rl
    then have nl: "n \<notin> snd ` set (eb_leaves l)" using names by auto
    then have "eb_takeover n p l = l" using eb_owners_leaves [OF wf(1)] by (auto intro!: eb_takeover_id)
    moreover have "snd (hd (eb_leaves l @ eb_leaves r)) \<noteq> n" using nl hd_in_set [OF eb_leaves_nonempty, of l] by auto
    moreover have "eb_is_leaf l \<or> b \<le> eb_bit l \<and> eb_bit l < 0" if "b < 0"
      using EB_NODE.prems(1) that by (auto simp: eb_dup_child_def)
    ultimately show ?thesis
      using rl wf eb_wf_owner [OF EB_NODE.prems(1)] eb32_delete_leaves_notin [OF nl] by (auto simp: eb_removed_def eb32_delete_def)
  next
    case (l l')
    then have "eb_removed n p l l'" using EB_NODE.IH(1) wf EB_NODE.prems by simp
    then show ?thesis using eb_release_left [OF EB_NODE.prems(1) names owners in_l] l by simp
  next
    case (r r')
    then have "eb_removed n p r r'" using EB_NODE.IH(2) wf EB_NODE.prems by simp
    then show ?thesis using eb_release_right [OF EB_NODE.prems(1) names owners in_r] r by simp
  qed
qed simp

lemma ebt_delete_ok:
  assumes "eb_inv root"
  shows "eb_inv (ebt_delete n root) \<and> eb_abs (ebt_delete n root) = eb32_delete n (eb_abs root) \<and>
    eb_unique (ebt_delete n root) = eb_unique root"
proof (cases "b_left root")
  case None
  then show ?thesis by (simp add: ebt_delete_def eb_inv_def eb_abs_def eb32_delete_def)
next
  case (Some t)
  have t: "eb_wf t" "distinct (map snd (eb_leaves t))" "distinct (eb_owners t)"
    using assms Some by (simp_all add: eb_inv_def)
  consider (leaf) k where "t = EB_LEAF (k, n)" | (none) "\<not> eb_is_leaf_of n t" "eb_release n t = None"
    | (some) t' p where "\<not> eb_is_leaf_of n t" "eb_release n t = Some (t', p)"
    by (metis eb_is_leaf_of_iff option.exhaust surj_pair)
  then show ?thesis
  proof cases
    case leaf
    then show ?thesis using Some by (simp add: ebt_delete_def eb_inv_def eb_abs_def eb32_delete_def)
  next
    case none
    then have "eb32_delete n (eb_leaves t) = eb_leaves t" using eb32_delete_leaves_notin eb_release_none by metis
    then show ?thesis using none Some assms by (simp add: ebt_delete_def eb_abs_def)
  next
    case (some t' p)
    have rem: "eb_removed n p t t'" by (rule eb_release_removed [OF t some(2)])
    then have o: "mset (eb_owners t) = mset (snd p # eb_owners t')" by (simp add: eb_removed_def)
    then have "distinct (snd p # eb_owners t')" using t(3) mset_eq_imp_distinct_iff by blast
    then have "distinct (map (\<lambda>x. if x = n then snd p else x) (eb_owners t'))" by (auto simp: distinct_map inj_on_def)
    moreover have "distinct (map snd (eb32_delete n (eb_leaves t)))" using t(2) by (simp add: eb32_delete_def distinct_map_filter)
    ultimately show ?thesis
      using Some some rem by (simp add: ebt_delete_def eb_inv_def eb_abs_def eb_removed_def eb_owners_takeover)
  qed
qed

section \<open>The interface\<close>

text \<open>Sequences of insertions and deletions; an object that is linked already must not be inserted.\<close>

datatype 'n eb_op = Eb_insert u32 'n | Eb_delete 'n

fun eb_spec_run :: "'n eb_op list \<Rightarrow> 'n eb_root \<Rightarrow> 'n eb_root option" where
  "eb_spec_run [] xs = Some xs"
| "eb_spec_run (Eb_insert k n # ops) xs = (if eb32_in_tree n xs then None else eb_spec_run ops (eb32_insert k n xs))"
| "eb_spec_run (Eb_delete n # ops) xs = eb_spec_run ops (eb32_delete n xs)"

locale eb_tree =
  fixes inv :: "'r \<Rightarrow> bool" and abs :: "'r \<Rightarrow> 'n eb_root" and ins :: "u32 \<Rightarrow> 'n \<Rightarrow> 'r \<Rightarrow> 'r" and del :: "'n \<Rightarrow> 'r \<Rightarrow> 'r"
  assumes ins: "inv r \<Longrightarrow> n \<notin> set (eb_nodes (abs r)) \<Longrightarrow> inv (ins k n r) \<and> abs (ins k n r) = eb32_insert k n (abs r)"
    and del: "inv r \<Longrightarrow> inv (del n r) \<and> abs (del n r) = eb32_delete n (abs r)"
begin

fun run :: "'n eb_op list \<Rightarrow> 'r \<Rightarrow> 'r" where
  "run [] r = r"
| "run (Eb_insert k n # ops) r = run ops (ins k n r)"
| "run (Eb_delete n # ops) r = run ops (del n r)"

lemma run_refines: "inv r \<Longrightarrow> eb_spec_run ops (abs r) = Some xs \<Longrightarrow> inv (run ops r) \<and> abs (run ops r) = xs"
proof (induction ops r rule: run.induct)
  case (2 k n ops r)
  then show ?case using ins [of r n k] by (auto simp: eb32_in_tree_iff split: if_splits)
next
  case (3 n ops r)
  then show ?case using del [of r n] by simp
qed simp

end

definition ebt_put :: "u32 \<Rightarrow> 'n \<Rightarrow> 'n eb_top \<Rightarrow> 'n eb_top" where
  "ebt_put k n root = fst (ebt_insert (k, n) root)"

lemma ebt_insert_unique_flag: "eb_unique (fst (ebt_insert e root)) = eb_unique root"
  by (simp add: ebt_insert_def split_beta split: option.splits)

interpretation ebt: eb_tree "\<lambda>root. eb_inv root \<and> \<not> eb_unique root" eb_abs ebt_put ebt_delete
  using ebt_insert_ok ebt_delete_ok by unfold_locales (force simp: ebt_put_def ebt_insert_unique_flag)+

fun ebt_run :: "'n eb_op list \<Rightarrow> 'n eb_top \<Rightarrow> 'n eb_top" where
  "ebt_run [] root = root"
| "ebt_run (Eb_insert k n # ops) root = ebt_run ops (ebt_put k n root)"
| "ebt_run (Eb_delete n # ops) root = ebt_run ops (ebt_delete n root)"

lemma ebt_run_eq: "ebt_run ops root = ebt.run ops root"
  by (induction ops root rule: ebt_run.induct) simp_all

definition eb32_lookup_le :: "u32 \<Rightarrow> 'n eb_root \<Rightarrow> 'n eb32_node option" where
  "eb32_lookup_le x t = find (\<lambda>e. fst e \<le> x) (rev t)"

definition eb32_lookup :: "u32 \<Rightarrow> 'n eb_root \<Rightarrow> 'n eb32_node option" where
  "eb32_lookup x t = find (\<lambda>e. fst e = x) t"

lemma EB_ROOT_simps [simp]: "eb_inv EB_ROOT" "\<not> eb_unique EB_ROOT" "eb_abs EB_ROOT = []"
  by (simp_all add: eb_inv_def eb_abs_def EB_ROOT_def)

lemma ebt_run_ok: "eb_spec_run ops [] = Some xs \<Longrightarrow> eb_inv (ebt_run ops EB_ROOT) \<and> eb_abs (ebt_run ops EB_ROOT) = xs"
  using ebt.run_refines [of EB_ROOT ops xs] by (simp add: ebt_run_eq)

definition sample_ops :: "nat eb_op list" where
  "sample_ops = [Eb_insert 5 0, Eb_insert 4 1, Eb_insert 5 2, Eb_insert 5 3, Eb_insert 9 4, Eb_insert 5 5, Eb_delete 0,
     Eb_insert 1 0, Eb_delete 4]"

section \<open>Properties\<close>

text \<open>(C9) The elastic binary trees implement the ordered sequences the balancing code is modelled on:
  after any sequence of insertions and deletions, starting from an empty tree, the tree is well formed,
  no leaf or node part is linked twice, and its leaves from left to right are the sequence that the same
  operations build: ascending keys, equal keys in the order of insertion.\<close>

theorem ebt_run_refines:
  assumes "eb_spec_run ops [] = Some xs"
  shows "eb_inv (ebt_run ops EB_ROOT) \<and> eb_abs (ebt_run ops EB_ROOT) = xs \<and> eb_ordered xs"
  using ebt_run_ok [OF assms] eb_inv_ordered by blast

theorem ebt_run_refines_witness:
  "eb_abs (ebt_run sample_ops EB_ROOT) = [(1, 0), (4, 1), (5, 2), (5, 3), (5, 5)] \<and> eb_inv (ebt_run sample_ops EB_ROOT)"
proof -
  have "eb_spec_run sample_ops [] = Some [(1, 0), (4, 1), (5, 2), (5, 3), (5, 5)]" by code_simp
  from ebt_run_refines [OF this] show ?thesis by blast
qed

text \<open>(C31) On such a tree every walk and every lookup returns what its counterpart finds in the
  sequence: the ends, the neighbours of an object, the first object of a key, the first of the least key
  not below a bound and the last of the greatest key not above it.\<close>

theorem ebt_lookups_refine:
  assumes "eb_inv root" and "n \<in> set (eb_nodes (eb_abs root))"
  shows "ebt_first root = eb32_first (eb_abs root) \<and> ebt_last root = eb32_last (eb_abs root) \<and>
    ebt_next n root = eb32_next n (eb_abs root) \<and> ebt_prev n root = eb32_prev n (eb_abs root) \<and>
    ebt_lookup x root = eb32_lookup x (eb_abs root) \<and> ebt_lookup_ge x root = eb32_lookup_ge x (eb_abs root) \<and>
    ebt_lookup_le x root = eb32_lookup_le x (eb_abs root)"
proof -
  have "ebt_lookup x root = eb32_lookup x (eb_abs root) \<and> ebt_lookup_ge x root = eb32_lookup_ge x (eb_abs root) \<and>
      ebt_lookup_le x root = eb32_lookup_le x (eb_abs root)"
  proof (cases "b_left root")
    case None
    then show ?thesis
      by (simp add: ebt_lookup_def ebt_lookup_ge_def ebt_lookup_le_def eb32_lookup_def eb32_lookup_ge_def eb32_lookup_le_def eb_abs_def)
  next
    case (Some t)
    then have "eb_wf t" "distinct (eb_owners t)" using assms(1) by (simp_all add: eb_inv_def)
    then show ?thesis
      using Some by (simp add: ebt_lookup_def ebt_lookup_ge_def ebt_lookup_le_def eb32_lookup_def eb32_lookup_ge_def
          eb32_lookup_le_def eb_abs_def eb32_find_find eb32_find_ge_find eb32_find_le_find split: option.splits)
  qed
  with ebt_walks_ok [OF assms(1)] assms(2) show ?thesis by blast
qed

theorem ebt_lookups_refine_witness:
  "ebt_lookup 5 (ebt_run sample_ops EB_ROOT) = Some (5, 2) \<and> ebt_lookup_ge 2 (ebt_run sample_ops EB_ROOT) = Some (4, 1) \<and>
   ebt_lookup_le 7 (ebt_run sample_ops EB_ROOT) = Some (5, 5)"
proof -
  have "eb_spec_run sample_ops [] = Some [(1, 0), (4, 1), (5, 2), (5, 3), (5, 5)]" by code_simp
  from ebt_run_ok [OF this]
  have r: "eb_inv (ebt_run sample_ops EB_ROOT)" "eb_abs (ebt_run sample_ops EB_ROOT) = [(1, 0), (4, 1), (5, 2), (5, 3), (5, 5)]"
    by blast+
  then have n: "0 \<in> set (eb_nodes (eb_abs (ebt_run sample_ops EB_ROOT)))" by (simp add: eb_nodes_def)
  note l = ebt_lookups_refine [OF r(1) n, unfolded r(2)]
  have "eb32_lookup 5 [(1, 0), (4, 1), (5, 2), (5, 3), (5, 5 :: nat)] = Some (5, 2)"
    "eb32_lookup_ge 2 [(1, 0), (4, 1), (5, 2), (5, 3), (5, 5 :: nat)] = Some (4, 1)"
    "eb32_lookup_le 7 [(1, 0), (4, 1), (5, 2), (5, 3), (5, 5 :: nat)] = Some (5, 5)" by code_simp+
  with l [of 5] l [of 2] l [of 7] show ?thesis by simp
qed

end
