(* ===== verification/Eb32_Signed.thy ===== *)
theory Eb32_Signed
  imports Eb32_Ops
begin

text \<open>
  The variants of \<^verbatim>\<open>eb32tree.h\<close> for signed keys, \<^verbatim>\<open>__eb32i_insert\<close> and
  \<^verbatim>\<open>__eb32i_lookup\<close>: the trees of the unsigned operations for keys whose sign bit is inverted.
\<close>

section \<open>Operations\<close>

definition eb32i_attach ::
    "bool \<Rightarrow> 'n eb32_node \<Rightarrow> 'n eb_troot \<Rightarrow> 'n eb32_node \<Rightarrow> 'n eb_troot \<times> 'n eb32_node" where
  "eb32i_attach unique new troot old =
     (if fst new = fst old then
        if unique then (troot, old)
        else if \<not> eb_is_leaf troot then (ebt_insert_dup troot new, new)
        else (EB_NODE (-1) new troot (EB_LEAF new), new)
      else
        let new_bit = int (flsnz (fst new XOR fst old)) - 1
        in if fst old \<le>s fst new then (EB_NODE new_bit new troot (EB_LEAF new), new)
           else (EB_NODE new_bit new (EB_LEAF new) troot, new))"

fun eb32i_descend :: "bool \<Rightarrow> 'n eb32_node \<Rightarrow> 'n eb_troot \<Rightarrow> 'n eb_troot \<times> 'n eb32_node" where
  "eb32i_descend unique new (EB_LEAF old) = eb32i_attach unique new (EB_LEAF old) old"
| "eb32i_descend unique new (EB_NODE b old l r) =
     (let newkey = fst new + 0x80000000 in
      if b < 0 \<or> 2 \<le> drop_bit (nat b) (fst new XOR fst old) then eb32i_attach unique new (EB_NODE b old l r) old
      else if signed_drop_bit (nat b) newkey AND 1 = 0 then
        (let (l, ret) = eb32i_descend unique new l in (EB_NODE b old l r, ret))
      else
        (let (r, ret) = eb32i_descend unique new r in (EB_NODE b old l r, ret)))"

definition ebti_insert :: "'n eb32_node \<Rightarrow> 'n eb_top \<Rightarrow> 'n eb_top \<times> 'n eb32_node" where
  "ebti_insert new root =
     (case b_left root of
        None \<Rightarrow> (root\<lparr>b_left := Some (EB_LEAF new)\<rparr>, new)
      | Some t \<Rightarrow> let (t, ret) = eb32i_descend (eb_unique root) new t in (root\<lparr>b_left := Some t\<rparr>, ret))"

fun eb32i_find :: "u32 \<Rightarrow> 'n eb_troot \<Rightarrow> 'n eb32_node option" where
  "eb32i_find x (EB_LEAF node) = (if fst node = x then Some node else None)"
| "eb32i_find x (EB_NODE b node l r) =
     (let key = x XOR 0x80000000; y = fst node XOR x in
      if y = 0 then Some (if b < 0 then eb_walk_down l False else node)
      else if 2 \<le> drop_bit (nat (b mod 32)) y then None
      else eb32i_find x (if drop_bit (nat (b mod 32)) key AND 1 = 0 then l else r))"

definition ebti_lookup :: "u32 \<Rightarrow> 'n eb_top \<Rightarrow> 'n eb32_node option" where
  "ebti_lookup x root = Option.bind (b_left root) (eb32i_find x)"

section \<open>Inverting the sign bit\<close>

definition sign_bit :: u32 where
  "sign_bit = push_bit 31 1"

lemma sign_bit_eq: "0x80000000 = sign_bit"
  by (simp add: sign_bit_def)

lemma bit_sign: "bit sign_bit i \<longleftrightarrow> i = 31"
  unfolding sign_bit_def bit_push_bit_iff bit_1_iff by auto

definition flip :: "u32 \<Rightarrow> u32" where
  "flip k = k XOR sign_bit"

lemma flip_flip [simp]: "flip (flip k) = k"
  by (simp add: flip_def xor.assoc)

lemma flip_eq_iff [simp]: "flip k = flip l \<longleftrightarrow> k = l"
  by (metis flip_flip)

lemma bit_flip: "bit (flip k) i = (if i = 31 then \<not> bit k 31 else bit k i)"
  unfolding flip_def by (auto simp: bit_xor_iff bit_sign)

lemma flip_xor: "flip k XOR flip l = k XOR l"
  by (rule bit_word_eqI) (auto simp: bit_xor_iff bit_flip)

lemma add_sign: "k + sign_bit = flip k"
proof -
  have clear: "m + sign_bit = flip m" if "\<not> bit m 31" for m :: u32
  proof -
    have "m AND sign_bit = 0" by (rule bit_word_eqI) (use that in \<open>auto simp: bit_and_iff bit_sign\<close>)
    then show ?thesis by (simp add: disjunctive_add_eq_xor flip_def)
  qed
  show ?thesis
  proof (cases "bit k 31")
    case True
    then have "flip k + sign_bit = k" using clear [of "flip k"] by (simp add: bit_flip)
    then have "k + sign_bit = flip k + (sign_bit + sign_bit)" by (metis add.assoc)
    moreover have "sign_bit + sign_bit = 0" by (simp flip: sign_bit_eq)
    ultimately show ?thesis by simp
  qed (simp add: clear)
qed

lemma bit_signed_side: "signed_drop_bit b k AND 1 = 0 \<longleftrightarrow> \<not> bit k b" if "b < 32" for k :: u32
proof -
  have "bit (signed_drop_bit b k) 0 = bit k b" using that by (subst bit_signed_drop_bit_iff) auto
  then show ?thesis unfolding and_one_eq mod2_eq_if bit_0 by auto
qed

lemma uint_flip: "uint (flip k) = sint k + 2 ^ 31"
proof -
  have "flip k = word_of_int (sint k + 2 ^ 31)" unfolding add_sign [symmetric] by (simp flip: sign_bit_eq)
  moreover have "- (2 ^ 31) \<le> sint k" "sint k < 2 ^ 31" using sint_ge [of k] sint_less [of k] by simp_all
  moreover have "uint (word_of_int i :: u32) = i mod 2 ^ 32" for i by (simp add: uint_word_of_int)
  ultimately show ?thesis by (simp del: of_int_add)
qed

lemma flip_le: "flip k \<le> flip l \<longleftrightarrow> k \<le>s l"
  by (simp add: word_le_def uint_flip word_sle_eq)

section \<open>The trees\<close>

abbreviation flip_entry :: "'n eb32_node \<Rightarrow> 'n eb32_node" where
  "flip_entry e \<equiv> (flip (fst e), snd e)"

lemma flip_entry_twice [simp]: "flip_entry \<circ> flip_entry = id"
  by (auto simp: fun_eq_iff)

fun eb_flip :: "'n eb_troot \<Rightarrow> 'n eb_troot" where
  "eb_flip (EB_LEAF e) = EB_LEAF (flip_entry e)"
| "eb_flip (EB_NODE b e l r) = EB_NODE b (flip_entry e) (eb_flip l) (eb_flip r)"

lemma eb_flip_simps [simp]:
  "eb_is_leaf (eb_flip t) = eb_is_leaf t" "eb_bit (eb_flip t) = eb_bit t" "eb_leaves (eb_flip t) = map flip_entry (eb_leaves t)"
  "eb_flip (eb_flip t) = t" "eb_walk_down (eb_flip t) s = flip_entry (eb_walk_down t s)"
  by (induction t) auto

lemma eb_flip_dup_walk: "eb_dup_walk (eb_flip t) d s = eb_dup_walk t d s"
  by (induction t d s rule: eb_dup_walk.induct) simp_all

lemma eb_flip_at_right:
  "(\<And>t. eb_flip (f t) = g (eb_flip t)) \<Longrightarrow> eb_flip (eb_at_right d f t) = eb_at_right d g (eb_flip t)"
  by (induction d f t rule: eb_at_right.induct) simp_all

lemma eb_flip_insert_dup: "eb_flip (ebt_insert_dup t new) = ebt_insert_dup (eb_flip t) (flip_entry new)"
  by (simp add: ebt_insert_dup_def eb_flip_dup_walk eb_flip_at_right split: prod.splits)

lemma eb_flip_attach:
  "eb32_attach u (flip_entry new) (eb_flip t) (flip_entry old) = map_prod eb_flip flip_entry (eb32i_attach u new t old)"
  by (simp add: eb32_attach_def eb32i_attach_def eb_flip_insert_dup flip_xor flip_le Let_def)

lemma eb_flip_descend:
  assumes "eb_wf (eb_flip t)"
  shows "eb32_descend u (flip_entry new) (eb_flip t) = map_prod eb_flip flip_entry (eb32i_descend u new t)"
  using assms
proof (induction t)
  case (EB_LEAF e)
  then show ?case using eb_flip_attach [of u new "EB_LEAF e" e] by simp
next
  case (EB_NODE b e l r)
  let ?stop = "b < 0 \<or> \<not> eb_prefix (nat b) (fst new) (fst e)"
  have stop: "b < 0 \<or> 2 \<le> drop_bit (nat b) (flip (fst new) XOR flip (fst e)) \<longleftrightarrow> ?stop"
    "b < 0 \<or> 2 \<le> drop_bit (nat b) (fst new XOR fst e) \<longleftrightarrow> ?stop"
    by (simp_all only: flip_xor eb_stop_iff)
  have side: "drop_bit (nat b) (flip (fst new)) AND 1 = 0 \<longleftrightarrow> \<not> bit (flip (fst new)) (nat b)"
    "signed_drop_bit (nat b) (fst new + 0x80000000) AND 1 = 0 \<longleftrightarrow> \<not> bit (flip (fst new)) (nat b)" if "\<not> ?stop"
    using that EB_NODE.prems by (simp_all only: eb_side_iff sign_bit_eq add_sign) (subst bit_signed_side, auto)
  have wf: "eb_wf (eb_flip l)" "eb_wf (eb_flip r)" using EB_NODE.prems by simp_all
  show ?case
  proof (cases ?stop)
    case True
    then show ?thesis using eb_flip_attach [of u new "EB_NODE b e l r" e]
      unfolding eb32_descend.simps eb32i_descend.simps eb_flip.simps Let_def fst_conv stop by simp
  next
    case False
    then show ?thesis
      unfolding eb32_descend.simps eb32i_descend.simps eb_flip.simps Let_def fst_conv stop side [OF False]
      using EB_NODE.IH wf by (auto simp: split_beta)
  qed
qed

lemma eb_flip_find: "eb32_find (flip x) (eb_flip t) = map_option flip_entry (eb32i_find x t)"
proof (induction t)
  case (EB_NODE b e l r)
  have "x XOR 0x80000000 = flip x" by (simp only: sign_bit_eq flip_def)
  then show ?case using EB_NODE unfolding eb32_find.simps eb32i_find.simps eb_flip.simps Let_def fst_conv flip_xor by simp
qed simp

lemma eb_flip_delete:
  "eb_is_leaf_of n (eb_flip t) = eb_is_leaf_of n t"
  "eb_takeover n (flip_entry p) (eb_flip t) = eb_flip (eb_takeover n p t)"
  "eb_release n (eb_flip t) = map_option (map_prod eb_flip flip_entry) (eb_release n t)"
proof -
  show leaf: "eb_is_leaf_of n (eb_flip t) = eb_is_leaf_of n t" for t by (cases t) simp_all
  show "eb_takeover n (flip_entry p) (eb_flip t) = eb_flip (eb_takeover n p t)" by (induction t) simp_all
  show "eb_release n (eb_flip t) = map_option (map_prod eb_flip flip_entry) (eb_release n t)"
    by (induction t) (auto simp: leaf map_option_case split: option.splits)
qed

section \<open>Refinement\<close>

definition flip_top :: "'n eb_top \<Rightarrow> 'n eb_top" where
  "flip_top root = root\<lparr>b_left := map_option eb_flip (b_left root)\<rparr>"

definition ebti_put :: "u32 \<Rightarrow> 'n \<Rightarrow> 'n eb_top \<Rightarrow> 'n eb_top" where
  "ebti_put k n root = fst (ebti_insert (k, n) root)"

lemma flip_top_put: "eb_inv (flip_top root) \<Longrightarrow> flip_top (ebti_put k n root) = ebt_put (flip k) n (flip_top root)"
  using eb_flip_descend [of _ "eb_unique root" "(k, n)"]
  by (auto simp: flip_top_def ebti_put_def ebt_put_def ebti_insert_def ebt_insert_def eb_inv_def split_beta split: option.splits)

lemma flip_top_delete: "flip_top (ebt_delete n root) = ebt_delete n (flip_top root)"
  by (cases root) (auto simp: flip_top_def ebt_delete_def eb_flip_delete split: option.splits prod.splits)

lemma flip_top_abs: "eb_abs (flip_top root) = map flip_entry (eb_abs root)"
  by (simp add: eb_abs_def flip_top_def split: option.splits)

interpretation ebti: eb_tree "\<lambda>root. eb_inv (flip_top root) \<and> \<not> eb_unique root" "\<lambda>root. eb_abs (flip_top root)"
    "\<lambda>k. ebti_put (flip k)" ebt_delete
proof (unfold_locales, goal_cases)
  case (1 r n k)
  moreover have "eb_unique (flip_top r) = eb_unique r" "eb_unique (ebti_put (flip k) n r) = eb_unique r"
    by (simp_all add: flip_top_def ebti_put_def ebti_insert_def split_beta split: option.splits)
  ultimately show ?case using ebt.ins [of "flip_top r" n k] by (simp add: flip_top_put)
next
  case (2 r n)
  moreover have "eb_unique (flip_top r) = eb_unique r" by (simp add: flip_top_def)
  ultimately show ?case using ebt.del [of "flip_top r" n] ebt_delete_ok [of "flip_top r" n] 
    by (simp add: flip_top_delete [symmetric]) (simp add: flip_top_def)
qed

fun flip_op :: "'n eb_op \<Rightarrow> 'n eb_op" where
  "flip_op (Eb_insert k n) = Eb_insert (flip k) n"
| "flip_op (Eb_delete n) = Eb_delete n"

fun ebti_run :: "'n eb_op list \<Rightarrow> 'n eb_top \<Rightarrow> 'n eb_top" where
  "ebti_run [] root = root"
| "ebti_run (Eb_insert k n # ops) root = ebti_run ops (ebti_put k n root)"
| "ebti_run (Eb_delete n # ops) root = ebti_run ops (ebt_delete n root)"

lemma ebti_run_eq: "ebti_run ops root = ebti.run (map flip_op ops) root"
  by (induction ops root rule: ebti_run.induct) simp_all

lemma ebti_run_ok:
  assumes "eb_spec_run (map flip_op ops) [] = Some xs"
  shows "eb_inv (flip_top (ebti_run ops EB_ROOT))" "eb_abs (ebti_run ops EB_ROOT) = map flip_entry xs"
proof -
  have "eb_inv (flip_top (ebti_run ops EB_ROOT)) \<and> eb_abs (flip_top (ebti_run ops EB_ROOT)) = xs"
    using ebti.run_refines [of EB_ROOT "map flip_op ops" xs] assms
    by (simp add: ebti_run_eq) (simp add: flip_top_def EB_ROOT_def eb_inv_def eb_abs_def)
  then show "eb_inv (flip_top (ebti_run ops EB_ROOT))" "eb_abs (ebti_run ops EB_ROOT) = map flip_entry xs"
    by (auto simp: flip_top_abs)
qed

lemma find_flip: "find (\<lambda>e. fst e = flip x) (map flip_entry xs) = map_option flip_entry (find (\<lambda>e. fst e = x) xs)"
  by (induction xs) auto

text \<open>(C10) With the signed insertion the leaves are in ascending order of the signed keys, equal keys in
  the order of insertion, and the signed lookup returns the first object of its key.\<close>

theorem ebti_run_refines:
  assumes "eb_spec_run (map flip_op ops) [] = Some xs"
  shows "eb_abs (ebti_run ops EB_ROOT) = map flip_entry xs \<and>
    sorted_wrt (\<lambda>d e. fst d \<le>s fst e) (eb_abs (ebti_run ops EB_ROOT)) \<and>
    ebti_lookup x (ebti_run ops EB_ROOT) = eb32_lookup x (eb_abs (ebti_run ops EB_ROOT))"
proof -
  let ?r = "ebti_run ops EB_ROOT"
  note r = ebti_run_ok [OF assms]
  have "eb_abs (flip_top ?r) = xs" using r(2) by (simp add: flip_top_abs)
  then have "eb_ordered xs" using eb_inv_ordered [OF r(1)] by simp
  then have "sorted_wrt (\<lambda>d e. fst d \<le>s fst e) (eb_abs ?r)"
    using flip_le [of "flip (fst d)" "flip (fst e)" for d e]
    by (simp add: r(2) eb_ordered_def sorted_wrt_map sorted_map flip: flip_le)
  moreover have "ebti_lookup x ?r = eb32_lookup x (eb_abs ?r)"
  proof (cases "b_left ?r")
    case None
    then show ?thesis by (simp add: ebti_lookup_def eb32_lookup_def eb_abs_def)
  next
    case (Some t)
    then have "eb_wf (eb_flip t)" "distinct (eb_owners (eb_flip t))" using r(1) by (simp_all add: eb_inv_def flip_top_def)
    from eb32_find_find [OF this, of "flip x"]
    have "map_option flip_entry (eb32i_find x t) = find (\<lambda>e. fst e = flip x) (map flip_entry (eb_leaves t))"
      by (simp add: eb_flip_find)
    also have "\<dots> = map_option flip_entry (find (\<lambda>e. fst e = x) (eb_leaves t))"
      by (rule find_flip)
    finally have "eb32i_find x t = find (\<lambda>e. fst e = x) (eb_leaves t)"
      by (rule option.inj_map_strong [rotated]) (auto simp: prod_eq_iff)
    then show ?thesis using Some by (simp add: ebti_lookup_def eb32_lookup_def eb_abs_def)
  qed
  ultimately show ?thesis using r(2) by blast
qed

theorem ebti_run_refines_witness:
  "eb_abs (ebti_run [Eb_insert 1 0, Eb_insert (-1) 1, Eb_insert 0 2, Eb_insert (-1) 3] EB_ROOT) =
     [(-1, 1), (-1, 3), (0, 2), (1, 0 :: nat)]"
proof -
  have "eb_spec_run (map flip_op [Eb_insert 1 0, Eb_insert (-1) 1, Eb_insert 0 2, Eb_insert (-1) 3]) [] =
      Some (map flip_entry [(-1, 1), (-1, 3), (0, 2), (1, 0 :: nat)])" by code_simp
  from ebti_run_refines [OF this] show ?thesis by simp
qed

end
