(* ===== verification/Server_Model.thy ===== *)
theory Server_Model
  imports Eb32_Spec
begin

text \<open>
  The state all load-balancing code works on: \<^verbatim>\<open>struct server\<close>
  (\<^verbatim>\<open>include/haproxy/server-t.h\<close>), \<^verbatim>\<open>struct proxy\<close> with its
  \<^verbatim>\<open>struct lbprm\<close> (\<^verbatim>\<open>proxy-t.h\<close>, \<^verbatim>\<open>backend-t.h\<close>), the usability
  predicates of \<^verbatim>\<open>backend.h\<close>, the weight accounting of \<^verbatim>\<open>backend.c\<close> and
  \<^verbatim>\<open>srv_dynamic_maxconn\<close> of \<^verbatim>\<open>queue.c\<close>. The fields kept are those that some modelled
  function reads or writes. The per-algorithm part of \<^verbatim>\<open>lbprm\<close> is a C union of which
  \<^verbatim>\<open>algo\<close> selects one member; here the members stand side by side. All functions run under
  the locks the C code takes, so each is one atomic step.
\<close>

section \<open>Data\<close>

datatype srv_state = SRV_ST_STOPPED | SRV_ST_STARTING | SRV_ST_RUNNING | SRV_ST_STOPPING

abbreviation SRV_ADMF_MAINT :: u8 where "SRV_ADMF_MAINT \<equiv> 0x23"
abbreviation SRV_ADMF_DRAIN :: u8 where "SRV_ADMF_DRAIN \<equiv> 0x18"
abbreviation SRV_F_BACKUP :: u32 where "SRV_F_BACKUP \<equiv> 0x0001"
abbreviation PR_O_USE_ALL_BK :: u32 where "PR_O_USE_ALL_BK \<equiv> 0x00100000"

abbreviation BE_WEIGHT_SCALE :: u32 where "BE_WEIGHT_SCALE \<equiv> 16"
abbreviation SRV_UWGHT_RANGE :: u32 where "SRV_UWGHT_RANGE \<equiv> 256"
abbreviation SRV_UWGHT_MAX :: u32 where "SRV_UWGHT_MAX \<equiv> 256"
abbreviation SRV_EWGHT_RANGE :: u32 where "SRV_EWGHT_RANGE \<equiv> 4096"
abbreviation SRV_EWGHT_MAX :: u32 where "SRV_EWGHT_MAX \<equiv> 4096"

text \<open>The tree roots \<^verbatim>\<open>srv->lb_tree\<close> may point to: the active or backup tree of the
  connection-based algorithms and of consistent hashing, or one of the three roots of the
  server's round-robin group.\<close>

datatype eb_root_ptr = Root_act | Root_bck | Root_curr | Root_t0 | Root_t1

text \<open>\<^verbatim>\<open>struct queue\<close> of \<^verbatim>\<open>queue-t.h\<close>; pending connections are numbered.\<close>

record queue =
  q_head :: "nat eb_root"
  q_idx :: u32
  q_length :: u32

record server =
  srv_id :: "string option"
  srv_flags :: u32
  next_state :: srv_state
  cur_state :: srv_state
  next_admin :: u8
  cur_admin :: u8
  maxconn :: u32
  minconn :: u32
  iweight :: u32
  uweight :: u32
  cur_eweight :: u32
  next_eweight :: u32
  wscore :: u32
  rweight :: u32
  cumulative_weight :: u32
  maxqueue :: c_int
  npos :: u32
  lpos :: u32
  lb_key :: u32
  lb_tree :: "eb_root_ptr option"
  lb_nodes :: "u32 list"
  lb_nodes_tot :: u32
  lb_nodes_now :: u32
  served :: c_int
  cur_sess :: c_int
  slowstart :: c_int
  last_change :: int
  srv_queue :: queue
  puid :: c_int
  rdr_len :: c_int
  track :: "srv_ref option"
  srv_cum_lbconn :: u32
  srv_redispatches :: u32
  srv_retries :: u32
  srv_nbpend_max :: u32

text \<open>\<^verbatim>\<open>struct fwrr_group\<close> of \<^verbatim>\<open>lb_fwrr-t.h\<close>.\<close>

record fwrr_group =
  grp_curr :: "srv_ref eb_root"
  grp_t0 :: "srv_ref eb_root"
  grp_t1 :: "srv_ref eb_root"
  grp_init :: eb_root_ptr
  grp_next :: eb_root_ptr
  curr_pos :: c_int
  curr_weight :: c_int
  next_weight :: c_int

text \<open>A leaf of the consistent-hash tree (\<^verbatim>\<open>struct tree_occ\<close>) is the occurrence
  \<open>(srv, k)\<close> of server \<open>srv\<close>, that is \<^verbatim>\<open>&srv->lb_nodes[k]\<close>.\<close>

type_synonym tree_occ = "srv_ref \<times> nat"

record proxy =
  px_srv :: "server list"
  px_options :: u32
  srv_act :: c_int
  srv_bck :: c_int
  px_served :: c_int
  px_queue :: queue
  totpend :: c_int
  beconn :: u32
  fullconn :: u32
  max_ka_queue :: c_int
  algo :: u32
  tot_wact :: c_int
  tot_wbck :: c_int
  tot_weight :: c_int
  tot_used :: c_int
  wmult :: c_int
  wdiv :: c_int
  hash_balance_factor :: c_int
  arg_str :: string
  arg_opt1 :: c_int
  arg_opt2 :: c_int
  arg_opt3 :: c_int
  fbck :: "srv_ref option"
  map_srv :: "srv_ref option list"
  rr_idx :: c_int
  fwrr_act :: fwrr_group
  fwrr_bck :: fwrr_group
  fwlc_act :: "srv_ref eb_root"
  fwlc_bck :: "srv_ref eb_root"
  chash_act :: "tree_occ eb_root"
  chash_bck :: "tree_occ eb_root"
  chash_last :: "tree_occ option"
  fas_act :: "srv_ref eb_root"
  fas_bck :: "srv_ref eb_root"
  px_cum_lbconn :: u32
  px_redispatches :: u32
  px_retries :: u32
  px_nbpend_max :: u32

section \<open>Server status\<close>

definition is_backup :: "server \<Rightarrow> bool" where
  "is_backup s \<longleftrightarrow> srv_flags s AND SRV_F_BACKUP \<noteq> 0"

definition use_all_bk :: "proxy \<Rightarrow> bool" where
  "use_all_bk p \<longleftrightarrow> px_options p AND PR_O_USE_ALL_BK \<noteq> 0"

definition srv_willbe_usable :: "server \<Rightarrow> bool" where
  "srv_willbe_usable s =
     (if next_eweight s = 0 then False
      else if next_admin s AND SRV_ADMF_MAINT \<noteq> 0 then False
      else if next_admin s AND SRV_ADMF_DRAIN \<noteq> 0 then False
      else (case next_state s of
              SRV_ST_STARTING \<Rightarrow> True
            | SRV_ST_RUNNING \<Rightarrow> True
            | SRV_ST_STOPPING \<Rightarrow> False
            | SRV_ST_STOPPED \<Rightarrow> False))"

definition srv_currently_usable :: "server \<Rightarrow> bool" where
  "srv_currently_usable s =
     (if cur_eweight s = 0 then False
      else if cur_admin s AND SRV_ADMF_MAINT \<noteq> 0 then False
      else if cur_admin s AND SRV_ADMF_DRAIN \<noteq> 0 then False
      else (case cur_state s of
              SRV_ST_STARTING \<Rightarrow> True
            | SRV_ST_RUNNING \<Rightarrow> True
            | SRV_ST_STOPPING \<Rightarrow> False
            | SRV_ST_STOPPED \<Rightarrow> False))"

definition srv_lb_commit_status :: "server \<Rightarrow> server" where
  "srv_lb_commit_status s =
     s\<lparr>cur_state := next_state s, cur_admin := next_admin s, cur_eweight := next_eweight s\<rparr>"

definition srv_lb_status_changed :: "server \<Rightarrow> bool" where
  "srv_lb_status_changed s \<longleftrightarrow>
     next_state s \<noteq> cur_state s \<or> next_admin s \<noteq> cur_admin s \<or> next_eweight s \<noteq> cur_eweight s"

text \<open>Nothing pending: what a server looks like between two status changes.\<close>

definition committed :: "server \<Rightarrow> bool" where
  "committed s \<longleftrightarrow> \<not> srv_lb_status_changed s"

lemma commit_usable [simp, srv_simps]:
  "srv_currently_usable (srv_lb_commit_status s) = srv_willbe_usable s"
  "srv_willbe_usable (srv_lb_commit_status s) = srv_willbe_usable s"
  by (simp_all add: srv_currently_usable_def srv_willbe_usable_def srv_lb_commit_status_def)

lemma commit_committed [simp, srv_simps]: "committed (srv_lb_commit_status s)"
  by (simp add: committed_def srv_lb_status_changed_def srv_lb_commit_status_def)

lemma commit_fields [simp, srv_simps]:
  "is_backup (srv_lb_commit_status s) = is_backup s"
  "cur_eweight (srv_lb_commit_status s) = next_eweight s"
  "next_eweight (srv_lb_commit_status s) = next_eweight s"
  by (simp_all add: is_backup_def srv_lb_commit_status_def)

lemma committed_usable: "committed s \<Longrightarrow> srv_willbe_usable s = srv_currently_usable s"
  by (simp add: committed_def srv_lb_status_changed_def srv_willbe_usable_def srv_currently_usable_def)

lemma committed_eweight: "committed s \<Longrightarrow> next_eweight s = cur_eweight s"
  by (simp add: committed_def srv_lb_status_changed_def)

lemma commit_id: "committed s \<Longrightarrow> srv_lb_commit_status s = s"
  by (cases s) (simp add: committed_def srv_lb_status_changed_def srv_lb_commit_status_def)

lemma status_wscore [simp]:
  "is_backup (s\<lparr>wscore := x\<rparr>) = is_backup s"
  "srv_willbe_usable (s\<lparr>wscore := x\<rparr>) = srv_willbe_usable s"
  "srv_currently_usable (s\<lparr>wscore := x\<rparr>) = srv_currently_usable s"
  "committed (s\<lparr>wscore := x\<rparr>) = committed s"
  by (simp_all add: is_backup_def srv_willbe_usable_def srv_currently_usable_def committed_def
      srv_lb_status_changed_def)

section \<open>The server chain of a proxy\<close>

definition upd_srv :: "srv_ref \<Rightarrow> (server \<Rightarrow> server) \<Rightarrow> proxy \<Rightarrow> proxy" where
  "upd_srv i f p = p\<lparr>px_srv := (px_srv p)[i := f (px_srv p ! i)]\<rparr>"

abbreviation srv_at :: "proxy \<Rightarrow> srv_ref \<Rightarrow> server" where
  "srv_at p i \<equiv> px_srv p ! i"

lemma upd_srv_length [simp, px_frame]: "length (px_srv (upd_srv i f p)) = length (px_srv p)"
  by (simp add: upd_srv_def)

lemma upd_srv_nth [simp, srv_simps]:
  "j < length (px_srv p) \<Longrightarrow>
     srv_at (upd_srv i f p) j = (if i = j then f (srv_at p j) else srv_at p j)"
  by (simp add: upd_srv_def nth_list_update)

lemma upd_srv_beyond: "length (px_srv p) \<le> i \<Longrightarrow> upd_srv i f p = p"
  by (simp add: upd_srv_def list_update_beyond)

lemma upd_srv_upd_srv: "upd_srv i f (upd_srv i g p) = upd_srv i (\<lambda>s. f (g s)) p"
  by (cases "i < length (px_srv p)") (simp_all add: upd_srv_def list_update_beyond)

lemma px_srv_upd_srv: "px_srv (upd_srv i f p) = (px_srv p)[i := f (srv_at p i)]"
  by (simp add: upd_srv_def)

lemma upd_srv_frame [simp, px_frame]:
  "px_options (upd_srv i f p) = px_options p"
  "srv_act (upd_srv i f p) = srv_act p"
  "srv_bck (upd_srv i f p) = srv_bck p"
  "tot_wact (upd_srv i f p) = tot_wact p"
  "tot_wbck (upd_srv i f p) = tot_wbck p"
  "tot_weight (upd_srv i f p) = tot_weight p"
  "tot_used (upd_srv i f p) = tot_used p"
  "fbck (upd_srv i f p) = fbck p"
  "use_all_bk (upd_srv i f p) = use_all_bk p"
  "fas_act (upd_srv i f p) = fas_act p"
  "fas_bck (upd_srv i f p) = fas_bck p"
  "fwlc_act (upd_srv i f p) = fwlc_act p"
  "fwlc_bck (upd_srv i f p) = fwlc_bck p"
  "chash_act (upd_srv i f p) = chash_act p"
  "chash_bck (upd_srv i f p) = chash_bck p"
  "chash_last (upd_srv i f p) = chash_last p"
  "fwrr_act (upd_srv i f p) = fwrr_act p"
  "fwrr_bck (upd_srv i f p) = fwrr_bck p"
  "map_srv (upd_srv i f p) = map_srv p"
  "rr_idx (upd_srv i f p) = rr_idx p"
  "wmult (upd_srv i f p) = wmult p"
  "wdiv (upd_srv i f p) = wdiv p"
  "beconn (upd_srv i f p) = beconn p"
  "fullconn (upd_srv i f p) = fullconn p"
  by (simp_all add: upd_srv_def use_all_bk_def)

section \<open>Weight accounting (backend.c)\<close>

text \<open>One round of the loop of \<^verbatim>\<open>recount_servers\<close>.\<close>

definition recount_body :: "srv_ref \<Rightarrow> proxy \<Rightarrow> proxy" where
  "recount_body i px =
     (let srv = srv_at px i in
      if \<not> srv_willbe_usable srv then px
      else if is_backup srv then
        (let px = (if srv_bck px = 0 \<and> \<not> use_all_bk px then px\<lparr>fbck := Some i\<rparr> else px);
             px = px\<lparr>srv_bck := srv_bck px + 1\<rparr>;
             px = upd_srv i (\<lambda>s. s\<lparr>cumulative_weight := tot_wbck px\<rparr>) px
         in px\<lparr>tot_wbck := tot_wbck px + next_eweight srv\<rparr>)
      else
        (let px = px\<lparr>srv_act := srv_act px + 1\<rparr>;
             px = upd_srv i (\<lambda>s. s\<lparr>cumulative_weight := tot_wact px\<rparr>) px
         in px\<lparr>tot_wact := tot_wact px + next_eweight srv\<rparr>))"

definition recount_servers :: "proxy \<Rightarrow> proxy" where
  "recount_servers px =
     fold recount_body [0..<length (px_srv px)]
       (px\<lparr>srv_act := 0, srv_bck := 0, tot_wact := 0, tot_wbck := 0, fbck := None\<rparr>)"

definition update_backend_weight :: "proxy \<Rightarrow> proxy" where
  "update_backend_weight px =
     (if srv_act px \<noteq> 0 then px\<lparr>tot_weight := tot_wact px, tot_used := srv_act px\<rparr>
      else case fbck px of
        Some b \<Rightarrow> px\<lparr>tot_weight := next_eweight (srv_at px b), tot_used := 1\<rparr>
      | None \<Rightarrow> px\<lparr>tot_weight := tot_wbck px, tot_used := srv_bck px\<rparr>)"

definition be_usable_srv :: "bool \<Rightarrow> proxy \<Rightarrow> c_int" where
  "be_usable_srv disabled be =
     (if disabled then 0
      else if srv_act be \<noteq> 0 then srv_act be
      else if fbck be \<noteq> None then 1
      else srv_bck be)"

section \<open>Connection limits (queue.c, queue.h, server.h)\<close>

definition srv_dynamic_maxconn :: "int \<Rightarrow> proxy \<Rightarrow> server \<Rightarrow> u32" where
  "srv_dynamic_maxconn now_sec px s =
     (let mx = (if fullconn px \<le> beconn px then maxconn s
                else if minconn s = maxconn s then maxconn s
                else max (minconn s) (beconn px * maxconn s div fullconn px))
      in if cur_state s = SRV_ST_STARTING \<and>
            now_sec < last_change s + sint (slowstart s) \<and> last_change s \<le> now_sec
         then (let ratio = word_of_int (100 * (now_sec - last_change s) sdiv sint (slowstart s))
               in max 1 (mx * ratio div 100))
         else mx)"

definition server_has_room :: "int \<Rightarrow> proxy \<Rightarrow> server \<Rightarrow> bool" where
  "server_has_room now_sec px s \<longleftrightarrow>
     maxconn s = 0 \<or> cur_sess s < srv_dynamic_maxconn now_sec px s"

definition may_dequeue_tasks :: "int \<Rightarrow> server option \<Rightarrow> proxy \<Rightarrow> bool" where
  "may_dequeue_tasks now_sec so p =
     (case so of
        None \<Rightarrow> False
      | Some s \<Rightarrow> (q_length (srv_queue s) \<noteq> 0 \<or> (q_length (px_queue p) \<noteq> 0 \<and> srv_currently_usable s)) \<and>
                  (maxconn s = 0 \<or> cur_sess s < srv_dynamic_maxconn now_sec p s))"

definition server_throttle_rate :: "proxy \<Rightarrow> server \<Rightarrow> u32" where
  "server_throttle_rate px sv =
     (if uweight sv = 0 then 100
      else (100 * wmult px * cur_eweight sv + wdiv px - 1) div (wdiv px * uweight sv))"

definition server_is_draining :: "server \<Rightarrow> bool" where
  "server_is_draining s \<longleftrightarrow> uweight s = 0 \<or> cur_admin s AND SRV_ADMF_DRAIN \<noteq> 0"

text \<open>The test shared by the lookups of map, first-available, round-robin and consistent-hash
  round-robin balancing: the server accepts one more connection without queueing. The comparison
  of the \<^verbatim>\<open>int\<close> \<^verbatim>\<open>served\<close> with the unsigned limit is unsigned.\<close>

definition srv_not_full :: "int \<Rightarrow> proxy \<Rightarrow> server \<Rightarrow> bool" where
  "srv_not_full now_sec px s \<longleftrightarrow>
     maxconn s = 0 \<or>
     (q_length (srv_queue s) = 0 \<and> served s < srv_dynamic_maxconn now_sec px s)"

section \<open>A sample configuration\<close>

text \<open>Three active servers of weights 1, 2 and 3 and one backup server, all running: the
  configuration on which the component theories evaluate their operations.\<close>

definition sample_queue :: queue where
  "sample_queue = \<lparr>q_head = [], q_idx = 0, q_length = 0\<rparr>"

definition sample_server :: "string \<Rightarrow> u32 \<Rightarrow> u32 \<Rightarrow> c_int \<Rightarrow> server" where
  "sample_server name flags uw n =
     \<lparr>srv_id = Some name, srv_flags = flags, next_state = SRV_ST_RUNNING, cur_state = SRV_ST_RUNNING,
      next_admin = 0, cur_admin = 0, maxconn = 10, minconn = 10, iweight = uw, uweight = uw,
      cur_eweight = uw, next_eweight = uw, wscore = 0, rweight = 0, cumulative_weight = 0,
      maxqueue = 0, npos = 0, lpos = 0, lb_key = 0, lb_tree = None, lb_nodes = [], lb_nodes_tot = 0,
      lb_nodes_now = 0, served = 0, cur_sess = 0, slowstart = 0, last_change = 0,
      srv_queue = sample_queue, puid = n, rdr_len = 0, track = None, srv_cum_lbconn = 0,
      srv_redispatches = 0, srv_retries = 0, srv_nbpend_max = 0\<rparr>"

definition sample_group :: fwrr_group where
  "sample_group = \<lparr>grp_curr = [], grp_t0 = [], grp_t1 = [], grp_init = Root_t0, grp_next = Root_t1,
     curr_pos = 0, curr_weight = 0, next_weight = 0\<rparr>"

definition sample_proxy :: proxy where
  "sample_proxy =
     \<lparr>px_srv = [sample_server ''WP-Host'' 0 1 1, sample_server ''web2'' 0 2 2, sample_server ''web3'' 0 3 3,
        sample_server ''spare4'' SRV_F_BACKUP 1 4],
      px_options = 0, srv_act = 0, srv_bck = 0, px_served = 0, px_queue = sample_queue, totpend = 0,
      beconn = 0, fullconn = 0, max_ka_queue = 0, algo = 0, tot_wact = 0, tot_wbck = 0, tot_weight = 0,
      tot_used = 0, wmult = 1, wdiv = 1, hash_balance_factor = 0, arg_str = [], arg_opt1 = 0, arg_opt2 = 0,
      arg_opt3 = 0, fbck = None, map_srv = [], rr_idx = 0, fwrr_act = sample_group, fwrr_bck = sample_group,
      fwlc_act = [], fwlc_bck = [], chash_act = [], chash_bck = [], chash_last = None, fas_act = [],
      fas_bck = [], px_cum_lbconn = 0, px_redispatches = 0, px_retries = 0, px_nbpend_max = 0\<rparr>"

end
