(* ===== verification/Pendconn.thy ===== *)
theory Pendconn
  imports Server_Model
begin

text \<open>
  Pending connections, \<^verbatim>\<open>src/haproxy/src/queue.c\<close> and \<^verbatim>\<open>include/haproxy/queue.h\<close>: streams that
  wait for a slot are queued to a server or to the proxy, ordered by priority class and by time. Streams
  and pending connections are numbered; \<^verbatim>\<open>pool_alloc\<close> hands out a number, or nothing. Using a
  pending connection that is not allocated is a fault. Each function runs with its locks held, so it is
  one step; the waking of tasks is recorded in order.
\<close>

section \<open>Data\<close>

abbreviation SF_DIRECT :: u32 where "SF_DIRECT \<equiv> 0x00000001"
abbreviation SF_ASSIGNED :: u32 where "SF_ASSIGNED \<equiv> 0x00000002"
abbreviation SF_ADDR_SET :: u32 where "SF_ADDR_SET \<equiv> 0x00000004"
abbreviation SF_FORCE_PRST :: u32 where "SF_FORCE_PRST \<equiv> 0x00000010"
abbreviation PR_O_REDISP :: u32 where "PR_O_REDISP \<equiv> 0x00000001"
abbreviation PR_O_PERSIST :: u32 where "PR_O_PERSIST \<equiv> 0x00004000"

type_synonym strm_ref = nat
type_synonym pend_ref = nat

text \<open>A queue is that of a server, or that of the proxy (\<open>None\<close>).\<close>

type_synonym queue_ref = "srv_ref option"

record stream =
  strm_flags :: u32
  strm_target :: "srv_ref option"
  srv_conn :: "srv_ref option"
  pend_pos :: "pend_ref option"
  priority_class :: int
  priority_offset :: int
  srv_queue_pos :: u64
  prx_queue_pos :: u64

record pendconn =
  pc_flags :: u32
  pc_queue_idx :: u32
  pc_strm :: strm_ref
  pc_queue :: queue_ref
  pc_target :: "srv_ref option"

record qstate =
  qs_px :: proxy
  qs_strm :: "strm_ref \<Rightarrow> stream"
  qs_pend :: "pend_ref \<Rightarrow> pendconn option"
  qs_woken :: "strm_ref list"

definition queue_at :: "queue_ref \<Rightarrow> proxy \<Rightarrow> queue" where
  "queue_at q px = (case q of None \<Rightarrow> px_queue px | Some i \<Rightarrow> srv_queue (srv_at px i))"

definition upd_queue :: "queue_ref \<Rightarrow> (queue \<Rightarrow> queue) \<Rightarrow> qstate \<Rightarrow> qstate" where
  "upd_queue q f st = st\<lparr>qs_px := (case q of
     None \<Rightarrow> (qs_px st)\<lparr>px_queue := f (px_queue (qs_px st))\<rparr>
   | Some i \<Rightarrow> upd_srv i (\<lambda>s. s\<lparr>srv_queue := f (srv_queue s)\<rparr>) (qs_px st))\<rparr>"

definition upd_strm :: "strm_ref \<Rightarrow> (stream \<Rightarrow> stream) \<Rightarrow> qstate \<Rightarrow> qstate" where
  "upd_strm s f st = st\<lparr>qs_strm := (qs_strm st)(s := f (qs_strm st s))\<rparr>"

definition upd_pend :: "pend_ref \<Rightarrow> (pendconn \<Rightarrow> pendconn) \<Rightarrow> qstate \<Rightarrow> qstate" where
  "upd_pend p f st = st\<lparr>qs_pend := (qs_pend st)(p := map_option f (qs_pend st p))\<rparr>"

definition with_pend :: "pend_ref \<Rightarrow> qstate \<Rightarrow> (pendconn \<Rightarrow> 'a c_result) \<Rightarrow> 'a c_result" where
  "with_pend p st f = (case qs_pend st p of None \<Rightarrow> Inl NullDeref | Some pc \<Rightarrow> f pc)"

definition task_wakeup :: "strm_ref \<Rightarrow> qstate \<Rightarrow> qstate" where
  "task_wakeup s st = st\<lparr>qs_woken := qs_woken st @ [s]\<rparr>"

definition queue_init :: "queue \<Rightarrow> queue" where
  "queue_init q = q\<lparr>q_head := [], q_length := 0, q_idx := 0\<rparr>"

section \<open>Keys\<close>

definition NOW_OFFSET_BOUNDARY :: "u32 \<Rightarrow> u32" where
  "NOW_OFFSET_BOUNDARY now_ms = (now_ms - drop_bit 12 0x80000000) AND 0xfffff"

definition KEY_CLASS :: "u32 \<Rightarrow> u32" where
  "KEY_CLASS key = key AND 0xfff00000"

definition KEY_OFFSET :: "u32 \<Rightarrow> u32" where
  "KEY_OFFSET key = key AND 0x000fffff"

definition KEY_CLASS_OFFSET_BOUNDARY :: "u32 \<Rightarrow> u32 \<Rightarrow> u32" where
  "KEY_CLASS_OFFSET_BOUNDARY now_ms key = KEY_CLASS key OR NOW_OFFSET_BOUNDARY now_ms"

definition MAKE_KEY :: "u32 \<Rightarrow> int \<Rightarrow> int \<Rightarrow> u32" where
  "MAKE_KEY now_ms cls offs = push_bit 20 (word_of_int (cls + 0x7ff)) OR ((now_ms + word_of_int offs) AND 0xfffff)"

definition queue_limit_class :: "int \<Rightarrow> int" where
  "queue_limit_class cls = (if cls < -0x7ff then -0x7ff else if 0x7ff < cls then 0x7ff else cls)"

definition queue_limit_offset :: "int \<Rightarrow> int" where
  "queue_limit_offset offs = (if offs < -0x7ffff then -0x7ffff else if 0x7ffff < offs then 0x7ffff else offs)"

section \<open>Removal\<close>

text \<open>\<^verbatim>\<open>__pendconn_unlink_srv\<close> and \<^verbatim>\<open>__pendconn_unlink_prx\<close>; the latter is for pending
  connections in the proxy's queue.\<close>

definition pendconn_unlink_srv :: "pend_ref \<Rightarrow> pendconn \<Rightarrow> qstate \<Rightarrow> qstate" where
  "pendconn_unlink_srv p pc st =
     (let waited = q_idx (queue_at (pc_queue pc) (qs_px st)) - pc_queue_idx pc;
          st = upd_strm (pc_strm pc) (\<lambda>s. s\<lparr>srv_queue_pos := srv_queue_pos s + ucast waited\<rparr>) st
      in upd_queue (pc_queue pc) (\<lambda>q. q\<lparr>q_head := eb32_delete p (q_head q)\<rparr>) st)"

definition pendconn_unlink_prx :: "pend_ref \<Rightarrow> pendconn \<Rightarrow> qstate \<Rightarrow> qstate" where
  "pendconn_unlink_prx p pc st =
     (let waited = q_idx (queue_at (pc_queue pc) (qs_px st)) - pc_queue_idx pc;
          st = upd_strm (pc_strm pc) (\<lambda>s. s\<lparr>prx_queue_pos := prx_queue_pos s + ucast waited\<rparr>) st
      in upd_queue None (\<lambda>q. q\<lparr>q_head := eb32_delete p (q_head q)\<rparr>) st)"

definition pendconn_unlink :: "pend_ref \<Rightarrow> qstate \<Rightarrow> qstate c_result" where
  "pendconn_unlink p st = with_pend p st (\<lambda>pc.
     let q = pc_queue pc;
         oldidx = q_idx (queue_at q (qs_px st))
     in if eb32_in_tree p (q_head (queue_at q (qs_px st))) then
          (let st = upd_queue q (\<lambda>q. q\<lparr>q_head := eb32_delete p (q_head q)\<rparr>) st;
               oldidx = oldidx - pc_queue_idx pc;
               st = upd_strm (pc_strm pc) (\<lambda>s.
                 if q \<noteq> None then s\<lparr>srv_queue_pos := srv_queue_pos s + ucast oldidx\<rparr>
                 else s\<lparr>prx_queue_pos := prx_queue_pos s + ucast oldidx\<rparr>) st;
               st = upd_queue q (\<lambda>q. q\<lparr>q_length := q_length q - 1\<rparr>) st
           in Inr (st\<lparr>qs_px := (qs_px st)\<lparr>totpend := totpend (qs_px st) - 1\<rparr>\<rparr>))
        else Inr st)"

definition pendconn_cond_unlink :: "pend_ref option \<Rightarrow> qstate \<Rightarrow> qstate c_result" where
  "pendconn_cond_unlink po st = (case po of None \<Rightarrow> Inr st | Some p \<Rightarrow> pendconn_unlink p st)"

definition pendconn_free :: "strm_ref \<Rightarrow> qstate \<Rightarrow> qstate c_result" where
  "pendconn_free s st =
     (case pend_pos (qs_strm st s) of
        None \<Rightarrow> Inr st
      | Some p \<Rightarrow>
          c_bind (pendconn_cond_unlink (Some p) st) (\<lambda>st.
          let st = upd_strm s (\<lambda>t. t\<lparr>pend_pos := None\<rparr>) st
          in Inr (st\<lparr>qs_pend := (qs_pend st)(p := None)\<rparr>)))"

section \<open>The next pending connection\<close>

definition pendconn_first :: "u32 \<Rightarrow> pend_ref eb_root \<Rightarrow> (u32 \<times> pend_ref) option" where
  "pendconn_first now_ms pendconns =
     (case eb32_first pendconns of
        None \<Rightarrow> None
      | Some node \<Rightarrow>
          let key = KEY_CLASS_OFFSET_BOUNDARY now_ms (fst node)
          in case eb32_lookup_ge key pendconns of
               None \<Rightarrow> Some node
             | Some node2 \<Rightarrow> if KEY_CLASS (fst node2) \<noteq> KEY_CLASS (fst node) then Some node else Some node2)"

text \<open>Whether the server's pending connection is served before the proxy's.\<close>

definition use_srv_first :: "u32 \<Rightarrow> u32 \<Rightarrow> u32 \<Rightarrow> bool" where
  "use_srv_first now_ms pk ppk =
     (if KEY_CLASS pk < KEY_CLASS ppk then True
      else if KEY_CLASS ppk < KEY_CLASS pk then False
      else
        let pkey = KEY_OFFSET pk; ppkey = KEY_OFFSET ppk;
            pkey = (if pkey < NOW_OFFSET_BOUNDARY now_ms then pkey + 0x100000 else pkey);
            ppkey = (if ppkey < NOW_OFFSET_BOUNDARY now_ms then ppkey + 0x100000 else ppkey)
        in pkey \<le> ppkey)"

definition pend_assign :: "pend_ref \<Rightarrow> pendconn \<Rightarrow> srv_ref \<Rightarrow> qstate \<Rightarrow> qstate" where
  "pend_assign p pc srv st =
     (let st = upd_pend p (\<lambda>pc. pc\<lparr>pc_flags := pc_flags pc OR SF_ASSIGNED, pc_target := Some srv\<rparr>) st;
          st = upd_strm (pc_strm pc) (\<lambda>s. s\<lparr>srv_conn := Some srv\<rparr>) st
      in task_wakeup (pc_strm pc) st)"

definition queue_taken :: "queue_ref \<Rightarrow> qstate \<Rightarrow> qstate" where
  "queue_taken q st = upd_queue q (\<lambda>q. q\<lparr>q_length := q_length q - 1, q_idx := q_idx q + 1\<rparr>) st"

definition use_pp :: "(u32 \<times> pend_ref) \<Rightarrow> srv_ref \<Rightarrow> qstate \<Rightarrow> (qstate \<times> bool) c_result" where
  "use_pp pp srv st = with_pend (snd pp) st (\<lambda>pc.
     let st = pendconn_unlink_prx (snd pp) pc st;
         st = pend_assign (snd pp) pc srv st
     in Inr (queue_taken None st, True))"

definition use_p :: "(u32 \<times> pend_ref) \<Rightarrow> srv_ref \<Rightarrow> qstate \<Rightarrow> (qstate \<times> bool) c_result" where
  "use_p p srv st = with_pend (snd p) st (\<lambda>pc.
     let st = pend_assign (snd p) pc srv st;
         st = pendconn_unlink_srv (snd p) pc st
     in Inr (queue_taken (Some srv) st, True))"

definition pendconn_process_next_strm :: "u32 \<Rightarrow> srv_ref \<Rightarrow> bool \<Rightarrow> qstate \<Rightarrow> (qstate \<times> bool) c_result" where
  "pendconn_process_next_strm now_ms srv px_ok st =
     (let px = qs_px st;
          sq = srv_queue (srv_at px srv);
          p = (if q_length sq \<noteq> 0 then pendconn_first now_ms (q_head sq) else None);
          pp = (if px_ok \<and> q_length (px_queue px) \<noteq> 0 then pendconn_first now_ms (q_head (px_queue px)) else None)
      in case (p, pp) of
           (None, None) \<Rightarrow> Inr (st, False)
         | (Some p, None) \<Rightarrow> use_p p srv st
         | (None, Some pp) \<Rightarrow> use_pp pp srv st
         | (Some p, Some pp) \<Rightarrow>
             if use_srv_first now_ms (fst p) (fst pp) then use_p p srv st else use_pp pp srv st)"

section \<open>Serving the queues of a server\<close>

text \<open>What the queue operations leave of the proxy: everything but the queues and \<^verbatim>\<open>totpend\<close>.\<close>

definition q_view :: "proxy \<Rightarrow> proxy" where
  "q_view px = px\<lparr>px_queue := sample_queue, totpend := 0, px_srv := map (\<lambda>s. s\<lparr>srv_queue := sample_queue\<rparr>) (px_srv px)\<rparr>"

lemma q_view_upd_queue [simp]: "q_view (qs_px (upd_queue q f st)) = q_view (qs_px st)"
proof (cases q)
  case (Some i)
  then show ?thesis
    by (cases "i < length (px_srv (qs_px st))")
       (simp_all add: upd_queue_def q_view_def upd_srv_def map_update list_update_beyond list_update_same_conv)
qed (simp add: upd_queue_def q_view_def)

lemma q_view_others [simp]:
  "qs_px (upd_strm s f st) = qs_px st" "qs_px (upd_pend p g st) = qs_px st" "qs_px (task_wakeup s st) = qs_px st"
  "q_view (px\<lparr>totpend := n\<rparr>) = q_view px"
  by (simp_all add: upd_strm_def upd_pend_def task_wakeup_def q_view_def)

lemma q_view_process:
  "pendconn_process_next_strm now_ms srv px_ok st = Inr (st', ok) \<Longrightarrow> q_view (qs_px st') = q_view (qs_px st)"
  by (auto simp: pendconn_process_next_strm_def use_p_def use_pp_def with_pend_def pendconn_unlink_srv_def pendconn_unlink_prx_def
      pend_assign_def queue_taken_def Let_def split: option.splits if_splits)

lemma q_view_eqD:
  assumes "q_view px' = q_view px"
  shows "length (px_srv px') = length (px_srv px)" "fullconn px' = fullconn px" "beconn px' = beconn px"
    "j < length (px_srv px) \<Longrightarrow> served (srv_at px' j) = served (srv_at px j)"
    "j < length (px_srv px) \<Longrightarrow> cur_eweight (srv_at px' j) = cur_eweight (srv_at px j)"
    "j < length (px_srv px) \<Longrightarrow> srv_dynamic_maxconn now_sec px' (srv_at px' j) = srv_dynamic_maxconn now_sec px (srv_at px j)"
proof -
  let ?v = "\<lambda>s :: server. s\<lparr>srv_queue := sample_queue\<rparr>"
  have m: "map ?v (px_srv px') = map ?v (px_srv px)"
    using arg_cong [OF assms, of px_srv] by (simp add: q_view_def)
  then show len: "length (px_srv px') = length (px_srv px)" by (metis length_map)
  show full: "fullconn px' = fullconn px" and be: "beconn px' = beconn px"
    using arg_cong [OF assms, of fullconn] arg_cong [OF assms, of beconn] by (simp_all add: q_view_def)
  have v: "?v (srv_at px' j) = ?v (srv_at px j)" if "j < length (px_srv px)"
    using m that len by (metis (no_types, lifting) nth_map)
  have f: "served (?v s) = served s" "cur_eweight (?v s) = cur_eweight s" "srv_dynamic_maxconn now_sec q (?v s) = srv_dynamic_maxconn now_sec q s" for s q
    by (simp_all add: srv_dynamic_maxconn_def Let_def)
  show "served (srv_at px' j) = served (srv_at px j)" if "j < length (px_srv px)" using v [OF that] f(1) by metis
  show "cur_eweight (srv_at px' j) = cur_eweight (srv_at px j)" if "j < length (px_srv px)" using v [OF that] f(2) by metis
  have "srv_dynamic_maxconn now_sec px' s = srv_dynamic_maxconn now_sec px s" for s
    by (simp add: srv_dynamic_maxconn_def full be)
  then show "srv_dynamic_maxconn now_sec px' (srv_at px' j) = srv_dynamic_maxconn now_sec px (srv_at px j)"
    if "j < length (px_srv px)" using v [OF that] f(3) by metis
qed

text \<open>The inner loop of \<^verbatim>\<open>process_srv_queue\<close> returns the number of streams served and whether it
  stopped for want of streams. \<^verbatim>\<open>served\<close> and \<^verbatim>\<open>maxconn\<close> are \<^verbatim>\<open>int\<close> here.\<close>

definition srv_served_inc :: "srv_ref \<Rightarrow> qstate \<Rightarrow> qstate" where
  "srv_served_inc s st = st\<lparr>qs_px := upd_srv s (\<lambda>t. t\<lparr>served := served t + 1\<rparr>) (qs_px st)\<rparr>"

lemma sless_inc_decreases:
  fixes a b :: c_int
  assumes "a <s b"
  shows "nat (sint b - sint (a + 1)) < nat (sint b - sint a)"
proof -
  have lt: "sint a < sint b" using assms by (simp add: word_sless_alt)
  have "sint b < 2 ^ 31" "- (2 ^ 31) \<le> sint a" using sint_less [of b] sint_ge [of a] by simp_all
  then have "signed_take_bit 31 (sint a + 1) = sint a + 1" using lt by (intro signed_take_bit_int_eq_self) simp_all
  then have "sint (a + 1) = sint a + 1" by (simp add: sint_word_ariths)
  then show ?thesis using lt by simp
qed

lemma c_bind_cong [fundef_cong]:
  "r = r' \<Longrightarrow> (\<And>x. r' = Inr x \<Longrightarrow> f x = g x) \<Longrightarrow> c_bind r f = c_bind r' g"
  by (cases r') simp_all

function srv_queue_loop :: "u32 \<Rightarrow> srv_ref \<Rightarrow> bool \<Rightarrow> c_int \<Rightarrow> qstate \<Rightarrow> nat \<Rightarrow> (qstate \<times> nat \<times> bool) c_result" where
  "srv_queue_loop now_ms s px_ok maxc st n =
     (if \<not> s < length (px_srv (qs_px st)) then Inl NullDeref
      else if served (srv_at (qs_px st) s) <s maxc then
        c_bind (pendconn_process_next_strm now_ms s px_ok st) (\<lambda>(st', ok).
          if \<not> ok then Inr (st', n, True)
          else srv_queue_loop now_ms s px_ok maxc (srv_served_inc s st') (Suc n))
      else Inr (st, n, False))"
  by auto
termination
proof (relation "measure (\<lambda>(now_ms, s, px_ok, maxc, st, n). nat (sint maxc - sint (served (srv_at (qs_px st) s))))", goal_cases)
  case (2 now_ms s px_ok maxc st n x st' ok)
  then have "q_view (qs_px st') = q_view (qs_px st)" using q_view_process by blast
  from q_view_eqD(1,4) [OF this] 2 show ?case
    using sless_inc_decreases [of "served (srv_at (qs_px st) s)" maxc] by (simp add: srv_served_inc_def)
qed simp

declare srv_queue_loop.simps [simp del]

lemma dynamic_maxconn_served_inc:
  "s < length (px_srv (qs_px st)) \<Longrightarrow>
     srv_dynamic_maxconn now_sec (qs_px (srv_served_inc s st)) (srv_at (qs_px (srv_served_inc s st)) s) =
     srv_dynamic_maxconn now_sec (qs_px st) (srv_at (qs_px st) s)"
  by (simp add: srv_served_inc_def srv_dynamic_maxconn_def Let_def)

lemma srv_queue_loop_exit:
  assumes "srv_queue_loop now_ms s px_ok maxc st n = Inr (st', n', stop)"
  shows "(stop \<or> \<not> served (srv_at (qs_px st') s) <s maxc) \<and> length (px_srv (qs_px st')) = length (px_srv (qs_px st)) \<and>
    cur_eweight (srv_at (qs_px st') s) = cur_eweight (srv_at (qs_px st) s) \<and>
    srv_dynamic_maxconn now_sec (qs_px st') (srv_at (qs_px st') s) = srv_dynamic_maxconn now_sec (qs_px st) (srv_at (qs_px st) s)"
  using assms
proof (induction now_ms s px_ok maxc st n rule: srv_queue_loop.induct)
  case (1 now_ms s px_ok maxc st n)
  show ?case
  proof (cases "s < length (px_srv (qs_px st)) \<and> served (srv_at (qs_px st) s) <s maxc")
    case False
    then show ?thesis using 1(2) by (auto simp: srv_queue_loop.simps [of now_ms s px_ok maxc st n] split: if_splits)
  next
    case True
    then obtain st1 ok where p: "pendconn_process_next_strm now_ms s px_ok st = Inr (st1, ok)"
      and r: "(if \<not> ok then Inr (st1, n, True) else srv_queue_loop now_ms s px_ok maxc (srv_served_inc s st1) (Suc n)) = Inr (st', n', stop)"
      using 1(2) by (auto simp: srv_queue_loop.simps [of now_ms s px_ok maxc st n] c_bind_Inr_iff)
    note v = q_view_eqD [OF q_view_process [OF p]]
    show ?thesis
    proof (cases ok)
      case False
      then show ?thesis using r v True by auto
    next
      case ok: True
      then have "srv_queue_loop now_ms s px_ok maxc (srv_served_inc s st1) (Suc n) = Inr (st', n', stop)" using r by simp
      from 1(1) [OF _ _ p refl _ this] True ok v dynamic_maxconn_served_inc [of s st1] show ?thesis
        by (simp add: srv_served_inc_def)
    qed
  qed
qed

function srv_queue_rounds :: "u32 \<Rightarrow> int \<Rightarrow> srv_ref \<Rightarrow> bool \<Rightarrow> bool \<Rightarrow> qstate \<Rightarrow> nat \<Rightarrow> (qstate \<times> nat) c_result" where
  "srv_queue_rounds now_ms now_sec s px_ok stop st n =
     (let maxc = srv_dynamic_maxconn now_sec (qs_px st) (srv_at (qs_px st) s) in
      if \<not> stop \<and> served (srv_at (qs_px st) s) <s maxc then
        c_bind (srv_queue_loop now_ms s px_ok maxc st n) (\<lambda>(st', n', stop').
          srv_queue_rounds now_ms now_sec s px_ok stop' st' n')
      else Inr (st, n))"
  by auto
termination
proof (relation "measure (\<lambda>(now_ms, now_sec, s, px_ok, stop, st, n).
    if \<not> stop \<and> served (srv_at (qs_px st) s) <s srv_dynamic_maxconn now_sec (qs_px st) (srv_at (qs_px st) s) then 1 else 0)", goal_cases)
  case (2 now_ms now_sec s px_ok stop st n maxc x st' y n' stop')
  then show ?case using srv_queue_loop_exit [of now_ms s px_ok _ st n st' n' stop' now_sec] by auto
qed simp

declare srv_queue_rounds.simps [simp del]

text \<open>\<^verbatim>\<open>server_take_conn\<close> is the callback of the balancing algorithm.\<close>

definition process_srv_queue ::
    "(srv_ref \<Rightarrow> proxy \<Rightarrow> proxy c_result) option \<Rightarrow> u32 \<Rightarrow> int \<Rightarrow> srv_ref \<Rightarrow> qstate \<Rightarrow> qstate c_result" where
  "process_srv_queue server_take_conn now_ms now_sec s st =
     (let p = qs_px st;
          ref = (case track (srv_at p s) of Some t \<Rightarrow> t | None \<Rightarrow> s);
          px_ok = (srv_currently_usable (srv_at p ref) \<and>
            (\<not> is_backup (srv_at p s) \<or> (srv_act p = 0 \<and> (Some s = fbck p \<or> use_all_bk p))))
      in c_bind (srv_queue_rounds now_ms now_sec s px_ok False st 0) (\<lambda>(st, n).
           if n = 0 then Inr st
           else
             let p = (qs_px st)\<lparr>totpend := totpend (qs_px st) - of_nat n, px_served := px_served (qs_px st) + of_nat n\<rparr>
             in case server_take_conn of
                  None \<Rightarrow> Inr (st\<lparr>qs_px := p\<rparr>)
                | Some f \<Rightarrow> c_bind (f s p) (\<lambda>p. Inr (st\<lparr>qs_px := p\<rparr>))))"

section \<open>Queueing a stream\<close>

text \<open>The loop on \<^verbatim>\<open>max_ptr\<close>, which is the counter of the server or of the proxy.\<close>

definition update_nbpend_max :: "queue_ref \<Rightarrow> u32 \<Rightarrow> proxy \<Rightarrow> proxy" where
  "update_nbpend_max q new_max px = (case q of
     Some i \<Rightarrow> upd_srv i (\<lambda>s. if srv_nbpend_max s < new_max then s\<lparr>srv_nbpend_max := new_max\<rparr> else s) px
   | None \<Rightarrow> if px_nbpend_max px < new_max then px\<lparr>px_nbpend_max := new_max\<rparr> else px)"

definition pendconn_add :: "u32 \<Rightarrow> pend_ref option \<Rightarrow> strm_ref \<Rightarrow> qstate \<Rightarrow> qstate \<times> pend_ref option" where
  "pendconn_add now_ms alloc strm st =
     (case alloc of
        None \<Rightarrow> (st, None)
      | Some p \<Rightarrow>
          let s = qs_strm st strm;
              key = MAKE_KEY now_ms (priority_class s) (priority_offset s);
              q = (if strm_flags s AND SF_ASSIGNED \<noteq> 0 then strm_target s else None);
              idx = q_idx (queue_at q (qs_px st));
              st = st\<lparr>qs_pend := (qs_pend st)(p \<mapsto> \<lparr>pc_flags = strm_flags s, pc_queue_idx = idx - 1, pc_strm = strm,
                     pc_queue = q, pc_target = None\<rparr>)\<rparr>;
              st = upd_strm strm (\<lambda>s. s\<lparr>pend_pos := Some p\<rparr>) st;
              st = upd_queue q (\<lambda>q. q\<lparr>q_length := q_length q + 1\<rparr>) st;
              new_max = q_length (queue_at q (qs_px st));
              st = st\<lparr>qs_px := update_nbpend_max q new_max (qs_px st)\<rparr>;
              st = upd_queue q (\<lambda>q. q\<lparr>q_head := eb32_insert key p (q_head q)\<rparr>) st
          in (st\<lparr>qs_px := (qs_px st)\<lparr>totpend := totpend (qs_px st) + 1\<rparr>\<rparr>, Some p))"

section \<open>Moving pending connections\<close>

text \<open>The loop of \<^verbatim>\<open>pendconn_redistribute\<close> fetches the next node before it removes the current
  one, so it visits the nodes the queue had at the start.\<close>

fun redistribute_loop :: "pend_ref list \<Rightarrow> qstate \<Rightarrow> nat \<Rightarrow> (qstate \<times> nat) c_result" where
  "redistribute_loop [] st n = Inr (st, n)"
| "redistribute_loop (p # nodes) st n = with_pend p st (\<lambda>pc.
     if pc_flags pc AND SF_FORCE_PRST \<noteq> 0 then redistribute_loop nodes st n
     else
       let st = pendconn_unlink_srv p pc st;
           st = upd_pend p (\<lambda>pc. pc\<lparr>pc_flags := pc_flags pc AND NOT (SF_DIRECT OR SF_ASSIGNED OR SF_ADDR_SET)\<rparr>) st;
           st = task_wakeup (pc_strm pc) st
       in redistribute_loop nodes st (Suc n))"

definition pendconn_redistribute :: "srv_ref \<Rightarrow> qstate \<Rightarrow> (qstate \<times> nat) c_result" where
  "pendconn_redistribute s st =
     (if px_options (qs_px st) AND (PR_O_REDISP OR PR_O_PERSIST) \<noteq> PR_O_REDISP then Inr (st, 0)
      else c_bind (redistribute_loop (eb_nodes (q_head (srv_queue (srv_at (qs_px st) s)))) st 0) (\<lambda>(st, n).
        if n = 0 then Inr (st, 0)
        else
          let st = upd_queue (Some s) (\<lambda>q. q\<lparr>q_length := q_length q - of_nat n\<rparr>) st
          in Inr (st\<lparr>qs_px := (qs_px st)\<lparr>totpend := totpend (qs_px st) - of_nat n\<rparr>\<rparr>, n)))"

lemma pendconn_first_in: "pendconn_first now_ms t = Some e \<Longrightarrow> e \<in> set t"
  by (auto simp: pendconn_first_def Let_def dest: eb32_first_in eb32_lookup_ge_Some(1) split: option.splits if_splits)

definition grab_one :: "(u32 \<times> pend_ref) \<Rightarrow> pendconn \<Rightarrow> srv_ref \<Rightarrow> qstate \<Rightarrow> qstate" where
  "grab_one p pc s st =
     (let st = pendconn_unlink_prx (snd p) pc st;
          st = upd_pend (snd p) (\<lambda>pc. pc\<lparr>pc_target := Some s\<rparr>) st
      in task_wakeup (pc_strm pc) st)"

lemma grab_one_queue: "q_head (px_queue (qs_px (grab_one p pc s st))) = eb32_delete (snd p) (q_head (px_queue (qs_px st)))"
  by (simp add: grab_one_def pendconn_unlink_prx_def upd_queue_def upd_strm_def upd_pend_def task_wakeup_def Let_def)

lemma delete_in_shorter: "e \<in> set t \<Longrightarrow> length (eb32_delete (snd e) t) < length t"
  unfolding eb32_delete_def by (rule length_filter_less [of e]) simp_all

function grab_loop :: "u32 \<Rightarrow> c_int \<Rightarrow> srv_ref \<Rightarrow> qstate \<Rightarrow> nat \<Rightarrow> (qstate \<times> nat) c_result" where
  "grab_loop now_ms maxc s st n =
     (case pendconn_first now_ms (q_head (px_queue (qs_px st))) of
        None \<Rightarrow> Inr (st, n)
      | Some p \<Rightarrow>
          if maxconn (srv_at (qs_px st) s) \<noteq> 0 \<and> maxc \<le>s served (srv_at (qs_px st) s) + of_nat n then Inr (st, n)
          else case qs_pend st (snd p) of
            None \<Rightarrow> Inl NullDeref
          | Some pc \<Rightarrow> grab_loop now_ms maxc s (grab_one p pc s st) (Suc n))"
  by auto
termination
proof (relation "measure (\<lambda>(now_ms, maxc, s, st, n). length (q_head (px_queue (qs_px st))))", goal_cases)
  case (2 now_ms maxc s st n e pc)
  then show ?case using delete_in_shorter [OF pendconn_first_in] by (simp add: grab_one_queue)
qed simp

declare grab_loop.simps [simp del]

definition pendconn_grab_from_px :: "u32 \<Rightarrow> int \<Rightarrow> srv_ref \<Rightarrow> qstate \<Rightarrow> (qstate \<times> nat) c_result" where
  "pendconn_grab_from_px now_ms now_sec s st =
     (let px = qs_px st; sv = srv_at px s in
      if \<not> srv_currently_usable sv then Inr (st, 0)
      else if is_backup sv \<and> (srv_act px \<noteq> 0 \<or> (Some s \<noteq> fbck px \<and> \<not> use_all_bk px)) then Inr (st, 0)
      else c_bind (grab_loop now_ms (srv_dynamic_maxconn now_sec px sv) s st 0) (\<lambda>(st, n).
        if n = 0 then Inr (st, 0)
        else
          let st = upd_queue None (\<lambda>q. q\<lparr>q_length := q_length q - of_nat n\<rparr>) st
          in Inr (st\<lparr>qs_px := (qs_px st)\<lparr>totpend := totpend (qs_px st) - of_nat n\<rparr>\<rparr>, n)))"

section \<open>Leaving the queue\<close>

text \<open>The result is 1 while the stream is still queued.\<close>

definition pendconn_dequeue :: "strm_ref \<Rightarrow> qstate \<Rightarrow> (qstate \<times> nat) c_result" where
  "pendconn_dequeue strm st =
     (case pend_pos (qs_strm st strm) of
        None \<Rightarrow> Inl Aborted
      | Some p \<Rightarrow> with_pend p st (\<lambda>pc.
          if eb32_in_tree p (q_head (queue_at (pc_queue pc) (qs_px st))) then Inr (st, 1)
          else
            let keep = SF_DIRECT OR SF_ASSIGNED OR SF_ADDR_SET;
                st = upd_strm strm (\<lambda>s. s\<lparr>strm_flags := (strm_flags s AND NOT keep) OR (pc_flags pc AND keep)\<rparr>) st;
                st = (case pc_target pc of
                  Some t \<Rightarrow> upd_strm strm (\<lambda>s. s\<lparr>strm_target := Some t, strm_flags := strm_flags s OR SF_ASSIGNED\<rparr>) st
                | None \<Rightarrow> st);
                st = upd_strm strm (\<lambda>s. s\<lparr>pend_pos := None\<rparr>) st
            in Inr (st\<lparr>qs_pend := (qs_pend st)(p := None)\<rparr>, 0)))"

section \<open>Priorities of streams\<close>

text \<open>The rules \<^verbatim>\<open>set-priority-class\<close> and \<^verbatim>\<open>set-priority-offset\<close>. The sample is a signed
  64-bit integer, or nothing; it is passed as an \<^verbatim>\<open>int\<close> and so loses its upper half before it
  is limited.\<close>

definition action_set_priority_class :: "int option \<Rightarrow> strm_ref \<Rightarrow> qstate \<Rightarrow> qstate" where
  "action_set_priority_class smp strm st = (case smp of
     None \<Rightarrow> st
   | Some v \<Rightarrow> upd_strm strm (\<lambda>s. s\<lparr>priority_class := queue_limit_class (sint (word_of_int v :: c_int))\<rparr>) st)"

definition action_set_priority_offset :: "int option \<Rightarrow> strm_ref \<Rightarrow> qstate \<Rightarrow> qstate" where
  "action_set_priority_offset smp strm st = (case smp of
     None \<Rightarrow> st
   | Some v \<Rightarrow> upd_strm strm (\<lambda>s. s\<lparr>priority_offset := queue_limit_offset (sint (word_of_int v :: c_int))\<rparr>) st)"

definition smp_fetch_priority_class :: "strm_ref option \<Rightarrow> qstate \<Rightarrow> int option" where
  "smp_fetch_priority_class strm st = map_option (\<lambda>s. priority_class (qs_strm st s)) strm"

definition smp_fetch_priority_offset :: "strm_ref option \<Rightarrow> qstate \<Rightarrow> int option" where
  "smp_fetch_priority_offset strm st = map_option (\<lambda>s. priority_offset (qs_strm st s)) strm"

text \<open>A sample in the documented range reads back, and any other leaves a class the key has room for.\<close>

lemma priority_class_roundtrip:
  assumes "-0x7ff \<le> v" and "v \<le> 0x7ff"
  shows "smp_fetch_priority_class (Some s) (action_set_priority_class (Some v) s st) = Some v"
proof -
  have "sint (word_of_int v :: c_int) = v" using assms by (simp add: signed_of_int signed_take_bit_int_eq_self)
  then show ?thesis using assms
    by (simp add: smp_fetch_priority_class_def action_set_priority_class_def upd_strm_def queue_limit_class_def)
qed

lemma priority_class_limits:
  "-0x7ff \<le> priority_class (qs_strm (action_set_priority_class (Some v) s st) s) \<and>
   priority_class (qs_strm (action_set_priority_class (Some v) s st) s) \<le> 0x7ff"
  by (simp add: action_set_priority_class_def upd_strm_def queue_limit_class_def)

end
