(* ===== verification/Pendconn_Inv.thy ===== *)
theory Pendconn_Inv
  imports Pendconn
begin

text \<open>
  The queues are consistent: every queued pending connection is allocated, names its queue and its
  stream, and the lengths and the total of the proxy count the queued connections. Within a function
  the counters lag behind the trees, by \<open>L q\<close> for a queue and by \<open>D\<close> for the total.
\<close>

section \<open>The invariant\<close>

definition queue_refs :: "proxy \<Rightarrow> queue_ref set" where
  "queue_refs px = insert None (Some ` {..<length (px_srv px)})"

abbreviation q_tree :: "queue_ref \<Rightarrow> qstate \<Rightarrow> pend_ref eb_root" where
  "q_tree q st \<equiv> q_head (queue_at q (qs_px st))"

definition queued :: "qstate \<Rightarrow> nat" where
  "queued st = (\<Sum>q \<in> queue_refs (qs_px st). length (q_tree q st))"

definition tree_ok :: "queue_ref \<Rightarrow> qstate \<Rightarrow> bool" where
  "tree_ok q st \<longleftrightarrow> eb_ordered (q_tree q st) \<and>
     (\<forall>p \<in> set (eb_nodes (q_tree q st)). \<exists>pc. qs_pend st p = Some pc \<and> pc_queue pc = q \<and> pc_target pc = None)"

definition pend_ok :: "qstate \<Rightarrow> bool" where
  "pend_ok st \<longleftrightarrow>
     (\<forall>p pc. qs_pend st p = Some pc \<longrightarrow> pc_queue pc \<in> queue_refs (qs_px st) \<and> pend_pos (qs_strm st (pc_strm pc)) = Some p) \<and>
     (\<forall>s p. pend_pos (qs_strm st s) = Some p \<longrightarrow> (\<exists>pc. qs_pend st p = Some pc \<and> pc_strm pc = s))"

definition queue_inv :: "(queue_ref \<Rightarrow> nat) \<Rightarrow> nat \<Rightarrow> qstate \<Rightarrow> bool" where
  "queue_inv L D st \<longleftrightarrow>
     (\<forall>q \<in> queue_refs (qs_px st). tree_ok q st \<and> q_length (queue_at q (qs_px st)) = of_nat (length (q_tree q st) + L q)) \<and>
     pend_ok st \<and> totpend (qs_px st) = of_nat (queued st + D)"

abbreviation queue_ok :: "qstate \<Rightarrow> bool" where
  "queue_ok \<equiv> queue_inv (\<lambda>_. 0) 0"

lemma finite_queue_refs [simp]: "finite (queue_refs px)"
  by (simp add: queue_refs_def)

lemma queue_refs_cong: "length (px_srv px) = length (px_srv px') \<Longrightarrow> queue_refs px = queue_refs px'"
  by (simp add: queue_refs_def)

section \<open>Effects of the updates\<close>

lemma queue_refs_upd [simp]:
  "queue_refs (qs_px (upd_queue q f st)) = queue_refs (qs_px st)" "queue_refs (px\<lparr>totpend := x\<rparr>) = queue_refs px"
  "queue_refs (px\<lparr>px_served := y\<rparr>) = queue_refs px" "queue_refs (upd_srv i h px) = queue_refs px"
  by (auto simp: queue_refs_def upd_queue_def split: option.splits)

lemma px_queue_upd_srv [simp]: "px_queue (upd_srv i h px) = px_queue px" "totpend (upd_srv i h px) = totpend px"
  by (simp_all add: upd_srv_def)

lemma queue_at_upd_queue:
  "q' \<in> queue_refs (qs_px st) \<Longrightarrow>
     queue_at q' (qs_px (upd_queue q f st)) = (if q' = q then f (queue_at q (qs_px st)) else queue_at q' (qs_px st))"
  by (auto simp: queue_at_def upd_queue_def queue_refs_def split: option.splits)

lemma queue_at_upd [simp]:
  "queue_at q (px\<lparr>totpend := x\<rparr>) = queue_at q px" "queue_at q (px\<lparr>px_served := y\<rparr>) = queue_at q px"
  by (auto simp: queue_at_def split: option.splits)

lemma queue_at_upd_srv:
  "(\<And>s. srv_queue (h s) = srv_queue s) \<Longrightarrow> q \<in> queue_refs px \<Longrightarrow> queue_at q (upd_srv i h px) = queue_at q px"
  by (auto simp: queue_at_def queue_refs_def split: option.splits)

lemma upd_queue_fields [simp]:
  "totpend (qs_px (upd_queue q f st)) = totpend (qs_px st)" "qs_pend (upd_queue q f st) = qs_pend st"
  "qs_strm (upd_queue q f st) = qs_strm st"
  by (auto simp: upd_queue_def upd_srv_def split: option.splits)

lemma upd_strm_fields [simp]:
  "qs_pend (upd_strm s f st) = qs_pend st" "qs_strm (upd_strm s f st) t = (if t = s then f (qs_strm st s) else qs_strm st t)"
  by (simp_all add: upd_strm_def)

lemma upd_pend_fields [simp]:
  "qs_pend (upd_pend p f st) r = (if r = p then map_option f (qs_pend st p) else qs_pend st r)" "qs_strm (upd_pend p f st) = qs_strm st"
  by (simp_all add: upd_pend_def)

lemma task_wakeup_fields [simp]: "qs_pend (task_wakeup s st) = qs_pend st" "qs_strm (task_wakeup s st) = qs_strm st"
  by (simp_all add: task_wakeup_def)

lemma qs_woken_upd [simp]:
  "qs_woken (upd_queue q f st) = qs_woken st" "qs_woken (upd_strm s g st) = qs_woken st" "qs_woken (upd_pend p h st) = qs_woken st"
  "qs_woken (task_wakeup s st) = qs_woken st @ [s]"
  by (simp_all add: upd_queue_def upd_strm_def upd_pend_def task_wakeup_def)

text \<open>States that differ in nothing the invariant reads.\<close>

definition queue_obs :: "qstate \<Rightarrow> qstate \<Rightarrow> bool" where
  "queue_obs st st' \<longleftrightarrow>
     queue_refs (qs_px st') = queue_refs (qs_px st) \<and> totpend (qs_px st') = totpend (qs_px st) \<and>
     (\<forall>q \<in> queue_refs (qs_px st). q_tree q st' = q_tree q st \<and> q_length (queue_at q (qs_px st')) = q_length (queue_at q (qs_px st))) \<and>
     (\<forall>s. pend_pos (qs_strm st' s) = pend_pos (qs_strm st s)) \<and>
     (\<forall>p. map_option (\<lambda>pc. (pc_strm pc, pc_queue pc)) (qs_pend st' p) = map_option (\<lambda>pc. (pc_strm pc, pc_queue pc)) (qs_pend st p)) \<and>
     (\<forall>q \<in> queue_refs (qs_px st). \<forall>p \<in> set (eb_nodes (q_tree q st)).
        map_option pc_target (qs_pend st' p) = map_option pc_target (qs_pend st p))"

lemma pend_ok_obs:
  assumes "queue_refs (qs_px st') = queue_refs (qs_px st)"
    and "\<And>s. pend_pos (qs_strm st' s) = pend_pos (qs_strm st s)"
    and "\<And>p. map_option (\<lambda>pc. (pc_strm pc, pc_queue pc)) (qs_pend st' p) = map_option (\<lambda>pc. (pc_strm pc, pc_queue pc)) (qs_pend st p)"
    and "pend_ok st"
  shows "pend_ok st'"
proof -
  have pc: "\<exists>pc. qs_pend st p = Some pc \<and> pc_strm pc = pc_strm pc' \<and> pc_queue pc = pc_queue pc'" if "qs_pend st' p = Some pc'" for p pc'
    using assms(3) [of p] that by (cases "qs_pend st p") auto
  have pc': "\<exists>pc'. qs_pend st' p = Some pc' \<and> pc_strm pc' = pc_strm pc" if "qs_pend st p = Some pc" for p pc
    using assms(3) [of p] that by (cases "qs_pend st' p") auto
  show ?thesis
    unfolding pend_ok_def assms(1,2)
  proof (intro conjI allI impI)
    fix p pc1 assume "qs_pend st' p = Some pc1"
    from pc [OF this] obtain pc0 where "qs_pend st p = Some pc0" "pc_strm pc0 = pc_strm pc1" "pc_queue pc0 = pc_queue pc1" by blast
    with assms(4) show "pc_queue pc1 \<in> queue_refs (qs_px st)" "pend_pos (qs_strm st (pc_strm pc1)) = Some p"
      unfolding pend_ok_def by metis+
  next
    fix s p assume "pend_pos (qs_strm st s) = Some p"
    then obtain pc1 where "qs_pend st p = Some pc1" "pc_strm pc1 = s" using assms(4) unfolding pend_ok_def by blast
    with pc' show "\<exists>pc. qs_pend st' p = Some pc \<and> pc_strm pc = s" by auto
  qed
qed

lemma queue_obs_inv: "queue_obs st st' \<Longrightarrow> queue_inv L D st \<Longrightarrow> queue_inv L D st'"
proof -
  assume obs: "queue_obs st st'" and inv: "queue_inv L D st"
  note o = obs [unfolded queue_obs_def]
  have "tree_ok q st'" if q: "q \<in> queue_refs (qs_px st)" for q
    unfolding tree_ok_def
  proof (intro conjI ballI)
    show "eb_ordered (q_tree q st')" using o inv q by (simp add: queue_inv_def tree_ok_def)
    fix p assume "p \<in> set (eb_nodes (q_tree q st'))"
    then have p: "p \<in> set (eb_nodes (q_tree q st))" using o q by simp
    then obtain pc where pc: "qs_pend st p = Some pc" "pc_queue pc = q" "pc_target pc = None"
      using inv q by (auto simp: queue_inv_def tree_ok_def)
    have "map_option (\<lambda>pc. (pc_strm pc, pc_queue pc)) (qs_pend st' p) = map_option (\<lambda>pc. (pc_strm pc, pc_queue pc)) (qs_pend st p)"
      using o by blast
    moreover have "map_option pc_target (qs_pend st' p) = map_option pc_target (qs_pend st p)" using o p q by blast
    ultimately show "\<exists>pc. qs_pend st' p = Some pc \<and> pc_queue pc = q \<and> pc_target pc = None"
      using pc by auto
  qed
  moreover have "queued st' = queued st" unfolding queued_def using o by (intro sum.cong) auto
  moreover have "pend_ok st'" using pend_ok_obs o inv unfolding queue_inv_def by blast
  ultimately show ?thesis using o inv by (simp add: queue_inv_def)
qed

section \<open>Removal from a queue\<close>

lemma length_delete_node:
  assumes "eb_ordered t" and "p \<in> set (eb_nodes t)"
  shows "Suc (length (eb32_delete p t)) = length t"
proof -
  have d: "distinct (map snd t)" using assms(1) by (simp add: eb_ordered_def eb_nodes_def)
  have m: "map snd (eb32_delete p t) = filter (\<lambda>x. x \<noteq> p) (map snd t)" by (simp add: eb32_delete_def filter_map comp_def)
  have "p \<in> set (map snd t)" using assms(2) by (simp add: eb_nodes_def)
  then have "length (remove1 p (map snd t)) = length t - 1" "length t > 0" by (auto simp: length_remove1)
  moreover have "filter (\<lambda>x. x \<noteq> p) (map snd t) = remove1 p (map snd t)"
    using d by (simp add: distinct_remove1_removeAll removeAll_filter_not_eq neq_commute)
  ultimately show ?thesis using arg_cong [OF m, of length] by simp
qed

text \<open>A pending connection leaves queue \<open>q\<close>; the counters are not updated yet.\<close>

lemma queue_inv_remove:
  assumes inv: "queue_inv L D st" and q: "q \<in> queue_refs (qs_px st)" and p: "p \<in> set (eb_nodes (q_tree q st))"
    and refs: "queue_refs (qs_px st') = queue_refs (qs_px st)" and tot: "totpend (qs_px st') = totpend (qs_px st)"
    and tree: "\<And>r. r \<in> queue_refs (qs_px st) \<Longrightarrow>
      q_tree r st' = (if r = q then eb32_delete p (q_tree q st) else q_tree r st) \<and>
      q_length (queue_at r (qs_px st')) = q_length (queue_at r (qs_px st))"
    and pos: "\<And>s. pend_pos (qs_strm st' s) = pend_pos (qs_strm st s)"
    and pend: "\<And>r. map_option (\<lambda>pc. (pc_strm pc, pc_queue pc)) (qs_pend st' r) = map_option (\<lambda>pc. (pc_strm pc, pc_queue pc)) (qs_pend st r)"
      "\<And>r. r \<noteq> p \<Longrightarrow> qs_pend st' r = qs_pend st r"
  shows "queue_inv (L(q := Suc (L q))) (Suc D) st'"
proof -
  have ord: "eb_ordered (q_tree r st)" if "r \<in> queue_refs (qs_px st)" for r using inv that by (simp add: queue_inv_def tree_ok_def)
  note len = length_delete_node [OF ord [OF q] p]
  have mem: "\<exists>pc. qs_pend st p = Some pc \<and> pc_queue pc = r"
    if "r \<in> queue_refs (qs_px st)" "p \<in> set (eb_nodes (q_tree r st))" for r
    using inv that unfolding queue_inv_def tree_ok_def by blast
  have notin: "p \<notin> set (eb_nodes (q_tree r st))" if "r \<in> queue_refs (qs_px st)" "r \<noteq> q" for r
    using mem [OF that(1)] mem [OF q p] that(2) by auto
  have "tree_ok r st'" if r: "r \<in> queue_refs (qs_px st)" for r
  proof -
    have "set (eb_nodes (q_tree r st')) = set (eb_nodes (q_tree r st)) - {p}" using tree [OF r] notin [OF r] by auto
    moreover have "eb_ordered (q_tree r st')" using tree [OF r] ord [OF r] ord [OF q] eb_ordered_delete by auto
    ultimately show ?thesis using inv r pend(2) by (auto simp: queue_inv_def tree_ok_def)
  qed
  moreover have "q_length (queue_at r (qs_px st')) = of_nat (length (q_tree r st') + (L(q := Suc (L q))) r)"
    if r: "r \<in> queue_refs (qs_px st)" for r
  proof -
    have "q_length (queue_at r (qs_px st)) = of_nat (length (q_tree r st) + L r)" using inv r by (simp add: queue_inv_def)
    moreover have "length (q_tree r st') + (L(q := Suc (L q))) r = length (q_tree r st) + L r" using tree [OF r] len by auto
    ultimately show ?thesis using tree [OF r] by simp
  qed
  moreover have "pend_ok st'" using pend_ok_obs [OF refs pos pend(1)] inv by (simp add: queue_inv_def)
  moreover have "Suc (queued st') = queued st"
  proof -
    have "queued st = length (q_tree q st) + (\<Sum>r \<in> queue_refs (qs_px st) - {q}. length (q_tree r st))"
      unfolding queued_def using q by (simp add: sum.remove)
    moreover have "queued st' = length (q_tree q st') + (\<Sum>r \<in> queue_refs (qs_px st) - {q}. length (q_tree r st'))"
      unfolding queued_def refs using q by (simp add: sum.remove)
    moreover have "(\<Sum>r \<in> queue_refs (qs_px st) - {q}. length (q_tree r st')) = (\<Sum>r \<in> queue_refs (qs_px st) - {q}. length (q_tree r st))"
      using tree by (intro sum.cong) auto
    ultimately show ?thesis using tree [OF q] len by simp
  qed
  then have "queued st + D = queued st' + Suc D" by simp
  then have "totpend (qs_px st') = of_nat (queued st' + Suc D)" using inv tot unfolding queue_inv_def by metis
  ultimately show ?thesis unfolding queue_inv_def refs by blast
qed

text \<open>The counters catch up.\<close>

lemma queue_inv_length:
  assumes "queue_inv (L(q := L q + k)) D st" and "q \<in> queue_refs (qs_px st)"
    and "\<And>r. q_head (f r) = q_head r" "\<And>r. q_length (f r) = q_length r - of_nat k"
  shows "queue_inv L D (upd_queue q f st)"
proof -
  have tree: "q_tree r (upd_queue q f st) = q_tree r st" if "r \<in> queue_refs (qs_px st)" for r
    using that assms(3) by (simp add: queue_at_upd_queue)
  have "q_length (queue_at r (qs_px (upd_queue q f st))) = of_nat (length (q_tree r st) + L r)" if "r \<in> queue_refs (qs_px st)" for r
    using assms(1,4) that by (auto simp: queue_at_upd_queue queue_inv_def)
  moreover have "queued (upd_queue q f st) = queued st" unfolding queued_def using tree by simp
  moreover have "pend_ok (upd_queue q f st)" using assms(1) by (simp add: queue_inv_def pend_ok_def)
  ultimately show ?thesis using assms(1) tree by (simp add: queue_inv_def tree_ok_def)
qed

lemma queue_inv_totpend:
  assumes "queue_inv L (D + k) st"
  shows "queue_inv L D (st\<lparr>qs_px := (qs_px st)\<lparr>totpend := totpend (qs_px st) - of_nat k\<rparr>\<rparr>)"
  using assms by (simp add: queue_inv_def tree_ok_def pend_ok_def queued_def)

section \<open>Operations\<close>

lemma queue_inv_pend:
  assumes "queue_inv L D st" and "q \<in> queue_refs (qs_px st)" and "p \<in> set (eb_nodes (q_tree q st))"
  obtains pc where "qs_pend st p = Some pc" "pc_queue pc = q" "pc_target pc = None"
  using assms unfolding queue_inv_def tree_ok_def by blast

text \<open>No queue has so many entries that its length wraps around.\<close>

definition queues_small :: "qstate \<Rightarrow> bool" where
  "queues_small st \<longleftrightarrow> (\<forall>q \<in> queue_refs (qs_px st). length (q_tree q st) < 2 ^ 32)"

lemma length_delete_le: "length (eb32_delete p t) \<le> length t"
  by (simp add: eb32_delete_def)

lemma use_p_inv:
  assumes inv: "queue_inv L D st" and s: "s < length (px_srv (qs_px st))" and p: "snd e \<in> set (eb_nodes (q_tree (Some s) st))"
  shows "\<exists>st'. use_p e s st = Inr (st', True) \<and> queue_inv L (Suc D) st' \<and> (queues_small st \<longrightarrow> queues_small st')"
proof -
  have q: "Some s \<in> queue_refs (qs_px st)" using s by (simp add: queue_refs_def)
  from inv q p obtain pc where pc: "qs_pend st (snd e) = Some pc" "pc_queue pc = Some s" by (rule queue_inv_pend)
  let ?st = "pendconn_unlink_srv (snd e) pc (pend_assign (snd e) pc s st)"
  have "queue_inv (L(Some s := Suc (L (Some s)))) (Suc D) ?st"
    by (rule queue_inv_remove [OF inv q p])
       (auto simp: pendconn_unlink_srv_def pend_assign_def Let_def pc queue_at_upd_queue option.map_comp comp_def)
  then have "queue_inv L (Suc D) (queue_taken (Some s) ?st)"
    unfolding queue_taken_def using q
    by (intro queue_inv_length [where k = 1]) (auto simp: pendconn_unlink_srv_def pend_assign_def Let_def)
  moreover have "queues_small (queue_taken (Some s) ?st)" if "queues_small st"
    using that by (auto simp: queues_small_def queue_taken_def pendconn_unlink_srv_def pend_assign_def Let_def queue_at_upd_queue pc
        intro!: le_less_trans [OF length_delete_le])
  ultimately show ?thesis by (simp add: use_p_def with_pend_def pc Let_def)
qed

lemma use_pp_inv:
  assumes inv: "queue_inv L D st" and p: "snd e \<in> set (eb_nodes (q_tree None st))"
  shows "\<exists>st'. use_pp e s st = Inr (st', True) \<and> queue_inv L (Suc D) st' \<and> (queues_small st \<longrightarrow> queues_small st')"
proof -
  have q: "None \<in> queue_refs (qs_px st)" by (simp add: queue_refs_def)
  from inv q p obtain pc where pc: "qs_pend st (snd e) = Some pc" "pc_queue pc = None" by (rule queue_inv_pend)
  let ?st = "pend_assign (snd e) pc s (pendconn_unlink_prx (snd e) pc st)"
  have "queue_inv (L(None := Suc (L None))) (Suc D) ?st"
    by (rule queue_inv_remove [OF inv q p])
       (auto simp: pendconn_unlink_prx_def pend_assign_def Let_def pc queue_at_upd_queue option.map_comp comp_def)
  then have "queue_inv L (Suc D) (queue_taken None ?st)"
    unfolding queue_taken_def using q
    by (intro queue_inv_length [where k = 1]) (auto simp: pendconn_unlink_prx_def pend_assign_def Let_def)
  moreover have "queues_small (queue_taken (None) ?st)" if "queues_small st"
    using that by (auto simp: queues_small_def queue_taken_def pendconn_unlink_prx_def pend_assign_def Let_def queue_at_upd_queue pc
        intro!: le_less_trans [OF length_delete_le])
  ultimately show ?thesis by (simp add: use_pp_def with_pend_def pc Let_def)
qed

text \<open>What taking a pending connection changes.\<close>

definition taken :: "queue_ref \<Rightarrow> pend_ref \<Rightarrow> srv_ref \<Rightarrow> qstate \<Rightarrow> pendconn \<Rightarrow> qstate \<Rightarrow> bool" where
  "taken q p s st pc st' \<longleftrightarrow> qs_pend st p = Some pc \<and> pc_queue pc = q \<and>
     qs_pend st' = (qs_pend st)(p \<mapsto> pc\<lparr>pc_flags := pc_flags pc OR SF_ASSIGNED, pc_target := Some s\<rparr>) \<and>
     qs_woken st' = qs_woken st @ [pc_strm pc] \<and>
     (\<forall>t. srv_conn (qs_strm st' t) = (if t = pc_strm pc then Some s else srv_conn (qs_strm st t))) \<and>
     (\<forall>t. pend_pos (qs_strm st' t) = pend_pos (qs_strm st t)) \<and>
     (\<forall>t. t \<noteq> pc_strm pc \<longrightarrow> qs_strm st' t = qs_strm st t) \<and>
     (\<forall>r \<in> queue_refs (qs_px st). q_tree r st' = (if r = q then eb32_delete p (q_tree q st) else q_tree r st))"

lemma use_p_effect:
  assumes inv: "queue_inv L D st" and s: "s < length (px_srv (qs_px st))" and p: "snd e \<in> set (eb_nodes (q_tree (Some s) st))"
    and r: "use_p e s st = Inr (st', ok)"
  shows "\<exists>pc. taken (Some s) (snd e) s st pc st' \<and> ok"
proof -
  have q: "Some s \<in> queue_refs (qs_px st)" using s by (simp add: queue_refs_def)
  from inv q p obtain pc where pc: "qs_pend st (snd e) = Some pc" "pc_queue pc = Some s" by (rule queue_inv_pend)
  show ?thesis unfolding taken_def using r pc q
    by (auto simp: use_p_def with_pend_def Let_def queue_taken_def pendconn_unlink_srv_def pend_assign_def queue_at_upd_queue)
qed

lemma use_pp_effect:
  assumes inv: "queue_inv L D st" and p: "snd e \<in> set (eb_nodes (q_tree None st))" and r: "use_pp e s st = Inr (st', ok)"
  shows "\<exists>pc. taken None (snd e) s st pc st' \<and> ok"
proof -
  have q: "None \<in> queue_refs (qs_px st)" by (simp add: queue_refs_def)
  from inv q p obtain pc where pc: "qs_pend st (snd e) = Some pc" "pc_queue pc = None" by (rule queue_inv_pend)
  show ?thesis unfolding taken_def using r pc q
    by (auto simp: use_pp_def with_pend_def Let_def queue_taken_def pendconn_unlink_prx_def pend_assign_def queue_at_upd_queue)
qed

lemma of_nat_eq_0_iff_32: "n < 2 ^ 32 \<Longrightarrow> of_nat n = (0 :: u32) \<Longrightarrow> n = 0"
  by (auto simp: word_of_nat_eq_0_iff dest: dvd_imp_le)

lemma first_in_nodes: "pendconn_first now_ms t = Some e \<Longrightarrow> snd e \<in> set (eb_nodes t)"
  using pendconn_first_in by (fastforce simp: set_eb_nodes)

lemma process_next_inv:
  assumes inv: "queue_inv L D st" and s: "s < length (px_srv (qs_px st))"
  shows "\<exists>st' ok. pendconn_process_next_strm now_ms s px_ok st = Inr (st', ok) \<and> queue_inv L (if ok then Suc D else D) st' \<and>
    (queues_small st \<longrightarrow> queues_small st') \<and>
    (\<not> ok \<longrightarrow> L = (\<lambda>_. 0) \<longrightarrow> queues_small st \<longrightarrow> q_tree (Some s) st' = [] \<and> (px_ok \<longrightarrow> q_tree None st' = []))"
proof -
  let ?p = "if q_length (srv_queue (srv_at (qs_px st) s)) \<noteq> 0 then pendconn_first now_ms (q_tree (Some s) st) else None"
  let ?pp = "if px_ok \<and> q_length (px_queue (qs_px st)) \<noteq> 0 then pendconn_first now_ms (q_tree None st) else None"
  have p: "\<exists>st'. use_p e s st = Inr (st', True) \<and> queue_inv L (Suc D) st' \<and> (queues_small st \<longrightarrow> queues_small st')" if "?p = Some e" for e
    using that first_in_nodes by (intro use_p_inv [OF inv s]) (auto split: if_splits)
  have pp: "\<exists>st'. use_pp e s st = Inr (st', True) \<and> queue_inv L (Suc D) st' \<and> (queues_small st \<longrightarrow> queues_small st')" if "?pp = Some e" for e
    using that first_in_nodes by (intro use_pp_inv [OF inv]) (auto split: if_splits)
  have eq: "pendconn_process_next_strm now_ms s px_ok st =
      (case (?p, ?pp) of (None, None) \<Rightarrow> Inr (st, False) | (Some p, None) \<Rightarrow> use_p p s st | (None, Some pp) \<Rightarrow> use_pp pp s st
       | (Some p, Some pp) \<Rightarrow> if use_srv_first now_ms (fst p) (fst pp) then use_p p s st else use_pp pp s st)"
    unfolding pendconn_process_next_strm_def Let_def queue_at_def option.case by (rule refl)
  have empty: "q_tree q st = []" if "L = (\<lambda>_. 0)" "queues_small st" "q \<in> queue_refs (qs_px st)"
      "q_length (queue_at q (qs_px st)) = 0 \<or> pendconn_first now_ms (q_tree q st) = None" for q
  proof -
    have "q_length (queue_at q (qs_px st)) = of_nat (length (q_tree q st))" "length (q_tree q st) < 2 ^ 32"
      using inv that by (simp_all add: queue_inv_def queues_small_def)
    then have "q_length (queue_at q (qs_px st)) = 0 \<Longrightarrow> q_tree q st = []" by (metis length_0_conv of_nat_eq_0_iff_32)
    moreover have "pendconn_first now_ms t = None \<Longrightarrow> t = []" for t
      by (auto simp: pendconn_first_def Let_def split: option.splits if_splits)
    ultimately show ?thesis using that(4) by blast
  qed
  show ?thesis
  proof (cases ?p)
    case None
    show ?thesis
    proof (cases ?pp)
      case pp_none: None
      have "q_tree (Some s) st = [] \<and> (px_ok \<longrightarrow> q_tree None st = [])" if "L = (\<lambda>_. 0)" "queues_small st"
        using empty [OF that, of "Some s"] empty [OF that, of None] None pp_none s
        by (auto simp: queue_refs_def queue_at_def split: if_splits)
      then show ?thesis unfolding eq None pp_none using inv by (intro exI [of _ st] exI [of _ False]) simp
    next
      case (Some e)
      then show ?thesis unfolding eq None Some using pp [OF Some] by auto
    qed
  next
    case (Some e)
    show ?thesis
    proof (cases ?pp)
      case None
      then show ?thesis unfolding eq Some None using p [OF Some] by auto
    next
      case (Some e')
      show ?thesis unfolding eq \<open>?p = Some e\<close> Some using p [OF \<open>?p = Some e\<close>] pp [OF Some] by auto
    qed
  qed
qed

text \<open>Changes of the proxy outside of its queues.\<close>

definition queue_fields_same :: "proxy \<Rightarrow> proxy \<Rightarrow> bool" where
  "queue_fields_same px px' \<longleftrightarrow> queue_refs px' = queue_refs px \<and> totpend px' = totpend px \<and>
     (\<forall>q \<in> queue_refs px. queue_at q px' = queue_at q px)"

lemma queue_fields_same_inv:
  assumes "queue_fields_same (qs_px st) px"
  shows "queue_inv L D st \<Longrightarrow> queue_inv L D (st\<lparr>qs_px := px\<rparr>)" "queues_small st \<Longrightarrow> queues_small (st\<lparr>qs_px := px\<rparr>)"
proof -
  have "queue_obs st (st\<lparr>qs_px := px\<rparr>)" using assms by (simp add: queue_fields_same_def queue_obs_def)
  then show "queue_inv L D st \<Longrightarrow> queue_inv L D (st\<lparr>qs_px := px\<rparr>)" by (rule queue_obs_inv)
  show "queues_small st \<Longrightarrow> queues_small (st\<lparr>qs_px := px\<rparr>)"
    using assms by (simp add: queue_fields_same_def queues_small_def)
qed

lemma queue_fields_same_upd_srv:
  "(\<And>s. srv_queue (h s) = srv_queue s) \<Longrightarrow> queue_fields_same px (upd_srv i h px)"
  by (simp add: queue_fields_same_def queue_at_upd_srv)

lemma srv_queue_loop_inv:
  assumes "queue_inv (\<lambda>_. 0) D st" and "s < length (px_srv (qs_px st))"
  shows "\<exists>st' n' stop. srv_queue_loop now_ms s px_ok maxc st n = Inr (st', n', stop) \<and> n \<le> n' \<and>
    queue_inv (\<lambda>_. 0) (D + (n' - n)) st' \<and> (queues_small st \<longrightarrow> queues_small st') \<and>
    (stop \<longrightarrow> queues_small st \<longrightarrow> q_tree (Some s) st' = [] \<and> (px_ok \<longrightarrow> q_tree None st' = []))"
  using assms
proof (induction now_ms s px_ok maxc st n arbitrary: D rule: srv_queue_loop.induct)
  case (1 now_ms s px_ok maxc st n)
  show ?case
  proof (cases "served (srv_at (qs_px st) s) <s maxc")
    case False
    then show ?thesis using 1(2,3)
      by (intro exI [of _ st] exI [of _ n] exI [of _ False]) (simp add: srv_queue_loop.simps [of now_ms s px_ok maxc st n])
  next
    case True
    obtain st1 ok where p: "pendconn_process_next_strm now_ms s px_ok st = Inr (st1, ok)"
      and i: "queue_inv (\<lambda>_. 0) (if ok then Suc D else D) st1" and sm: "queues_small st \<longrightarrow> queues_small st1"
      and e: "\<not> ok \<longrightarrow> queues_small st \<longrightarrow> q_tree (Some s) st1 = [] \<and> (px_ok \<longrightarrow> q_tree None st1 = [])"
      using process_next_inv [OF 1(2,3), of now_ms px_ok] by blast
    have eq: "srv_queue_loop now_ms s px_ok maxc st n =
        (if \<not> ok then Inr (st1, n, True) else srv_queue_loop now_ms s px_ok maxc (srv_served_inc s st1) (Suc n))"
      using True 1(3) by (simp add: srv_queue_loop.simps [of now_ms s px_ok maxc st n] p)
    show ?thesis
    proof (cases ok)
      case False
      then show ?thesis unfolding eq using i sm e by auto
    next
      case ok: True
      have same: "queue_fields_same (qs_px st1) (upd_srv s (\<lambda>t. t\<lparr>served := served t + 1\<rparr>) (qs_px st1))"
        by (rule queue_fields_same_upd_srv) simp
      note st2 = queue_fields_same_inv [OF same, folded srv_served_inc_def]
      have len: "s < length (px_srv (qs_px (srv_served_inc s st1)))"
        using q_view_eqD(1) [OF q_view_process [OF p]] 1(3) by (simp add: srv_served_inc_def)
      have "queue_inv (\<lambda>_. 0) (Suc D) (srv_served_inc s st1)" using st2(1) i ok by simp
      from 1(1) [OF _ True p refl _ this len] 1(3) ok obtain st' n' stop where
        r: "srv_queue_loop now_ms s px_ok maxc (srv_served_inc s st1) (Suc n) = Inr (st', n', stop)" "Suc n \<le> n'"
          "queue_inv (\<lambda>_. 0) (Suc D + (n' - Suc n)) st'" "queues_small (srv_served_inc s st1) \<longrightarrow> queues_small st'"
          "stop \<longrightarrow> queues_small (srv_served_inc s st1) \<longrightarrow> q_tree (Some s) st' = [] \<and> (px_ok \<longrightarrow> q_tree None st' = [])"
        by auto
      moreover have "Suc D + (n' - Suc n) = D + (n' - n)" using r(2) by simp
      ultimately show ?thesis unfolding eq using ok sm st2(2) by auto
    qed
  qed
qed

lemma srv_queue_rounds_inv:
  assumes inv: "queue_inv (\<lambda>_. 0) 0 st" and s: "s < length (px_srv (qs_px st))"
  shows "\<exists>st' n. srv_queue_rounds now_ms now_sec s px_ok False st 0 = Inr (st', n) \<and> queue_inv (\<lambda>_. 0) n st' \<and>
    (queues_small st \<longrightarrow> queues_small st' \<and>
      (\<not> served (srv_at (qs_px st') s) <s srv_dynamic_maxconn now_sec (qs_px st') (srv_at (qs_px st') s) \<or>
       q_tree (Some s) st' = [] \<and> (px_ok \<longrightarrow> q_tree None st' = [])))"
proof -
  let ?m = "srv_dynamic_maxconn now_sec (qs_px st) (srv_at (qs_px st) s)"
  note sim = srv_queue_rounds.simps [of now_ms now_sec s px_ok]
  show ?thesis
  proof (cases "served (srv_at (qs_px st) s) <s ?m")
    case False
    then show ?thesis using inv by (simp add: sim [of False st] Let_def)
  next
    case True
    obtain st1 n stop where l: "srv_queue_loop now_ms s px_ok ?m st 0 = Inr (st1, n, stop)" and
      r: "queue_inv (\<lambda>_. 0) n st1" "queues_small st \<longrightarrow> queues_small st1"
        "stop \<longrightarrow> queues_small st \<longrightarrow> q_tree (Some s) st1 = [] \<and> (px_ok \<longrightarrow> q_tree None st1 = [])"
      using srv_queue_loop_inv [OF inv s, of now_ms px_ok ?m 0] by auto
    note x = srv_queue_loop_exit [OF l, of now_sec]
    have "srv_queue_rounds now_ms now_sec s px_ok stop st1 n = Inr (st1, n)"
      using x by (subst sim) (auto simp: Let_def)
    then have "srv_queue_rounds now_ms now_sec s px_ok False st 0 = Inr (st1, n)"
      using True l by (subst sim) (simp add: Let_def)
    then show ?thesis using r x by auto
  qed
qed

text \<open>The condition under which the server takes streams from the proxy's queue.\<close>

definition px_queue_ok :: "srv_ref \<Rightarrow> proxy \<Rightarrow> bool" where
  "px_queue_ok s p \<longleftrightarrow> srv_currently_usable (srv_at p (case track (srv_at p s) of Some t \<Rightarrow> t | None \<Rightarrow> s)) \<and>
     (\<not> is_backup (srv_at p s) \<or> (srv_act p = 0 \<and> (Some s = fbck p \<or> use_all_bk p)))"

lemma queue_fields_same_served: "queue_fields_same px (px\<lparr>px_served := y\<rparr>)"
  by (simp add: queue_fields_same_def)

lemma srv_queue_rounds_frame:
  "srv_queue_rounds now_ms now_sec s px_ok stop st n = Inr (st', n') \<Longrightarrow>
     length (px_srv (qs_px st')) = length (px_srv (qs_px st)) \<and> cur_eweight (srv_at (qs_px st') s) = cur_eweight (srv_at (qs_px st) s)"
proof (induction now_ms now_sec s px_ok stop st n rule: srv_queue_rounds.induct)
  case (1 now_ms now_sec s px_ok stop st n)
  show ?case
  proof (cases "\<not> stop \<and> served (srv_at (qs_px st) s) <s srv_dynamic_maxconn now_sec (qs_px st) (srv_at (qs_px st) s)")
    case True
    then obtain st1 n1 stop1 where
      l: "srv_queue_loop now_ms s px_ok (srv_dynamic_maxconn now_sec (qs_px st) (srv_at (qs_px st) s)) st n = Inr (st1, n1, stop1)"
      and r: "srv_queue_rounds now_ms now_sec s px_ok stop1 st1 n1 = Inr (st', n')"
      using 1(2) by (auto simp: srv_queue_rounds.simps [of now_ms now_sec s px_ok _ st n] Let_def c_bind_Inr_iff)
    show ?thesis using 1(1) [OF refl True l refl refl r] srv_queue_loop_exit [OF l] by simp
  qed (use 1(2) in \<open>auto simp: srv_queue_rounds.simps [of now_ms now_sec s px_ok _ st n] Let_def\<close>)
qed

text \<open>The contract of \<^verbatim>\<open>server_take_conn\<close>: it changes neither the queues nor the slots of the
  servers, and if it faults at all it divides by the weight of a server that has none.\<close>

definition cb_frame :: "srv_ref \<Rightarrow> proxy \<Rightarrow> proxy \<Rightarrow> bool" where
  "cb_frame s p p' \<longleftrightarrow> queue_fields_same p p' \<and> px_served p' = px_served p \<and>
     (\<forall>j. served (srv_at p' j) = served (srv_at p j) \<and> cur_eweight (srv_at p' j) = cur_eweight (srv_at p j)) \<and>
     (\<forall>now_sec. srv_dynamic_maxconn now_sec p' (srv_at p' s) = srv_dynamic_maxconn now_sec p (srv_at p s))"

text \<open>A server for which the callback does not fault: it has a weight, or the callback never faults.\<close>

definition cb_safe :: "(srv_ref \<Rightarrow> proxy \<Rightarrow> proxy c_result) option \<Rightarrow> server \<Rightarrow> bool" where
  "cb_safe cb sv \<longleftrightarrow> cur_eweight sv \<noteq> 0 \<or> (\<forall>f. cb = Some f \<longrightarrow> (\<forall>s p. \<exists>p'. f s p = Inr p'))"

lemma cb_safe_cong: "cur_eweight sv' = cur_eweight sv \<Longrightarrow> cb_safe cb sv \<Longrightarrow> cb_safe cb sv'"
  by (simp add: cb_safe_def)

lemma cb_safe_simps [simp]: "cb_safe None sv" "cb_safe (Some (\<lambda>s p. Inr (g s p))) sv"
  by (simp_all add: cb_safe_def)

locale conn_callback =
  fixes cb :: "(srv_ref \<Rightarrow> proxy \<Rightarrow> proxy c_result) option"
  assumes cb_outcome: "cb = Some f \<Longrightarrow> s < length (px_srv p) \<Longrightarrow>
    (\<exists>p'. f s p = Inr p' \<and> cb_frame s p p') \<or> f s p = Inl DivideByZero \<and> cur_eweight (srv_at p s) = 0"
begin

lemma cb_ok: "cb = Some f \<Longrightarrow> s < length (px_srv p) \<Longrightarrow> cb_safe cb (srv_at p s) \<Longrightarrow> \<exists>p'. f s p = Inr p' \<and> cb_frame s p p'"
  using cb_outcome [of f s p] unfolding cb_safe_def by (metis sum.distinct(1))

lemma process_srv_queue_outcome:
  assumes inv: "queue_ok st" and s: "s < length (px_srv (qs_px st))"
  shows "(\<exists>st'. process_srv_queue cb now_ms now_sec s st = Inr st' \<and> queue_ok st' \<and>
    (queues_small st \<longrightarrow>
      \<not> served (srv_at (qs_px st') s) <s srv_dynamic_maxconn now_sec (qs_px st') (srv_at (qs_px st') s) \<or>
      q_tree (Some s) st' = [] \<and> (px_queue_ok s (qs_px st) \<longrightarrow> q_tree None st' = []))) \<or>
    process_srv_queue cb now_ms now_sec s st = Inl DivideByZero \<and> \<not> cb_safe cb (srv_at (qs_px st) s)"
proof -
  obtain st1 n where r: "srv_queue_rounds now_ms now_sec s (px_queue_ok s (qs_px st)) False st 0 = Inr (st1, n)"
    and i: "queue_inv (\<lambda>_. 0) n st1" and e: "queues_small st \<longrightarrow>
      \<not> served (srv_at (qs_px st1) s) <s srv_dynamic_maxconn now_sec (qs_px st1) (srv_at (qs_px st1) s) \<or>
       q_tree (Some s) st1 = [] \<and> (px_queue_ok s (qs_px st) \<longrightarrow> q_tree None st1 = [])"
    using srv_queue_rounds_inv [OF inv s] by blast
  define p where "p = (qs_px st1)\<lparr>totpend := totpend (qs_px st1) - of_nat n, px_served := px_served (qs_px st1) + of_nat n\<rparr>"
  have "queue_ok (st1\<lparr>qs_px := (qs_px st1)\<lparr>totpend := totpend (qs_px st1) - of_nat n\<rparr>\<rparr>)"
    using queue_inv_totpend [of "\<lambda>_. 0" 0 n st1] i by simp
  from queue_fields_same_inv(1) [OF queue_fields_same_served this]
  have ok: "queue_ok (st1\<lparr>qs_px := p\<rparr>)" by (simp add: p_def)
  have p: "srv_at p j = srv_at (qs_px st1) j" "srv_dynamic_maxconn now_sec p t = srv_dynamic_maxconn now_sec (qs_px st1) t"
      "queue_at q p = queue_at q (qs_px st1)" for j t q
    by (simp_all add: p_def srv_dynamic_maxconn_def queue_at_def split: option.splits)
  have eq: "process_srv_queue cb now_ms now_sec s st =
      (if n = 0 then Inr st1 else case cb of None \<Rightarrow> Inr (st1\<lparr>qs_px := p\<rparr>) | Some f \<Rightarrow> c_bind (f s p) (\<lambda>p. Inr (st1\<lparr>qs_px := p\<rparr>)))"
    unfolding process_srv_queue_def Let_def px_queue_ok_def [symmetric] r p_def by simp
  consider "n = 0" | "n \<noteq> 0" "cb = None" | f where "n \<noteq> 0" "cb = Some f" by blast
  then show ?thesis
  proof cases
    case 1
    then show ?thesis using eq i e by auto
  next
    case 2
    then show ?thesis using eq ok e p by auto
  next
    case 3
    have s': "s < length (px_srv p)" "cur_eweight (srv_at p s) = cur_eweight (srv_at (qs_px st) s)"
      using srv_queue_rounds_frame [OF r] s p by (simp_all add: p_def)
    show ?thesis
    proof (cases "f s p = Inl DivideByZero \<and> cur_eweight (srv_at p s) = 0")
      case True
      then have "\<not> cb_safe cb (srv_at (qs_px st) s)" using s'(2) 3(2) by (auto simp: cb_safe_def) (metis sum.distinct(1))
      then show ?thesis using True eq 3 by simp
    next
      case False
      with cb_outcome [OF 3(2) s'(1)] obtain p' where p': "f s p = Inr p'" "queue_fields_same p p'"
          "served (srv_at p' s) = served (srv_at p s)" "srv_dynamic_maxconn now_sec p' (srv_at p' s) = srv_dynamic_maxconn now_sec p (srv_at p s)"
        unfolding cb_frame_def by blast
      have "queue_ok (st1\<lparr>qs_px := p'\<rparr>)" using queue_fields_same_inv(1) [of "st1\<lparr>qs_px := p\<rparr>" p'] p'(2) ok by simp
      moreover have "queue_at None p' = queue_at None p" "Some s \<in> queue_refs p \<Longrightarrow> queue_at (Some s) p' = queue_at (Some s) p"
        using p'(2) by (auto simp: queue_fields_same_def queue_refs_def)
      moreover have "Some s \<in> queue_refs p" using s' by (simp add: queue_refs_def)
      ultimately show ?thesis using eq 3 p' e p by auto
    qed
  qed
qed

lemma process_srv_queue_ok:
  assumes inv: "queue_ok st" and s: "s < length (px_srv (qs_px st))" "cb_safe cb (srv_at (qs_px st) s)"
  shows "\<exists>st'. process_srv_queue cb now_ms now_sec s st = Inr st' \<and> queue_ok st' \<and>
    (queues_small st \<longrightarrow>
      \<not> served (srv_at (qs_px st') s) <s srv_dynamic_maxconn now_sec (qs_px st') (srv_at (qs_px st') s) \<or>
      q_tree (Some s) st' = [] \<and> (px_queue_ok s (qs_px st) \<longrightarrow> q_tree None st' = []))"
  using process_srv_queue_outcome [OF inv s(1), of now_ms now_sec] s(2) by blast

end

section \<open>Leaving and joining the queues\<close>

lemma queue_inv_mem:
  assumes "queue_inv L D st" and "qs_pend st p = Some pc" and "q \<in> queue_refs (qs_px st)" and "p \<in> set (eb_nodes (q_tree q st))"
  shows "pc_queue pc = q"
  using assms unfolding queue_inv_def tree_ok_def by fastforce

lemma queue_inv_pend_ref: "queue_inv L D st \<Longrightarrow> qs_pend st p = Some pc \<Longrightarrow> pc_queue pc \<in> queue_refs (qs_px st)"
  by (simp add: queue_inv_def pend_ok_def)

lemma queue_inv_pos:
  assumes "queue_inv L D st" and "pend_pos (qs_strm st s) = Some p"
  obtains pc where "qs_pend st p = Some pc" "pc_strm pc = s"
  using assms unfolding queue_inv_def pend_ok_def by blast

lemma pendconn_unlink_inv:
  assumes inv: "queue_ok st" and pc: "qs_pend st p = Some pc"
  shows "\<exists>st'. pendconn_unlink p st = Inr st' \<and> queue_ok st' \<and> qs_pend st' = qs_pend st \<and>
    queue_refs (qs_px st') = queue_refs (qs_px st) \<and>
    (\<forall>q \<in> queue_refs (qs_px st). q_tree q st' = eb32_delete p (q_tree q st)) \<and>
    (\<forall>s. pend_pos (qs_strm st' s) = pend_pos (qs_strm st s))"
proof -
  let ?q = "pc_queue pc"
  have q: "?q \<in> queue_refs (qs_px st)" using queue_inv_pend_ref [OF inv pc] .
  have other: "eb32_delete p (q_tree r st) = q_tree r st"
    if "r \<in> queue_refs (qs_px st)" "r \<noteq> ?q \<or> \<not> eb32_in_tree p (q_tree ?q st)" for r
    using queue_inv_mem [OF inv pc that(1)] that(2) by (intro eb32_delete_notin) (auto simp: eb32_in_tree_iff)
  show ?thesis
  proof (cases "eb32_in_tree p (q_tree ?q st)")
    case False
    then show ?thesis using inv other by (intro exI [of _ st]) (auto simp: pendconn_unlink_def with_pend_def pc Let_def)
  next
    case True
    let ?pos = "\<lambda>s. if ?q \<noteq> None then s\<lparr>srv_queue_pos := srv_queue_pos s + ucast (q_idx (queue_at ?q (qs_px st)) - pc_queue_idx pc)\<rparr>
      else s\<lparr>prx_queue_pos := prx_queue_pos s + ucast (q_idx (queue_at ?q (qs_px st)) - pc_queue_idx pc)\<rparr>"
    let ?st1 = "upd_strm (pc_strm pc) ?pos (upd_queue ?q (\<lambda>q. q\<lparr>q_head := eb32_delete p (q_head q)\<rparr>) st)"
    let ?st2 = "upd_queue ?q (\<lambda>q. q\<lparr>q_length := q_length q - 1\<rparr>) ?st1"
    let ?st3 = "?st2\<lparr>qs_px := (qs_px ?st2)\<lparr>totpend := totpend (qs_px ?st2) - of_nat 1\<rparr>\<rparr>"
    have p: "p \<in> set (eb_nodes (q_tree ?q st))" using True by (simp add: eb32_in_tree_iff)
    have "queue_inv ((\<lambda>_. 0)(?q := Suc 0)) (Suc 0) ?st1"
      by (rule queue_inv_remove [OF inv q p]) (auto simp: queue_at_upd_queue)
    then have "queue_inv (\<lambda>_. 0) (0 + 1) ?st2"
      using q by (intro queue_inv_length [where k = 1]) simp_all
    then have "queue_ok ?st3" by (rule queue_inv_totpend)
    moreover have "pendconn_unlink p st = Inr ?st3"
      using True by (simp add: pendconn_unlink_def with_pend_def pc Let_def)
    moreover have "q_tree r ?st3 = eb32_delete p (q_tree r st)" if "r \<in> queue_refs (qs_px st)" for r
      using other [OF that] that by (auto simp: queue_at_upd_queue)
    ultimately show ?thesis by auto
  qed
qed

text \<open>A pending connection that is in no queue is released.\<close>

lemma queue_inv_release:
  assumes inv: "queue_inv L D st" and pc: "qs_pend st p = Some pc" and out: "p \<notin> set (eb_nodes (q_tree (pc_queue pc) st))"
    and same: "qs_px st' = qs_px st" "qs_pend st' = (qs_pend st)(p := None)"
      "\<And>s. pend_pos (qs_strm st' s) = (if s = pc_strm pc then None else pend_pos (qs_strm st s))"
  shows "queue_inv L D st'"
proof -
  have "p \<notin> set (eb_nodes (q_tree q st))" if "q \<in> queue_refs (qs_px st)" for q
    using queue_inv_mem [OF inv pc that] out by auto
  then have "tree_ok q st'" if "q \<in> queue_refs (qs_px st)" for q
    using inv that unfolding queue_inv_def tree_ok_def same by auto
  moreover have "pend_pos (qs_strm st (pc_strm pc)) = Some p" using inv pc by (simp add: queue_inv_def pend_ok_def)
  then have "pend_ok st'" using inv unfolding queue_inv_def pend_ok_def same
    by (smt (verit, best) fun_upd_apply option.inject option.simps(3) pc)
  ultimately show ?thesis using inv by (simp add: queue_inv_def queued_def same)
qed

lemma pendconn_free_inv:
  assumes inv: "queue_ok st"
  shows "\<exists>st'. pendconn_free s st = Inr st' \<and> queue_ok st' \<and> pend_pos (qs_strm st' s) = None"
proof (cases "pend_pos (qs_strm st s)")
  case None
  then show ?thesis using inv by (simp add: pendconn_free_def)
next
  case (Some p)
  with inv obtain pc where pc: "qs_pend st p = Some pc" "pc_strm pc = s" by (rule queue_inv_pos)
  from pendconn_unlink_inv [OF inv pc(1)] obtain st1 where st1: "pendconn_unlink p st = Inr st1" "queue_ok st1" "qs_pend st1 = qs_pend st"
      "queue_refs (qs_px st1) = queue_refs (qs_px st)" "\<forall>q \<in> queue_refs (qs_px st). q_tree q st1 = eb32_delete p (q_tree q st)"
    by blast
  let ?st2 = "upd_strm s (\<lambda>t. t\<lparr>pend_pos := None\<rparr>) st1"
  have "queue_ok (?st2\<lparr>qs_pend := (qs_pend ?st2)(p := None)\<rparr>)"
  proof (rule queue_inv_release [OF st1(2)])
    show pc1: "qs_pend st1 p = Some pc" using pc st1(3) by simp
    show "p \<notin> set (eb_nodes (q_tree (pc_queue pc) st1))" using st1(5) queue_inv_pend_ref [OF inv pc(1)] by simp
  qed (simp_all add: pc)
  then show ?thesis by (simp add: pendconn_free_def pendconn_cond_unlink_def Some st1(1) Let_def)
qed

text \<open>The queue a stream joins.\<close>

definition add_queue :: "stream \<Rightarrow> queue_ref" where
  "add_queue s = (if strm_flags s AND SF_ASSIGNED \<noteq> 0 then strm_target s else None)"

lemma queue_fields_same_nbpend_max: "queue_fields_same px (update_nbpend_max q n px)"
  by (cases q) (auto simp: update_nbpend_max_def queue_fields_same_def queue_refs_def queue_at_def split: option.splits)

text \<open>A fresh pending connection enters queue \<open>q\<close>, counters included.\<close>

lemma queue_inv_insert:
  assumes inv: "queue_inv L D st" and fresh: "qs_pend st p = None" "pend_pos (qs_strm st s) = None"
    and q: "q \<in> queue_refs (qs_px st)" and refs: "queue_refs (qs_px st') = queue_refs (qs_px st)"
    and tot: "totpend (qs_px st') = totpend (qs_px st) + 1"
    and pend: "qs_pend st' = (qs_pend st)(p \<mapsto> pc)" "pc_strm pc = s" "pc_queue pc = q" "pc_target pc = None"
    and pos: "\<And>t. pend_pos (qs_strm st' t) = (if t = s then Some p else pend_pos (qs_strm st t))"
    and other: "\<And>r. r \<in> queue_refs (qs_px st) \<Longrightarrow> r \<noteq> q \<Longrightarrow> queue_at r (qs_px st') = queue_at r (qs_px st)"
    and tree: "q_tree q st' = eb32_insert key p (q_tree q st)"
      "q_length (queue_at q (qs_px st')) = q_length (queue_at q (qs_px st)) + 1"
  shows "queue_inv L D st'"
proof -
  have new: "p \<notin> set (eb_nodes (q_tree r st))" if "r \<in> queue_refs (qs_px st)" for r
    using inv that fresh(1) unfolding queue_inv_def tree_ok_def by fastforce
  have "tree_ok r st'" if r: "r \<in> queue_refs (qs_px st)" for r
  proof (cases "r = q")
    case True
    have "tree_ok q st" using inv q by (simp add: queue_inv_def)
    then show ?thesis using new [OF q] True pend tree(1) by (auto simp: tree_ok_def eb_ordered_insert)
  next
    case False
    then show ?thesis using inv r new [OF r] other [OF r] pend(1) by (auto simp: queue_inv_def tree_ok_def)
  qed
  moreover have "q_length (queue_at r (qs_px st')) = of_nat (length (q_tree r st') + L r)" if "r \<in> queue_refs (qs_px st)" for r
    using inv that tree other [OF that] by (cases "r = q") (auto simp: queue_inv_def)
  moreover have "pend_ok st'"
    unfolding pend_ok_def refs
  proof (intro conjI allI impI)
    have ok: "pend_ok st" using inv by (simp add: queue_inv_def)
    fix x y assume x: "qs_pend st' x = Some y"
    show "pc_queue y \<in> queue_refs (qs_px st)" using ok x pend q by (cases "x = p") (auto simp: pend_ok_def)
    show "pend_pos (qs_strm st' (pc_strm y)) = Some x"
    proof (cases "x = p")
      case False
      then have "pend_pos (qs_strm st (pc_strm y)) = Some x" using ok x pend(1) by (simp add: pend_ok_def)
      then show ?thesis using fresh(2) pos [of "pc_strm y"] by auto
    qed (use x pend pos in auto)
  next
    fix t x assume x: "pend_pos (qs_strm st' t) = Some x"
    show "\<exists>pc. qs_pend st' x = Some pc \<and> pc_strm pc = t"
    proof (cases "t = s")
      case False
      then have "pend_pos (qs_strm st t) = Some x" using x pos by simp
      with inv obtain pc where "qs_pend st x = Some pc" "pc_strm pc = t" by (rule queue_inv_pos)
      then show ?thesis using fresh(1) pend(1) by auto
    qed (use x pos pend in auto)
  qed
  moreover have "queued st' = Suc (queued st)"
  proof -
    have "queued st = length (q_tree q st) + (\<Sum>r \<in> queue_refs (qs_px st) - {q}. length (q_tree r st))"
      unfolding queued_def using q by (simp add: sum.remove)
    moreover have "queued st' = length (q_tree q st') + (\<Sum>r \<in> queue_refs (qs_px st) - {q}. length (q_tree r st'))"
      unfolding queued_def refs using q by (simp add: sum.remove)
    moreover have "(\<Sum>r \<in> queue_refs (qs_px st) - {q}. length (q_tree r st')) = (\<Sum>r \<in> queue_refs (qs_px st) - {q}. length (q_tree r st))"
      using other by (intro sum.cong) auto
    ultimately show ?thesis using tree by simp
  qed
  ultimately show ?thesis using inv tot unfolding queue_inv_def refs by simp
qed

text \<open>What queueing a stream changes.\<close>

definition added :: "u32 \<Rightarrow> pend_ref \<Rightarrow> strm_ref \<Rightarrow> qstate \<Rightarrow> pendconn \<Rightarrow> qstate \<Rightarrow> bool" where
  "added key p s st pc st' \<longleftrightarrow>
     qs_pend st' = (qs_pend st)(p \<mapsto> pc) \<and> pc_strm pc = s \<and> pc_queue pc = add_queue (qs_strm st s) \<and> pc_target pc = None \<and>
     (\<forall>t. qs_strm st' t = (if t = s then (qs_strm st s)\<lparr>pend_pos := Some p\<rparr> else qs_strm st t)) \<and>
     length (px_srv (qs_px st')) = length (px_srv (qs_px st)) \<and> totpend (qs_px st') = totpend (qs_px st) + 1 \<and>
     px_served (qs_px st') = px_served (qs_px st) \<and> (\<forall>j. served (srv_at (qs_px st') j) = served (srv_at (qs_px st) j)) \<and>
     (\<forall>r \<in> queue_refs (qs_px st). queue_at r (qs_px st') = (if r = add_queue (qs_strm st s)
        then (queue_at r (qs_px st))\<lparr>q_length := q_length (queue_at r (qs_px st)) + 1, q_head := eb32_insert key p (q_tree r st)\<rparr>
        else queue_at r (qs_px st)))"

lemma served_upd_srv: "(\<And>x. served (h x) = served x) \<Longrightarrow> served (srv_at (upd_srv i h p) j) = served (srv_at p j)"
  by (cases "i = j"; cases "i < length (px_srv p)") (simp_all add: upd_srv_def list_update_beyond)

lemma upd_queue_served [simp]:
  "px_served (qs_px (upd_queue q f st)) = px_served (qs_px st)" "served (srv_at (qs_px (upd_queue q f st)) j) = served (srv_at (qs_px st) j)"
  "length (px_srv (qs_px (upd_queue q f st))) = length (px_srv (qs_px st))"
  by (auto simp: upd_queue_def served_upd_srv split: option.splits) (simp_all add: upd_srv_def)

lemma update_nbpend_max_served:
  "px_served (update_nbpend_max q n p) = px_served p" "served (srv_at (update_nbpend_max q n p) j) = served (srv_at p j)"
  "length (px_srv (update_nbpend_max q n p)) = length (px_srv p)"
  by (auto simp: update_nbpend_max_def served_upd_srv split: option.splits) (simp_all add: upd_srv_def)

lemma pendconn_add_effect:
  assumes q: "add_queue (qs_strm st s) \<in> queue_refs (qs_px st)"
  shows "\<exists>pc. added (MAKE_KEY now_ms (priority_class (qs_strm st s)) (priority_offset (qs_strm st s))) p s st pc
    (fst (pendconn_add now_ms (Some p) s st))"
proof -
  let ?s = "qs_strm st s"
  let ?q = "add_queue ?s"
  let ?pc = "\<lparr>pc_flags = strm_flags ?s, pc_queue_idx = q_idx (queue_at ?q (qs_px st)) - 1, pc_strm = s, pc_queue = ?q, pc_target = None\<rparr>"
  let ?key = "MAKE_KEY now_ms (priority_class ?s) (priority_offset ?s)"
  define st1 where "st1 = upd_queue ?q (\<lambda>q. q\<lparr>q_length := q_length q + 1\<rparr>)
    (upd_strm s (\<lambda>s. s\<lparr>pend_pos := Some p\<rparr>) (st\<lparr>qs_pend := (qs_pend st)(p \<mapsto> ?pc)\<rparr>))"
  define st2 where "st2 = st1\<lparr>qs_px := update_nbpend_max ?q (q_length (queue_at ?q (qs_px st1))) (qs_px st1)\<rparr>"
  define st3 where "st3 = upd_queue ?q (\<lambda>q. q\<lparr>q_head := eb32_insert ?key p (q_head q)\<rparr>) st2"
  have eq: "fst (pendconn_add now_ms (Some p) s st) = st3\<lparr>qs_px := (qs_px st3)\<lparr>totpend := totpend (qs_px st3) + 1\<rparr>\<rparr>"
    by (simp add: pendconn_add_def Let_def st3_def st2_def st1_def add_queue_def)
  have same: "queue_refs (qs_px st2) = queue_refs (qs_px st1)" "totpend (qs_px st2) = totpend (qs_px st1)"
      "\<And>r. r \<in> queue_refs (qs_px st1) \<Longrightarrow> queue_at r (qs_px st2) = queue_at r (qs_px st1)"
    using queue_fields_same_nbpend_max [of "qs_px st1"] by (auto simp: st2_def queue_fields_same_def)
  have st1: "queue_refs (qs_px st1) = queue_refs (qs_px st)" "totpend (qs_px st1) = totpend (qs_px st)"
    by (simp_all add: st1_def)
  have at: "queue_at r (qs_px st3) = (if r = ?q then (queue_at r (qs_px st))\<lparr>q_length := q_length (queue_at r (qs_px st)) + 1,
      q_head := eb32_insert ?key p (q_tree r st)\<rparr> else queue_at r (qs_px st))" if "r \<in> queue_refs (qs_px st)" for r
  proof -
    have "queue_at r (qs_px st1) = (if r = ?q then (queue_at r (qs_px st))\<lparr>q_length := q_length (queue_at r (qs_px st)) + 1\<rparr>
        else queue_at r (qs_px st))" using that by (simp add: st1_def queue_at_upd_queue)
    moreover have "queue_at r (qs_px st3) = (if r = ?q then (queue_at r (qs_px st1))\<lparr>q_head := eb32_insert ?key p (q_tree r st1)\<rparr>
        else queue_at r (qs_px st1))" using that same(1) same(3) [of r] st1(1) by (auto simp: st3_def queue_at_upd_queue)
    ultimately show ?thesis by (cases "r = ?q") simp_all
  qed
  have "added ?key p s st ?pc (st3\<lparr>qs_px := (qs_px st3)\<lparr>totpend := totpend (qs_px st3) + 1\<rparr>\<rparr>)"
    unfolding added_def using at same(2) st1(2) by (simp add: st3_def) (simp add: st2_def st1_def update_nbpend_max_served)
  then show ?thesis unfolding eq by blast
qed

lemma pendconn_add_inv:
  assumes inv: "queue_ok st" and fresh: "qs_pend st p = None" "pend_pos (qs_strm st s) = None"
    and q: "add_queue (qs_strm st s) \<in> queue_refs (qs_px st)"
  shows "queue_ok (fst (pendconn_add now_ms (Some p) s st))"
proof -
  obtain pc where a: "added (MAKE_KEY now_ms (priority_class (qs_strm st s)) (priority_offset (qs_strm st s))) p s st pc
      (fst (pendconn_add now_ms (Some p) s st))"
    using pendconn_add_effect [OF q] by blast
  note a = a [unfolded added_def]
  have refs: "queue_refs (qs_px (fst (pendconn_add now_ms (Some p) s st))) = queue_refs (qs_px st)"
    using a by (simp add: queue_refs_def)
  show ?thesis
    by (rule queue_inv_insert [OF inv fresh q refs, where pc = pc
          and key = "MAKE_KEY now_ms (priority_class (qs_strm st s)) (priority_offset (qs_strm st s))"])
       (simp_all add: a q)
qed

section \<open>Moving pending connections\<close>

lemma redistribute_loop_inv:
  assumes "queue_inv ((\<lambda>_. 0)(Some s := n)) n st" and "s < length (px_srv (qs_px st))" and "distinct ps"
    and "set ps \<subseteq> set (eb_nodes (q_tree (Some s) st))"
  shows "\<exists>st' n'. redistribute_loop ps st n = Inr (st', n') \<and> queue_inv ((\<lambda>_. 0)(Some s := n')) n' st' \<and>
    queue_refs (qs_px st') = queue_refs (qs_px st)"
  using assms
proof (induction ps arbitrary: st n)
  case (Cons p ps)
  have q: "Some s \<in> queue_refs (qs_px st)" using Cons.prems(2) by (simp add: queue_refs_def)
  have p: "p \<in> set (eb_nodes (q_tree (Some s) st))" using Cons.prems(4) by simp
  from Cons.prems(1) q p obtain pc where pc: "qs_pend st p = Some pc" "pc_queue pc = Some s" by (rule queue_inv_pend)
  show ?case
  proof (cases "pc_flags pc AND SF_FORCE_PRST \<noteq> 0")
    case True
    then show ?thesis using Cons.IH [OF Cons.prems(1,2)] Cons.prems(3,4) by (simp add: with_pend_def pc)
  next
    case False
    define st1 where "st1 = task_wakeup (pc_strm pc) (upd_pend p
      (\<lambda>pc. pc\<lparr>pc_flags := pc_flags pc AND NOT (SF_DIRECT OR SF_ASSIGNED OR SF_ADDR_SET)\<rparr>) (pendconn_unlink_srv p pc st))"
    have eq: "redistribute_loop (p # ps) st n = redistribute_loop ps st1 (Suc n)"
      using False by (simp add: with_pend_def pc Let_def st1_def)
    have "queue_inv (((\<lambda>_. 0)(Some s := n))(Some s := Suc (((\<lambda>_. 0)(Some s := n)) (Some s)))) (Suc n) st1"
      by (rule queue_inv_remove [OF Cons.prems(1) q p])
         (auto simp: st1_def pendconn_unlink_srv_def Let_def pc queue_at_upd_queue option.map_comp comp_def)
    then have inv: "queue_inv ((\<lambda>_. 0)(Some s := Suc n)) (Suc n) st1" by simp
    have refs: "queue_refs (qs_px st1) = queue_refs (qs_px st)" by (simp add: st1_def pendconn_unlink_srv_def Let_def)
    then have s: "s < length (px_srv (qs_px st1))" using q by (auto simp: queue_refs_def)
    have "q_tree (Some s) st1 = eb32_delete p (q_tree (Some s) st)"
      using q by (simp add: st1_def pendconn_unlink_srv_def Let_def pc queue_at_upd_queue)
    then have "set ps \<subseteq> set (eb_nodes (q_tree (Some s) st1))" using Cons.prems(3,4) by auto
    with Cons.IH [OF inv s] Cons.prems(3) show ?thesis unfolding eq refs by simp
  qed
qed auto

text \<open>The counters catch up by the number of connections moved.\<close>

lemma queue_inv_moved:
  assumes inv: "queue_inv ((\<lambda>_. 0)(q := n)) n st" and q: "q \<in> queue_refs (qs_px st)"
    and st1: "st1 = upd_queue q (\<lambda>q. q\<lparr>q_length := q_length q - of_nat n\<rparr>) st"
  shows "queue_ok (st1\<lparr>qs_px := (qs_px st1)\<lparr>totpend := totpend (qs_px st1) - of_nat n\<rparr>\<rparr>)"
proof -
  have "queue_inv (\<lambda>_. 0) (0 + n) st1"
    unfolding st1 using q inv by (intro queue_inv_length [where k = n]) simp_all
  then show ?thesis by (rule queue_inv_totpend)
qed

lemma pendconn_redistribute_inv:
  assumes inv: "queue_ok st" and s: "s < length (px_srv (qs_px st))"
  shows "\<exists>st' n. pendconn_redistribute s st = Inr (st', n) \<and> queue_ok st'"
proof -
  have q: "Some s \<in> queue_refs (qs_px st)" using s by (simp add: queue_refs_def)
  have d: "distinct (eb_nodes (q_tree (Some s) st))" using inv q by (simp add: queue_inv_def tree_ok_def eb_ordered_def)
  have "queue_inv ((\<lambda>_. 0)(Some s := 0)) 0 st" using inv by (simp add: fun_upd_idem)
  from redistribute_loop_inv [OF this s d subset_refl] obtain st1 n where
    l: "redistribute_loop (eb_nodes (q_head (srv_queue (srv_at (qs_px st) s)))) st 0 = Inr (st1, n)"
    and i: "queue_inv ((\<lambda>_. 0)(Some s := n)) n st1" and refs: "queue_refs (qs_px st1) = queue_refs (qs_px st)"
    by (auto simp: queue_at_def)
  show ?thesis
  proof (cases "n = 0")
    case True
    then have "queue_ok st1" using i by (simp add: fun_upd_idem)
    then show ?thesis using True l inv by (simp add: pendconn_redistribute_def)
  next
    case False
    then show ?thesis using l inv queue_inv_moved [OF i _ refl] q refs by (simp add: pendconn_redistribute_def Let_def)
  qed
qed

lemma grab_loop_inv:
  assumes "queue_inv ((\<lambda>_. 0)(None := n)) n st"
  shows "\<exists>st' n'. grab_loop now_ms maxc s st n = Inr (st', n') \<and> queue_inv ((\<lambda>_. 0)(None := n')) n' st'"
  using assms
proof (induction now_ms maxc s st n rule: grab_loop.induct)
  case (1 now_ms maxc s st n)
  let ?e = "pendconn_first now_ms (q_head (px_queue (qs_px st)))"
  let ?full = "maxconn (srv_at (qs_px st) s) \<noteq> 0 \<and> maxc \<le>s served (srv_at (qs_px st) s) + of_nat n"
  note sim = grab_loop.simps [of now_ms maxc s st n]
  show ?case
  proof (cases "?e = None \<or> ?full")
    case True
    then have "grab_loop now_ms maxc s st n = Inr (st, n)" by (subst sim) (auto split: option.split)
    then show ?thesis using 1(2) by blast
  next
    case False
    then obtain e where e: "?e = Some e" by auto
    have q: "None \<in> queue_refs (qs_px st)" by (simp add: queue_refs_def)
    have p: "snd e \<in> set (eb_nodes (q_tree None st))" using first_in_nodes [OF e] by (simp add: queue_at_def)
    from 1(2) q p obtain pc where pc: "qs_pend st (snd e) = Some pc" "pc_queue pc = None" by (rule queue_inv_pend)
    let ?L = "(\<lambda>_. 0)(None := n) :: queue_ref \<Rightarrow> nat"
    have "queue_inv (?L(None := Suc (?L None))) (Suc n) (grab_one e pc s st)"
      by (rule queue_inv_remove [OF 1(2) q p])
         (auto simp: grab_one_def pendconn_unlink_prx_def Let_def pc queue_at_upd_queue option.map_comp comp_def)
    then have "queue_inv ((\<lambda>_. 0)(None := Suc n)) (Suc n) (grab_one e pc s st)" by simp
    from 1(1) [OF e _ pc(1) this] False have "\<exists>st' n'. grab_loop now_ms maxc s (grab_one e pc s st) (Suc n) = Inr (st', n') \<and>
      queue_inv ((\<lambda>_. 0)(None := n')) n' st'" by blast
    moreover have "grab_loop now_ms maxc s st n = grab_loop now_ms maxc s (grab_one e pc s st) (Suc n)"
      using False e pc(1) by (subst sim) auto
    ultimately show ?thesis by (simp only:)
  qed
qed

lemma pendconn_grab_from_px_inv:
  assumes inv: "queue_ok st"
  shows "\<exists>st' n. pendconn_grab_from_px now_ms now_sec s st = Inr (st', n) \<and> queue_ok st'"
proof -
  let ?m = "srv_dynamic_maxconn now_sec (qs_px st) (srv_at (qs_px st) s)"
  have "queue_inv ((\<lambda>_. 0)(None := 0)) 0 st" using inv by (simp add: fun_upd_idem)
  from grab_loop_inv [OF this, of now_ms ?m s] obtain st1 n where l: "grab_loop now_ms ?m s st 0 = Inr (st1, n)"
    and i: "queue_inv ((\<lambda>_. 0)(None := n)) n st1" by blast
  show ?thesis
  proof (cases "n = 0")
    case True
    then have "queue_ok st1" using i by (simp add: fun_upd_idem)
    then show ?thesis using True l inv by (simp add: pendconn_grab_from_px_def Let_def)
  next
    case False
    then show ?thesis using l inv queue_inv_moved [OF i _ refl] by (simp add: pendconn_grab_from_px_def Let_def queue_refs_def)
  qed
qed

lemma pendconn_dequeue_inv:
  assumes inv: "queue_ok st" and pos: "pend_pos (qs_strm st s) = Some p"
  shows "\<exists>st' r. pendconn_dequeue s st = Inr (st', r) \<and> queue_ok st' \<and>
    (r = 0 \<longleftrightarrow> (\<forall>q \<in> queue_refs (qs_px st). p \<notin> set (eb_nodes (q_tree q st)))) \<and> (r = 0 \<longrightarrow> pend_pos (qs_strm st' s) = None)"
proof -
  from inv pos obtain pc where pc: "qs_pend st p = Some pc" "pc_strm pc = s" by (rule queue_inv_pos)
  have out: "(\<forall>q \<in> queue_refs (qs_px st). p \<notin> set (eb_nodes (q_tree q st))) \<longleftrightarrow> \<not> eb32_in_tree p (q_tree (pc_queue pc) st)"
    using queue_inv_mem [OF inv pc(1)] queue_inv_pend_ref [OF inv pc(1)] by (auto simp: eb32_in_tree_iff)
  show ?thesis
  proof (cases "eb32_in_tree p (q_tree (pc_queue pc) st)")
    case True
    then show ?thesis using inv out by (simp add: pendconn_dequeue_def pos with_pend_def pc)
  next
    case False
    obtain st' where st': "pendconn_dequeue s st = Inr (st', 0)"
        "qs_px st' = qs_px st" "qs_pend st' = (qs_pend st)(p := None)"
        "\<And>t. pend_pos (qs_strm st' t) = (if t = s then None else pend_pos (qs_strm st t))"
      using False by (simp add: pendconn_dequeue_def pos with_pend_def pc Let_def split: option.splits)
    have "queue_ok st'"
      by (rule queue_inv_release [OF inv pc(1)]) (use False st' pc in \<open>auto simp: eb32_in_tree_iff\<close>)
    then show ?thesis using st' False out by simp
  qed
qed

end
