(* ===== verification/Lb_Account.thy ===== *)
theory Lb_Account
  imports Server_Model
begin

text \<open>
  Server counts, weights and the first backup server. \<^verbatim>\<open>recount_servers\<close> computes them from
  scratch; the status callbacks of the tree-based algorithms maintain them incrementally with the
  same block of code, modelled here once (\<open>acct_srv_down\<close>, \<open>acct_srv_up\<close>). The invariant
  \<open>lb_acct\<close> says what the fields mean.
\<close>

section \<open>Counting over the chain\<close>

definition n_srv :: "(server \<Rightarrow> bool) \<Rightarrow> server list \<Rightarrow> c_int" where
  "n_srv Q xs = of_nat (length (filter Q xs))"

definition w_srv :: "(server \<Rightarrow> bool) \<Rightarrow> (server \<Rightarrow> u32) \<Rightarrow> server list \<Rightarrow> u32" where
  "w_srv Q w xs = sum_list (map w (filter Q xs))"

lemma n_srv_simps [simp]:
  "n_srv Q [] = 0"
  "n_srv Q (xs @ ys) = n_srv Q xs + n_srv Q ys"
  "n_srv Q (x # xs) = (if Q x then 1 else 0) + n_srv Q xs"
  by (simp_all add: n_srv_def)

lemma w_srv_simps [simp]:
  "w_srv Q w [] = 0"
  "w_srv Q w (xs @ ys) = w_srv Q w xs + w_srv Q w ys"
  "w_srv Q w (x # xs) = (if Q x then w x else 0) + w_srv Q w xs"
  by (simp_all add: w_srv_def)

lemma n_srv_update:
  assumes "i < length xs"
  shows "n_srv Q (xs[i := x]) = n_srv Q xs - (if Q (xs ! i) then 1 else 0) + (if Q x then 1 else 0)"
proof -
  have *: "n_srv Q xs = n_srv Q (take i xs @ xs ! i # drop (Suc i) xs)"
    using assms id_take_nth_drop [of i xs] by simp
  show ?thesis
    unfolding * using assms by (simp add: upd_conv_take_nth_drop)
qed

lemma w_srv_update:
  assumes "i < length xs"
  shows "w_srv Q w (xs[i := x]) = w_srv Q w xs - (if Q (xs ! i) then w (xs ! i) else 0)
           + (if Q x then w x else 0)"
proof -
  have *: "w_srv Q w xs = w_srv Q w (take i xs @ xs ! i # drop (Suc i) xs)"
    using assms id_take_nth_drop [of i xs] by simp
  show ?thesis
    unfolding * using assms by (simp add: upd_conv_take_nth_drop)
qed

lemma filter_idx_cong:
  assumes "length xs = length ys" and "\<And>i. i < length xs \<Longrightarrow> Q (xs ! i) \<longleftrightarrow> R (ys ! i)"
    and "\<And>i. i < length xs \<Longrightarrow> Q (xs ! i) \<Longrightarrow> w (xs ! i) = v (ys ! i)"
  shows "map w (filter Q xs) = map v (filter R ys)"
proof -
  have "list_all2 (\<lambda>x y. (Q x \<longleftrightarrow> R y) \<and> (Q x \<longrightarrow> w x = v y)) xs ys"
    using assms by (auto simp: list_all2_conv_all_nth)
  then show ?thesis by (induction rule: list_all2_induct) auto
qed

lemma n_srv_cong:
  assumes "length xs = length ys" and "\<And>i. i < length xs \<Longrightarrow> Q (xs ! i) \<longleftrightarrow> R (ys ! i)"
  shows "n_srv Q xs = n_srv R ys"
proof -
  have "map (\<lambda>_. ()) (filter Q xs) = map (\<lambda>_. ()) (filter R ys)"
    using assms by (intro filter_idx_cong) auto
  then show ?thesis
    unfolding n_srv_def by (metis length_map)
qed

lemma w_srv_cong:
  assumes "length xs = length ys" and "\<And>i. i < length xs \<Longrightarrow> Q (xs ! i) \<longleftrightarrow> R (ys ! i)"
    and "\<And>i. i < length xs \<Longrightarrow> Q (xs ! i) \<Longrightarrow> w (xs ! i) = v (ys ! i)"
  shows "w_srv Q w xs = w_srv R v ys"
proof -
  have "map w (filter Q xs) = map v (filter R ys)"
    using assms by (intro filter_idx_cong) auto
  then show ?thesis by (simp add: w_srv_def)
qed

section \<open>What the counters mean\<close>

definition cur_act :: "server \<Rightarrow> bool" where
  "cur_act s \<longleftrightarrow> srv_currently_usable s \<and> \<not> is_backup s"

definition cur_bck :: "server \<Rightarrow> bool" where
  "cur_bck s \<longleftrightarrow> srv_currently_usable s \<and> is_backup s"

definition next_act :: "server \<Rightarrow> bool" where
  "next_act s \<longleftrightarrow> srv_willbe_usable s \<and> \<not> is_backup s"

definition next_bck :: "server \<Rightarrow> bool" where
  "next_bck s \<longleftrightarrow> srv_willbe_usable s \<and> is_backup s"

definition tot_spec :: "proxy \<Rightarrow> bool" where
  "tot_spec p \<longleftrightarrow>
     (if srv_act p \<noteq> 0 then tot_weight p = tot_wact p \<and> tot_used p = srv_act p
      else case fbck p of
        Some b \<Rightarrow> tot_weight p = cur_eweight (srv_at p b) \<and> tot_used p = 1
      | None \<Rightarrow> tot_weight p = tot_wbck p \<and> tot_used p = srv_bck p)"

definition lb_acct :: "proxy \<Rightarrow> bool" where
  "lb_acct p \<longleftrightarrow>
     srv_act p = n_srv cur_act (px_srv p) \<and>
     srv_bck p = n_srv cur_bck (px_srv p) \<and>
     tot_wact p = w_srv cur_act cur_eweight (px_srv p) \<and>
     tot_wbck p = w_srv cur_bck cur_eweight (px_srv p) \<and>
     fbck p = (if use_all_bk p then None else find_idx cur_bck (px_srv p)) \<and>
     tot_spec p"

definition all_committed :: "proxy \<Rightarrow> bool" where
  "all_committed p \<longleftrightarrow> list_all committed (px_srv p)"

text \<open>Every server but \<open>i\<close> is committed: the state in which the callbacks run.\<close>

definition others_committed :: "srv_ref \<Rightarrow> proxy \<Rightarrow> bool" where
  "others_committed i p \<longleftrightarrow> (\<forall>j < length (px_srv p). j \<noteq> i \<longrightarrow> committed (srv_at p j))"

text \<open>Two proxies agree on everything the accounting depends on.\<close>

definition acct_key :: "server \<Rightarrow> bool \<times> bool \<times> bool \<times> u32 \<times> u32 \<times> bool" where
  "acct_key s = (is_backup s, srv_currently_usable s, srv_willbe_usable s, cur_eweight s,
     next_eweight s, committed s)"

definition same_acct :: "proxy \<Rightarrow> proxy \<Rightarrow> bool" where
  "same_acct p q \<longleftrightarrow>
     srv_act q = srv_act p \<and> srv_bck q = srv_bck p \<and> tot_wact q = tot_wact p \<and>
     tot_wbck q = tot_wbck p \<and> fbck q = fbck p \<and> use_all_bk q = use_all_bk p \<and>
     tot_weight q = tot_weight p \<and> tot_used q = tot_used p \<and>
     map acct_key (px_srv q) = map acct_key (px_srv p)"

section \<open>The incremental updates shared by the tree-based algorithms\<close>

text \<open>The loop \<^verbatim>\<open>do srv2 = srv2->next; while (srv2 && !(backup && willbe_usable))\<close>.\<close>

definition next_usable_backup :: "srv_ref \<Rightarrow> proxy \<Rightarrow> srv_ref option" where
  "next_usable_backup i p =
     map_option (plus (Suc i)) (find_idx next_bck (drop (Suc i) (px_srv p)))"

text \<open>The loop \<^verbatim>\<open>do srv2 = srv2->next; while (srv2 && srv2 != fbck)\<close> finds \<open>b\<close>.\<close>

definition srv_reaches :: "srv_ref \<Rightarrow> srv_ref \<Rightarrow> proxy \<Rightarrow> bool" where
  "srv_reaches i b p \<longleftrightarrow> b \<in> set [Suc i..<length (px_srv p)]"

definition acct_srv_down :: "srv_ref \<Rightarrow> proxy \<Rightarrow> proxy" where
  "acct_srv_down i p =
     (let srv = srv_at p i in
      if is_backup srv then
        (let p = p\<lparr>tot_wbck := tot_wbck p - cur_eweight srv\<rparr>;
             p = p\<lparr>srv_bck := srv_bck p - 1\<rparr>
         in if fbck p = Some i then p\<lparr>fbck := next_usable_backup i p\<rparr> else p)
      else p\<lparr>tot_wact := tot_wact p - cur_eweight srv, srv_act := srv_act p - 1\<rparr>)"

definition elect_fbck :: "srv_ref \<Rightarrow> proxy \<Rightarrow> proxy" where
  "elect_fbck i p =
     (if use_all_bk p then p
      else case fbck p of
        None \<Rightarrow> p\<lparr>fbck := Some i\<rparr>
      | Some b \<Rightarrow> if srv_reaches i b p then p\<lparr>fbck := Some i\<rparr> else p)"

definition acct_srv_up :: "srv_ref \<Rightarrow> proxy \<Rightarrow> proxy" where
  "acct_srv_up i p =
     (let srv = srv_at p i in
      if is_backup srv then
        elect_fbck i (p\<lparr>tot_wbck := tot_wbck p + next_eweight srv, srv_bck := srv_bck p + 1\<rparr>)
      else p\<lparr>tot_wact := tot_wact p + next_eweight srv, srv_act := srv_act p + 1\<rparr>)"

definition acct_srv_reweight :: "srv_ref \<Rightarrow> proxy \<Rightarrow> proxy" where
  "acct_srv_reweight i p =
     (let srv = srv_at p i in
      if is_backup srv then p\<lparr>tot_wbck := tot_wbck p + (next_eweight srv - cur_eweight srv)\<rparr>
      else p\<lparr>tot_wact := tot_wact p + (next_eweight srv - cur_eweight srv)\<rparr>)"

text \<open>What the callbacks do at their end: \<^verbatim>\<open>update_backend_weight\<close>, then commit.\<close>

definition acct_commit :: "srv_ref \<Rightarrow> proxy \<Rightarrow> proxy" where
  "acct_commit i p = upd_srv i srv_lb_commit_status (update_backend_weight p)"

section \<open>The counters already describe the pending state\<close>

text \<open>Between the incremental update and the commit, the counters describe the chain as it will be
  after the commit.\<close>

definition acct_next :: "proxy \<Rightarrow> bool" where
  "acct_next p \<longleftrightarrow>
     srv_act p = n_srv next_act (px_srv p) \<and>
     srv_bck p = n_srv next_bck (px_srv p) \<and>
     tot_wact p = w_srv next_act next_eweight (px_srv p) \<and>
     tot_wbck p = w_srv next_bck next_eweight (px_srv p) \<and>
     fbck p = (if use_all_bk p then None else find_idx next_bck (px_srv p))"

lemma others_committedD:
  assumes "others_committed i p" and "j < length (px_srv p)" and "j \<noteq> i"
  shows "committed (srv_at p j)" "next_act (srv_at p j) = cur_act (srv_at p j)"
    "next_bck (srv_at p j) = cur_bck (srv_at p j)" "next_eweight (srv_at p j) = cur_eweight (srv_at p j)"
  using assms
  by (auto simp: others_committed_def next_act_def cur_act_def next_bck_def cur_bck_def
      committed_usable committed_eweight)

lemma next_commit [simp]:
  "next_act (srv_lb_commit_status s) = next_act s"
  "next_bck (srv_lb_commit_status s) = next_bck s"
  "cur_act (srv_lb_commit_status s) = next_act s"
  "cur_bck (srv_lb_commit_status s) = next_bck s"
  by (simp_all add: next_act_def next_bck_def cur_act_def cur_bck_def)

text \<open>Committing the one pending server turns the pending view into the current one.\<close>

lemma next_view_commit:
  assumes oc: "others_committed i p"
  defines "q \<equiv> upd_srv i srv_lb_commit_status p"
  shows "n_srv cur_act (px_srv q) = n_srv next_act (px_srv p)"
    "n_srv cur_bck (px_srv q) = n_srv next_bck (px_srv p)"
    "w_srv cur_act cur_eweight (px_srv q) = w_srv next_act next_eweight (px_srv p)"
    "w_srv cur_bck cur_eweight (px_srv q) = w_srv next_bck next_eweight (px_srv p)"
    "find_idx cur_bck (px_srv q) = find_idx next_bck (px_srv p)"
proof -
  note oc_simps = q_def others_committedD [OF oc]
  show "n_srv cur_act (px_srv q) = n_srv next_act (px_srv p)"
    by (rule n_srv_cong) (auto simp: oc_simps)
  show "n_srv cur_bck (px_srv q) = n_srv next_bck (px_srv p)"
    by (rule n_srv_cong) (auto simp: oc_simps)
  show "w_srv cur_act cur_eweight (px_srv q) = w_srv next_act next_eweight (px_srv p)"
    by (rule w_srv_cong) (auto simp: oc_simps)
  show "w_srv cur_bck cur_eweight (px_srv q) = w_srv next_bck next_eweight (px_srv p)"
    by (rule w_srv_cong) (auto simp: oc_simps)
  show "find_idx cur_bck (px_srv q) = find_idx next_bck (px_srv p)"
    by (rule find_idx_cong) (auto simp: oc_simps)
qed

lemma update_backend_weight_frame [simp, px_frame]:
  "px_srv (update_backend_weight p) = px_srv p"
  "px_options (update_backend_weight p) = px_options p"
  "use_all_bk (update_backend_weight p) = use_all_bk p"
  "srv_act (update_backend_weight p) = srv_act p"
  "srv_bck (update_backend_weight p) = srv_bck p"
  "tot_wact (update_backend_weight p) = tot_wact p"
  "tot_wbck (update_backend_weight p) = tot_wbck p"
  "fbck (update_backend_weight p) = fbck p"
  by (simp_all add: update_backend_weight_def use_all_bk_def split: option.splits)

lemma acct_commit_lb_acct:
  assumes an: "acct_next p" and oc: "others_committed i p"
  shows "lb_acct (acct_commit i p)"
proof -
  have fb: "fbck p = Some b \<Longrightarrow> b < length (px_srv p)" for b
    using an unfolding acct_next_def by (metis find_idx_Some_iff option.distinct(1))
  have "cur_eweight (srv_at (acct_commit i p) b) = next_eweight (srv_at p b)" if "fbck p = Some b" for b
    using fb [OF that] others_committedD(4) [OF oc] by (simp add: acct_commit_def)
  then have "tot_spec (acct_commit i p)"
    by (cases "fbck p")
       (simp_all add: tot_spec_def acct_commit_def, simp_all add: update_backend_weight_def)
  moreover have "others_committed i (update_backend_weight p)"
    using oc by (simp add: others_committed_def)
  ultimately show ?thesis
    using an next_view_commit [of i "update_backend_weight p"]
    by (simp add: lb_acct_def acct_next_def acct_commit_def)
qed

text \<open>Steps that change only tree fields keep the accounting facts.\<close>

lemma same_acct_refl [simp]: "same_acct p p"
  by (simp add: same_acct_def)

lemma same_acct_trans: "same_acct p q \<Longrightarrow> same_acct q r \<Longrightarrow> same_acct p r"
  by (simp add: same_acct_def)

lemma same_acct_nth:
  assumes "same_acct p q" and "j < length (px_srv p)"
  shows "j < length (px_srv q)" "next_act (srv_at q j) = next_act (srv_at p j)"
    "next_bck (srv_at q j) = next_bck (srv_at p j)" "next_eweight (srv_at q j) = next_eweight (srv_at p j)"
    "committed (srv_at q j) = committed (srv_at p j)"
proof -
  show *: "j < length (px_srv q)"
    using assms unfolding same_acct_def by (metis length_map)
  have "acct_key (srv_at q j) = acct_key (srv_at p j)"
    using assms * unfolding same_acct_def by (metis nth_map)
  then show "next_act (srv_at q j) = next_act (srv_at p j)"
    "next_bck (srv_at q j) = next_bck (srv_at p j)" "next_eweight (srv_at q j) = next_eweight (srv_at p j)"
    "committed (srv_at q j) = committed (srv_at p j)"
    by (simp_all add: acct_key_def next_act_def next_bck_def)
qed

lemma same_acct_length: "same_acct p q \<Longrightarrow> length (px_srv q) = length (px_srv p)"
  unfolding same_acct_def by (metis length_map)

lemma same_acct_others: "same_acct p q \<Longrightarrow> others_committed i p \<Longrightarrow> others_committed i q"
  using same_acct_nth(5) [of p q] same_acct_length [of p q] by (auto simp: others_committed_def)

lemma same_acct_next:
  assumes sa: "same_acct p q" and an: "acct_next p"
  shows "acct_next q"
proof -
  note len = same_acct_length [OF sa] and nth = same_acct_nth [OF sa]
  have "n_srv next_act (px_srv q) = n_srv next_act (px_srv p)"
    by (rule n_srv_cong) (auto simp: len nth)
  moreover have "n_srv next_bck (px_srv q) = n_srv next_bck (px_srv p)"
    by (rule n_srv_cong) (auto simp: len nth)
  moreover have "w_srv next_act next_eweight (px_srv q) = w_srv next_act next_eweight (px_srv p)"
    by (rule w_srv_cong) (auto simp: len nth)
  moreover have "w_srv next_bck next_eweight (px_srv q) = w_srv next_bck next_eweight (px_srv p)"
    by (rule w_srv_cong) (auto simp: len nth)
  moreover have "find_idx next_bck (px_srv q) = find_idx next_bck (px_srv p)"
    by (rule find_idx_cong) (auto simp: len nth)
  ultimately show ?thesis using an sa by (auto simp: acct_next_def same_acct_def)
qed

section \<open>The incremental updates are correct\<close>

lemma next_view_change:
  assumes oc: "others_committed i p" and i: "i < length (px_srv p)"
  defines "s \<equiv> srv_at p i"
  shows "n_srv next_act (px_srv p) =
           n_srv cur_act (px_srv p) - (if cur_act s then 1 else 0) + (if next_act s then 1 else 0)"
    "n_srv next_bck (px_srv p) =
           n_srv cur_bck (px_srv p) - (if cur_bck s then 1 else 0) + (if next_bck s then 1 else 0)"
    "w_srv next_act next_eweight (px_srv p) = w_srv cur_act cur_eweight (px_srv p)
           - (if cur_act s then cur_eweight s else 0) + (if next_act s then next_eweight s else 0)"
    "w_srv next_bck next_eweight (px_srv p) = w_srv cur_bck cur_eweight (px_srv p)
           - (if cur_bck s then cur_eweight s else 0) + (if next_bck s then next_eweight s else 0)"
  using i unfolding s_def next_view_commit [OF oc, symmetric]
  by (simp_all add: px_srv_upd_srv n_srv_update w_srv_update)

lemma find_bck_same:
  assumes "others_committed i p" and "i < length (px_srv p)"
    and "next_bck (srv_at p i) = cur_bck (srv_at p i)"
  shows "find_idx next_bck (px_srv p) = find_idx cur_bck (px_srv p)"
  using assms others_committedD(3) [OF assms(1)] by (intro find_idx_cong) metis+

text \<open>Losing a server other than the first backup, or the first backup itself.\<close>

lemma find_bck_lost:
  assumes oc: "others_committed i p" and i: "i < length (px_srv p)"
    and lost: "\<not> next_bck (srv_at p i)"
  shows "find_idx next_bck (px_srv p) =
    (if find_idx cur_bck (px_srv p) = Some i then next_usable_backup i p
     else find_idx cur_bck (px_srv p))"
proof (cases "find_idx cur_bck (px_srv p) = Some i")
  case True
  then have low: "\<forall>j \<le> i. \<not> next_bck (srv_at p j)"
    using lost others_committedD(3) [OF oc] by (auto simp: find_idx_Some_iff le_less)
  have "find_idx next_bck (take (Suc i) (px_srv p)) = None"
    using low i by (auto simp: find_idx_None_iff in_set_conv_nth less_Suc_eq_le)
  moreover have "px_srv p = take (Suc i) (px_srv p) @ drop (Suc i) (px_srv p)"
    by simp
  ultimately show ?thesis
    using True i unfolding next_usable_backup_def
    by (subst (1) append_take_drop_id [of "Suc i", symmetric], subst find_idx_append) simp
next
  case False
  show ?thesis
  proof (cases "find_idx cur_bck (px_srv p)")
    case None
    then have "find_idx next_bck (px_srv p) = None"
      using lost others_committedD(3) [OF oc]
      unfolding find_idx_None_iff all_set_conv_all_nth by metis
    with None show ?thesis by simp
  next
    case (Some b)
    with False have "b \<noteq> i" by simp
    then have "find_idx next_bck (px_srv p) = Some b"
      using Some lost others_committedD(3) [OF oc] unfolding find_idx_Some_iff
      by (metis order.strict_trans)
    with Some False show ?thesis by simp
  qed
qed

text \<open>Gaining a backup server: it becomes the first one if it stands before the current one.\<close>

lemma find_bck_gained:
  assumes oc: "others_committed i p" and i: "i < length (px_srv p)"
    and gained: "next_bck (srv_at p i)" and was: "\<not> cur_bck (srv_at p i)"
  shows "find_idx next_bck (px_srv p) =
    (case find_idx cur_bck (px_srv p) of
       None \<Rightarrow> Some i
     | Some b \<Rightarrow> if i < b then Some i else Some b)"
proof (cases "find_idx cur_bck (px_srv p)")
  case None
  then have "\<forall>j < i. \<not> next_bck (srv_at p j)"
    using others_committedD(3) [OF oc] i unfolding find_idx_None_iff
    by (metis nth_mem order.strict_trans less_irrefl)
  with None i gained show ?thesis by (simp add: find_idx_Some_iff)
next
  case (Some b)
  then have b: "b < length (px_srv p)" "cur_bck (srv_at p b)" "\<forall>j < b. \<not> cur_bck (srv_at p j)" "b \<noteq> i"
    using was by (auto simp: find_idx_Some_iff)
  show ?thesis
  proof (cases "i < b")
    case True
    then have "\<forall>j < i. \<not> next_bck (srv_at p j)"
      using b others_committedD(3) [OF oc] i by (metis order.strict_trans less_irrefl)
    with i gained have "find_idx next_bck (px_srv p) = Some i" by (simp add: find_idx_Some_iff)
    with True Some show ?thesis by simp
  next
    case False
    then have "find_idx next_bck (px_srv p) = Some b"
      using b others_committedD(3) [OF oc] unfolding find_idx_Some_iff
      by (metis order.strict_trans)
    with False Some show ?thesis by simp
  qed
qed

lemma acct_srv_down_next:
  assumes acct: "lb_acct p" and oc: "others_committed i p" and i: "i < length (px_srv p)"
    and cu: "srv_currently_usable (srv_at p i)" and nu: "\<not> srv_willbe_usable (srv_at p i)"
  shows "acct_next (acct_srv_down i p)"
  using acct next_view_change [OF oc i] find_bck_lost [OF oc i] find_bck_same [OF oc i] cu nu
  by (auto simp: acct_next_def lb_acct_def acct_srv_down_def Let_def cur_act_def cur_bck_def
      next_act_def next_bck_def use_all_bk_def next_usable_backup_def)

lemma acct_srv_up_next:
  assumes acct: "lb_acct p" and oc: "others_committed i p" and i: "i < length (px_srv p)"
    and cu: "\<not> srv_currently_usable (srv_at p i)" and nu: "srv_willbe_usable (srv_at p i)"
  shows "acct_next (acct_srv_up i p)"
proof -
  have bound: "find_idx cur_bck (px_srv p) = Some b \<Longrightarrow> b < length (px_srv p)" for b
    by (simp add: find_idx_Some_iff)
  show ?thesis
    using acct next_view_change [OF oc i] find_bck_gained [OF oc i] find_bck_same [OF oc i] cu nu bound
    by (cases "find_idx cur_bck (px_srv p)")
       (auto simp: acct_next_def lb_acct_def acct_srv_up_def Let_def cur_act_def cur_bck_def
        next_act_def next_bck_def use_all_bk_def elect_fbck_def srv_reaches_def)
qed

lemma acct_srv_reweight_next:
  assumes acct: "lb_acct p" and oc: "others_committed i p" and i: "i < length (px_srv p)"
    and cu: "srv_currently_usable (srv_at p i)" and nu: "srv_willbe_usable (srv_at p i)"
  shows "acct_next (acct_srv_reweight i p)"
  using acct next_view_change [OF oc i] find_bck_same [OF oc i] cu nu
  by (auto simp: acct_next_def lb_acct_def acct_srv_reweight_def Let_def cur_act_def cur_bck_def
      next_act_def next_bck_def use_all_bk_def)

text \<open>A status change that does not affect what is counted.\<close>

lemma acct_unchanged_next:
  assumes acct: "lb_acct p" and oc: "others_committed i p" and i: "i < length (px_srv p)"
    and same: "srv_currently_usable (srv_at p i) = srv_willbe_usable (srv_at p i)"
    and ew: "srv_willbe_usable (srv_at p i) \<Longrightarrow> next_eweight (srv_at p i) = cur_eweight (srv_at p i)"
  shows "acct_next p"
  using acct next_view_change [OF oc i] find_bck_same [OF oc i] same ew
  by (auto simp: acct_next_def lb_acct_def cur_act_def cur_bck_def next_act_def next_bck_def)

lemma acct_commit_only:
  assumes acct: "lb_acct p" and oc: "others_committed i p" and i: "i < length (px_srv p)"
    and same: "srv_currently_usable (srv_at p i) = srv_willbe_usable (srv_at p i)"
    and ew: "srv_willbe_usable (srv_at p i) \<Longrightarrow> next_eweight (srv_at p i) = cur_eweight (srv_at p i)"
  shows "lb_acct (upd_srv i srv_lb_commit_status p)"
proof -
  have an: "acct_next p" by (rule acct_unchanged_next [OF assms])
  have fb: "cur_eweight (srv_at (upd_srv i srv_lb_commit_status p) b) = cur_eweight (srv_at p b)"
    if "fbck p = Some b" for b
  proof -
    from that an have "b < length (px_srv p)" "next_bck (srv_at p b)"
      unfolding acct_next_def by (metis find_idx_Some_iff option.distinct(1))+
    then show ?thesis using ew by (cases "b = i") (auto simp: next_bck_def)
  qed
  moreover have "tot_spec p" using acct by (simp add: lb_acct_def)
  ultimately have "tot_spec (upd_srv i srv_lb_commit_status p)"
    by (auto simp: tot_spec_def split: option.splits)
  then show ?thesis
    using an next_view_commit [OF oc] by (simp add: lb_acct_def acct_next_def)
qed

section \<open>The recount from scratch is correct\<close>

lemma n_srv_zero_iff:
  assumes "length xs < 2 ^ 32"
  shows "n_srv Q xs = 0 \<longleftrightarrow> find_idx Q xs = None"
proof -
  have "length (filter Q xs) < 2 ^ 32"
    using assms length_filter_le [of Q xs] by linarith
  then have "n_srv Q xs = 0 \<longleftrightarrow> length (filter Q xs) = 0"
    unfolding n_srv_def word_of_nat_eq_0_iff by (auto dest: dvd_imp_le)
  then show ?thesis by (simp add: find_idx_None_iff filter_empty_conv)
qed

text \<open>The chain differs from the initial one in \<^verbatim>\<open>cumulative_weight\<close> only.\<close>

definition no_cw :: "server \<Rightarrow> server" where
  "no_cw s = s\<lparr>cumulative_weight := 0\<rparr>"

lemma no_cw_facts:
  assumes "no_cw s = no_cw t"
  shows "next_act s = next_act t" "next_bck s = next_bck t" "next_eweight s = next_eweight t"
    "cur_act s = cur_act t" "cur_bck s = cur_bck t" "cur_eweight s = cur_eweight t"
    "committed s = committed t" "srv_willbe_usable s = srv_willbe_usable t" "is_backup s = is_backup t"
    "srv_currently_usable s = srv_currently_usable t" "uweight s = uweight t" "puid s = puid t"
    "served s = served t" "srv_queue s = srv_queue t"
  using assms unfolding no_cw_def
  by (cases s, cases t, simp add: next_act_def next_bck_def cur_act_def cur_bck_def committed_def
      srv_lb_status_changed_def srv_willbe_usable_def srv_currently_usable_def is_backup_def)+

definition recount_inv :: "proxy \<Rightarrow> nat \<Rightarrow> proxy \<Rightarrow> bool" where
  "recount_inv p0 i p \<longleftrightarrow>
     map no_cw (px_srv p) = map no_cw (px_srv p0) \<and> px_options p = px_options p0 \<and>
     srv_act p = n_srv next_act (take i (px_srv p0)) \<and>
     srv_bck p = n_srv next_bck (take i (px_srv p0)) \<and>
     tot_wact p = w_srv next_act next_eweight (take i (px_srv p0)) \<and>
     tot_wbck p = w_srv next_bck next_eweight (take i (px_srv p0)) \<and>
     fbck p = (if use_all_bk p0 then None else find_idx next_bck (take i (px_srv p0)))"

lemma map_no_cw_upd:
  "map no_cw (px_srv (upd_srv i (\<lambda>s. s\<lparr>cumulative_weight := c s\<rparr>) p)) = map no_cw (px_srv p)"
  by (rule nth_equalityI) (auto simp: no_cw_def)

lemma recount_body_inv:
  assumes len: "length (px_srv p0) < 2 ^ 32" and i: "i < length (px_srv p0)"
    and inv: "recount_inv p0 i p"
  shows "recount_inv p0 (Suc i) (recount_body i p)"
proof -
  have "length (px_srv p) = length (px_srv p0)"
    using inv unfolding recount_inv_def by (metis length_map)
  then have nc: "no_cw (srv_at p i) = no_cw (srv_at p0 i)"
    using inv i unfolding recount_inv_def by (metis nth_map)
  note si = no_cw_facts [OF nc]
  have tk: "take (Suc i) (px_srv p0) = take i (px_srv p0) @ [srv_at p0 i]"
    using i by (simp add: take_Suc_conv_app_nth)
  have z: "n_srv next_bck (take i (px_srv p0)) = 0 \<longleftrightarrow> find_idx next_bck (take i (px_srv p0)) = None"
    using len by (intro n_srv_zero_iff) simp
  have ub: "use_all_bk p = use_all_bk p0"
    using inv by (simp add: recount_inv_def use_all_bk_def)
  have opt: "use_all_bk (p\<lparr>srv_bck := b, fbck := f\<rparr>) = use_all_bk p" for b f
    by (simp add: use_all_bk_def)
  consider (down) "\<not> srv_willbe_usable (srv_at p0 i)"
    | (bck) "next_bck (srv_at p0 i)" "\<not> next_act (srv_at p0 i)" "srv_willbe_usable (srv_at p0 i)" "is_backup (srv_at p0 i)"
    | (act) "next_act (srv_at p0 i)" "\<not> next_bck (srv_at p0 i)" "srv_willbe_usable (srv_at p0 i)" "\<not> is_backup (srv_at p0 i)"
    by (auto simp: next_act_def next_bck_def)
  then show ?thesis
  proof cases
    case down
    then show ?thesis
      using inv i unfolding recount_inv_def tk
      by (simp add: recount_body_def si find_idx_append next_act_def next_bck_def
          split: option.splits)
  next
    case bck
    then show ?thesis
      using inv i z ub unfolding recount_inv_def tk
      by (auto simp: recount_body_def si find_idx_append map_no_cw_upd Let_def min_def
          split: option.splits)
  next
    case act
    then show ?thesis
      using inv i unfolding recount_inv_def tk
      by (simp add: recount_body_def si find_idx_append map_no_cw_upd Let_def split: option.splits)
  qed
qed

lemma recount_servers_inv:
  assumes "length (px_srv p) < 2 ^ 32"
  shows "recount_inv p (length (px_srv p)) (recount_servers p)"
  unfolding recount_servers_def
proof (rule fold_upt_rule)
  show "recount_inv p 0 (p\<lparr>srv_act := 0, srv_bck := 0, tot_wact := 0, tot_wbck := 0, fbck := None\<rparr>)"
    by (simp add: recount_inv_def use_all_bk_def)
qed (rule recount_body_inv [OF assms])

lemma recount_servers_next:
  assumes "length (px_srv p) < 2 ^ 32"
  shows "acct_next (recount_servers p)"
    and "map no_cw (px_srv (recount_servers p)) = map no_cw (px_srv p)"
    and "px_options (recount_servers p) = px_options p"
proof -
  note inv = recount_servers_inv [OF assms, unfolded recount_inv_def, simplified]
  show nc: "map no_cw (px_srv (recount_servers p)) = map no_cw (px_srv p)"
    and "px_options (recount_servers p) = px_options p"
    using inv by simp_all
  have len: "length (px_srv (recount_servers p)) = length (px_srv p)"
    using nc by (metis length_map)
  have "no_cw (srv_at (recount_servers p) j) = no_cw (srv_at p j)" if "j < length (px_srv p)" for j
    using nc len that by (metis nth_map)
  note f = no_cw_facts [OF this]
  have "n_srv next_act (px_srv (recount_servers p)) = n_srv next_act (px_srv p)"
    by (rule n_srv_cong) (auto simp: len f)
  moreover have "n_srv next_bck (px_srv (recount_servers p)) = n_srv next_bck (px_srv p)"
    by (rule n_srv_cong) (auto simp: len f)
  moreover have "w_srv next_act next_eweight (px_srv (recount_servers p)) = w_srv next_act next_eweight (px_srv p)"
    by (rule w_srv_cong) (auto simp: len f)
  moreover have "w_srv next_bck next_eweight (px_srv (recount_servers p)) = w_srv next_bck next_eweight (px_srv p)"
    by (rule w_srv_cong) (auto simp: len f)
  moreover have "find_idx next_bck (px_srv (recount_servers p)) = find_idx next_bck (px_srv p)"
    by (rule find_idx_cong) (auto simp: len f)
  ultimately show "acct_next (recount_servers p)"
    using inv by (auto simp: acct_next_def use_all_bk_def)
qed

lemma all_committed_nth: "all_committed p \<longleftrightarrow> (\<forall>j < length (px_srv p). committed (srv_at p j))"
  by (simp add: all_committed_def list_all_length)

text \<open>What the initialisation functions of all tree algorithms establish.\<close>

lemma recount_update_lb_acct:
  assumes len: "length (px_srv p) < 2 ^ 32" and ac: "all_committed p"
  shows "lb_acct (update_backend_weight (recount_servers p))"
    and "all_committed (update_backend_weight (recount_servers p))"
proof -
  note rs = recount_servers_next [OF len]
  let ?r = "recount_servers p"
  have lr: "length (px_srv ?r) = length (px_srv p)" using rs(2) by (metis length_map)
  have "no_cw (srv_at ?r j) = no_cw (srv_at p j)" if "j < length (px_srv p)" for j
    using rs(2) lr that by (metis nth_map)
  then have com: "committed (srv_at ?r j)" if "j < length (px_srv p)" for j
    using ac that no_cw_facts(7) by (metis all_committed_nth)
  then show acr: "all_committed (update_backend_weight ?r)"
    by (simp add: all_committed_nth lr)
  have oc: "others_committed (length (px_srv p)) ?r" using com lr by (simp add: others_committed_def)
  from acct_commit_lb_acct [OF rs(1) oc] show "lb_acct (update_backend_weight ?r)"
    by (simp add: acct_commit_def upd_srv_beyond lr)
qed

text \<open>Steps on the trees keep the accounting of a committed proxy.\<close>

lemma same_acct_lb_acct:
  assumes sa: "same_acct p q" and acct: "lb_acct p"
  shows "lb_acct q"
proof -
  have len: "length (px_srv q) = length (px_srv p)" by (rule same_acct_length [OF sa])
  have nth: "cur_act (srv_at q j) = cur_act (srv_at p j)" "cur_bck (srv_at q j) = cur_bck (srv_at p j)"
    "cur_eweight (srv_at q j) = cur_eweight (srv_at p j)" if "j < length (px_srv p)" for j
  proof -
    have "acct_key (srv_at q j) = acct_key (srv_at p j)"
      using sa that len unfolding same_acct_def by (metis nth_map)
    then show "cur_act (srv_at q j) = cur_act (srv_at p j)" "cur_bck (srv_at q j) = cur_bck (srv_at p j)"
      "cur_eweight (srv_at q j) = cur_eweight (srv_at p j)"
      by (simp_all add: acct_key_def cur_act_def cur_bck_def)
  qed
  have "fbck p = Some b \<Longrightarrow> b < length (px_srv p)" for b
    using acct unfolding lb_acct_def by (metis find_idx_Some_iff option.distinct(1))
  moreover have "tot_spec p" using acct by (simp add: lb_acct_def)
  ultimately have "tot_spec q"
    using sa nth(3) by (auto simp: tot_spec_def same_acct_def split: option.splits)
  moreover have "n_srv cur_act (px_srv q) = n_srv cur_act (px_srv p)"
    by (rule n_srv_cong) (simp_all add: nth len)
  moreover have "n_srv cur_bck (px_srv q) = n_srv cur_bck (px_srv p)"
    by (rule n_srv_cong) (simp_all add: nth len)
  moreover have "w_srv cur_act cur_eweight (px_srv q) = w_srv cur_act cur_eweight (px_srv p)"
    by (rule w_srv_cong) (simp_all add: nth len)
  moreover have "w_srv cur_bck cur_eweight (px_srv q) = w_srv cur_bck cur_eweight (px_srv p)"
    by (rule w_srv_cong) (simp_all add: nth len)
  moreover have "find_idx cur_bck (px_srv q) = find_idx cur_bck (px_srv p)"
    by (rule find_idx_cong) (simp_all add: nth len)
  ultimately show ?thesis using acct sa by (simp add: lb_acct_def same_acct_def)
qed

lemma same_acct_all_committed: "same_acct p q \<Longrightarrow> all_committed p \<Longrightarrow> all_committed q"
  using same_acct_nth(5) [of p q] same_acct_length [of p q] by (auto simp: all_committed_nth)

section \<open>The start of the initialisation functions\<close>

text \<open>The loop with which \<^verbatim>\<open>fas_init_server_tree\<close>, \<^verbatim>\<open>fwlc_init_server_tree\<close> and
  \<^verbatim>\<open>chash_init_server_tree\<close> start. \<^verbatim>\<open>wmult\<close> is at least 1 in a configured proxy.\<close>

definition init_eweight :: "proxy \<Rightarrow> server \<Rightarrow> server" where
  "init_eweight p s = srv_lb_commit_status (s\<lparr>next_eweight := (uweight s * wdiv p + wmult p - 1) div wmult p\<rparr>)"

definition init_eweights :: "proxy \<Rightarrow> proxy" where
  "init_eweights p =
     (let p = p\<lparr>wdiv := BE_WEIGHT_SCALE\<rparr>
      in fold (\<lambda>i p. upd_srv i (init_eweight p) p) [0..<length (px_srv p)] p)"

definition init_weights_and_count :: "proxy \<Rightarrow> proxy" where
  "init_weights_and_count p = update_backend_weight (recount_servers (init_eweights p))"

lemma init_eweight_cong: "wdiv q = wdiv p \<Longrightarrow> wmult q = wmult p \<Longrightarrow> init_eweight q s = init_eweight p s"
  by (simp add: init_eweight_def)

lemma init_eweights_srv: "px_srv (init_eweights p) = map (init_eweight (p\<lparr>wdiv := BE_WEIGHT_SCALE\<rparr>)) (px_srv p)"
proof -
  define p0 where "p0 = p\<lparr>wdiv := BE_WEIGHT_SCALE\<rparr>"
  let ?f = "\<lambda>i p. upd_srv i (init_eweight p) p" and ?n = "length (px_srv p0)"
  let ?P = "\<lambda>k q. length (px_srv q) = ?n \<and> wdiv q = wdiv p0 \<and> wmult q = wmult p0 \<and>
     (\<forall>j < ?n. srv_at q j = (if j < k then init_eweight p0 (srv_at p0 j) else srv_at p0 j))"
  have "?P ?n (fold ?f [0..<?n] p0)"
  proof (rule fold_upt_rule [where P = ?P])
    show "?P (Suc k) (?f k q)" if "k < ?n" and "?P k q" for k q
    proof -
      from that(2) have "init_eweight q = init_eweight p0"
        by (intro ext init_eweight_cong) simp_all
      with that show ?thesis by (auto simp: less_Suc_eq)
    qed
  qed simp
  then have "px_srv (fold ?f [0..<?n] p0) = map (init_eweight p0) (px_srv p0)"
    by (intro nth_equalityI) auto
  then show ?thesis by (simp add: init_eweights_def Let_def p0_def)
qed

lemma init_weights_and_count_ok:
  assumes "length (px_srv p) < 2 ^ 32"
  shows "lb_acct (init_weights_and_count p)" "all_committed (init_weights_and_count p)"
    "map no_cw (px_srv (init_weights_and_count p)) = map no_cw (px_srv (init_eweights p))"
proof -
  have "all_committed (init_eweights p)"
    by (simp add: all_committed_def init_eweights_srv list_all_iff init_eweight_def)
  then show "lb_acct (init_weights_and_count p)" "all_committed (init_weights_and_count p)"
    "map no_cw (px_srv (init_weights_and_count p)) = map no_cw (px_srv (init_eweights p))"
    using recount_update_lb_acct [of "init_eweights p"] recount_servers_next(2) [of "init_eweights p"] assms
    by (simp_all add: init_weights_and_count_def init_eweights_srv)
qed

lemma init_weights_and_count_map:
  assumes "length (px_srv p) < 2 ^ 32" and "\<And>s. f (no_cw s) = f s"
  shows "map f (px_srv (init_weights_and_count p)) = map f (px_srv (init_eweights p))"
proof -
  have "map f (map no_cw (px_srv (init_weights_and_count p))) = map f (map no_cw (px_srv (init_eweights p)))"
    using init_weights_and_count_ok(3) [OF assms(1)] by simp
  then show ?thesis by (simp add: comp_def assms(2))
qed

lemma init_weights_lb_tree:
  assumes "length (px_srv p) < 2 ^ 32" and "\<forall>s \<in> set (px_srv p). lb_tree s = None"
  shows "\<forall>s \<in> set (px_srv (init_weights_and_count p)). lb_tree s = None"
proof -
  have "map lb_tree (px_srv (init_weights_and_count p)) = map lb_tree (px_srv p)"
    using init_weights_and_count_map [OF assms(1), of lb_tree]
    by (simp add: no_cw_def init_eweights_srv init_eweight_def srv_lb_commit_status_def comp_def)
  then have "lb_tree ` set (px_srv (init_weights_and_count p)) = lb_tree ` set (px_srv p)"
    by (metis set_map)
  with assms(2) show ?thesis by (metis (no_types, lifting) imageE image_eqI)
qed

section \<open>The interface of a balancing algorithm\<close>

text \<open>
  \<^verbatim>\<open>server.c\<close> writes a server's pending state, admin flags or weight and then calls one of the
  three callbacks of \<^verbatim>\<open>struct lbprm\<close>. An algorithm promises that each callback commits the
  change and keeps both the accounting and its own structures.
\<close>

datatype lb_callback = Set_server_status_up | Set_server_status_down | Update_server_eweight

record lb_event =
  ev_call :: lb_callback
  ev_srv :: srv_ref
  ev_state :: srv_state
  ev_admin :: u8
  ev_eweight :: u32

definition set_pending :: "lb_event \<Rightarrow> server \<Rightarrow> server" where
  "set_pending e s =
     s\<lparr>next_state := ev_state e, next_admin := ev_admin e, next_eweight := ev_eweight e\<rparr>"

text \<open>When a callback may be called: the status callbacks for a change in their direction, which
  \<^emph>\<open>will not change the weight of a server which was already up\<close>.\<close>

definition keeps_weight :: "server \<Rightarrow> bool" where
  "keeps_weight s \<longleftrightarrow>
     (srv_currently_usable s \<longrightarrow> srv_willbe_usable s \<longrightarrow> next_eweight s = cur_eweight s)"

definition call_ok :: "lb_callback \<Rightarrow> server \<Rightarrow> bool" where
  "call_ok c s =
     (case c of
        Set_server_status_up \<Rightarrow> keeps_weight s \<and> (srv_currently_usable s \<longrightarrow> srv_willbe_usable s)
      | Set_server_status_down \<Rightarrow> keeps_weight s \<and> (srv_willbe_usable s \<longrightarrow> srv_currently_usable s)
      | Update_server_eweight \<Rightarrow> True)"

definition ev_valid :: "lb_event \<Rightarrow> proxy \<Rightarrow> bool" where
  "ev_valid e p \<longleftrightarrow> ev_srv e < length (px_srv p) \<and>
     call_ok (ev_call e) (set_pending e (srv_at p (ev_srv e)))"

definition lb_ready :: "srv_ref \<Rightarrow> proxy \<Rightarrow> bool" where
  "lb_ready i p \<longleftrightarrow> lb_acct p \<and> others_committed i p \<and> i < length (px_srv p)"

definition run_event ::
    "(lb_callback \<Rightarrow> srv_ref \<Rightarrow> proxy \<Rightarrow> proxy) \<Rightarrow> lb_event \<Rightarrow> proxy \<Rightarrow> proxy" where
  "run_event cb e p = cb (ev_call e) (ev_srv e) (upd_srv (ev_srv e) (set_pending e) p)"

text \<open>A run: events that are valid when they happen.\<close>

fun run_events ::
    "(lb_callback \<Rightarrow> srv_ref \<Rightarrow> proxy \<Rightarrow> proxy) \<Rightarrow> lb_event list \<Rightarrow> proxy \<Rightarrow> proxy option" where
  "run_events cb [] p = Some p"
| "run_events cb (e # es) p = (if ev_valid e p then run_events cb es (run_event cb e p) else None)"

lemma set_pending_current [simp]:
  "srv_currently_usable (set_pending e s) = srv_currently_usable s"
  "cur_eweight (set_pending e s) = cur_eweight s"
  "is_backup (set_pending e s) = is_backup s"
  "cur_act (set_pending e s) = cur_act s"
  "cur_bck (set_pending e s) = cur_bck s"
  by (simp_all add: set_pending_def srv_currently_usable_def is_backup_def cur_act_def cur_bck_def)

lemma lb_acct_pending:
  assumes "lb_acct p"
  shows "lb_acct (upd_srv i (set_pending e) p)"
proof -
  let ?q = "upd_srv i (set_pending e) p"
  have nth: "j < length (px_srv p) \<Longrightarrow> cur_act (srv_at ?q j) = cur_act (srv_at p j) \<and>
      cur_bck (srv_at ?q j) = cur_bck (srv_at p j) \<and> cur_eweight (srv_at ?q j) = cur_eweight (srv_at p j)" for j
    by simp
  have "fbck p = Some b \<Longrightarrow> b < length (px_srv p)" for b
    using assms unfolding lb_acct_def by (metis find_idx_Some_iff option.distinct(1))
  moreover have "tot_spec p" using assms by (simp add: lb_acct_def)
  ultimately have "tot_spec ?q" using nth by (auto simp: tot_spec_def split: option.splits)
  moreover have "n_srv cur_act (px_srv ?q) = n_srv cur_act (px_srv p)"
    by (rule n_srv_cong) (simp_all add: nth)
  moreover have "n_srv cur_bck (px_srv ?q) = n_srv cur_bck (px_srv p)"
    by (rule n_srv_cong) (simp_all add: nth)
  moreover have "w_srv cur_act cur_eweight (px_srv ?q) = w_srv cur_act cur_eweight (px_srv p)"
    by (rule w_srv_cong) (simp_all add: nth)
  moreover have "w_srv cur_bck cur_eweight (px_srv ?q) = w_srv cur_bck cur_eweight (px_srv p)"
    by (rule w_srv_cong) (simp_all add: nth)
  moreover have "find_idx cur_bck (px_srv ?q) = find_idx cur_bck (px_srv p)"
    by (rule find_idx_cong) (simp_all add: nth)
  ultimately show ?thesis using assms by (simp add: lb_acct_def)
qed

lemma all_committed_others: "all_committed p \<Longrightarrow> others_committed i (upd_srv i f p)"
  by (simp add: all_committed_nth others_committed_def)

locale lb_algorithm =
  fixes inv :: "proxy \<Rightarrow> bool" and cb :: "lb_callback \<Rightarrow> srv_ref \<Rightarrow> proxy \<Rightarrow> proxy"
  assumes inv_pending: "inv p \<Longrightarrow> inv (upd_srv i (set_pending e) p)"
    and cb_acct: "\<lbrakk>inv p; lb_ready i p; call_ok c (srv_at p i)\<rbrakk>
      \<Longrightarrow> lb_acct (cb c i p)"
    and cb_commits: "\<lbrakk>inv p; lb_ready i p\<rbrakk> \<Longrightarrow> all_committed (cb c i p)"
    and cb_inv: "\<lbrakk>inv p; lb_ready i p; call_ok c (srv_at p i)\<rbrakk>
      \<Longrightarrow> inv (cb c i p)"
begin

lemma event_ok:
  assumes "inv p" "lb_acct p" "all_committed p" "ev_valid e p"
  shows "inv (run_event cb e p) \<and> lb_acct (run_event cb e p) \<and> all_committed (run_event cb e p)"
proof -
  let ?q = "upd_srv (ev_srv e) (set_pending e) p"
  have 1: "inv ?q" using assms(1) by (rule inv_pending)
  have 2: "lb_ready (ev_srv e) ?q"
    using assms by (simp add: lb_ready_def lb_acct_pending all_committed_others ev_valid_def)
  have 3: "call_ok (ev_call e) (srv_at ?q (ev_srv e))"
    using assms(4) by (auto simp: ev_valid_def)
  show ?thesis
    unfolding run_event_def using cb_acct [OF 1 2 3] cb_commits [OF 1 2] cb_inv [OF 1 2 3] by simp
qed

lemma events_ok:
  assumes "inv p" "lb_acct p" "all_committed p" "run_events cb es p = Some q"
  shows "inv q \<and> lb_acct q \<and> all_committed q"
  using assms
proof (induction es arbitrary: p)
  case Nil
  then show ?case by simp
next
  case (Cons e es)
  then have v: "ev_valid e p" and r: "run_events cb es (run_event cb e p) = Some q"
    by (simp_all split: if_splits)
  from event_ok [OF Cons.prems(1-3) v] Cons.IH [OF _ _ _ r] show ?case by simp
qed

end

text \<open>A sample run: the second server stops, its weight is changed, it starts again.\<close>

definition sample_events :: "lb_event list" where
  "sample_events =
     [\<lparr>ev_call = Set_server_status_down, ev_srv = 1, ev_state = SRV_ST_STOPPED, ev_admin = 0, ev_eweight = 32\<rparr>,
      \<lparr>ev_call = Update_server_eweight, ev_srv = 1, ev_state = SRV_ST_STOPPED, ev_admin = 0, ev_eweight = 48\<rparr>,
      \<lparr>ev_call = Set_server_status_up, ev_srv = 1, ev_state = SRV_ST_RUNNING, ev_admin = 0, ev_eweight = 48\<rparr>,
      \<lparr>ev_call = Set_server_status_down, ev_srv = 3, ev_state = SRV_ST_RUNNING, ev_admin = 0x01, ev_eweight = 16\<rparr>]"

end
