(* ===== verification/Lb_Tree.thy ===== *)
theory Lb_Tree
  imports Lb_Account
begin

text \<open>
  The status callbacks of \<^verbatim>\<open>lb_fas.c\<close>, \<^verbatim>\<open>lb_fwlc.c\<close> and \<^verbatim>\<open>lb_chash.c\<close>
  have one shape: check whether anything changed, update the counters, move the server in, out of
  or within its tree, refresh the totals, commit. The locale below states this shape once and
  shows that an algorithm of this shape is a correct balancing algorithm.

  \<open>tinv W p\<close> is the algorithm's invariant on its trees, for the weights \<open>W\<close> with which the
  servers are present in them (0 for a server that is in no tree).
\<close>

lemma willbe_usable_weight: "srv_willbe_usable s \<Longrightarrow> next_eweight s \<noteq> 0"
  by (auto simp: srv_willbe_usable_def)

definition lb_weights :: "proxy \<Rightarrow> srv_ref \<Rightarrow> u32" where
  "lb_weights p j =
     (if j < length (px_srv p) \<and> srv_currently_usable (srv_at p j) then cur_eweight (srv_at p j) else 0)"

definition pending_weight :: "proxy \<Rightarrow> srv_ref \<Rightarrow> u32" where
  "pending_weight p i = (if srv_willbe_usable (srv_at p i) then next_eweight (srv_at p i) else 0)"

lemma lb_weights_commit:
  assumes "i < length (px_srv p)"
  shows "lb_weights (upd_srv i srv_lb_commit_status p) = (lb_weights p)(i := pending_weight p i)"
  using assms by (intro ext) (auto simp: lb_weights_def pending_weight_def)

lemma same_acct_weights:
  assumes "same_acct p q"
  shows "lb_weights q = lb_weights p" "i < length (px_srv p) \<Longrightarrow> pending_weight q i = pending_weight p i"
proof -
  have key: "acct_key (srv_at q j) = acct_key (srv_at p j)" if "j < length (px_srv p)" for j
    using assms that same_acct_length [OF assms] unfolding same_acct_def by (metis nth_map)
  then show "lb_weights q = lb_weights p"
    using same_acct_length [OF assms] by (intro ext) (auto simp: lb_weights_def acct_key_def)
  show "i < length (px_srv p) \<Longrightarrow> pending_weight q i = pending_weight p i"
    using key [of i] by (simp add: pending_weight_def acct_key_def)
qed

lemma acct_ops_srv [simp]:
  "px_srv (acct_srv_down i p) = px_srv p"
  "px_srv (acct_srv_up i p) = px_srv p"
  "px_srv (acct_srv_reweight i p) = px_srv p"
  by (simp_all add: acct_srv_down_def acct_srv_up_def acct_srv_reweight_def elect_fbck_def Let_def
      split: option.splits)

text \<open>The counter updates commute with changes of the server's tree fields.\<close>

lemma acct_srv_up_upd:
  assumes "i < length (px_srv p)"
    and f: "\<And>s. is_backup (f s) = is_backup s" "\<And>s. next_eweight (f s) = next_eweight s"
  shows "acct_srv_up i (upd_srv i f p) = upd_srv i f (acct_srv_up i p)"
  using assms(1)
  by (simp add: acct_srv_up_def elect_fbck_def Let_def f srv_reaches_def use_all_bk_def split: option.splits)
     (simp add: upd_srv_def)

lemma acct_srv_reweight_upd:
  assumes "i < length (px_srv p)"
    and f: "\<And>s. is_backup (f s) = is_backup s" "\<And>s. next_eweight (f s) = next_eweight s"
      "\<And>s. cur_eweight (f s) = cur_eweight s"
  shows "acct_srv_reweight i (upd_srv i f p) = upd_srv i f (acct_srv_reweight i p)"
  using assms(1) by (simp add: acct_srv_reweight_def Let_def f) (simp add: upd_srv_def)

lemma others_committed_px_srv: "px_srv q = px_srv p \<Longrightarrow> others_committed i q = others_committed i p"
  by (simp add: others_committed_def)

lemma lb_weights_px_srv: "px_srv q = px_srv p \<Longrightarrow> lb_weights q = lb_weights p"
  by (simp add: lb_weights_def fun_eq_iff)

lemma all_committed_commit:
  "others_committed i p \<Longrightarrow> all_committed (upd_srv i srv_lb_commit_status p)"
  by (auto simp: others_committed_def all_committed_nth)

lemma all_committed_acct_commit: "others_committed i p \<Longrightarrow> all_committed (acct_commit i p)"
  using all_committed_commit [of i "update_backend_weight p"]
    others_committed_px_srv [of "update_backend_weight p" p i]
  by (simp add: acct_commit_def)

lemma lb_weights_acct_commit:
  "i < length (px_srv p) \<Longrightarrow> lb_weights (acct_commit i p) = (lb_weights p)(i := pending_weight p i)"
  using lb_weights_commit [of i "update_backend_weight p"] lb_weights_px_srv [of "update_backend_weight p" p]
  by (simp add: acct_commit_def pending_weight_def)

section \<open>The common shape\<close>

definition status_down_shape ::
    "(srv_ref \<Rightarrow> proxy \<Rightarrow> proxy) \<Rightarrow> srv_ref \<Rightarrow> proxy \<Rightarrow> proxy" where
  "status_down_shape srv_out i p =
     (if \<not> srv_lb_status_changed (srv_at p i) then p
      else if srv_willbe_usable (srv_at p i) then upd_srv i srv_lb_commit_status p
      else if \<not> srv_currently_usable (srv_at p i) then acct_commit i p
      else acct_commit i (srv_out i (acct_srv_down i p)))"

definition status_up_shape ::
    "(srv_ref \<Rightarrow> proxy \<Rightarrow> proxy) \<Rightarrow> srv_ref \<Rightarrow> proxy \<Rightarrow> proxy" where
  "status_up_shape srv_in i p =
     (if \<not> srv_lb_status_changed (srv_at p i) then p
      else if \<not> srv_willbe_usable (srv_at p i) then upd_srv i srv_lb_commit_status p
      else if srv_currently_usable (srv_at p i) then acct_commit i p
      else acct_commit i (srv_in i (acct_srv_up i p)))"

definition update_weight_shape ::
    "(srv_ref \<Rightarrow> proxy \<Rightarrow> proxy) \<Rightarrow> (srv_ref \<Rightarrow> proxy \<Rightarrow> proxy) \<Rightarrow> (srv_ref \<Rightarrow> proxy \<Rightarrow> proxy)
       \<Rightarrow> srv_ref \<Rightarrow> proxy \<Rightarrow> proxy" where
  "update_weight_shape set_up set_down srv_move i p =
     (if \<not> srv_lb_status_changed (srv_at p i) then p
      else let old_state = srv_currently_usable (srv_at p i);
               new_state = srv_willbe_usable (srv_at p i) in
      if \<not> old_state \<and> \<not> new_state then upd_srv i srv_lb_commit_status p
      else if \<not> old_state \<and> new_state then set_up i p
      else if old_state \<and> \<not> new_state then set_down i p
      else acct_commit i (srv_move i (acct_srv_reweight i p)))"

definition shape_cb ::
    "(srv_ref \<Rightarrow> proxy \<Rightarrow> proxy) \<Rightarrow> (srv_ref \<Rightarrow> proxy \<Rightarrow> proxy) \<Rightarrow> (srv_ref \<Rightarrow> proxy \<Rightarrow> proxy)
       \<Rightarrow> lb_callback \<Rightarrow> srv_ref \<Rightarrow> proxy \<Rightarrow> proxy" where
  "shape_cb set_up set_down upd_weight c =
     (case c of Set_server_status_up \<Rightarrow> set_up | Set_server_status_down \<Rightarrow> set_down
      | Update_server_eweight \<Rightarrow> upd_weight)"

text \<open>A status change seen by the callbacks: the counters in \<open>lb_ready\<close> form, the trees for the
  current weights.\<close>

locale tree_callbacks =
  fixes tinv :: "(srv_ref \<Rightarrow> u32) \<Rightarrow> proxy \<Rightarrow> bool"
    and srv_in srv_out srv_move :: "srv_ref \<Rightarrow> proxy \<Rightarrow> proxy"
    and set_up set_down upd_weight :: "srv_ref \<Rightarrow> proxy \<Rightarrow> proxy"
  assumes down_eq: "tinv (lb_weights p) p \<Longrightarrow> lb_ready i p \<Longrightarrow> set_down i p = status_down_shape srv_out i p"
    and up_eq: "tinv (lb_weights p) p \<Longrightarrow> lb_ready i p \<Longrightarrow> set_up i p = status_up_shape srv_in i p"
    and weight_eq: "tinv (lb_weights p) p \<Longrightarrow> lb_ready i p \<Longrightarrow>
      upd_weight i p = update_weight_shape set_up set_down srv_move i p"
    and tree_same_acct: "same_acct p (srv_in i p)" "same_acct p (srv_out i p)" "same_acct p (srv_move i p)"
    and tinv_in: "\<lbrakk>tinv W p; i < length (px_srv p); W i = 0; srv_willbe_usable (srv_at p i)\<rbrakk>
      \<Longrightarrow> tinv (W(i := next_eweight (srv_at p i))) (srv_in i p)"
    and tinv_out: "\<lbrakk>tinv W p; i < length (px_srv p); W i = cur_eweight (srv_at p i)\<rbrakk> \<Longrightarrow> tinv (W(i := 0)) (srv_out i p)"
    and tinv_move: "\<lbrakk>tinv W p; i < length (px_srv p); W i \<noteq> 0; W i = cur_eweight (srv_at p i);
        srv_willbe_usable (srv_at p i)\<rbrakk>
      \<Longrightarrow> tinv (W(i := next_eweight (srv_at p i))) (srv_move i p)"
    and tinv_acct: "tinv W p \<Longrightarrow> tinv W (acct_srv_down i p)" "tinv W p \<Longrightarrow> tinv W (acct_srv_up i p)"
      "tinv W p \<Longrightarrow> tinv W (acct_srv_reweight i p)" "tinv W p \<Longrightarrow> tinv W (update_backend_weight p)"
    and tinv_commit: "tinv W p \<Longrightarrow> tinv W (upd_srv i srv_lb_commit_status p)"
    and tinv_pending: "tinv W p \<Longrightarrow> tinv W (upd_srv i (set_pending e) p)"
begin

lemma tinv_acct_commit: "tinv W p \<Longrightarrow> tinv W (acct_commit i p)"
  by (simp add: acct_commit_def tinv_acct tinv_commit)

text \<open>One tree step between the counter update and the commit.\<close>

lemma step_commit:
  assumes an: "acct_next q" and oc: "others_committed i p" and i: "i < length (px_srv p)"
    and q: "px_srv q = px_srv p" and sa: "same_acct q r" and ti: "tinv ((lb_weights p)(i := pending_weight p i)) r"
  shows "lb_acct (acct_commit i r) \<and> all_committed (acct_commit i r) \<and>
    tinv (lb_weights (acct_commit i r)) (acct_commit i r)"
proof -
  have oc': "others_committed i r"
    using same_acct_others [OF sa] oc others_committed_px_srv [OF q] by simp
  have i': "i < length (px_srv r)" using i q same_acct_length [OF sa] by simp
  have "lb_weights (acct_commit i r) = (lb_weights p)(i := pending_weight p i)"
    using lb_weights_acct_commit [OF i'] same_acct_weights(1) [OF sa] same_acct_weights(2) [OF sa, of i]
      lb_weights_px_srv [OF q] i q
    by (simp add: pending_weight_def)
  then show ?thesis
    using acct_commit_lb_acct [OF same_acct_next [OF sa an] oc'] all_committed_acct_commit [OF oc']
      tinv_acct_commit [OF ti] by simp
qed

lemma commit_only:
  assumes ti: "tinv (lb_weights p) p" and rdy: "lb_ready i p"
    and same: "srv_currently_usable (srv_at p i) = srv_willbe_usable (srv_at p i)"
    and kw: "keeps_weight (srv_at p i) \<or> \<not> srv_willbe_usable (srv_at p i)"
  shows "lb_acct (upd_srv i srv_lb_commit_status p)"
    "tinv (lb_weights (upd_srv i srv_lb_commit_status p)) (upd_srv i srv_lb_commit_status p)"
    "lb_acct (acct_commit i p)" "tinv (lb_weights (acct_commit i p)) (acct_commit i p)"
proof -
  from rdy have p: "lb_acct p" "others_committed i p" "i < length (px_srv p)"
    by (simp_all add: lb_ready_def)
  have ew: "srv_willbe_usable (srv_at p i) \<Longrightarrow> next_eweight (srv_at p i) = cur_eweight (srv_at p i)"
    using kw same by (simp add: keeps_weight_def)
  have W: "(lb_weights p)(i := pending_weight p i) = lb_weights p"
    using same ew p(3) by (auto simp: lb_weights_def pending_weight_def)
  show "lb_acct (upd_srv i srv_lb_commit_status p)"
    by (rule acct_commit_only [OF p same ew])
  show "tinv (lb_weights (upd_srv i srv_lb_commit_status p)) (upd_srv i srv_lb_commit_status p)"
    using lb_weights_commit [OF p(3)] W tinv_commit [OF ti] by simp
  have "acct_next p" by (rule acct_unchanged_next [OF p same ew])
  from step_commit [OF this p(2,3) refl same_acct_refl] ti W
  show "lb_acct (acct_commit i p)" "tinv (lb_weights (acct_commit i p)) (acct_commit i p)"
    by auto
qed

lemma usable_weight:
  "i < length (px_srv p) \<Longrightarrow> srv_currently_usable (srv_at p i) \<Longrightarrow> lb_weights p i \<noteq> 0"
  "\<not> srv_currently_usable (srv_at p i) \<Longrightarrow> lb_weights p i = 0"
  "srv_willbe_usable (srv_at p i) \<Longrightarrow> next_eweight (srv_at p i) \<noteq> 0"
  by (auto simp: lb_weights_def srv_currently_usable_def srv_willbe_usable_def split: if_splits)

lemma unchanged_committed:
  "\<not> srv_lb_status_changed (srv_at p i) \<Longrightarrow> others_committed i p \<Longrightarrow> all_committed p"
  by (auto simp: all_committed_nth others_committed_def committed_def)

abbreviation good :: "proxy \<Rightarrow> bool" where
  "good p \<equiv> lb_acct p \<and> all_committed p \<and> tinv (lb_weights p) p"

lemma tree_step_good:
  assumes ti: "tinv (lb_weights p) p" and rdy: "lb_ready i p"
  shows "\<lbrakk>srv_currently_usable (srv_at p i); \<not> srv_willbe_usable (srv_at p i)\<rbrakk>
      \<Longrightarrow> good (acct_commit i (srv_out i (acct_srv_down i p)))"
    and "\<lbrakk>\<not> srv_currently_usable (srv_at p i); srv_willbe_usable (srv_at p i)\<rbrakk>
      \<Longrightarrow> good (acct_commit i (srv_in i (acct_srv_up i p)))"
    and "\<lbrakk>srv_currently_usable (srv_at p i); srv_willbe_usable (srv_at p i)\<rbrakk>
      \<Longrightarrow> good (acct_commit i (srv_move i (acct_srv_reweight i p)))"
proof -
  from rdy have p: "lb_acct p" "others_committed i p" "i < length (px_srv p)"
    by (simp_all add: lb_ready_def)
  note step = step_commit [OF _ p(2,3) _ tree_same_acct(1)] step_commit [OF _ p(2,3) _ tree_same_acct(2)]
    step_commit [OF _ p(2,3) _ tree_same_acct(3)]
  show "good (acct_commit i (srv_out i (acct_srv_down i p)))"
    if "srv_currently_usable (srv_at p i)" "\<not> srv_willbe_usable (srv_at p i)"
    using step(2) [OF acct_srv_down_next [OF p that]] tinv_out [OF tinv_acct(1) [OF ti], of i] that p(3)
    by (simp add: pending_weight_def lb_weights_def)
  show "good (acct_commit i (srv_in i (acct_srv_up i p)))"
    if "\<not> srv_currently_usable (srv_at p i)" "srv_willbe_usable (srv_at p i)"
    using step(1) [OF acct_srv_up_next [OF p that]] tinv_in [OF tinv_acct(2) [OF ti], of i] that p(3)
    by (simp add: pending_weight_def usable_weight)
  show "good (acct_commit i (srv_move i (acct_srv_reweight i p)))"
    if "srv_currently_usable (srv_at p i)" "srv_willbe_usable (srv_at p i)"
    using step(3) [OF acct_srv_reweight_next [OF p that]] tinv_move [OF tinv_acct(3) [OF ti], of i] that p(3)
      usable_weight(1) [of i p]
    by (simp add: pending_weight_def lb_weights_def)
qed

lemma set_down_good:
  assumes ti: "tinv (lb_weights p) p" and rdy: "lb_ready i p"
    and ok: "call_ok Set_server_status_down (srv_at p i)"
  shows "good (set_down i p)"
proof -
  from rdy have p: "lb_acct p" "others_committed i p" "i < length (px_srv p)"
    by (simp_all add: lb_ready_def)
  show ?thesis
    using ok p ti commit_only [OF ti rdy] tree_step_good(1) [OF ti rdy] unchanged_committed [OF _ p(2)]
      all_committed_commit [OF p(2)] all_committed_acct_commit [OF p(2)]
    unfolding down_eq [OF ti rdy] status_down_shape_def call_ok_def by simp
qed

lemma set_up_good:
  assumes ti: "tinv (lb_weights p) p" and rdy: "lb_ready i p"
    and ok: "call_ok Set_server_status_up (srv_at p i)"
  shows "good (set_up i p)"
proof -
  from rdy have p: "lb_acct p" "others_committed i p" "i < length (px_srv p)"
    by (simp_all add: lb_ready_def)
  show ?thesis
    using ok p ti commit_only [OF ti rdy] tree_step_good(2) [OF ti rdy] unchanged_committed [OF _ p(2)]
      all_committed_commit [OF p(2)] all_committed_acct_commit [OF p(2)]
    unfolding up_eq [OF ti rdy] status_up_shape_def call_ok_def by simp
qed

lemma upd_weight_good:
  assumes ti: "tinv (lb_weights p) p" and rdy: "lb_ready i p"
  shows "good (upd_weight i p)"
proof -
  from rdy have p: "lb_acct p" "others_committed i p" "i < length (px_srv p)"
    by (simp_all add: lb_ready_def)
  show ?thesis
    using p ti commit_only [OF ti rdy] tree_step_good(3) [OF ti rdy] unchanged_committed [OF _ p(2)]
      all_committed_commit [OF p(2)] set_up_good [OF ti rdy] set_down_good [OF ti rdy]
    unfolding weight_eq [OF ti rdy] update_weight_shape_def
    by (simp add: call_ok_def keeps_weight_def Let_def)
qed

lemma cb_all_committed:
  assumes ti: "tinv (lb_weights p) p" and rdy: "lb_ready i p"
  shows "all_committed (shape_cb set_up set_down upd_weight c i p)"
proof -
  from rdy have p: "others_committed i p" "i < length (px_srv p)" by (simp_all add: lb_ready_def)
  have step: "all_committed (acct_commit i (f i (g i p)))"
    if "\<And>q. same_acct q (f i q)" "px_srv (g i p) = px_srv p" for f g
    using all_committed_acct_commit [OF same_acct_others [OF that(1)]] p(1)
      others_committed_px_srv [OF that(2)] by blast
  note ac = all_committed_commit [OF p(1)] all_committed_acct_commit [OF p(1)] unchanged_committed [OF _ p(1)]
    step [where f = srv_out and g = acct_srv_down] step [where f = srv_in and g = acct_srv_up]
    step [where f = srv_move and g = acct_srv_reweight]
  have d: "all_committed (set_down i p)"
    unfolding down_eq [OF ti rdy] status_down_shape_def using ac tree_same_acct by simp
  have u: "all_committed (set_up i p)"
    unfolding up_eq [OF ti rdy] status_up_shape_def using ac tree_same_acct by simp
  have "all_committed (upd_weight i p)"
    unfolding weight_eq [OF ti rdy] update_weight_shape_def using ac tree_same_acct d u by (simp add: Let_def)
  with d u show ?thesis by (cases c) (simp_all add: shape_cb_def)
qed

lemma lb_weights_pending: "lb_weights (upd_srv i (set_pending e) p) = lb_weights p"
  by (intro ext) (auto simp: lb_weights_def)

end

text \<open>Every algorithm of this shape meets the interface of a balancing algorithm.\<close>

sublocale tree_callbacks \<subseteq> lb: lb_algorithm "\<lambda>p. tinv (lb_weights p) p" "shape_cb set_up set_down upd_weight"
proof
  show "tinv (lb_weights (upd_srv i (set_pending e) p)) (upd_srv i (set_pending e) p)"
    if "tinv (lb_weights p) p" for p i e
    using tinv_pending [OF that] by (simp add: lb_weights_pending)
  show "all_committed (shape_cb set_up set_down upd_weight c i p)"
    if "tinv (lb_weights p) p" "lb_ready i p" for p i c
    using that by (rule cb_all_committed)
  show "lb_acct (shape_cb set_up set_down upd_weight c i p)"
    if "tinv (lb_weights p) p" "lb_ready i p" "call_ok c (srv_at p i)" for p i c
    using that set_up_good set_down_good upd_weight_good by (cases c) (simp_all add: shape_cb_def)
  show "tinv (lb_weights (shape_cb set_up set_down upd_weight c i p)) (shape_cb set_up set_down upd_weight c i p)"
    if "tinv (lb_weights p) p" "lb_ready i p" "call_ok c (srv_at p i)" for p i c
    using that set_up_good set_down_good upd_weight_good by (cases c) (simp_all add: shape_cb_def)
qed

section \<open>Algorithms with one leaf per server\<close>

text \<open>
  First-available and least-connection balancing keep each usable server once, in the active or in
  the backup tree. They differ in the key: \<open>keyf w s\<close> is the key of server \<open>s\<close> when it is present
  with weight \<open>w\<close>.
\<close>

definition acct_fields :: "proxy \<Rightarrow> c_int \<times> c_int \<times> c_int \<times> c_int \<times> srv_ref option \<times> c_int \<times> c_int \<times> u32" where
  "acct_fields p = (srv_act p, srv_bck p, tot_wact p, tot_wbck p, fbck p, tot_weight p, tot_used p, px_options p)"

definition root_of :: "server \<Rightarrow> eb_root_ptr" where
  "root_of s = (if is_backup s then Root_bck else Root_act)"

lemma root_of_if: "(if is_backup s then Root_bck else Root_act) = root_of s"
  by (simp add: root_of_def)

definition in_group :: "bool \<Rightarrow> (srv_ref \<Rightarrow> u32) \<Rightarrow> proxy \<Rightarrow> srv_ref \<Rightarrow> bool" where
  "in_group b W p j \<longleftrightarrow> j < length (px_srv p) \<and> W j \<noteq> 0 \<and> is_backup (srv_at p j) = b"

definition two_tree_inv ::
    "(proxy \<Rightarrow> srv_ref eb_root) \<Rightarrow> (proxy \<Rightarrow> srv_ref eb_root) \<Rightarrow> (u32 \<Rightarrow> server \<Rightarrow> u32)
       \<Rightarrow> (srv_ref \<Rightarrow> u32) \<Rightarrow> proxy \<Rightarrow> bool" where
  "two_tree_inv act bck keyf W p \<longleftrightarrow>
     eb_ordered (act p) \<and> eb_ordered (bck p) \<and>
     set (act p) = (\<lambda>j. (lb_key (srv_at p j), j)) ` Collect (in_group False W p) \<and>
     set (bck p) = (\<lambda>j. (lb_key (srv_at p j), j)) ` Collect (in_group True W p) \<and>
     (\<forall>j < length (px_srv p).
        lb_tree (srv_at p j) = (if W j = 0 then None else Some (root_of (srv_at p j))) \<and>
        (W j \<noteq> 0 \<longrightarrow> lb_key (srv_at p j) = keyf (W j) (srv_at p j)))"

lemma same_acctI:
  assumes "acct_fields q = acct_fields p" and "length (px_srv q) = length (px_srv p)"
    and "\<And>j. j < length (px_srv p) \<Longrightarrow> acct_key (srv_at q j) = acct_key (srv_at p j)"
  shows "same_acct p q"
  using assms unfolding same_acct_def acct_fields_def
  by (auto simp: use_all_bk_def intro: nth_equalityI)

lemma acct_key_tree [simp]:
  "acct_key (s\<lparr>lb_tree := t\<rparr>) = acct_key s"
  "acct_key (s\<lparr>lb_key := k\<rparr>) = acct_key s"
  "acct_key (s\<lparr>lb_nodes := ns\<rparr>) = acct_key s"
  "acct_key (s\<lparr>lb_nodes_now := n\<rparr>) = acct_key s"
  "acct_key (s\<lparr>lb_nodes_tot := n\<rparr>) = acct_key s"
  by (simp_all add: acct_key_def is_backup_def srv_currently_usable_def srv_willbe_usable_def
      committed_def srv_lb_status_changed_def)

lemma is_backup_tree [simp]:
  "is_backup (s\<lparr>lb_tree := t\<rparr>) = is_backup s"
  "is_backup (s\<lparr>lb_key := k\<rparr>) = is_backup s"
  by (simp_all add: is_backup_def)

lemma acct_fields_upd_srv [simp]: "acct_fields (upd_srv i f p) = acct_fields p"
  by (simp add: acct_fields_def)

locale srv_trees =
  fixes act bck :: "proxy \<Rightarrow> srv_ref eb_root" and keyf :: "u32 \<Rightarrow> server \<Rightarrow> u32"
    and queue dequeue :: "srv_ref \<Rightarrow> proxy \<Rightarrow> proxy"
  assumes queue_srv: "px_srv (queue i p) = px_srv (upd_srv i (\<lambda>s. s\<lparr>lb_key := keyf (next_eweight s) s\<rparr>) p)"
    and queue_fields: "acct_fields (queue i p) = acct_fields p"
    and queue_act: "i < length (px_srv p) \<Longrightarrow> act (queue i p) = (if lb_tree (srv_at p i) = Some Root_act
      then eb32_insert (keyf (next_eweight (srv_at p i)) (srv_at p i)) i (act p) else act p)"
    and queue_bck: "i < length (px_srv p) \<Longrightarrow> bck (queue i p) = (if lb_tree (srv_at p i) = Some Root_bck
      then eb32_insert (keyf (next_eweight (srv_at p i)) (srv_at p i)) i (bck p) else bck p)"
    and deq_srv: "px_srv (dequeue i p) = px_srv p"
    and deq_fields: "acct_fields (dequeue i p) = acct_fields p"
    and deq_trees: "act (dequeue i p) = eb32_delete i (act p)" "bck (dequeue i p) = eb32_delete i (bck p)"
    and upd_frame: "act (upd_srv i f p) = act p" "bck (upd_srv i f p) = bck p"
    and keyf_frame: "keyf w (s\<lparr>lb_key := k\<rparr>) = keyf w s" "keyf w (s\<lparr>lb_tree := t\<rparr>) = keyf w s"
begin

abbreviation inv2 :: "(srv_ref \<Rightarrow> u32) \<Rightarrow> proxy \<Rightarrow> bool" where
  "inv2 \<equiv> two_tree_inv act bck keyf"

lemma nodes:
  assumes "inv2 W p"
  shows "set (eb_nodes (act p)) = Collect (in_group False W p)"
    "set (eb_nodes (bck p)) = Collect (in_group True W p)"
  using assms by (simp_all add: two_tree_inv_def set_eb_nodes image_image)

text \<open>Taking a server out of its tree.\<close>

lemma inv2_out:
  assumes inv: "inv2 W p" and i: "i < length (px_srv p)"
  shows "inv2 (W(i := 0)) (upd_srv i (\<lambda>s. s\<lparr>lb_tree := None\<rparr>) (dequeue i p))"
proof -
  define q where "q = upd_srv i (\<lambda>s. s\<lparr>lb_tree := None\<rparr>) (dequeue i p)"
  have nth: "j < length (px_srv p) \<Longrightarrow> srv_at q j = (if i = j then (srv_at p j)\<lparr>lb_tree := None\<rparr> else srv_at p j)" for j
    by (simp add: q_def deq_srv)
  have len: "length (px_srv q) = length (px_srv p)" by (simp add: q_def deq_srv)
  have trees: "act q = eb32_delete i (act p)" "bck q = eb32_delete i (bck p)"
    by (simp_all add: q_def upd_frame deq_trees)
  have del: "set (eb32_delete i t) = {e \<in> set t. snd e \<noteq> i}" for t :: "srv_ref eb_root"
    by (auto simp: eb32_delete_def)
  have img: "(\<lambda>j. (lb_key (srv_at q j), j)) ` Collect (in_group b (W(i := 0)) q) =
      {e \<in> (\<lambda>j. (lb_key (srv_at p j), j)) ` Collect (in_group b W p). snd e \<noteq> i}" for b
    by (auto simp: len nth in_group_def image_iff split: if_splits)
  have "inv2 (W(i := 0)) q"
    using inv unfolding two_tree_inv_def img
    by (auto simp: trees eb_ordered_delete del nth len keyf_frame root_of_def)
  then show ?thesis by (simp add: q_def)
qed

lemma inv2_in:
  assumes inv: "inv2 W p" and i: "i < length (px_srv p)" and W: "W i = 0"
    and ew: "next_eweight (srv_at p i) \<noteq> 0"
  shows "inv2 (W(i := next_eweight (srv_at p i)))
    (queue i (upd_srv i (\<lambda>s. s\<lparr>lb_tree := Some (root_of s)\<rparr>) p))"
proof -
  define s w where "s = srv_at p i" and "w = next_eweight (srv_at p i)"
  define q k where "q = queue i (upd_srv i (\<lambda>s. s\<lparr>lb_tree := Some (root_of s)\<rparr>) p)" and "k = keyf w s"
  have len: "length (px_srv q) = length (px_srv p)" by (simp add: q_def queue_srv)
  have nth: "srv_at q j = (if i = j then s\<lparr>lb_tree := Some (root_of s), lb_key := k\<rparr> else srv_at p j)"
    if "j < length (px_srv p)" for j
    using that by (auto simp: q_def queue_srv keyf_frame s_def k_def w_def)
  have trees: "act q = (if is_backup s then act p else eb32_insert k i (act p))"
    "bck q = (if is_backup s then eb32_insert k i (bck p) else bck p)"
    using i by (simp_all add: q_def queue_act queue_bck upd_frame keyf_frame root_of_def s_def k_def w_def)
  have w: "w \<noteq> 0" using ew by (simp add: w_def)
  have img: "(\<lambda>j. (lb_key (srv_at q j), j)) ` Collect (in_group b (W(i := w)) q) =
      (\<lambda>j. (lb_key (srv_at p j), j)) ` Collect (in_group b W p) \<union> (if is_backup s = b then {(k, i)} else {})" for b
    using W i w by (auto simp: len nth in_group_def image_iff split: if_splits)
  have new: "i \<notin> set (eb_nodes (act p))" "i \<notin> set (eb_nodes (bck p))"
    using nodes [OF inv] W by (auto simp: in_group_def)
  have "inv2 (W(i := w)) q"
    using inv i new w unfolding two_tree_inv_def img
    by (auto simp: trees eb_ordered_insert nth len keyf_frame root_of_def k_def)
  then show ?thesis by (simp add: q_def w_def)
qed

lemma inv2_linked:
  assumes "inv2 W p" and "i < length (px_srv p)"
  shows "lb_tree (srv_at p i) \<noteq> None \<longleftrightarrow> W i \<noteq> 0"
  using assms by (simp add: two_tree_inv_def)

text \<open>Moving a server: out of its tree, then back in with its new key.\<close>

lemma inv2_move:
  assumes inv: "inv2 W p" and i: "i < length (px_srv p)" and ew: "next_eweight (srv_at p i) \<noteq> 0"
  shows "inv2 (W(i := next_eweight (srv_at p i)))
    (queue i (upd_srv i (\<lambda>s. s\<lparr>lb_tree := Some (root_of s)\<rparr>) (dequeue i p)))"
proof -
  let ?o = "upd_srv i (\<lambda>s. s\<lparr>lb_tree := None\<rparr>) (dequeue i p)"
  have "inv2 ((W(i := 0))(i := next_eweight (srv_at ?o i)))
      (queue i (upd_srv i (\<lambda>s. s\<lparr>lb_tree := Some (root_of s)\<rparr>) ?o))"
    using i ew by (intro inv2_in inv2_out [OF inv i]) (simp_all add: deq_srv)
  then show ?thesis
    using i by (simp add: upd_srv_upd_srv deq_srv root_of_def)
qed

lemma inv2_cong:
  assumes "act q = act p" "bck q = bck p" and len: "length (px_srv q) = length (px_srv p)"
    and nth: "\<And>j. j < length (px_srv p) \<Longrightarrow> lb_key (srv_at q j) = lb_key (srv_at p j) \<and>
      lb_tree (srv_at q j) = lb_tree (srv_at p j) \<and> is_backup (srv_at q j) = is_backup (srv_at p j) \<and>
      (\<forall>w. keyf w (srv_at q j) = keyf w (srv_at p j))"
  shows "inv2 W q = inv2 W p"
proof -
  have "(\<lambda>j. (lb_key (srv_at q j), j)) ` Collect (in_group b W q) =
      (\<lambda>j. (lb_key (srv_at p j), j)) ` Collect (in_group b W p)" for b
    using nth by (auto simp: len in_group_def image_iff)
  then show ?thesis
    using assms by (auto simp: two_tree_inv_def root_of_def)
qed

end

context srv_trees
begin

text \<open>A server that is in no tree may change freely.\<close>

lemma inv2_absent_upd:
  assumes inv: "inv2 W p" and W: "W i = 0"
    and f: "\<And>s. lb_tree (f s) = lb_tree s" "\<And>s. is_backup (f s) = is_backup s"
  shows "inv2 W (upd_srv i f p)"
proof -
  define q where "q = upd_srv i f p"
  have len: "length (px_srv q) = length (px_srv p)" by (simp add: q_def)
  have nth: "j < length (px_srv p) \<Longrightarrow> srv_at q j = (if i = j then f (srv_at p j) else srv_at p j)" for j
    by (simp add: q_def)
  have img: "(\<lambda>j. (lb_key (srv_at q j), j)) ` Collect (in_group b W q) =
      (\<lambda>j. (lb_key (srv_at p j), j)) ` Collect (in_group b W p)" for b
    using W by (auto simp: len nth in_group_def image_iff f split: if_splits)
  have "inv2 W q"
    using inv W unfolding two_tree_inv_def img by (auto simp: q_def upd_frame f root_of_def)
  then show ?thesis by (simp add: q_def)
qed

lemma inv2_same_key:
  assumes inv: "inv2 W p" and i: "i < length (px_srv p)"
    and f: "lb_tree (f (srv_at p i)) = lb_tree (srv_at p i)" "is_backup (f (srv_at p i)) = is_backup (srv_at p i)"
      "lb_key (f (srv_at p i)) = lb_key (srv_at p i)"
    and key: "lb_key (srv_at p i) = keyf (W i) (f (srv_at p i))"
  shows "inv2 W (upd_srv i f p)"
proof -
  define q where "q = upd_srv i f p"
  have len: "length (px_srv q) = length (px_srv p)" by (simp add: q_def)
  have nth: "j < length (px_srv p) \<Longrightarrow> srv_at q j = (if i = j then f (srv_at p j) else srv_at p j)" for j
    by (simp add: q_def)
  have img: "(\<lambda>j. (lb_key (srv_at q j), j)) ` Collect (in_group b W q) =
      (\<lambda>j. (lb_key (srv_at p j), j)) ` Collect (in_group b W p)" for b
    using f by (auto simp: len nth in_group_def image_iff split: if_splits)
  have "act q = act p" "bck q = bck p" by (simp_all add: q_def upd_frame)
  then have "inv2 W q"
    using inv f key unfolding two_tree_inv_def img by (auto simp: len nth root_of_def)
  then show ?thesis by (simp add: q_def)
qed

text \<open>A server whose key went out of date (its connections changed) is put back in order by taking
  it out and queueing it again.\<close>

lemma inv2_requeue:
  assumes inv: "inv2 W p" and i: "i < length (px_srv p)" and W: "W i \<noteq> 0"
    and f: "\<And>s t. f (s\<lparr>lb_tree := t\<rparr>) = (f s)\<lparr>lb_tree := t\<rparr>" "\<And>s. lb_tree (f s) = lb_tree s"
      "\<And>s. is_backup (f s) = is_backup s" and ew: "next_eweight (f (srv_at p i)) = W i"
  shows "inv2 W (queue i (dequeue i (upd_srv i f p)))"
proof -
  let ?o = "upd_srv i (\<lambda>s. s\<lparr>lb_tree := None\<rparr>) (dequeue i p)"
  let ?n = "upd_srv i f ?o"
  let ?l = "upd_srv i (\<lambda>s. s\<lparr>lb_tree := Some (root_of s)\<rparr>) ?n"
  have lt: "lb_tree (srv_at p i) = Some (root_of (srv_at p i))"
    using inv i W by (simp add: two_tree_inv_def)
  have "inv2 (W(i := 0)) ?n"
    by (rule inv2_absent_upd [OF inv2_out [OF inv i]]) (simp_all add: f)
  then have "inv2 ((W(i := 0))(i := next_eweight (srv_at ?n i))) (queue i ?l)"
    using i ew W by (intro inv2_in) (simp_all add: deq_srv f)
  moreover have "(W(i := 0))(i := next_eweight (srv_at ?n i)) = W"
    using i ew by (simp add: deq_srv f)
  moreover have root: "root_of (f s) = root_of s" "root_of (s\<lparr>lb_tree := t\<rparr>) = root_of s" for s t
    by (simp_all add: root_of_def f)
  have "inv2 W (queue i (dequeue i (upd_srv i f p))) = inv2 W (queue i ?l)"
    using i lt by (intro inv2_cong)
      (auto simp: queue_act queue_bck queue_srv deq_srv deq_trees upd_frame f keyf_frame root nth_list_update)
  ultimately show ?thesis by simp
qed

end

text \<open>The last loop of the initialisation functions: queue every usable server in its group.\<close>

definition queue_usable :: "(srv_ref \<Rightarrow> proxy \<Rightarrow> proxy) \<Rightarrow> srv_ref \<Rightarrow> proxy \<Rightarrow> proxy" where
  "queue_usable f i p =
     (if \<not> srv_currently_usable (srv_at p i) then p
      else f i (upd_srv i (\<lambda>s. s\<lparr>lb_tree := Some (root_of s)\<rparr>) p))"

context srv_trees
begin

lemma queue_loop:
  fixes p :: proxy
  assumes "act p = []" "bck p = []" "\<forall>s \<in> set (px_srv p). lb_tree s = None" "all_committed p"
  defines "q \<equiv> fold (queue_usable queue) [0..<length (px_srv p)] p"
  shows "inv2 (lb_weights q) q" "same_acct p q"
proof -
  let ?W = "\<lambda>k j. if j < k then lb_weights p j else 0"
  let ?P = "\<lambda>k q. same_acct p q \<and> inv2 (?W k) q"
  have start: "?P 0 p"
    using assms(1-3) by (simp add: two_tree_inv_def in_group_def)
  have step: "?P (Suc k) (queue_usable queue k r)" if k: "k < length (px_srv p)" and r: "?P k r" for k r
  proof -
    from r have sa: "same_acct p r" and inv: "inv2 (?W k) r" by simp_all
    have kr: "k < length (px_srv r)" using k same_acct_length [OF sa] by simp
    have W: "lb_weights r = lb_weights p" by (rule same_acct_weights [OF sa])
    show ?thesis
    proof (cases "srv_currently_usable (srv_at r k)")
      case False
      then have "lb_weights p k = 0" unfolding W [symmetric] by (simp add: lb_weights_def)
      then have "?W (Suc k) = ?W k" by (intro ext) (auto simp: less_Suc_eq)
      with False r show ?thesis by (simp add: queue_usable_def)
    next
      case True
      have "committed (srv_at r k)"
        using same_acct_all_committed [OF sa assms(4)] kr by (simp add: all_committed_nth)
      then have ew: "next_eweight (srv_at r k) = lb_weights p k" "next_eweight (srv_at r k) \<noteq> 0"
        using True kr unfolding W [symmetric]
        by (auto simp: committed_eweight lb_weights_def srv_currently_usable_def split: if_splits)
      have "same_acct r (queue k (upd_srv k (\<lambda>s. s\<lparr>lb_tree := Some (root_of s)\<rparr>) r))"
        by (rule same_acctI) (simp_all add: queue_srv queue_fields)
      moreover have "(?W k)(k := next_eweight (srv_at r k)) = ?W (Suc k)"
        using ew(1) by (intro ext) (auto simp: less_Suc_eq)
      ultimately show ?thesis
        using inv2_in [OF inv kr _ ew(2)] True same_acct_trans [OF sa] by (simp add: queue_usable_def)
    qed
  qed
  have "?P (length (px_srv p)) q"
    unfolding q_def by (rule fold_upt_rule [where P = ?P, OF start step])
  moreover have "?W (length (px_srv p)) = lb_weights p"
    by (intro ext) (simp add: lb_weights_def)
  ultimately show "inv2 (lb_weights q) q" "same_acct p q"
    using same_acct_weights [of p q] by simp_all
qed

end

text \<open>An algorithm that keeps such trees and updates them in its callbacks.\<close>

locale srv_tree_algorithm = srv_trees +
  fixes set_up set_down upd_weight :: "srv_ref \<Rightarrow> proxy \<Rightarrow> proxy"
  assumes set_down_shape: "i < length (px_srv p) \<Longrightarrow> set_down i p =
      status_down_shape (\<lambda>i p. upd_srv i (\<lambda>s. s\<lparr>lb_tree := None\<rparr>) (dequeue i p)) i p"
    and set_up_shape: "i < length (px_srv p) \<Longrightarrow> set_up i p =
      status_up_shape (\<lambda>i p. queue i (upd_srv i (\<lambda>s. s\<lparr>lb_tree := Some (root_of s)\<rparr>) p)) i p"
    and upd_weight_shape: "\<lbrakk>i < length (px_srv p); lb_tree (srv_at p i) \<noteq> None \<or> \<not> srv_currently_usable (srv_at p i)\<rbrakk>
      \<Longrightarrow> upd_weight i p = update_weight_shape set_up set_down
        (\<lambda>i p. queue i (upd_srv i (\<lambda>s. s\<lparr>lb_tree := Some (root_of s)\<rparr>) (dequeue i p))) i p"
    and acct_frame: "act (acct_srv_down i p) = act p" "bck (acct_srv_down i p) = bck p"
      "act (acct_srv_up i p) = act p" "bck (acct_srv_up i p) = bck p"
      "act (acct_srv_reweight i p) = act p" "bck (acct_srv_reweight i p) = bck p"
      "act (update_backend_weight p) = act p" "bck (update_backend_weight p) = bck p"
    and keyf_status: "keyf w (srv_lb_commit_status s) = keyf w s" "keyf w (set_pending e s) = keyf w s"
begin

lemma inv2_acct:
  "inv2 W (acct_srv_down i p) = inv2 W p" "inv2 W (acct_srv_up i p) = inv2 W p"
  "inv2 W (acct_srv_reweight i p) = inv2 W p" "inv2 W (update_backend_weight p) = inv2 W p"
  "inv2 W (upd_srv i srv_lb_commit_status p) = inv2 W p" "inv2 W (upd_srv i (set_pending e) p) = inv2 W p"
  by (rule inv2_cong; simp add: acct_frame upd_frame keyf_status srv_lb_commit_status_def
      set_pending_def is_backup_def keyf_status [unfolded srv_lb_commit_status_def set_pending_def])+

end

sublocale srv_tree_algorithm \<subseteq> tc: tree_callbacks "two_tree_inv act bck keyf"
  "\<lambda>i p. queue i (upd_srv i (\<lambda>s. s\<lparr>lb_tree := Some (root_of s)\<rparr>) p)"
  "\<lambda>i p. upd_srv i (\<lambda>s. s\<lparr>lb_tree := None\<rparr>) (dequeue i p)"
  "\<lambda>i p. queue i (upd_srv i (\<lambda>s. s\<lparr>lb_tree := Some (root_of s)\<rparr>) (dequeue i p))"
  set_up set_down upd_weight
proof
  show "upd_weight i p = update_weight_shape set_up set_down
      (\<lambda>i p. queue i (upd_srv i (\<lambda>s. s\<lparr>lb_tree := Some (root_of s)\<rparr>) (dequeue i p))) i p"
    if "inv2 (lb_weights p) p" "lb_ready i p" for p i
    using that(2) inv2_linked [OF that(1), of i] by (intro upd_weight_shape) (auto simp: lb_weights_def srv_currently_usable_def lb_ready_def)
qed (auto simp: lb_ready_def willbe_usable_weight set_down_shape set_up_shape inv2_in inv2_out inv2_move
    intro!: same_acctI simp: queue_srv queue_fields deq_srv deq_fields inv2_acct)

section \<open>Walking a tree for a server\<close>

text \<open>
  The loop of the lookups: leave out servers that are not \<open>fit\<close>, stop at the first one to
  \<open>pick\<close>, remember the last one passed over.
\<close>

fun tree_scan ::
    "(srv_ref \<Rightarrow> bool) \<Rightarrow> (srv_ref \<Rightarrow> bool) \<Rightarrow> srv_ref option \<Rightarrow> srv_ref list \<Rightarrow> srv_ref option" where
  "tree_scan fit pick avoided [] = avoided"
| "tree_scan fit pick avoided (s # nodes) =
     (if fit s then (if pick s then Some s else tree_scan fit pick (Some s) nodes)
      else tree_scan fit pick avoided nodes)"

lemma tree_scan_find:
  "find (\<lambda>s. fit s \<and> pick s) nodes = Some s \<Longrightarrow> tree_scan fit pick av nodes = Some s"
  by (induction nodes arbitrary: av) (auto split: if_splits)

lemma tree_scan_none:
  "find (\<lambda>s. fit s \<and> pick s) nodes = None \<Longrightarrow>
     tree_scan fit pick av nodes = (if filter fit nodes = [] then av else Some (last (filter fit nodes)))"
  by (induction nodes arbitrary: av) (auto split: if_splits)

lemma tree_scan_avoid:
  "tree_scan fit (\<lambda>s. Some s \<noteq> av) None nodes =
    (case find (\<lambda>s. fit s \<and> Some s \<noteq> av) nodes of
       Some s \<Rightarrow> Some s
     | None \<Rightarrow> (case av of Some a \<Rightarrow> if a \<in> set nodes \<and> fit a then Some a else None | None \<Rightarrow> None))"
proof (cases "find (\<lambda>s. fit s \<and> Some s \<noteq> av) nodes")
  case (Some s)
  then show ?thesis by (simp add: tree_scan_find)
next
  case None
  then have only: "\<forall>s \<in> set nodes. fit s \<longrightarrow> Some s = av" by (auto simp: find_None_iff)
  show ?thesis
  proof (cases "filter fit nodes = []")
    case True
    then show ?thesis
      using tree_scan_none [OF None, of None] None by (auto simp: filter_empty_conv split: option.splits)
  next
    case False
    then have "last (filter fit nodes) \<in> set nodes" "fit (last (filter fit nodes))"
      using last_in_set [OF False] by auto
    with only have "av = Some (last (filter fit nodes))" by metis
    then show ?thesis
      using tree_scan_none [OF None, of None] None False
        \<open>last (filter fit nodes) \<in> set nodes\<close> \<open>fit (last (filter fit nodes))\<close> by simp
  qed
qed

text \<open>On an ordered tree the first match of the walk has the least key among all matches.\<close>

lemma find_node_least:
  assumes "eb_ordered t" and "find P (eb_nodes t) = Some n" and "(k, n) \<in> set t"
    and "(k', m) \<in> set t" and "P m"
  shows "k \<le> k'"
  using assms
proof (induction t)
  case Nil
  then show ?case by simp
next
  case (Cons e t)
  show ?case
  proof (cases "P (snd e)")
    case True
    with Cons.prems(2) have "n = snd e" by (simp add: eb_nodes_def)
    with Cons.prems(1,3) have "k = fst e" by (cases e) (auto simp: eb_ordered_def eb_nodes_def rev_image_eqI)
    then show ?thesis using Cons.prems by (auto simp: eb_ordered_def)
  next
    case False
    with Cons.prems have "find P (eb_nodes t) = Some n" "(k', m) \<in> set t" "P n"
      by (auto simp: eb_nodes_def find_Some_iff)
    moreover have "eb_ordered t" using Cons.prems(1) by (simp add: eb_ordered_def eb_nodes_def)
    moreover have "(k, n) \<in> set t" using Cons.prems(3) False \<open>P n\<close> by auto
    ultimately show ?thesis using Cons.IH Cons.prems(5) by blast
  qed
qed

text \<open>
  What such a lookup promises: \<open>Some s\<close> is a candidate of least key other than \<open>av\<close>, or \<open>av\<close>
  itself when it is the only candidate; \<open>None\<close> means that there is no candidate.
\<close>

definition picks_least :: "(srv_ref \<Rightarrow> bool) \<Rightarrow> (srv_ref \<Rightarrow> u32) \<Rightarrow> srv_ref option \<Rightarrow> srv_ref option \<Rightarrow> bool" where
  "picks_least cand key av r \<longleftrightarrow>
     (case r of
        None \<Rightarrow> (\<forall>t. \<not> cand t)
      | Some s \<Rightarrow> cand s \<and>
          (if r = av then \<forall>t. cand t \<longrightarrow> t = s
           else \<forall>t. cand t \<longrightarrow> Some t \<noteq> av \<longrightarrow> key s \<le> key t))"

lemma tree_scan_picks_least:
  assumes ord: "eb_ordered t" and keys: "\<And>k n. (k, n) \<in> set t \<Longrightarrow> key n = k"
  shows "picks_least (\<lambda>s. s \<in> set (eb_nodes t) \<and> fit s) key av
    (tree_scan fit (\<lambda>s. Some s \<noteq> av) None (eb_nodes t))"
proof (cases "find (\<lambda>s. fit s \<and> Some s \<noteq> av) (eb_nodes t)")
  case None
  then have "\<forall>x \<in> set (eb_nodes t). fit x \<longrightarrow> Some x = av" by (auto simp: find_None_iff)
  then show ?thesis
    unfolding tree_scan_avoid None picks_least_def by (auto split: option.splits)
next
  case (Some s)
  then have s: "s \<in> set (eb_nodes t)" "fit s" "Some s \<noteq> av"
    by (auto simp: find_Some_iff)
  then obtain k where k: "(k, s) \<in> set t" by (auto simp: set_eb_nodes)
  have "key s \<le> key n" if n: "n \<in> set (eb_nodes t)" "fit n" "Some n \<noteq> av" for n
  proof -
    from n obtain k' where "(k', n) \<in> set t" by (auto simp: set_eb_nodes)
    with find_node_least [OF ord Some k] n k keys show ?thesis by blast
  qed
  with s Some show ?thesis unfolding tree_scan_avoid picks_least_def by auto
qed

end
