(* ===== verification/Whitelist.thy ===== *)
theory Whitelist
  imports Ha_Prelude
begin

text \<open>
  The SmartDrop whitelist, \<^verbatim>\<open>src/haproxy/src/whitelist.c\<close>: a table of \<^verbatim>\<open>CAPACITY\<close>
  slots indexed by a hash of the request key, filled from \<^verbatim>\<open>/Whitelist/whitelist.csv\<close>, which
  \<^verbatim>\<open>src/smartdrop/smartdrop.py\<close> writes. The key is the request method. A slot holds the
  characters that name the servers the request may be sent to.

  C strings are HOL strings without NUL; a null pointer is \<open>None\<close>. \<^verbatim>\<open>char\<close> is signed, as on
  the x86 targets of the build. A buffer obtained with \<^verbatim>\<open>malloc\<close> or declared as an array has a
  capacity, and a copy that does not fit is \<open>BufferOverflow\<close>.
\<close>

section \<open>Strings\<close>

abbreviation CAPACITY :: int where "CAPACITY \<equiv> 100"
abbreviation MAX_LINE :: nat where "MAX_LINE \<equiv> 1024"
abbreviation MAX_COLUMN :: nat where "MAX_COLUMN \<equiv> 512"

definition nl :: char where "nl = CHR 0x0A"
definition comma :: char where "comma = CHR '',''"

definition c_char :: "char \<Rightarrow> c_int" where
  "c_char c = (let n = int (of_char c) in word_of_int (if n < 128 then n else n - 256))"

text \<open>\<^verbatim>\<open>strcpy\<close> into a buffer of \<open>cap\<close> bytes.\<close>

definition strcpy :: "nat \<Rightarrow> string \<Rightarrow> string c_result" where
  "strcpy cap s = (if length s < cap then Inr s else Inl BufferOverflow)"

text \<open>\<^verbatim>\<open>strtok (s, ",")\<close>: the token, if any, and the position from which
  \<^verbatim>\<open>strtok (NULL, ",")\<close> goes on.\<close>

definition strtok :: "string \<Rightarrow> string option \<times> string" where
  "strtok s =
     (let t = dropWhile (\<lambda>c. c = comma) s
      in if t = [] then (None, [])
         else (Some (takeWhile (\<lambda>c. c \<noteq> comma) t), drop 1 (dropWhile (\<lambda>c. c \<noteq> comma) t)))"

text \<open>\<^verbatim>\<open>fgets\<close> with room for \<open>n\<close> characters: the row and what is left in the file.\<close>

fun fgets :: "nat \<Rightarrow> string \<Rightarrow> string \<times> string" where
  "fgets 0 s = ([], s)"
| "fgets (Suc n) [] = ([], [])"
| "fgets (Suc n) (c # s) =
     (if c = nl then ([c], s) else let (row, rest) = fgets n s in (c # row, rest))"

lemma fgets_append: "fst (fgets n s) @ snd (fgets n s) = s"
  by (induction n s rule: fgets.induct) (auto split: prod.splits simp: Let_def)

lemma fgets_rest_shorter: "s \<noteq> [] \<Longrightarrow> 0 < n \<Longrightarrow> length (snd (fgets n s)) < length s"
proof (induction n s rule: fgets.induct)
  case (3 n c s)
  have "length (snd (fgets n s)) \<le> length s"
    using fgets_append [of n s] by (metis le_add2 length_append)
  then show ?case by (auto split: prod.splits simp: Let_def)
qed auto

section \<open>The table\<close>

record request =
  req_key :: string
  req_method :: string
  req_servers :: string
  req_cap :: nat     \<comment> \<open>bytes allocated for \<^verbatim>\<open>servers\<close>\<close>

record whitelist =
  wl_requests :: "request option list"
  wl_size :: int
  wl_count :: int

definition hashRequest :: "string \<Rightarrow> int" where
  "hashRequest key = sint (fold (\<lambda>c x. x + c_char c) key 0) smod CAPACITY"

definition createWhitelist :: "int \<Rightarrow> whitelist" where
  "createWhitelist sz = \<lparr>wl_requests = replicate (nat sz) None, wl_size = sz, wl_count = 0\<rparr>"

definition createRequest :: "string \<Rightarrow> string \<Rightarrow> request c_result" where
  "createRequest method servers =
     c_bind (strcpy MAX_LINE method) (\<lambda>key.
       Inr \<lparr>req_key = key, req_method = method, req_servers = servers, req_cap = length servers + 1\<rparr>)"

text \<open>The array access \<^verbatim>\<open>whitelist.requests[index]\<close>.\<close>

definition wl_slot :: "whitelist \<Rightarrow> int \<Rightarrow> request option c_result" where
  "wl_slot wl index =
     (if 0 \<le> index \<and> nat index < length (wl_requests wl) then Inr (wl_requests wl ! nat index)
      else Inl OutOfBounds)"

definition insertRequest :: "string \<Rightarrow> string \<Rightarrow> whitelist \<Rightarrow> whitelist c_result" where
  "insertRequest method servers wl =
     c_bind (createRequest method servers) (\<lambda>request.
     c_bind (strcpy MAX_LINE method) (\<lambda>key.
     let index = hashRequest key in
     c_bind (wl_slot wl index) (\<lambda>slot.
     case slot of
       None \<Rightarrow>
         if wl_count wl = wl_size wl then Inr wl
         else Inr (wl\<lparr>wl_requests := (wl_requests wl)[nat index := Some request],
                      wl_count := wl_count wl + 1\<rparr>)
     | Some current \<Rightarrow>
         if req_key current = key then
           c_bind (strcpy (req_cap current) servers) (\<lambda>servers.
             Inr (wl\<lparr>wl_requests := (wl_requests wl)[nat index := Some (current\<lparr>req_servers := servers\<rparr>)]\<rparr>))
         else Inr wl)))"

definition parse_row :: "string \<Rightarrow> (string \<times> string) c_result" where
  "parse_row row =
     (case strtok row of
        (None, _) \<Rightarrow> Inl NullDeref
      | (Some tkn, rest) \<Rightarrow>
          c_bind (strcpy MAX_COLUMN tkn) (\<lambda>method.
          case strtok rest of
            (None, _) \<Rightarrow> Inl NullDeref
          | (Some tkn, _) \<Rightarrow> c_bind (strcpy MAX_COLUMN tkn) (\<lambda>servers. Inr (method, servers))))"

function read_rows :: "string \<Rightarrow> whitelist \<Rightarrow> whitelist c_result" where
  "read_rows file wl =
     (if file = [] then Inr wl
      else c_bind (parse_row (fst (fgets (MAX_LINE - 1) file))) (\<lambda>(method, servers).
           c_bind (insertRequest method servers wl) (\<lambda>wl.
             read_rows (snd (fgets (MAX_LINE - 1) file)) wl)))"
  by auto
termination
  by (relation "measure (length \<circ> fst)") (auto simp: fgets_rest_shorter)

declare read_rows.simps [simp del]

text \<open>The file as it is between \<^verbatim>\<open>SDSock_Set\<close> and \<^verbatim>\<open>SDSock_Release\<close>, \<open>None\<close> if it
  cannot be opened.\<close>

definition updateWhitelist :: "string option \<Rightarrow> whitelist \<Rightarrow> whitelist c_result" where
  "updateWhitelist file wl = (case file of None \<Rightarrow> Inl FileNotFound | Some content \<Rightarrow> read_rows content wl)"

definition searchRequest :: "string option \<Rightarrow> whitelist \<Rightarrow> string option c_result" where
  "searchRequest key wl =
     (case key of
        None \<Rightarrow> Inl NullDeref
      | Some key \<Rightarrow>
          c_bind (wl_slot wl (hashRequest key)) (\<lambda>request.
          case request of
            Some r \<Rightarrow> if req_key r = key then Inr (Some (req_servers r)) else Inr None
          | None \<Rightarrow> Inr None))"

definition strchr :: "string option \<Rightarrow> char \<Rightarrow> bool c_result" where
  "strchr s c = (case s of None \<Rightarrow> Inl NullDeref | Some t \<Rightarrow> Inr (c \<in> set t))"

definition onWhitelist :: "string option \<Rightarrow> string option \<Rightarrow> bool c_result" where
  "onWhitelist task_wl server_id =
     (case server_id of
        None \<Rightarrow> Inl NullDeref
      | Some sid \<Rightarrow> if sid = [] then Inl OutOfBounds else strchr task_wl (last sid))"

text \<open>After the release no slot can be accessed any more.\<close>

definition freeWhitelist :: "whitelist \<Rightarrow> whitelist" where
  "freeWhitelist wl = wl\<lparr>wl_requests := []\<rparr>"

section \<open>The hash\<close>

definition ascii :: "string \<Rightarrow> bool" where
  "ascii s \<longleftrightarrow> (\<forall>c \<in> set s. of_char c < (128 :: nat))"

lemma c_char_ascii: "of_char c < (128 :: nat) \<Longrightarrow> c_char c = of_nat (of_char c)"
  by (simp add: c_char_def Let_def)

definition char_sum :: "string \<Rightarrow> nat" where
  "char_sum s = sum_list (map of_char s)"

lemma hash_fold: "ascii s \<Longrightarrow> fold (\<lambda>c x. x + c_char c) s a = a + of_nat (char_sum s)"
  by (induction s arbitrary: a) (auto simp: ascii_def char_sum_def c_char_ascii)

lemma char_sum_bound: "ascii s \<Longrightarrow> char_sum s \<le> 127 * length s"
  by (induction s) (auto simp: ascii_def char_sum_def)

text \<open>For keys of ASCII characters that fit in a row, the hash is the character sum modulo 100.\<close>

lemma hashRequest_ascii:
  assumes "ascii key" and "length key < MAX_LINE"
  shows "hashRequest key = int (char_sum key mod 100)"
proof -
  have b: "char_sum key < 2 ^ 31" using char_sum_bound [OF assms(1)] assms(2) by simp
  then have "sint (of_nat (char_sum key) :: c_int) = int (char_sum key)"
    by (simp add: signed_of_nat signed_take_bit_int_eq_self)
  then show ?thesis
    using hash_fold [OF assms(1), of 0]
    by (simp add: hashRequest_def smod_int_alt_def sgn_if zmod_int)
qed

lemma hashRequest_range:
  assumes "ascii key" and "length key < MAX_LINE"
  shows "0 \<le> hashRequest key \<and> hashRequest key < CAPACITY"
  using hashRequest_ascii [OF assms] by simp

section \<open>The table as a map\<close>

definition slot_used :: "request option \<Rightarrow> bool" where
  "slot_used x \<longleftrightarrow> x \<noteq> None"

definition wl_inv :: "whitelist \<Rightarrow> bool" where
  "wl_inv wl \<longleftrightarrow>
     length (wl_requests wl) = nat CAPACITY \<and> wl_size wl = CAPACITY \<and>
     wl_count wl = int (length (filter slot_used (wl_requests wl))) \<and>
     (\<forall>i < length (wl_requests wl). \<forall>r. wl_requests wl ! i = Some r \<longrightarrow>
        hashRequest (req_key r) = int i \<and> req_method r = req_key r \<and> length (req_servers r) < req_cap r)"

definition key_ok :: "string \<Rightarrow> bool" where
  "key_ok k \<longleftrightarrow> ascii k \<and> length k < MAX_LINE"

text \<open>The partial map from keys to server lists that the table stands for.\<close>

definition wl_abs :: "whitelist \<Rightarrow> string \<Rightarrow> string option" where
  "wl_abs wl k =
     (if 0 \<le> hashRequest k \<and> hashRequest k < CAPACITY then
        (case wl_requests wl ! nat (hashRequest k) of
           Some r \<Rightarrow> if req_key r = k then Some (req_servers r) else None
         | None \<Rightarrow> None)
      else None)"

text \<open>Another key occupies the slot of \<open>k\<close>.\<close>

definition wl_collides :: "whitelist \<Rightarrow> string \<Rightarrow> bool" where
  "wl_collides wl k \<longleftrightarrow>
     (case wl_requests wl ! nat (hashRequest k) of Some r \<Rightarrow> req_key r \<noteq> k | None \<Rightarrow> False)"

lemma wl_slot_ok: "wl_inv wl \<Longrightarrow> key_ok k \<Longrightarrow> wl_slot wl (hashRequest k) = Inr (wl_requests wl ! nat (hashRequest k))"
  using hashRequest_range [of k] by (simp add: wl_slot_def wl_inv_def key_ok_def nat_less_iff)

lemma searchRequest_abs:
  "wl_inv wl \<Longrightarrow> key_ok k \<Longrightarrow> searchRequest (Some k) wl = Inr (wl_abs wl k)"
  using hashRequest_range [of k]
  by (simp add: searchRequest_def wl_slot_ok wl_abs_def key_ok_def split: option.splits)

lemma free_slot_not_full:
  assumes "wl_inv wl" and "i < length (wl_requests wl)" and "wl_requests wl ! i = None"
  shows "wl_count wl \<noteq> wl_size wl"
proof -
  have "filter slot_used (wl_requests wl) \<noteq> wl_requests wl"
    using assms(2,3) by (metis filter_id_conv nth_mem slot_used_def)
  then have "length (filter slot_used (wl_requests wl)) < length (wl_requests wl)"
    by (metis length_filter_less filter_id_conv)
  with assms(1) show ?thesis by (simp add: wl_inv_def)
qed

lemma count_update_some:
  assumes "i < length xs"
  shows "length (filter slot_used (xs[i := Some y])) =
    length (filter slot_used xs) + (if xs ! i = None then 1 else 0)"
proof -
  have "length (filter slot_used xs) = length (filter slot_used (take i xs @ xs ! i # drop (Suc i) xs))"
    using id_take_nth_drop [OF assms] by simp
  then show ?thesis using assms by (simp add: upd_conv_take_nth_drop slot_used_def)
qed

text \<open>The four outcomes of an insertion.\<close>

lemma insertRequest_cases:
  assumes inv: "wl_inv wl" and k: "key_ok m"
  defines "h \<equiv> nat (hashRequest m)"
  shows "insertRequest m sv wl =
    (case wl_requests wl ! h of
       None \<Rightarrow> Inr (wl\<lparr>wl_requests := (wl_requests wl)[h := Some
          \<lparr>req_key = m, req_method = m, req_servers = sv, req_cap = length sv + 1\<rparr>], wl_count := wl_count wl + 1\<rparr>)
     | Some r \<Rightarrow>
         if req_key r \<noteq> m then Inr wl
         else if length sv < req_cap r then
           Inr (wl\<lparr>wl_requests := (wl_requests wl)[h := Some (r\<lparr>req_servers := sv\<rparr>)]\<rparr>)
         else Inl BufferOverflow)"
proof -
  have h: "h < length (wl_requests wl)"
    using inv k hashRequest_range [of m] by (simp add: h_def wl_inv_def key_ok_def nat_less_iff)
  have "length m < MAX_LINE" using k by (simp add: key_ok_def)
  then show ?thesis
    using free_slot_not_full [OF inv h] wl_slot_ok [OF inv k]
    by (auto simp: insertRequest_def createRequest_def strcpy_def Let_def h_def split: option.splits)
qed

lemma wl_abs_update:
  assumes inv: "wl_inv wl" and k: "key_ok m" and r: "req_key r = m"
    and free: "\<not> wl_collides wl m" and w: "wl_requests w = (wl_requests wl)[nat (hashRequest m) := Some r]"
  shows "wl_abs w = (wl_abs wl)(m \<mapsto> req_servers r)"
proof
  fix k'
  have rng: "0 \<le> hashRequest m" "hashRequest m < CAPACITY"
    using hashRequest_range [of m] k by (simp_all add: key_ok_def)
  have len: "length (wl_requests wl) = 100" using inv by (simp add: wl_inv_def)
  show "wl_abs w k' = ((wl_abs wl)(m \<mapsto> req_servers r)) k'"
  proof (cases "hashRequest k' = hashRequest m")
    case True
    have "wl_requests w ! nat (hashRequest m) = Some r"
      using rng len by (simp add: w nat_less_iff)
    moreover have "wl_abs wl k' = None" if "k' \<noteq> m"
      using that free True by (auto simp: wl_abs_def wl_collides_def split: option.splits)
    ultimately show ?thesis using True r rng by (auto simp: wl_abs_def)
  next
    case False
    then have "nat (hashRequest k') \<noteq> nat (hashRequest m)" if "0 \<le> hashRequest k'"
      using that rng by linarith
    then have "wl_abs w k' = wl_abs wl k'" by (auto simp: wl_abs_def w)
    with False show ?thesis by auto
  qed
qed

text \<open>Every insertion that returns refines the update of the map, unless the key collides with one
  already stored, which leaves the table as it is.\<close>

lemma insertRequest_refines:
  assumes inv: "wl_inv wl" and k: "key_ok m" and ins: "insertRequest m sv wl = Inr wl'"
  shows "wl_inv wl'"
    and "wl_abs wl' = (if wl_collides wl m then wl_abs wl else (wl_abs wl)(m \<mapsto> sv))"
proof -
  define h where "h = nat (hashRequest m)"
  have h: "h < length (wl_requests wl)" "hashRequest m = int h"
    using inv k hashRequest_range [of m] by (auto simp: h_def wl_inv_def key_ok_def nat_less_iff)
  note ic = ins [unfolded insertRequest_cases [OF inv k], folded h_def]
  consider (new) "wl_requests wl ! h = None"
    | (other) r where "wl_requests wl ! h = Some r" "req_key r \<noteq> m"
    | (upd) r where "wl_requests wl ! h = Some r" "req_key r = m" "length sv < req_cap r"
    using ic by (cases "wl_requests wl ! h") (auto split: if_splits)
  then have "wl_inv wl' \<and> wl_abs wl' = (if wl_collides wl m then wl_abs wl else (wl_abs wl)(m \<mapsto> sv))"
  proof cases
    case new
    let ?r = "\<lparr>req_key = m, req_method = m, req_servers = sv, req_cap = length sv + 1\<rparr>"
    have w: "wl' = wl\<lparr>wl_requests := (wl_requests wl)[h := Some ?r], wl_count := wl_count wl + 1\<rparr>"
      using ic new by simp
    have "\<not> wl_collides wl m" using new by (simp add: wl_collides_def h_def)
    then show ?thesis
      using wl_abs_update [OF inv k, of ?r wl'] inv h new
      by (auto simp: w h_def [symmetric] wl_inv_def count_update_some nth_list_update)
  next
    case other
    then have "wl' = wl" "wl_collides wl m" using ic by (simp_all add: wl_collides_def h_def)
    with inv show ?thesis by simp
  next
    case (upd r)
    have w: "wl' = wl\<lparr>wl_requests := (wl_requests wl)[h := Some (r\<lparr>req_servers := sv\<rparr>)]\<rparr>"
      using ic upd by simp
    have "\<not> wl_collides wl m" using upd by (simp add: wl_collides_def h_def)
    moreover have "wl_inv wl'"
      using inv h upd by (auto simp: w wl_inv_def count_update_some nth_list_update)
    ultimately show ?thesis
      using wl_abs_update [OF inv k, of "r\<lparr>req_servers := sv\<rparr>" wl'] upd by (auto simp: w h_def [symmetric])
  qed
  then show "wl_inv wl'" "wl_abs wl' = (if wl_collides wl m then wl_abs wl else (wl_abs wl)(m \<mapsto> sv))"
    by simp_all
qed

lemma createWhitelist_inv: "wl_inv (createWhitelist CAPACITY)" "wl_abs (createWhitelist CAPACITY) = Map.empty"
  by (simp_all add: wl_inv_def createWhitelist_def wl_abs_def fun_eq_iff nat_less_iff slot_used_def)

section \<open>Reading the file\<close>

definition csv_row :: "string \<times> string \<Rightarrow> string" where
  "csv_row r = fst r @ comma # snd r @ [nl]"

definition csv :: "(string \<times> string) list \<Rightarrow> string" where
  "csv rows = concat (map csv_row rows)"

text \<open>A row with two columns that fits in the buffers.\<close>

definition row_ok :: "string \<times> string \<Rightarrow> bool" where
  "row_ok r \<longleftrightarrow> fst r \<noteq> [] \<and> ascii (fst r) \<and> comma \<notin> set (fst r @ snd r) \<and> nl \<notin> set (fst r @ snd r) \<and>
     length (fst r) < MAX_COLUMN \<and> length (snd r) + 1 < MAX_COLUMN \<and>
     length (fst r) + length (snd r) + 2 < MAX_LINE"

lemma comma_nl [simp]: "comma \<noteq> nl" "nl \<noteq> comma"
  by (simp_all add: comma_def nl_def)

lemma fgets_row:
  "nl \<notin> set xs \<Longrightarrow> length xs < n \<Longrightarrow> fgets n (xs @ nl # rest) = (xs @ [nl], rest)"
proof (induction xs arbitrary: n)
  case Nil
  then show ?case by (cases n) auto
next
  case (Cons x xs)
  then show ?case by (cases n) (auto simp: Let_def)
qed

lemma strtok_field:
  assumes "xs \<noteq> []" and "comma \<notin> set xs"
  shows "strtok (xs @ comma # rest) = (Some xs, rest)" "strtok xs = (Some xs, [])"
proof -
  have "dropWhile (\<lambda>c. c = comma) (xs @ ys) = xs @ ys" for ys
    using assms by (cases xs) auto
  from this [of "comma # rest"] this [of "[]"]
  have d: "dropWhile (\<lambda>c. c = comma) (xs @ comma # rest) = xs @ comma # rest" "dropWhile (\<lambda>c. c = comma) xs = xs"
    by simp_all
  have "\<forall>x \<in> set xs. x \<noteq> comma" using assms by auto
  then have "takeWhile (\<lambda>c. c \<noteq> comma) (xs @ comma # rest) = xs"
    "dropWhile (\<lambda>c. c \<noteq> comma) (xs @ comma # rest) = comma # rest"
    "takeWhile (\<lambda>c. c \<noteq> comma) xs = xs" "dropWhile (\<lambda>c. c \<noteq> comma) xs = []"
    by (simp_all add: takeWhile_append2 dropWhile_append2 takeWhile_eq_all_conv)
  then show "strtok (xs @ comma # rest) = (Some xs, rest)" "strtok xs = (Some xs, [])"
    unfolding strtok_def Let_def d using assms(1) by (simp_all del: dropWhile_eq_Nil_conv)
qed

lemma parse_csv_row: "row_ok r \<Longrightarrow> parse_row (csv_row r) = Inr (fst r, snd r @ [nl])"
  using strtok_field(1) [of "fst r" "snd r @ [nl]"] strtok_field(2) [of "snd r @ [nl]"]
  by (auto simp: row_ok_def csv_row_def parse_row_def strcpy_def)

text \<open>Inserting a list of rows one after the other.\<close>

fun insert_rows :: "(string \<times> string) list \<Rightarrow> whitelist \<Rightarrow> whitelist c_result" where
  "insert_rows [] wl = Inr wl"
| "insert_rows (r # rows) wl = c_bind (insertRequest (fst r) (snd r @ [nl]) wl) (insert_rows rows)"

lemma read_rows_csv: "list_all row_ok rows \<Longrightarrow> read_rows (csv rows) wl = insert_rows rows wl"
proof (induction rows arbitrary: wl)
  case Nil
  then show ?case by (simp add: csv_def read_rows.simps)
next
  case (Cons r rows)
  then have ok: "row_ok r" and rest: "read_rows (csv rows) = insert_rows rows"
    by (auto simp: fun_eq_iff)
  have "fgets (MAX_LINE - 1) ((fst r @ comma # snd r) @ nl # csv rows) = ((fst r @ comma # snd r) @ [nl], csv rows)"
    using ok by (intro fgets_row) (auto simp: row_ok_def)
  then have "fgets (MAX_LINE - 1) (csv (r # rows)) = (csv_row r, csv rows)"
    by (simp add: csv_def csv_row_def)
  moreover have "csv (r # rows) \<noteq> []" by (simp add: csv_def csv_row_def)
  ultimately show ?case
    using parse_csv_row [OF ok] by (simp add: read_rows.simps [of "csv (r # rows)"] rest)
qed

text \<open>Distinct keys that do not share a slot.\<close>

definition no_clash :: "string list \<Rightarrow> bool" where
  "no_clash ks \<longleftrightarrow> distinct (map hashRequest ks)"

lemma row_ok_key: "row_ok r \<Longrightarrow> key_ok (fst r)"
  by (auto simp: row_ok_def key_ok_def)

lemma insert_rows_distinct:
  assumes "wl_inv wl" and "list_all row_ok rows" and "no_clash (map fst rows)"
    and "\<forall>r \<in> set rows. wl_requests wl ! nat (hashRequest (fst r)) = None"
  shows "\<exists>wl'. insert_rows rows wl = Inr wl' \<and> wl_inv wl' \<and>
    wl_abs wl' = wl_abs wl ++ map_of (rev (map (\<lambda>(m, sv). (m, sv @ [nl])) rows))"
  using assms
proof (induction rows arbitrary: wl)
  case Nil
  then show ?case by simp
next
  case (Cons r rows)
  define w where "w = wl\<lparr>wl_requests := (wl_requests wl)[nat (hashRequest (fst r)) := Some
      \<lparr>req_key = fst r, req_method = fst r, req_servers = snd r @ [nl], req_cap = length (snd r @ [nl]) + 1\<rparr>],
      wl_count := wl_count wl + 1\<rparr>"
  have k: "key_ok (fst r)" using Cons.prems(2) by (simp add: row_ok_key)
  have ins: "insertRequest (fst r) (snd r @ [nl]) wl = Inr w"
    using insertRequest_cases [OF Cons.prems(1) k] Cons.prems(4) by (simp add: w_def)
  have nc: "\<not> wl_collides wl (fst r)" using Cons.prems(4) by (simp add: wl_collides_def)
  have "nat (hashRequest (fst r)) \<noteq> nat (hashRequest (fst q))" if "q \<in> set rows" for q
  proof -
    have "hashRequest (fst r) \<notin> (\<lambda>q. hashRequest (fst q)) ` set rows"
      using Cons.prems(3) by (simp add: no_clash_def image_image)
    then have "hashRequest (fst q) \<noteq> hashRequest (fst r)" using that by (metis (mono_tags) image_eqI)
    moreover have "key_ok (fst q)" using Cons.prems(2) that by (auto simp: list_all_iff row_ok_key)
    ultimately show ?thesis using hashRequest_range k by (auto simp: key_ok_def nat_eq_iff)
  qed
  then have "\<forall>q \<in> set rows. wl_requests w ! nat (hashRequest (fst q)) = None"
    using Cons.prems(4) by (intro ballI) (simp add: w_def)
  with Cons.IH [of w] Cons.prems obtain wl' where wl': "insert_rows rows w = Inr wl'" "wl_inv wl'"
    "wl_abs wl' = wl_abs w ++ map_of (rev (map (\<lambda>(m, sv). (m, sv @ [nl])) rows))"
    using insertRequest_refines(1) [OF Cons.prems(1) k ins] by (auto simp: no_clash_def)
  then show ?case
    using ins insertRequest_refines(2) [OF Cons.prems(1) k ins] nc
    by (auto simp: map_add_assoc [symmetric] split: prod.splits)
qed

section \<open>What SmartDrop writes\<close>

text \<open>\<^verbatim>\<open>fileWrite\<close> of \<^verbatim>\<open>smartdrop.py\<close>: one line per task, the task key and the digits of its
  servers, or \<open>0\<close> when there is none.\<close>

definition fileWrite_line :: "string \<times> string list \<Rightarrow> string" where
  "fileWrite_line e = fst e @ [comma] @ (if snd e = [] then ''0'' else concat (snd e)) @ [nl]"

definition fileWrite :: "(string \<times> string list) list \<Rightarrow> string" where
  "fileWrite whitelist = concat (map fileWrite_line whitelist)"

text \<open>\<^verbatim>\<open>init\<close> builds the task keys from four columns.\<close>

definition task_key :: "string \<Rightarrow> string \<Rightarrow> string \<Rightarrow> string \<Rightarrow> string" where
  "task_key method url query content = method @ [comma] @ url @ [comma] @ query @ [comma] @ content"

lemma fileWrite_csv: "fileWrite ws = csv (map (\<lambda>(k, sv). (k, if sv = [] then ''0'' else concat sv)) ws)"
  by (simp add: fileWrite_def csv_def csv_row_def fileWrite_line_def [abs_def] comp_def case_prod_unfold)

section \<open>Properties\<close>

text \<open>(C8) The whitelist table refines a map: an insertion that returns keeps the table invariant
  (slot index is the hash of the key, the count is the number of used slots, every list fits its
  buffer) and updates the map at the key, except that a key whose slot is taken by another key is
  dropped and nothing changes.\<close>

theorem insertRequest_refines_map:
  assumes "wl_inv wl" and "key_ok m" and "insertRequest m sv wl = Inr wl'"
  shows "wl_inv wl' \<and> (\<forall>k. key_ok k \<longrightarrow> searchRequest (Some k) wl' =
    (if k = m \<and> \<not> wl_collides wl m then Inr (Some sv) else searchRequest (Some k) wl))"
  using insertRequest_refines [OF assms] assms(1) by (auto simp: searchRequest_abs)

theorem insertRequest_refines_map_witness:
  "\<exists>wl. insertRequest ''GET'' ''127'' (createWhitelist CAPACITY) = Inr wl \<and>
     searchRequest (Some ''GET'') wl = Inr (Some ''127'')"
proof -
  define wl where "wl = projr (insertRequest ''GET'' ''127'' (createWhitelist CAPACITY))"
  have "key_ok ''GET''" "\<not> wl_collides (createWhitelist CAPACITY) ''GET''" by code_simp+
  moreover have "insertRequest ''GET'' ''127'' (createWhitelist CAPACITY) = Inr wl"
    unfolding wl_def by code_simp
  ultimately show ?thesis
    using insertRequest_refines_map [OF createWhitelist_inv(1), of "''GET''" "''127''" wl] by auto
qed

text \<open>When an insertion faults: exactly when the key is already present and the new server
  list does not fit in the buffer allocated for the first one. In particular the table never
  reports that it is full, and no slot index is out of bounds.\<close>

theorem insertRequest_fault_iff:
  assumes "wl_inv wl" and "key_ok m"
  shows "insertRequest m sv wl = Inl e \<longleftrightarrow>
    e = BufferOverflow \<and> (\<exists>r. wl_requests wl ! nat (hashRequest m) = Some r \<and> req_key r = m \<and>
      req_cap r \<le> length sv)"
  using insertRequest_cases [OF assms, of sv] by (auto split: option.splits)

theorem insertRequest_fault_iff_witness:
  "\<exists>wl. insertRequest ''GET'' ''12'' (createWhitelist CAPACITY) = Inr wl \<and>
     insertRequest ''GET'' ''1234'' wl = Inl BufferOverflow"
proof -
  define wl where "wl = projr (insertRequest ''GET'' ''12'' (createWhitelist CAPACITY))"
  have 1: "insertRequest ''GET'' ''12'' (createWhitelist CAPACITY) = Inr wl"
    unfolding wl_def by code_simp
  have k: "key_ok ''GET''" by code_simp
  have "wl_requests wl ! nat (hashRequest ''GET'') =
      Some \<lparr>req_key = ''GET'', req_method = ''GET'', req_servers = ''12'', req_cap = 3\<rparr>"
    unfolding wl_def by code_simp
  with insertRequest_fault_iff [OF insertRequest_refines(1) [OF createWhitelist_inv(1) k 1] k, of "''1234''"] 1
  show ?thesis by auto
qed

text \<open>(C32) Round trip of the file: if every row has two columns that fit the buffers and the keys
  do not share a slot, reading the file into a new table succeeds, and afterwards every key of the file
  is found with its server list, followed by the newline of its row, and no other key is found.\<close>

theorem updateWhitelist_roundtrip:
  assumes "list_all row_ok rows" and "no_clash (map fst rows)"
  shows "\<exists>wl. updateWhitelist (Some (csv rows)) (createWhitelist CAPACITY) = Inr wl \<and> wl_inv wl \<and>
    (\<forall>k. key_ok k \<longrightarrow> searchRequest (Some k) wl =
       Inr (map_option (\<lambda>sv. sv @ [nl]) (map_of rows k)))"
proof -
  have "\<forall>r \<in> set rows. wl_requests (createWhitelist CAPACITY) ! nat (hashRequest (fst r)) = None"
    using assms(1) hashRequest_range row_ok_key
    by (auto simp: createWhitelist_def list_all_iff key_ok_def nat_less_iff)
  from insert_rows_distinct [OF createWhitelist_inv(1) assms this]
  obtain wl where wl: "insert_rows rows (createWhitelist CAPACITY) = Inr wl" "wl_inv wl"
    "wl_abs wl = map_of (rev (map (\<lambda>(m, sv). (m, sv @ [nl])) rows))"
    by (auto simp: createWhitelist_inv)
  have "distinct (map fst rows)"
    using assms(2) by (auto simp: no_clash_def distinct_map dest: inj_on_imageI2)
  then have "map_of (rev (map (\<lambda>(m, sv). (m, sv @ [nl])) rows)) = map_of (map (\<lambda>(m, sv). (m, sv @ [nl])) rows)"
    by (intro map_of_rev_distinct) (simp add: comp_def case_prod_unfold)
  with wl show ?thesis
    using assms(1) by (auto simp: updateWhitelist_def read_rows_csv searchRequest_abs map_of_map)
qed

theorem updateWhitelist_roundtrip_witness:
  "\<exists>wl. updateWhitelist (Some (csv [(''GET'', ''1234567''), (''POST'', ''12'')])) (createWhitelist CAPACITY) = Inr wl \<and>
     searchRequest (Some ''POST'') wl = Inr (Some (''12'' @ [nl])) \<and> searchRequest (Some ''HEAD'') wl = Inr None"
proof -
  have "list_all row_ok [(''GET'', ''1234567''), (''POST'', ''12'')]"
    "no_clash (map fst [(''GET'', ''1234567''), (''POST'', ''12'')])" "key_ok ''POST''" "key_ok ''HEAD''"
    by code_simp+
  with updateWhitelist_roundtrip [of "[(''GET'', ''1234567''), (''POST'', ''12'')]"] show ?thesis
    by force
qed

text \<open>The lines that \<^verbatim>\<open>smartdrop.py\<close> writes have the four columns of its task key before
  the servers, while \<^verbatim>\<open>updateWhitelist\<close> takes the second column for the servers: what it stores
  as the server list of a task is the task's URL, whatever the servers are.\<close>

theorem smartdrop_line_misread:
  assumes "meth \<noteq> []" "url \<noteq> []" "comma \<notin> set meth" "comma \<notin> set url"
    and "length meth < MAX_COLUMN" "length url < MAX_COLUMN"
  shows "parse_row (fileWrite_line (task_key meth url query content, servers)) = Inr (meth, url)"
  using assms strtok_field(1) [of meth] strtok_field(1) [of url]
  by (simp add: fileWrite_line_def task_key_def parse_row_def strcpy_def)

theorem smartdrop_line_misread_witness:
  "parse_row (fileWrite_line (task_key ''GET'' ''/shop/'' ''NULL'' ''a.html'', [''1'', ''3''])) = Inr (''GET'', ''/shop/'')"
  by (rule smartdrop_line_misread) (simp_all add: comma_def)

end
