(* ===== verification/Smartdrop_Gate.thy ===== *)
theory Smartdrop_Gate
  imports Whitelist Server_Model
begin

text \<open>
  How the balancing code consults the whitelist: the block that \<^verbatim>\<open>fwrr_get_next_server\<close>
  (\<^verbatim>\<open>lb_fwrr.c\<close>), \<^verbatim>\<open>fwlc_get_next_server\<close> (\<^verbatim>\<open>lb_fwlc.c\<close>) and
  \<^verbatim>\<open>get_server_rnd\<close> (\<^verbatim>\<open>backend.c\<close>) start with, and the utilities at the end of
  \<^verbatim>\<open>backend.c\<close>. Clock readings are in units of \<^verbatim>\<open>CLOCKS_PER_SEC\<close> = 1000000 per second;
  the readings and the content of the whitelist file are inputs.
\<close>

section \<open>Request key\<close>

text \<open>\<^verbatim>\<open>enum http_meth_t\<close>: 0 OPTIONS, 1 GET, 2 HEAD, 3 POST, 4 PUT and so on.\<close>

text \<open>The name is copied into a block of \<^verbatim>\<open>sizeof(name) + 1\<close> bytes, and a terminator is written
  at the index that is the size asked for. The argument \<open>malloc\<close> gives the number of bytes that the block
  really has, or \<open>None\<close> when there is no memory, which the code does not test: the write is within the
  block only if the allocator gave more than was asked for.\<close>

definition method_copy :: "(nat \<Rightarrow> nat option) \<Rightarrow> string \<Rightarrow> string option c_result" where
  "method_copy malloc name =
     (let method_length = (length name + 1) + 1
      in case malloc method_length of
           None \<Rightarrow> Inl NullDeref
         | Some len \<Rightarrow> if method_length < len then Inr (Some name) else Inl BufferOverflow)"

definition fetchMethod :: "(nat \<Rightarrow> nat option) \<Rightarrow> int \<Rightarrow> string option c_result" where
  "fetchMethod malloc meth =
     (if meth = 1 then method_copy malloc ''GET''
      else if meth = 3 then method_copy malloc ''POST''
      else Inr None)"

definition fetchKey :: "(nat \<Rightarrow> nat option) \<Rightarrow> int \<Rightarrow> string option c_result" where
  "fetchKey malloc meth = fetchMethod malloc meth"

text \<open>An allocator that gives at least one byte more than asked for on the two sizes.\<close>

definition spare_byte :: "(nat \<Rightarrow> nat option) \<Rightarrow> bool" where
  "spare_byte malloc \<longleftrightarrow> (\<forall>n \<in> {5, 6}. \<exists>len. malloc n = Some len \<and> n < len)"

text \<open>The copy of the server list in \<^verbatim>\<open>logDispatch\<close>: \<^verbatim>\<open>malloc (strlen (servers))\<close>.\<close>

definition logDispatch_copy :: "string \<Rightarrow> string c_result" where
  "logDispatch_copy servers = strcpy (length servers) servers"

section \<open>Refresh and lookup\<close>

record sd_state =
  sd_wl :: whitelist
  sd_count :: c_int
  sd_time :: int

record sd_env =
  env_t2 :: int
  env_t3 :: int
  env_file :: "string option"

definition howLong :: "int \<Rightarrow> int \<Rightarrow> int" where
  "howLong start end_clock = end_clock - start"

definition wl_refresh :: "c_int \<Rightarrow> int \<Rightarrow> sd_env \<Rightarrow> sd_state \<Rightarrow> sd_state c_result" where
  "wl_refresh limit secs env st =
     (let elapsed_time = howLong (sd_time st) (env_t2 env);
          st = st\<lparr>sd_count := sd_count st + 1\<rparr>
      in if sd_count st = limit \<or> secs * 1000000 \<le> elapsed_time then
           c_bind (updateWhitelist (env_file env) (sd_wl st)) (\<lambda>wl.
             Inr (st\<lparr>sd_wl := wl, sd_time := env_t3 env, sd_count := 0\<rparr>))
         else Inr st)"

text \<open>The request is refused (\<open>None\<close>, the caller returns NULL) if its list holds a 0, otherwise the
  list is returned. \<^verbatim>\<open>strchr\<close> is called on the result of \<^verbatim>\<open>searchRequest\<close> even when that is
  NULL.\<close>

definition wl_gate :: "c_int \<Rightarrow> int \<Rightarrow> sd_env \<Rightarrow> string option \<Rightarrow> sd_state \<Rightarrow> (sd_state \<times> string option) c_result" where
  "wl_gate limit secs env key st =
     c_bind (wl_refresh limit secs env st) (\<lambda>st.
     c_bind (searchRequest key (sd_wl st)) (\<lambda>servers.
     c_bind (strchr servers (CHR ''0'')) (\<lambda>found.
       Inr (st, if found then None else servers))))"

text \<open>The digit that names a server.\<close>

definition srv_num :: "server \<Rightarrow> char c_result" where
  "srv_num s =
     (case srv_id s of
        None \<Rightarrow> Inr (CHR ''0'')
      | Some sid \<Rightarrow> if sid = ''WP-Host'' then Inr (CHR ''1'')
                    else if sid = [] then Inl OutOfBounds else Inr (last sid))"

text \<open>Every server has a non-empty name, as the configuration parser sees to.\<close>

definition ids_ok :: "proxy \<Rightarrow> bool" where
  "ids_ok p \<longleftrightarrow> (\<forall>s \<in> set (px_srv p). srv_id s \<noteq> Some [])"

text \<open>The server to avoid, unless the whitelist lets it through.\<close>

definition sd_avoids :: "proxy \<Rightarrow> srv_ref option \<Rightarrow> string \<Rightarrow> srv_ref option" where
  "sd_avoids p av servers =
     (case av of
        Some a \<Rightarrow> if a < length (px_srv p) \<and> projr (srv_num (srv_at p a)) \<in> set servers then None else Some a
      | None \<Rightarrow> None)"

section \<open>Lemmas\<close>

lemma srv_num_ok: "ids_ok p \<Longrightarrow> j < length (px_srv p) \<Longrightarrow> \<exists>num. srv_num (srv_at p j) = Inr num"
  using nth_mem [of j "px_srv p"] by (auto simp: ids_ok_def srv_num_def split: option.splits)

lemma wl_refresh_inv:
  assumes "wl_refresh limit secs env st = Inr st'"
  shows "sd_count st' = 0 \<and> sd_time st' = env_t3 env \<and> updateWhitelist (env_file env) (sd_wl st) = Inr (sd_wl st') \<or>
    sd_count st' = sd_count st + 1 \<and> sd_count st' \<noteq> limit \<and> sd_time st' = sd_time st \<and> sd_wl st' = sd_wl st \<and>
    env_t2 env - sd_time st < secs * 1000000"
  using assms by (auto simp: wl_refresh_def Let_def howLong_def c_bind_Inr_iff split: if_splits)

text \<open>The counter runs through \<open>0, ..., limit - 1\<close>.\<close>

lemma wl_refresh_count:
  assumes "unat (sd_count st) < unat limit" and "wl_refresh limit secs env st = Inr st'"
  shows "unat (sd_count st') < unat limit"
proof -
  have "unat (sd_count st + 1) \<noteq> unat limit" if "sd_count st + 1 \<noteq> limit"
    using that by (metis unsigned_word_eqI)
  then show ?thesis
    using wl_refresh_inv [OF assms(2)] assms(1) unat_add_1_less [OF assms(1)] by auto
qed

lemma wl_gate_outcome:
  assumes "wl_refresh limit secs env st = Inr st'" and "wl_inv (sd_wl st')" and "key_ok k"
  shows "wl_gate limit secs env (Some k) st =
    (case wl_abs (sd_wl st') k of
       None \<Rightarrow> Inl NullDeref
     | Some servers \<Rightarrow> Inr (st', if CHR ''0'' \<in> set servers then None else Some servers))"
  using assms by (simp add: wl_gate_def searchRequest_abs strchr_def split: option.splits)

lemma method_copy_Inr: "method_copy malloc name = Inr k \<Longrightarrow> k = Some name"
  by (auto simp: method_copy_def Let_def split: option.splits if_splits)

lemma method_names_ok: "key_ok ''GET''" "key_ok ''POST''"
  by (simp_all add: key_ok_def ascii_def)

lemma fetchKey_ok: "fetchKey malloc meth = Inr (Some k) \<Longrightarrow> key_ok k"
  using method_names_ok by (auto simp: fetchKey_def fetchMethod_def dest!: method_copy_Inr split: if_splits)

text \<open>When the key is found, and what else happens.\<close>

lemma fetchKey_result:
  "fetchKey malloc meth =
     (if meth \<notin> {1, 3} then Inr None
      else case malloc (if meth = 1 then 5 else 6) of
        None \<Rightarrow> Inl NullDeref
      | Some len \<Rightarrow> if (if meth = 1 then 5 else 6) < len then Inr (Some (if meth = 1 then ''GET'' else ''POST'')) else Inl BufferOverflow)"
  by (auto simp: fetchKey_def fetchMethod_def method_copy_def Let_def eval_nat_numeral split: option.splits)

lemma spare_byte_fetchKey: "spare_byte malloc \<Longrightarrow> \<exists>k. fetchKey malloc meth = Inr k"
  by (auto simp: fetchKey_result spare_byte_def)

text \<open>A state to evaluate the block on: the table read from a file with one row.\<close>

definition sample_sd :: sd_state where
  "sample_sd = \<lparr>sd_wl = projr (updateWhitelist (Some (csv [(''GET'', ''13'')])) (createWhitelist CAPACITY)),
     sd_count = 0, sd_time = 0\<rparr>"

definition sample_env :: sd_env where
  "sample_env = \<lparr>env_t2 = 100, env_t3 = 200, env_file = None\<rparr>"

lemma sample_sd_ok:
  "wl_inv (sd_wl sample_sd)" "wl_refresh 10000 2 sample_env sample_sd = Inr (sample_sd\<lparr>sd_count := 1\<rparr>)"
  "wl_abs (sd_wl sample_sd) ''GET'' = Some (''13'' @ [nl])" "wl_abs (sd_wl sample_sd) ''POST'' = None"
proof -
  have rd: "updateWhitelist (Some (csv [(''GET'', ''13'')])) (createWhitelist CAPACITY) = Inr (sd_wl sample_sd)"
    unfolding sample_sd_def by code_simp
  have "list_all row_ok [(''GET'', ''13'')]" "key_ok ''GET''" by code_simp+
  then have "insertRequest ''GET'' (''13'' @ [nl]) (createWhitelist CAPACITY) = Inr (sd_wl sample_sd)"
    using rd read_rows_csv [of "[(''GET'', ''13'')]"] by (simp add: updateWhitelist_def c_bind_Inr_iff)
  then show "wl_inv (sd_wl sample_sd)"
    using insertRequest_refines(1) [OF createWhitelist_inv(1) \<open>key_ok ''GET''\<close>] by blast
  show "wl_refresh 10000 2 sample_env sample_sd = Inr (sample_sd\<lparr>sd_count := 1\<rparr>)"
    by (simp add: wl_refresh_def sample_env_def sample_sd_def howLong_def)
  show "wl_abs (sd_wl sample_sd) ''GET'' = Some (''13'' @ [nl])" "wl_abs (sd_wl sample_sd) ''POST'' = None"
    unfolding sample_sd_def by code_simp+
qed

lemma sample_gate:
  "wl_gate 10000 2 sample_env (Some ''GET'') sample_sd = Inr (sample_sd\<lparr>sd_count := 1\<rparr>, Some (''13'' @ [nl]))"
  using wl_gate_outcome [OF sample_sd_ok(2), of "''GET''"] sample_sd_ok method_names_ok
  by (simp add: nl_def)

section \<open>Properties\<close>

text \<open>The whitelist used by a request is never older than the refresh period: after each pass
  through the refresh block, either the table was just read from the file and the clock restarted, or
  less than \<open>secs\<close> seconds had elapsed since the last reading and fewer than \<open>limit\<close> requests
  were counted since then.\<close>

theorem wl_refresh_freshness:
  assumes "unat (sd_count st) < unat limit" and "wl_refresh limit secs env st = Inr st'"
  shows "unat (sd_count st') < unat limit \<and>
    (sd_count st' = 0 \<and> sd_time st' = env_t3 env \<and> updateWhitelist (env_file env) (sd_wl st) = Inr (sd_wl st') \<or>
     unat (sd_count st') = Suc (unat (sd_count st)) \<and> sd_wl st' = sd_wl st \<and> sd_time st' = sd_time st \<and>
     env_t2 env - sd_time st < secs * 1000000)"
proof -
  have "unat (sd_count st + 1) = Suc (unat (sd_count st))"
    by (rule unat_add_1_less [OF assms(1)])
  then show ?thesis
    using wl_refresh_count [OF assms] wl_refresh_inv [OF assms(2)] by auto
qed

theorem wl_refresh_freshness_witness:
  "\<exists>st'. wl_refresh 10000 2 sample_env sample_sd = Inr st' \<and> unat (sd_count st') < 10000"
proof -
  have "unat (sd_count sample_sd) < unat (10000 :: c_int)" by (simp add: sample_sd_def)
  from wl_refresh_freshness [OF this sample_sd_ok(2)] sample_sd_ok(2) show ?thesis by auto
qed

text \<open>(C20) The decision of the block for a GET or POST request, once its key has been fetched without a
  fault and the refresh has succeeded: a request whose method is not in the table crashes HAProxy (\<^verbatim>\<open>strchr\<close> on a null pointer), a list
  with a 0 refuses the request, any other list is passed on.\<close>

theorem wl_gate_decision:
  assumes "fetchKey malloc meth = Inr (Some k)" and "wl_refresh limit secs env st = Inr st'" and "wl_inv (sd_wl st')"
  shows "c_bind (fetchKey malloc meth) (\<lambda>key. wl_gate limit secs env key st) =
    (case wl_abs (sd_wl st') k of
       None \<Rightarrow> Inl NullDeref
     | Some servers \<Rightarrow> Inr (st', if CHR ''0'' \<in> set servers then None else Some servers))"
  using wl_gate_outcome [OF assms(2,3) fetchKey_ok [OF assms(1)]] assms(1) by simp

theorem wl_gate_decision_witness:
  "c_bind (fetchKey (\<lambda>_. Some 24) 1) (\<lambda>key. wl_gate 10000 2 sample_env key sample_sd) =
     Inr (sample_sd\<lparr>sd_count := 1\<rparr>, Some (''13'' @ [nl])) \<and>
   c_bind (fetchKey (\<lambda>_. Some 24) 3) (\<lambda>key. wl_gate 10000 2 sample_env key sample_sd) = Inl NullDeref"
proof -
  have "fetchKey (\<lambda>_. Some 24) 1 = Inr (Some ''GET'')" "fetchKey (\<lambda>_. Some 24) 3 = Inr (Some ''POST'')" by code_simp+
  then show ?thesis
    using wl_gate_decision [of "\<lambda>_. Some 24" 1 "''GET''" 10000 2 sample_env sample_sd "sample_sd\<lparr>sd_count := 1\<rparr>"]
      wl_gate_decision [of "\<lambda>_. Some 24" 3 "''POST''" 10000 2 sample_env sample_sd "sample_sd\<lparr>sd_count := 1\<rparr>"] sample_sd_ok
    by (simp add: nl_def)
qed

text \<open>Every request whose method is neither GET nor POST crashes the block:
  \<^verbatim>\<open>fetchMethod\<close> returns NULL and the hash reads through it.\<close>

theorem wl_gate_other_method:
  assumes "meth \<noteq> 1" and "meth \<noteq> 3" and "wl_refresh limit secs env st = Inr st'"
  shows "c_bind (fetchKey malloc meth) (\<lambda>key. wl_gate limit secs env key st) = Inl NullDeref"
  using assms by (simp add: wl_gate_def searchRequest_def fetchKey_def fetchMethod_def)

theorem wl_gate_other_method_witness:
  "c_bind (fetchKey Some 2) (\<lambda>key. wl_gate 10000 2 sample_env key sample_sd) = Inl NullDeref"
  by (rule wl_gate_other_method [OF _ _ sample_sd_ok(2)]) simp_all

text \<open>The buffers of the utilities are one byte short: with a block of exactly the size asked for
  \<^verbatim>\<open>fetchMethod\<close> writes its terminator past the end on every GET and POST, and the copy made by
  \<^verbatim>\<open>logDispatch\<close> never fits.\<close>

theorem smartdrop_utilities_overflow:
  "(fetchMethod Some meth = Inl BufferOverflow \<longleftrightarrow> meth \<in> {1, 3}) \<and> logDispatch_copy servers = Inl BufferOverflow"
  by (simp add: fetchMethod_def method_copy_def logDispatch_copy_def strcpy_def Let_def)

end
