(* ===== verification/Lb_Fwlc.thy ===== *)
theory Lb_Fwlc
  imports Lb_Tree Smartdrop_Gate
begin

text \<open>
  Weighted least-connection balancing, \<^verbatim>\<open>src/haproxy/src/lb_fwlc.c\<close>: usable servers are kept
  in a tree ordered by \<^verbatim>\<open>(inflight + 1) * SRV_EWGHT_MAX / eweight\<close>, where \<^verbatim>\<open>inflight\<close>
  counts served and queued connections. The lookup was extended to consult the SmartDrop whitelist.
  The dispatch log it writes is not modelled.
\<close>

section \<open>Operations\<close>

definition fwlc_remove_from_tree :: "srv_ref \<Rightarrow> proxy \<Rightarrow> proxy" where
  "fwlc_remove_from_tree i p = upd_srv i (\<lambda>s. s\<lparr>lb_tree := None\<rparr>) p"

definition fwlc_dequeue_srv :: "srv_ref \<Rightarrow> proxy \<Rightarrow> proxy" where
  "fwlc_dequeue_srv i p =
     p\<lparr>fwlc_act := eb32_delete i (fwlc_act p), fwlc_bck := eb32_delete i (fwlc_bck p)\<rparr>"

definition srv_inflight :: "server \<Rightarrow> u32" where
  "srv_inflight s = served s + q_length (srv_queue s)"

definition fwlc_key :: "u32 \<Rightarrow> server \<Rightarrow> u32" where
  "fwlc_key eweight s =
     (let inflight = srv_inflight s in if inflight \<noteq> 0 then (inflight + 1) * SRV_EWGHT_MAX div eweight else 0)"

text \<open>\<^verbatim>\<open>eb32_insert (s->lb_tree, &s->lb_node)\<close>; the callers set \<^verbatim>\<open>lb_tree\<close> first.\<close>

definition fwlc_insert :: "srv_ref \<Rightarrow> proxy \<Rightarrow> proxy" where
  "fwlc_insert i p =
     (let s = srv_at p i
      in case lb_tree s of
        Some Root_act \<Rightarrow> p\<lparr>fwlc_act := eb32_insert (lb_key s) i (fwlc_act p)\<rparr>
      | Some Root_bck \<Rightarrow> p\<lparr>fwlc_bck := eb32_insert (lb_key s) i (fwlc_bck p)\<rparr>
      | _ \<Rightarrow> p)"

definition fwlc_queue_srv :: "u32 \<Rightarrow> srv_ref \<Rightarrow> proxy \<Rightarrow> proxy" where
  "fwlc_queue_srv eweight i p =
     (let p = upd_srv i (\<lambda>s. s\<lparr>lb_key := fwlc_key eweight s\<rparr>) p in fwlc_insert i p)"

text \<open>The key is computed before the test whether the server is in a tree at all; the division is
  by the current weight of the server.\<close>

definition fwlc_srv_reposition :: "srv_ref \<Rightarrow> proxy \<Rightarrow> proxy c_result" where
  "fwlc_srv_reposition i p =
     (let s = srv_at p i in
      if srv_inflight s \<noteq> 0 \<and> cur_eweight s = 0 then Inl DivideByZero
      else let new_key = fwlc_key (cur_eweight s) s;
               in_tree = (eb32_in_tree i (fwlc_act p) \<or> eb32_in_tree i (fwlc_bck p)) in
      if in_tree \<and> lb_key s = new_key then Inr p
      else if lb_tree s = None then Inr p
      else let p = fwlc_dequeue_srv i p;
               p = upd_srv i (\<lambda>s. s\<lparr>lb_key := new_key\<rparr>) p
           in Inr (fwlc_insert i p))"

definition fwlc_set_server_status_down :: "srv_ref \<Rightarrow> proxy \<Rightarrow> proxy" where
  "fwlc_set_server_status_down i p =
     (let srv = srv_at p i in
      if \<not> srv_lb_status_changed srv then p
      else if srv_willbe_usable srv then upd_srv i srv_lb_commit_status p
      else
        (let p = (if \<not> srv_currently_usable srv then p
                  else let p = acct_srv_down i p;
                           p = fwlc_dequeue_srv i p
                       in fwlc_remove_from_tree i p);
             p = update_backend_weight p
         in upd_srv i srv_lb_commit_status p))"

definition fwlc_set_server_status_up :: "srv_ref \<Rightarrow> proxy \<Rightarrow> proxy" where
  "fwlc_set_server_status_up i p =
     (let srv = srv_at p i in
      if \<not> srv_lb_status_changed srv then p
      else if \<not> srv_willbe_usable srv then upd_srv i srv_lb_commit_status p
      else
        (let p = (if srv_currently_usable srv then p
                  else let p = upd_srv i (\<lambda>s. s\<lparr>lb_tree := Some (if is_backup s then Root_bck else Root_act)\<rparr>) p;
                           p = acct_srv_up i p
                       in fwlc_queue_srv (next_eweight (srv_at p i)) i p);
             p = update_backend_weight p
         in upd_srv i srv_lb_commit_status p))"

definition fwlc_update_server_weight :: "srv_ref \<Rightarrow> proxy \<Rightarrow> proxy" where
  "fwlc_update_server_weight i p =
     (let srv = srv_at p i in
      if \<not> srv_lb_status_changed srv then p
      else let old_state = srv_currently_usable srv; new_state = srv_willbe_usable srv in
      if \<not> old_state \<and> \<not> new_state then upd_srv i srv_lb_commit_status p
      else if \<not> old_state \<and> new_state then fwlc_set_server_status_up i p
      else if old_state \<and> \<not> new_state then fwlc_set_server_status_down i p
      else
        (let p = (if lb_tree srv \<noteq> None then fwlc_dequeue_srv i p else p);
             p = acct_srv_reweight i p;
             p = upd_srv i (\<lambda>s. s\<lparr>lb_tree := Some (if is_backup s then Root_bck else Root_act)\<rparr>) p;
             p = fwlc_queue_srv (next_eweight (srv_at p i)) i p;
             p = update_backend_weight p
         in upd_srv i srv_lb_commit_status p))"

definition fwlc_init_server_tree :: "proxy \<Rightarrow> proxy" where
  "fwlc_init_server_tree p =
     (let p = init_weights_and_count p;
          p = p\<lparr>fwlc_act := [], fwlc_bck := []\<rparr>
      in fold (\<lambda>i p. if \<not> srv_currently_usable (srv_at p i) then p
                     else let p = upd_srv i (\<lambda>s. s\<lparr>lb_tree := Some (if is_backup s then Root_bck else Root_act)\<rparr>) p
                          in fwlc_queue_srv (next_eweight (srv_at p i)) i p)
           [0..<length (px_srv p)] p)"

text \<open>The walk of the lookup. \<^verbatim>\<open>servers\<close> is not null here.\<close>

definition fwlc_fits :: "int \<Rightarrow> proxy \<Rightarrow> server \<Rightarrow> bool" where
  "fwlc_fits now_sec p s \<longleftrightarrow>
     maxconn s = 0 \<or> served s + q_length (srv_queue s) < srv_dynamic_maxconn now_sec p s + maxqueue s"

fun fwlc_scan :: "int \<Rightarrow> proxy \<Rightarrow> srv_ref option \<Rightarrow> string \<Rightarrow> srv_ref option \<Rightarrow> srv_ref list \<Rightarrow> srv_ref option c_result" where
  "fwlc_scan now_sec p srvtoavoid servers avoided [] = Inr avoided"
| "fwlc_scan now_sec p srvtoavoid servers avoided (s # nodes) =
     c_bind (srv_num (srv_at p s)) (\<lambda>num.
     if fwlc_fits now_sec p (srv_at p s) then
       (if Some s \<noteq> srvtoavoid \<or> num \<in> set servers then Inr (Some s)
        else fwlc_scan now_sec p srvtoavoid servers (Some s) nodes)
     else fwlc_scan now_sec p srvtoavoid servers avoided nodes)"

definition fwlc_get_next_server ::
    "sd_env \<Rightarrow> int \<Rightarrow> proxy \<Rightarrow> srv_ref option \<Rightarrow> string option \<Rightarrow> sd_state \<Rightarrow> (sd_state \<times> srv_ref option) c_result" where
  "fwlc_get_next_server env now_sec p srvtoavoid key st =
     c_bind (wl_gate 10000 2 env key st) (\<lambda>(st, servers).
     case servers of
       None \<Rightarrow> Inr (st, None)
     | Some servers \<Rightarrow>
         (let scan = (\<lambda>root. c_bind (fwlc_scan now_sec p srvtoavoid servers None (eb_nodes root)) (\<lambda>srv. Inr (st, srv)))
          in if srv_act p \<noteq> 0 then scan (fwlc_act p)
             else if fbck p \<noteq> None then Inr (st, fbck p)
             else if srv_bck p \<noteq> 0 then scan (fwlc_bck p)
             else Inr (st, None)))"

definition fwlc_cb :: "lb_callback \<Rightarrow> srv_ref \<Rightarrow> proxy \<Rightarrow> proxy" where
  "fwlc_cb = shape_cb fwlc_set_server_status_up fwlc_set_server_status_down fwlc_update_server_weight"

section \<open>The trees hold exactly the usable servers, ordered by load\<close>

definition fwlc_inv :: "proxy \<Rightarrow> bool" where
  "fwlc_inv p \<longleftrightarrow> two_tree_inv fwlc_act fwlc_bck fwlc_key (lb_weights p) p"

lemma fwlc_acct_frame:
  "fwlc_act (acct_srv_down i p) = fwlc_act p" "fwlc_bck (acct_srv_down i p) = fwlc_bck p"
  "fwlc_act (acct_srv_up i p) = fwlc_act p" "fwlc_bck (acct_srv_up i p) = fwlc_bck p"
  "fwlc_act (acct_srv_reweight i p) = fwlc_act p" "fwlc_bck (acct_srv_reweight i p) = fwlc_bck p"
  "fwlc_act (update_backend_weight p) = fwlc_act p" "fwlc_bck (update_backend_weight p) = fwlc_bck p"
  by (simp_all add: acct_srv_down_def acct_srv_up_def acct_srv_reweight_def elect_fbck_def Let_def
      update_backend_weight_def split: option.splits)

interpretation fwlc: srv_trees fwlc_act fwlc_bck fwlc_key
  "\<lambda>i p. fwlc_queue_srv (next_eweight (srv_at p i)) i p" fwlc_dequeue_srv
proof
  show "px_srv (fwlc_queue_srv (next_eweight (srv_at p i)) i p) =
      px_srv (upd_srv i (\<lambda>s. s\<lparr>lb_key := fwlc_key (next_eweight s) s\<rparr>) p)" for i p
    by (simp add: fwlc_queue_srv_def fwlc_insert_def Let_def split: option.splits eb_root_ptr.splits)
       (simp add: px_srv_upd_srv)
qed (auto simp: fwlc_queue_srv_def fwlc_insert_def fwlc_dequeue_srv_def Let_def acct_fields_def fwlc_key_def
      srv_inflight_def split: option.splits eb_root_ptr.splits)

text \<open>The callbacks, in the order of the source, have the common shape.\<close>

lemma fwlc_dequeue_reweight: "acct_srv_reweight i (fwlc_dequeue_srv i p) = fwlc_dequeue_srv i (acct_srv_reweight i p)"
  by (simp add: acct_srv_reweight_def fwlc_dequeue_srv_def Let_def)

interpretation fwlc: srv_tree_algorithm fwlc_act fwlc_bck fwlc_key "\<lambda>i p. fwlc_queue_srv (next_eweight (srv_at p i)) i p" fwlc_dequeue_srv
  fwlc_set_server_status_up fwlc_set_server_status_down fwlc_update_server_weight
proof
  fix i and p :: proxy assume i: "i < length (px_srv p)"
  show "fwlc_set_server_status_down i p =
      status_down_shape (\<lambda>i p. upd_srv i (\<lambda>s. s\<lparr>lb_tree := None\<rparr>) (fwlc_dequeue_srv i p)) i p"
    by (simp add: fwlc_set_server_status_down_def status_down_shape_def fwlc_remove_from_tree_def
        acct_commit_def Let_def)
  show "fwlc_set_server_status_up i p =
      status_up_shape (\<lambda>i p. (\<lambda>i p. fwlc_queue_srv (next_eweight (srv_at p i)) i p) i (upd_srv i (\<lambda>s. s\<lparr>lb_tree := Some (root_of s)\<rparr>) p)) i p"
    using i by (simp add: fwlc_set_server_status_up_def status_up_shape_def acct_commit_def Let_def
        root_of_if acct_srv_up_upd)
  show "fwlc_update_server_weight i p = update_weight_shape fwlc_set_server_status_up fwlc_set_server_status_down
      (\<lambda>i p. (\<lambda>i p. fwlc_queue_srv (next_eweight (srv_at p i)) i p) i (upd_srv i (\<lambda>s. s\<lparr>lb_tree := Some (root_of s)\<rparr>) (fwlc_dequeue_srv i p))) i p"
    if "lb_tree (srv_at p i) \<noteq> None \<or> \<not> srv_currently_usable (srv_at p i)"
    using that by (auto simp: fwlc_update_server_weight_def update_weight_shape_def acct_commit_def Let_def
        root_of_if fwlc_dequeue_reweight)
qed (simp_all add: fwlc_acct_frame srv_lb_commit_status_def set_pending_def fwlc_key_def srv_inflight_def)

section \<open>Status changes\<close>

lemma fwlc_events_invariant:
  assumes "fwlc_inv p" "lb_acct p" "all_committed p" "run_events fwlc_cb es p = Some q"
  shows "fwlc_inv q \<and> lb_acct q \<and> all_committed q"
  using fwlc.tc.lb.events_ok [of p es q] assms by (simp add: fwlc_inv_def fwlc_cb_def)

lemma fwlc_init_ok:
  assumes "length (px_srv p) < 2 ^ 32" and "\<forall>s \<in> set (px_srv p). lb_tree s = None"
  shows "fwlc_inv (fwlc_init_server_tree p) \<and> lb_acct (fwlc_init_server_tree p) \<and>
    all_committed (fwlc_init_server_tree p)"
proof -
  define r where "r = (init_weights_and_count p)\<lparr>fwlc_act := [], fwlc_bck := []\<rparr>"
  have sa: "same_acct (init_weights_and_count p) r"
    by (rule same_acctI) (simp_all add: r_def acct_fields_def)
  have ac: "all_committed r" and la: "lb_acct r"
    using same_acct_all_committed [OF sa] same_acct_lb_acct [OF sa] init_weights_and_count_ok [OF assms(1)]
    by blast+
  have eq: "fwlc_init_server_tree p = fold (queue_usable (\<lambda>i p. fwlc_queue_srv (next_eweight (srv_at p i)) i p)) [0..<length (px_srv r)] r"
    unfolding fwlc_init_server_tree_def Let_def r_def root_of_if
    by (rule arg_cong [where f = "\<lambda>f. fold f _ _"]) (simp add: queue_usable_def fun_eq_iff)
  have "fwlc_act r = []" "fwlc_bck r = []" "\<forall>s \<in> set (px_srv r). lb_tree s = None"
    using init_weights_lb_tree [OF assms] by (simp_all add: r_def)
  from fwlc.queue_loop [OF this ac] show ?thesis
    using same_acct_lb_acct [OF _ la] same_acct_all_committed [OF _ ac] by (auto simp: fwlc_inv_def eq)
qed

section \<open>Connections taken and released\<close>

lemma fwlc_inv_members:
  assumes "fwlc_inv p"
  shows "j \<in> set (eb_nodes (fwlc_act p)) \<longleftrightarrow> j < length (px_srv p) \<and> cur_act (srv_at p j)"
    "j \<in> set (eb_nodes (fwlc_bck p)) \<longleftrightarrow> j < length (px_srv p) \<and> cur_bck (srv_at p j)"
  using fwlc.nodes [OF assms [unfolded fwlc_inv_def]]
  by (auto simp: in_group_def lb_weights_def cur_act_def cur_bck_def srv_currently_usable_def split: if_splits)

lemma fwlc_inv_tree: "fwlc_inv p \<Longrightarrow> i < length (px_srv p) \<Longrightarrow>
    lb_tree (srv_at p i) \<noteq> None \<longleftrightarrow> srv_currently_usable (srv_at p i)"
  using fwlc.inv2_linked [of "lb_weights p" p i]
  by (auto simp: fwlc_inv_def lb_weights_def srv_currently_usable_def split: if_splits)

definition set_served :: "c_int \<Rightarrow> server \<Rightarrow> server" where
  "set_served n s = s\<lparr>served := n\<rparr>"

lemma set_served_simps [simp]:
  "lb_tree (set_served n s) = lb_tree s" "lb_key (set_served n s) = lb_key s" "is_backup (set_served n s) = is_backup s"
  "cur_eweight (set_served n s) = cur_eweight s" "next_eweight (set_served n s) = next_eweight s"
  "srv_currently_usable (set_served n s) = srv_currently_usable s" "acct_key (set_served n s) = acct_key s"
  "set_served n (s\<lparr>lb_tree := t\<rparr>) = (set_served n s)\<lparr>lb_tree := t\<rparr>"
  by (simp_all add: set_served_def is_backup_def srv_currently_usable_def acct_key_def srv_willbe_usable_def
      committed_def srv_lb_status_changed_def)

lemma set_served_same_acct: "same_acct p (upd_srv i (set_served n) p)"
  by (rule same_acctI) simp_all

lemma fwlc_requeue_eq:
  assumes "i < length (px_srv p)" and "next_eweight (srv_at p i) = cur_eweight (srv_at p i)"
  shows "fwlc_insert i (upd_srv i (\<lambda>s. s\<lparr>lb_key := fwlc_key (cur_eweight (srv_at p i)) (srv_at p i)\<rparr>) (fwlc_dequeue_srv i p)) =
    fwlc_queue_srv (next_eweight (srv_at (fwlc_dequeue_srv i p) i)) i (fwlc_dequeue_srv i p)"
proof -
  let ?d = "fwlc_dequeue_srv i p"
  have d: "px_srv ?d = px_srv p" by (simp add: fwlc_dequeue_srv_def)
  have "upd_srv i (\<lambda>s. s\<lparr>lb_key := fwlc_key (cur_eweight (srv_at p i)) (srv_at p i)\<rparr>) ?d =
      upd_srv i (\<lambda>s. s\<lparr>lb_key := fwlc_key (next_eweight (srv_at ?d i)) s\<rparr>) ?d"
    by (simp add: upd_srv_def d assms(2))
  then show ?thesis by (simp add: fwlc_queue_srv_def)
qed

lemma fwlc_reposition_inv:
  assumes inv: "fwlc_inv p" and ac: "all_committed p" and i: "i < length (px_srv p)"
    and r: "fwlc_srv_reposition i (upd_srv i (set_served n) p) = Inr q"
  shows "fwlc_inv q \<and> same_acct p q"
proof -
  let ?p = "upd_srv i (set_served n) p" and ?W = "lb_weights p"
  have W: "lb_weights ?p = ?W" by (rule same_acct_weights(1) [OF set_served_same_acct])
  have com: "next_eweight (srv_at p i) = cur_eweight (srv_at p i)"
    using ac i by (simp add: all_committed_nth committed_eweight)
  note inv2 = inv [unfolded fwlc_inv_def]
  consider (off) "\<not> srv_currently_usable (srv_at p i)"
    | (same) "srv_currently_usable (srv_at p i)" "q = ?p"
        "lb_key (srv_at p i) = fwlc_key (cur_eweight (srv_at p i)) (set_served n (srv_at p i))"
    | (req) "srv_currently_usable (srv_at p i)"
        "q = fwlc_queue_srv (next_eweight (srv_at (fwlc_dequeue_srv i ?p) i)) i (fwlc_dequeue_srv i ?p)"
    using r fwlc_inv_tree [OF inv i] fwlc_requeue_eq [of i ?p] i com
    by (auto simp: fwlc_srv_reposition_def Let_def split: if_splits)
  then show ?thesis
  proof cases
    case off
    then have "?W i = 0" by (simp add: lb_weights_def)
    then have "two_tree_inv fwlc_act fwlc_bck fwlc_key ?W ?p"
      by (intro fwlc.inv2_absent_upd [OF inv2]) simp_all
    moreover have "q = ?p"
      using r off fwlc_inv_tree [OF inv i] i by (auto simp: fwlc_srv_reposition_def Let_def split: if_splits)
    ultimately show ?thesis using W set_served_same_acct [of p i n] by (simp add: fwlc_inv_def)
  next
    case same
    then have "?W i = cur_eweight (srv_at p i)" using i by (simp add: lb_weights_def)
    with same i have "two_tree_inv fwlc_act fwlc_bck fwlc_key ?W ?p"
      by (intro fwlc.inv2_same_key [OF inv2 i]) simp_all
    then show ?thesis using same W set_served_same_acct [of p i n] by (simp add: fwlc_inv_def)
  next
    case req
    then have Wi: "?W i = cur_eweight (srv_at p i)" "?W i \<noteq> 0"
      using i by (auto simp: lb_weights_def srv_currently_usable_def split: if_splits)
    have "two_tree_inv fwlc_act fwlc_bck fwlc_key ?W q"
      unfolding req(2) by (rule fwlc.inv2_requeue [OF inv2 i Wi(2)]) (simp_all add: Wi com)
    moreover have "same_acct ?p (fwlc_dequeue_srv i ?p)"
      by (rule same_acctI) (simp_all add: fwlc.deq_srv fwlc.deq_fields)
    moreover have "same_acct r (fwlc_queue_srv (next_eweight (srv_at r i)) i r)" for r
      by (rule same_acctI) (simp_all add: fwlc.queue_srv fwlc.queue_fields)
    ultimately have "two_tree_inv fwlc_act fwlc_bck fwlc_key ?W q \<and> same_acct ?p q"
      unfolding req(2) by (blast intro: same_acct_trans)
    then have "two_tree_inv fwlc_act fwlc_bck fwlc_key ?W q" "same_acct p q"
      using same_acct_trans [OF set_served_same_acct] by blast+
    then show ?thesis using same_acct_weights(1) [of p q] by (simp add: fwlc_inv_def)
  qed
qed

section \<open>The lookup\<close>

text \<open>With valid server names the walk does not fault and is the common one, where the server to
  avoid is picked like any other if the whitelist names it.\<close>

lemma fwlc_scan_tree_scan:
  assumes "ids_ok p" and "\<forall>j \<in> set nodes. j < length (px_srv p)"
  shows "fwlc_scan now_sec p av servers avoided nodes =
    Inr (tree_scan (\<lambda>j. fwlc_fits now_sec p (srv_at p j))
      (\<lambda>j. Some j \<noteq> av \<or> projr (srv_num (srv_at p j)) \<in> set servers) avoided nodes)"
  using assms(2)
proof (induction nodes arbitrary: avoided)
  case (Cons j nodes)
  then show ?case using srv_num_ok [OF assms(1), of j] by auto
qed simp

lemma fwlc_inv_keys:
  assumes "fwlc_inv p" and "(k, n) \<in> set (fwlc_act p) \<or> (k, n) \<in> set (fwlc_bck p)"
  shows "fwlc_key (cur_eweight (srv_at p n)) (srv_at p n) = k"
  using assms unfolding fwlc_inv_def two_tree_inv_def
  by (auto simp: in_group_def lb_weights_def split: if_splits)

definition fwlc_candidate :: "int \<Rightarrow> proxy \<Rightarrow> srv_ref \<Rightarrow> bool" where
  "fwlc_candidate now_sec p j \<longleftrightarrow> j < length (px_srv p) \<and>
     (if srv_act p \<noteq> 0 then cur_act (srv_at p j) else cur_bck (srv_at p j)) \<and>
     fwlc_fits now_sec p (srv_at p j)"

lemma tree_scan_cong:
  "(\<And>j. j \<in> set nodes \<Longrightarrow> pick j = pick' j) \<Longrightarrow> tree_scan fit pick a nodes = tree_scan fit pick' a nodes"
  by (induction nodes arbitrary: a) auto

lemma fwlc_lookup_spec:
  assumes inv: "fwlc_inv p" and ids: "ids_ok p" and grp: "srv_act p \<noteq> 0 \<or> (fbck p = None \<and> srv_bck p \<noteq> 0)"
    and gate: "wl_gate 10000 2 env key st = Inr (st', Some servers)"
  shows "\<exists>r. fwlc_get_next_server env now_sec p srvtoavoid key st = Inr (st', r) \<and>
    picks_least (fwlc_candidate now_sec p) (\<lambda>j. fwlc_key (cur_eweight (srv_at p j)) (srv_at p j))
      (sd_avoids p srvtoavoid servers) r"
proof -
  define root where "root = (if srv_act p \<noteq> 0 then fwlc_act p else fwlc_bck p)"
  let ?fit = "\<lambda>j. fwlc_fits now_sec p (srv_at p j)" and ?av = "sd_avoids p srvtoavoid servers"
  have mem: "j \<in> set (eb_nodes root) \<longleftrightarrow> j < length (px_srv p) \<and> (if srv_act p \<noteq> 0 then cur_act (srv_at p j) else cur_bck (srv_at p j))" for j
    using fwlc_inv_members [OF inv] by (auto simp: root_def)
  have "eb_ordered root" and "\<And>k n. (k, n) \<in> set root \<Longrightarrow> fwlc_key (cur_eweight (srv_at p n)) (srv_at p n) = k"
    using fwlc_inv_keys [OF inv] inv [unfolded fwlc_inv_def two_tree_inv_def]
    by (simp_all add: root_def split: if_splits)
  from tree_scan_picks_least [OF this, where av = ?av and fit = ?fit]
  have "picks_least (fwlc_candidate now_sec p) (\<lambda>j. fwlc_key (cur_eweight (srv_at p j)) (srv_at p j)) ?av
      (tree_scan ?fit (\<lambda>s. Some s \<noteq> ?av) None (eb_nodes root))"
    unfolding fwlc_candidate_def mem by (simp add: conj_assoc)
  moreover have ms: "\<forall>j \<in> set (eb_nodes root). j < length (px_srv p)" by (simp add: mem)
  have "fwlc_scan now_sec p srvtoavoid servers None (eb_nodes root) =
      Inr (tree_scan ?fit (\<lambda>s. Some s \<noteq> ?av) None (eb_nodes root))"
    unfolding fwlc_scan_tree_scan [OF ids ms]
    by (intro arg_cong [where f = Inr] tree_scan_cong) (auto simp: mem sd_avoids_def split: option.splits)
  moreover have "fwlc_get_next_server env now_sec p srvtoavoid key st =
      c_bind (fwlc_scan now_sec p srvtoavoid servers None (eb_nodes root)) (\<lambda>srv. Inr (st', srv))"
    using grp gate by (auto simp: fwlc_get_next_server_def root_def Let_def)
  ultimately show ?thesis by auto
qed

text \<open>A server whose weight becomes 0 keeps its connections.\<close>

lemma fwlc_drained:
  assumes "ev_srv e < length (px_srv p)" and "ev_call e = Update_server_eweight" and "ev_eweight e = 0"
  shows "ev_srv e < length (px_srv (run_event fwlc_cb e p)) \<and> cur_eweight (srv_at (run_event fwlc_cb e p) (ev_srv e)) = 0 \<and>
    srv_inflight (srv_at (run_event fwlc_cb e p) (ev_srv e)) = srv_inflight (srv_at p (ev_srv e))"
proof -
  define q where "q = upd_srv (ev_srv e) (set_pending e) p"
  have q: "srv_at q (ev_srv e) = set_pending e (srv_at p (ev_srv e))" "length (px_srv q) = length (px_srv p)"
    using assms(1) by (simp_all add: q_def)
  have nw: "\<not> srv_willbe_usable (srv_at q (ev_srv e))" "next_eweight (srv_at q (ev_srv e)) = 0"
    using assms(3) by (simp_all add: q srv_willbe_usable_def set_pending_def)
  have run: "run_event fwlc_cb e p = fwlc_update_server_weight (ev_srv e) q"
    using assms(2) by (simp add: run_event_def fwlc_cb_def shape_cb_def q_def)
  have srv: "px_srv (acct_srv_down i r) = px_srv r" "px_srv (update_backend_weight r) = px_srv r" "px_srv (fwlc_dequeue_srv i r) = px_srv r" for i r
    by (simp_all add: acct_srv_down_def update_backend_weight_def fwlc_dequeue_srv_def Let_def split: option.splits)
  have c: "srv_inflight (set_pending e s) = srv_inflight s" "srv_inflight (srv_lb_commit_status s) = srv_inflight s"
      "cur_eweight (srv_lb_commit_status s) = next_eweight s" for s
    by (simp_all add: srv_inflight_def set_pending_def srv_lb_commit_status_def)
  show ?thesis unfolding run using assms(1,3) nw q c srv
    by (auto simp: fwlc_update_server_weight_def fwlc_set_server_status_down_def fwlc_remove_from_tree_def Let_def
        srv_lb_status_changed_def srv_inflight_def upd_srv_def)
qed

section \<open>Properties\<close>

text \<open>(C2) Least-connection balancing: starting from \<^verbatim>\<open>fwlc_init_server_tree\<close>, after any sequence
  of status and weight changes the trees hold exactly the usable servers, each under the key of its
  load and weight, and the counters and totals are those of the server chain.\<close>

theorem fwlc_reachable_ok:
  assumes "length (px_srv p) < 2 ^ 32" and "\<forall>s \<in> set (px_srv p). lb_tree s = None"
    and "run_events fwlc_cb es (fwlc_init_server_tree p) = Some q"
  shows "fwlc_inv q \<and> lb_acct q \<and> all_committed q"
  using fwlc_init_ok [OF assms(1,2)] assms(3) by (intro fwlc_events_invariant) auto

theorem fwlc_reachable_ok_witness:
  "run_events fwlc_cb sample_events (fwlc_init_server_tree sample_proxy) \<noteq> None \<and>
   (let q = the (run_events fwlc_cb sample_events (fwlc_init_server_tree sample_proxy))
    in fwlc_inv q \<and> lb_acct q \<and> all_committed q)"
proof -
  have "run_events fwlc_cb sample_events (fwlc_init_server_tree sample_proxy) \<noteq> None"
    by code_simp
  then show ?thesis
    using fwlc_reachable_ok [of sample_proxy sample_events]
    by (auto simp: sample_proxy_def sample_server_def)
qed

text \<open>When the number of connections of a server changes and \<^verbatim>\<open>fwlc_srv_reposition\<close> is
  called for it, as \<^verbatim>\<open>server_take_conn\<close> and \<^verbatim>\<open>server_drop_conn\<close> do, the trees are in load
  order again and the accounting is untouched; the call succeeds for every server of non-zero
  weight.\<close>

theorem fwlc_reposition_ok:
  assumes "fwlc_inv p" "lb_acct p" "all_committed p" "i < length (px_srv p)" "cur_eweight (srv_at p i) \<noteq> 0"
  shows "\<exists>q. fwlc_srv_reposition i (upd_srv i (set_served n) p) = Inr q \<and>
    fwlc_inv q \<and> lb_acct q \<and> all_committed q"
proof -
  obtain q where q: "fwlc_srv_reposition i (upd_srv i (set_served n) p) = Inr q"
    using assms(4,5) by (cases "fwlc_srv_reposition i (upd_srv i (set_served n) p)")
      (auto simp: fwlc_srv_reposition_def Let_def split: if_splits)
  from fwlc_reposition_inv [OF assms(1,3,4) q] q show ?thesis
    using same_acct_lb_acct [OF _ assms(2)] same_acct_all_committed [OF _ assms(3)] by blast
qed

theorem fwlc_reposition_ok_witness:
  "\<exists>q. fwlc_srv_reposition 1 (upd_srv 1 (set_served 5) (fwlc_init_server_tree sample_proxy)) = Inr q \<and> fwlc_inv q"
proof -
  have "fwlc_inv (fwlc_init_server_tree sample_proxy) \<and> lb_acct (fwlc_init_server_tree sample_proxy) \<and>
      all_committed (fwlc_init_server_tree sample_proxy)"
    by (rule fwlc_init_ok) (simp_all add: sample_proxy_def sample_server_def)
  moreover have "1 < length (px_srv (fwlc_init_server_tree sample_proxy))"
    "cur_eweight (srv_at (fwlc_init_server_tree sample_proxy) 1) \<noteq> 0" by code_simp+
  ultimately show ?thesis
    using fwlc_reposition_ok [of "fwlc_init_server_tree sample_proxy" 1 5] by blast
qed

text \<open>(C19) What the lookup returns for a request that passes the whitelist gate, unless the first
  backup server alone serves (\<^verbatim>\<open>fbck\<close>): the candidate of least load, whatever servers the whitelist names. The list is used only to exempt the server to
  avoid from being avoided; a server that is not on the list is chosen like any other.\<close>

theorem fwlc_get_next_server_least:
  assumes "fwlc_inv p" and "ids_ok p" and "srv_act p \<noteq> 0 \<or> (fbck p = None \<and> srv_bck p \<noteq> 0)"
    and "wl_gate 10000 2 env key st = Inr (st', Some servers)"
  shows "\<exists>r. fwlc_get_next_server env now_sec p srvtoavoid key st = Inr (st', r) \<and>
    picks_least (fwlc_candidate now_sec p) (\<lambda>j. fwlc_key (cur_eweight (srv_at p j)) (srv_at p j))
      (sd_avoids p srvtoavoid servers) r"
  by (rule fwlc_lookup_spec [OF assms])

theorem fwlc_get_next_server_least_witness:
  "\<exists>r. fwlc_get_next_server sample_env 0 (fwlc_init_server_tree sample_proxy) None (Some ''GET'') sample_sd =
     Inr (sample_sd\<lparr>sd_count := 1\<rparr>, r) \<and>
   picks_least (fwlc_candidate 0 (fwlc_init_server_tree sample_proxy))
     (\<lambda>j. fwlc_key (cur_eweight (srv_at (fwlc_init_server_tree sample_proxy) j)) (srv_at (fwlc_init_server_tree sample_proxy) j))
     None r"
proof -
  let ?p = "fwlc_init_server_tree sample_proxy"
  have "fwlc_inv ?p" using fwlc_init_ok [of sample_proxy] by (simp add: sample_proxy_def sample_server_def)
  moreover have "ids_ok ?p" "srv_act ?p \<noteq> 0" by code_simp+
  ultimately show ?thesis
    using fwlc_get_next_server_least [OF _ _ _ sample_gate, of ?p 0 None]
    by (fastforce simp: sd_avoids_def)
qed

end
