(* ===== verification/Lb_Fas.thy ===== *)
theory Lb_Fas
  imports Lb_Tree
begin

text \<open>
  First-available-server balancing, \<^verbatim>\<open>src/haproxy/src/lb_fas.c\<close>: usable servers are kept in a
  tree ordered by their unique id, and the lookup returns the first one that accepts a connection
  without queueing it.
\<close>

section \<open>Operations\<close>

definition fas_remove_from_tree :: "srv_ref \<Rightarrow> proxy \<Rightarrow> proxy" where
  "fas_remove_from_tree i p = upd_srv i (\<lambda>s. s\<lparr>lb_tree := None\<rparr>) p"

definition fas_dequeue_srv :: "srv_ref \<Rightarrow> proxy \<Rightarrow> proxy" where
  "fas_dequeue_srv i p =
     p\<lparr>fas_act := eb32_delete i (fas_act p), fas_bck := eb32_delete i (fas_bck p)\<rparr>"

text \<open>The insertion through \<^verbatim>\<open>s->lb_tree\<close>; the callers set that pointer first.\<close>

definition fas_queue_srv :: "srv_ref \<Rightarrow> proxy \<Rightarrow> proxy" where
  "fas_queue_srv i p =
     (let p = upd_srv i (\<lambda>s. s\<lparr>lb_key := puid s\<rparr>) p; s = srv_at p i
      in case lb_tree s of
        Some Root_act \<Rightarrow> p\<lparr>fas_act := eb32_insert (lb_key s) i (fas_act p)\<rparr>
      | Some Root_bck \<Rightarrow> p\<lparr>fas_bck := eb32_insert (lb_key s) i (fas_bck p)\<rparr>
      | _ \<Rightarrow> p)"

definition fas_srv_reposition :: "srv_ref \<Rightarrow> proxy \<Rightarrow> proxy" where
  "fas_srv_reposition i p =
     (if lb_tree (srv_at p i) \<noteq> None then fas_queue_srv i (fas_dequeue_srv i p) else p)"

definition fas_set_server_status_down :: "srv_ref \<Rightarrow> proxy \<Rightarrow> proxy" where
  "fas_set_server_status_down i p =
     (let srv = srv_at p i in
      if \<not> srv_lb_status_changed srv then p
      else if srv_willbe_usable srv then upd_srv i srv_lb_commit_status p
      else
        (let p = (if \<not> srv_currently_usable srv then p
                  else let p = acct_srv_down i p;
                           p = fas_dequeue_srv i p
                       in fas_remove_from_tree i p);
             p = update_backend_weight p
         in upd_srv i srv_lb_commit_status p))"

definition fas_set_server_status_up :: "srv_ref \<Rightarrow> proxy \<Rightarrow> proxy" where
  "fas_set_server_status_up i p =
     (let srv = srv_at p i in
      if \<not> srv_lb_status_changed srv then p
      else if \<not> srv_willbe_usable srv then upd_srv i srv_lb_commit_status p
      else
        (let p = (if srv_currently_usable srv then p
                  else let p = upd_srv i (\<lambda>s. s\<lparr>lb_tree := Some (if is_backup s then Root_bck else Root_act)\<rparr>) p;
                           p = acct_srv_up i p
                       in fas_queue_srv i p);
             p = update_backend_weight p
         in upd_srv i srv_lb_commit_status p))"

definition fas_update_server_weight :: "srv_ref \<Rightarrow> proxy \<Rightarrow> proxy" where
  "fas_update_server_weight i p =
     (let srv = srv_at p i in
      if \<not> srv_lb_status_changed srv then p
      else let old_state = srv_currently_usable srv; new_state = srv_willbe_usable srv in
      if \<not> old_state \<and> \<not> new_state then upd_srv i srv_lb_commit_status p
      else if \<not> old_state \<and> new_state then fas_set_server_status_up i p
      else if old_state \<and> \<not> new_state then fas_set_server_status_down i p
      else
        (let p = (if lb_tree srv \<noteq> None then fas_dequeue_srv i p else p);
             p = acct_srv_reweight i p;
             p = upd_srv i (\<lambda>s. s\<lparr>lb_tree := Some (if is_backup s then Root_bck else Root_act)\<rparr>) p;
             p = fas_queue_srv i p;
             p = update_backend_weight p
         in upd_srv i srv_lb_commit_status p))"

definition fas_init_server_tree :: "proxy \<Rightarrow> proxy" where
  "fas_init_server_tree p =
     (let p = init_weights_and_count p;
          p = p\<lparr>fas_act := [], fas_bck := []\<rparr>
      in fold (\<lambda>i p. if \<not> srv_currently_usable (srv_at p i) then p
                     else fas_queue_srv i (upd_srv i (\<lambda>s. s\<lparr>lb_tree :=
                            Some (if is_backup s then Root_bck else Root_act)\<rparr>) p))
           [0..<length (px_srv p)] p)"

definition fas_get_next_server :: "int \<Rightarrow> proxy \<Rightarrow> srv_ref option \<Rightarrow> srv_ref option" where
  "fas_get_next_server now_sec p srvtoavoid =
     (let scan = (\<lambda>root. tree_scan (\<lambda>s. srv_not_full now_sec p (srv_at p s)) (\<lambda>s. Some s \<noteq> srvtoavoid)
                    None (eb_nodes root))
      in if srv_act p \<noteq> 0 then scan (fas_act p)
         else if fbck p \<noteq> None then fbck p
         else if srv_bck p \<noteq> 0 then scan (fas_bck p)
         else None)"

definition fas_cb :: "lb_callback \<Rightarrow> srv_ref \<Rightarrow> proxy \<Rightarrow> proxy" where
  "fas_cb = shape_cb fas_set_server_status_up fas_set_server_status_down fas_update_server_weight"

section \<open>The trees hold exactly the usable servers\<close>

definition fas_inv :: "proxy \<Rightarrow> bool" where
  "fas_inv p \<longleftrightarrow> two_tree_inv fas_act fas_bck (\<lambda>_. puid) (lb_weights p) p"

lemma fas_acct_frame:
  "fas_act (acct_srv_down i p) = fas_act p" "fas_bck (acct_srv_down i p) = fas_bck p"
  "fas_act (acct_srv_up i p) = fas_act p" "fas_bck (acct_srv_up i p) = fas_bck p"
  "fas_act (acct_srv_reweight i p) = fas_act p" "fas_bck (acct_srv_reweight i p) = fas_bck p"
  "fas_act (update_backend_weight p) = fas_act p" "fas_bck (update_backend_weight p) = fas_bck p"
  by (simp_all add: acct_srv_down_def acct_srv_up_def acct_srv_reweight_def elect_fbck_def Let_def
      update_backend_weight_def split: option.splits)

interpretation fas: srv_trees fas_act fas_bck "\<lambda>_. puid" fas_queue_srv fas_dequeue_srv
  by unfold_locales
     (auto simp: fas_queue_srv_def fas_dequeue_srv_def Let_def acct_fields_def
      split: option.splits eb_root_ptr.splits)

text \<open>The callbacks, in the order of the source, have the common shape.\<close>

lemma fas_dequeue_reweight: "acct_srv_reweight i (fas_dequeue_srv i p) = fas_dequeue_srv i (acct_srv_reweight i p)"
  by (simp add: acct_srv_reweight_def fas_dequeue_srv_def Let_def)

interpretation fas: srv_tree_algorithm fas_act fas_bck "\<lambda>_. puid" fas_queue_srv fas_dequeue_srv
  fas_set_server_status_up fas_set_server_status_down fas_update_server_weight
proof
  fix i and p :: proxy assume i: "i < length (px_srv p)"
  show "fas_set_server_status_down i p =
      status_down_shape (\<lambda>i p. upd_srv i (\<lambda>s. s\<lparr>lb_tree := None\<rparr>) (fas_dequeue_srv i p)) i p"
    by (simp add: fas_set_server_status_down_def status_down_shape_def fas_remove_from_tree_def
        acct_commit_def Let_def)
  show "fas_set_server_status_up i p =
      status_up_shape (\<lambda>i p. fas_queue_srv i (upd_srv i (\<lambda>s. s\<lparr>lb_tree := Some (root_of s)\<rparr>) p)) i p"
    using i by (simp add: fas_set_server_status_up_def status_up_shape_def acct_commit_def Let_def
        root_of_if acct_srv_up_upd)
  show "fas_update_server_weight i p = update_weight_shape fas_set_server_status_up fas_set_server_status_down
      (\<lambda>i p. fas_queue_srv i (upd_srv i (\<lambda>s. s\<lparr>lb_tree := Some (root_of s)\<rparr>) (fas_dequeue_srv i p))) i p"
    if "lb_tree (srv_at p i) \<noteq> None \<or> \<not> srv_currently_usable (srv_at p i)"
    using that by (auto simp: fas_update_server_weight_def update_weight_shape_def acct_commit_def Let_def
        root_of_if fas_dequeue_reweight)
qed (simp_all add: fas_acct_frame srv_lb_commit_status_def set_pending_def)

section \<open>Status changes\<close>

lemma fas_events_invariant:
  assumes "fas_inv p" "lb_acct p" "all_committed p" "run_events fas_cb es p = Some q"
  shows "fas_inv q \<and> lb_acct q \<and> all_committed q"
  using fas.tc.lb.events_ok [of p es q] assms by (simp add: fas_inv_def fas_cb_def)

lemma fas_init_ok:
  assumes "length (px_srv p) < 2 ^ 32" and "\<forall>s \<in> set (px_srv p). lb_tree s = None"
  shows "fas_inv (fas_init_server_tree p) \<and> lb_acct (fas_init_server_tree p) \<and>
    all_committed (fas_init_server_tree p)"
proof -
  define r where "r = (init_weights_and_count p)\<lparr>fas_act := [], fas_bck := []\<rparr>"
  have sa: "same_acct (init_weights_and_count p) r"
    by (rule same_acctI) (simp_all add: r_def acct_fields_def)
  have ac: "all_committed r" and la: "lb_acct r"
    using same_acct_all_committed [OF sa] same_acct_lb_acct [OF sa] init_weights_and_count_ok [OF assms(1)]
    by blast+
  have eq: "fas_init_server_tree p = fold (queue_usable fas_queue_srv) [0..<length (px_srv r)] r"
    unfolding fas_init_server_tree_def Let_def r_def root_of_if
    by (rule arg_cong [where f = "\<lambda>f. fold f _ _"]) (simp add: queue_usable_def fun_eq_iff)
  have "fas_act r = []" "fas_bck r = []" "\<forall>s \<in> set (px_srv r). lb_tree s = None"
    using init_weights_lb_tree [OF assms] by (simp_all add: r_def)
  from fas.queue_loop [OF this ac] show ?thesis
    using same_acct_lb_acct [OF _ la] same_acct_all_committed [OF _ ac] by (auto simp: fas_inv_def eq)
qed

section \<open>The lookup\<close>

definition fas_candidate :: "int \<Rightarrow> proxy \<Rightarrow> srv_ref \<Rightarrow> bool" where
  "fas_candidate now_sec p j \<longleftrightarrow> j < length (px_srv p) \<and>
     (if srv_act p \<noteq> 0 then cur_act (srv_at p j) else cur_bck (srv_at p j)) \<and>
     srv_not_full now_sec p (srv_at p j)"

lemma fas_inv_members:
  assumes "fas_inv p"
  shows "j \<in> set (eb_nodes (fas_act p)) \<longleftrightarrow> j < length (px_srv p) \<and> cur_act (srv_at p j)"
    "j \<in> set (eb_nodes (fas_bck p)) \<longleftrightarrow> j < length (px_srv p) \<and> cur_bck (srv_at p j)"
  using fas.nodes [OF assms [unfolded fas_inv_def]]
  by (auto simp: in_group_def lb_weights_def cur_act_def cur_bck_def srv_currently_usable_def split: if_splits)

lemma fas_inv_keys:
  assumes "fas_inv p" and "(k, n) \<in> set (fas_act p) \<or> (k, n) \<in> set (fas_bck p)"
  shows "puid (srv_at p n) = k"
  using assms unfolding fas_inv_def two_tree_inv_def by (auto simp: in_group_def)

lemma fas_get_next_server_spec:
  assumes inv: "fas_inv p" and grp: "srv_act p \<noteq> 0 \<or> (fbck p = None \<and> srv_bck p \<noteq> 0)"
  shows "picks_least (fas_candidate now_sec p) (\<lambda>j. puid (srv_at p j)) srvtoavoid
    (fas_get_next_server now_sec p srvtoavoid)"
proof -
  define root where "root = (if srv_act p \<noteq> 0 then fas_act p else fas_bck p)"
  have "eb_ordered root" and "\<And>k n. (k, n) \<in> set root \<Longrightarrow> puid (srv_at p n) = k"
    using fas_inv_keys [OF inv] inv [unfolded fas_inv_def two_tree_inv_def]
    by (simp_all add: root_def split: if_splits)
  from tree_scan_picks_least [OF this]
  have "picks_least (\<lambda>s. s \<in> set (eb_nodes root) \<and> srv_not_full now_sec p (srv_at p s)) (\<lambda>j. puid (srv_at p j))
      srvtoavoid (tree_scan (\<lambda>s. srv_not_full now_sec p (srv_at p s)) (\<lambda>s. Some s \<noteq> srvtoavoid) None (eb_nodes root))" .
  moreover have "(\<lambda>s. s \<in> set (eb_nodes root) \<and> srv_not_full now_sec p (srv_at p s)) = fas_candidate now_sec p"
    using fas_inv_members [OF inv] by (auto simp: root_def fas_candidate_def fun_eq_iff)
  moreover have "fas_get_next_server now_sec p srvtoavoid =
      tree_scan (\<lambda>s. srv_not_full now_sec p (srv_at p s)) (\<lambda>s. Some s \<noteq> srvtoavoid) None (eb_nodes root)"
    using grp by (auto simp: fas_get_next_server_def root_def Let_def)
  ultimately show ?thesis by simp
qed

section \<open>Properties\<close>

text \<open>(C1) First-available balancing: starting from \<^verbatim>\<open>fas_init_server_tree\<close>, after any
  sequence of status and weight changes the active and backup trees hold exactly the usable servers
  with their unique id as key, and the incrementally maintained counters, weights, first backup
  server and totals are those of the server chain.\<close>

theorem fas_reachable_ok:
  assumes "length (px_srv p) < 2 ^ 32" and "\<forall>s \<in> set (px_srv p). lb_tree s = None"
    and "run_events fas_cb es (fas_init_server_tree p) = Some q"
  shows "fas_inv q \<and> lb_acct q \<and> all_committed q"
  using fas_init_ok [OF assms(1,2)] assms(3) by (intro fas_events_invariant) auto

theorem fas_reachable_ok_witness:
  "run_events fas_cb sample_events (fas_init_server_tree sample_proxy) \<noteq> None \<and>
   (let q = the (run_events fas_cb sample_events (fas_init_server_tree sample_proxy))
    in fas_inv q \<and> lb_acct q \<and> all_committed q)"
proof -
  have "run_events fas_cb sample_events (fas_init_server_tree sample_proxy) \<noteq> None"
    by code_simp
  then show ?thesis
    using fas_reachable_ok [of sample_proxy sample_events]
    by (auto simp: sample_proxy_def sample_server_def)
qed

text \<open>(C18) Unless the first backup server alone serves (\<^verbatim>\<open>fbck\<close>, which is then returned even
  if it is full), the lookup returns a usable server of the serving group that is not full and has the smallest unique id among those other than the server to avoid; the server to avoid is returned only
  if it is the only candidate, and NULL only if there is none.\<close>

theorem fas_get_next_server_first:
  assumes "fas_inv p" and "srv_act p \<noteq> 0 \<or> (fbck p = None \<and> srv_bck p \<noteq> 0)"
  shows "picks_least (fas_candidate now_sec p) (\<lambda>j. puid (srv_at p j)) srvtoavoid
    (fas_get_next_server now_sec p srvtoavoid)"
  by (rule fas_get_next_server_spec [OF assms])

theorem fas_get_next_server_first_witness:
  "picks_least (fas_candidate 0 (fas_init_server_tree sample_proxy))
     (\<lambda>j. puid (srv_at (fas_init_server_tree sample_proxy) j)) (Some 0)
     (fas_get_next_server 0 (fas_init_server_tree sample_proxy) (Some 0)) \<and>
   fas_get_next_server 0 (fas_init_server_tree sample_proxy) (Some 0) = Some 1"
proof -
  have "srv_act (fas_init_server_tree sample_proxy) \<noteq> 0"
    "fas_get_next_server 0 (fas_init_server_tree sample_proxy) (Some 0) = Some 1" by code_simp+
  moreover have "fas_inv (fas_init_server_tree sample_proxy)"
    using fas_init_ok [of sample_proxy] by (simp add: sample_proxy_def sample_server_def)
  ultimately show ?thesis
    using fas_get_next_server_first [of "fas_init_server_tree sample_proxy" 0 "Some 0"] by blast
qed

end
