(* ===== verification/Pendconn_Run.thy ===== *)
theory Pendconn_Run
  imports Pendconn_Inv Lb_Fwlc Lb_Fas
begin

text \<open>
  The queues over time: streams, servers and the rest of the proxy call the operations of
  \<^verbatim>\<open>queue.c\<close> in any order, with the callback the balancing algorithm installs as
  \<^verbatim>\<open>server_take_conn\<close>. The queues stay consistent, and no operation faults but the callback of
  least-connection balancing on a server without a weight.
\<close>

section \<open>Callbacks\<close>

text \<open>Least-connection and first-available balancing install a callback, the others none.\<close>

definition take_conn_callbacks :: "(srv_ref \<Rightarrow> proxy \<Rightarrow> proxy c_result) option set" where
  "take_conn_callbacks = {None, Some fwlc_srv_reposition, Some (\<lambda>s p. Inr (fas_srv_reposition s p))}"

lemma cb_frame_trans: "cb_frame s p q \<Longrightarrow> cb_frame s q r \<Longrightarrow> cb_frame s p r"
  by (simp add: cb_frame_def queue_fields_same_def)

lemma cb_frame_refl [simp]: "cb_frame s p p"
  by (simp add: cb_frame_def queue_fields_same_def)

text \<open>Moving a server within its tree changes the roots and the key of the server.\<close>

lemma cb_frame_roots:
  assumes "px_srv q = px_srv p" "px_queue q = px_queue p" "totpend q = totpend p" "beconn q = beconn p" "fullconn q = fullconn p"
    "px_served q = px_served p"
  shows "cb_frame s p q"
  using assms
  by (auto simp: cb_frame_def queue_fields_same_def queue_refs_def queue_at_def srv_dynamic_maxconn_def split: option.splits)

lemma cb_frame_rekey:
  assumes "s < length (px_srv p)"
  shows "cb_frame s p (upd_srv s (\<lambda>s. s\<lparr>lb_key := k s\<rparr>) p)"
proof -
  have "srv_at (upd_srv s (\<lambda>s. s\<lparr>lb_key := k s\<rparr>) p) s = (srv_at p s)\<lparr>lb_key := k (srv_at p s)\<rparr>" using assms by simp
  moreover have "srv_dynamic_maxconn now_sec (upd_srv s h p) t = srv_dynamic_maxconn now_sec p t" for now_sec h t
    by (simp add: srv_dynamic_maxconn_def upd_srv_def)
  moreover have "srv_dynamic_maxconn now_sec p (t\<lparr>lb_key := x\<rparr>) = srv_dynamic_maxconn now_sec p t" for now_sec t x
    by (simp add: srv_dynamic_maxconn_def Let_def)
  moreover have "served (srv_at (upd_srv s (\<lambda>s. s\<lparr>lb_key := k s\<rparr>) p) j) = served (srv_at p j)"
      "cur_eweight (srv_at (upd_srv s (\<lambda>s. s\<lparr>lb_key := k s\<rparr>) p) j) = cur_eweight (srv_at p j)" for j
    using assms by (cases "j = s"; simp add: upd_srv_def)+
  ultimately show ?thesis by (simp add: cb_frame_def queue_fields_same_upd_srv) (simp add: upd_srv_def)
qed

lemma fwlc_reposition_frame:
  assumes s: "s < length (px_srv p)"
  shows "(\<exists>p'. fwlc_srv_reposition s p = Inr p' \<and> cb_frame s p p') \<or>
    fwlc_srv_reposition s p = Inl DivideByZero \<and> cur_eweight (srv_at p s) = 0"
proof -
  have ins: "cb_frame s q (fwlc_insert s q)" for q
    by (rule cb_frame_roots) (auto simp: fwlc_insert_def Let_def split: option.splits eb_root_ptr.splits)
  have deq: "cb_frame s p (fwlc_dequeue_srv s p)" by (rule cb_frame_roots) (simp_all add: fwlc_dequeue_srv_def)
  show ?thesis
    using assms cb_frame_trans [OF cb_frame_trans [OF deq cb_frame_rekey] ins] fwlc_dequeue_srv_def
    by (simp add: fwlc_srv_reposition_def Let_def)
qed

lemma fas_reposition_frame:
  assumes s: "s < length (px_srv p)"
  shows "cb_frame s p (fas_srv_reposition s p)"
proof -
  have "cb_frame s q (fas_queue_srv s q)" if "s < length (px_srv q)" for q
    unfolding fas_queue_srv_def Let_def
    by (rule cb_frame_trans [OF cb_frame_rekey [OF that, of puid] cb_frame_roots])
       (auto split: option.splits eb_root_ptr.splits)
  moreover have "cb_frame s p (fas_dequeue_srv s p)" by (rule cb_frame_roots) (simp_all add: fas_dequeue_srv_def)
  moreover have "s < length (px_srv (fas_dequeue_srv s p))" using s by (simp add: fas_dequeue_srv_def)
  ultimately show ?thesis using cb_frame_trans by (simp add: fas_srv_reposition_def)
qed

interpretation no_cb: conn_callback None
  by unfold_locales simp

interpretation fwlc_cb: conn_callback "Some fwlc_srv_reposition"
  by unfold_locales (use fwlc_reposition_frame in auto)

interpretation fas_cb: conn_callback "Some (\<lambda>s p. Inr (fas_srv_reposition s p))"
  by unfold_locales (use fas_reposition_frame in auto)

lemma take_conn_callbacks_ok: "cb \<in> take_conn_callbacks \<Longrightarrow> conn_callback cb"
  using no_cb.conn_callback_axioms fwlc_cb.conn_callback_axioms fas_cb.conn_callback_axioms
  by (auto simp: take_conn_callbacks_def)

section \<open>The operations as steps\<close>

text \<open>A step runs one operation on behalf of a stream, of a server or of the rest of the proxy, and
  yields its result. A stream is queued only while it is not; only a queued stream is dequeued. The
  rest of the program may change the streams and the proxy in anything but the queues and the
  streams' pending connections.\<close>

inductive queue_step :: "(srv_ref \<Rightarrow> proxy \<Rightarrow> proxy c_result) option \<Rightarrow> qstate \<Rightarrow> qstate c_result \<Rightarrow> bool" for cb where
  step_add: "alloc = None \<or> (\<exists>p. alloc = Some p \<and> qs_pend st p = None) \<Longrightarrow> pend_pos (qs_strm st s) = None \<Longrightarrow>
    add_queue (qs_strm st s) \<in> queue_refs (qs_px st) \<Longrightarrow> queue_step cb st (Inr (fst (pendconn_add now_ms alloc s st)))"
| step_unlink: "p = None \<or> (\<exists>p'. p = Some p' \<and> qs_pend st p' \<noteq> None) \<Longrightarrow> queue_step cb st (pendconn_cond_unlink p st)"
| step_free: "queue_step cb st (pendconn_free s st)"
| step_serve: "s < length (px_srv (qs_px st)) \<Longrightarrow> queue_step cb st (process_srv_queue cb now_ms now_sec s st)"
| step_redistribute: "s < length (px_srv (qs_px st)) \<Longrightarrow>
    queue_step cb st (c_bind (pendconn_redistribute s st) (\<lambda>(st, n). Inr st))"
| step_grab: "s < length (px_srv (qs_px st)) \<Longrightarrow>
    queue_step cb st (c_bind (pendconn_grab_from_px now_ms now_sec s st) (\<lambda>(st, n). Inr st))"
| step_dequeue: "pend_pos (qs_strm st s) \<noteq> None \<Longrightarrow> queue_step cb st (c_bind (pendconn_dequeue s st) (\<lambda>(st, r). Inr st))"
| step_proxy: "queue_fields_same (qs_px st) px \<Longrightarrow> queue_step cb st (Inr (st\<lparr>qs_px := px\<rparr>))"
| step_stream: "pend_pos (f (qs_strm st s)) = pend_pos (qs_strm st s) \<Longrightarrow> queue_step cb st (Inr (upd_strm s f st))"

text \<open>At the start the queues have been initialised and no stream is queued.\<close>

definition queue_start :: "proxy \<Rightarrow> (strm_ref \<Rightarrow> stream) \<Rightarrow> qstate" where
  "queue_start px strm =
     \<lparr>qs_px = px\<lparr>px_queue := queue_init (px_queue px), totpend := 0,
        px_srv := map (\<lambda>s. s\<lparr>srv_queue := queue_init (srv_queue s)\<rparr>) (px_srv px)\<rparr>,
      qs_strm = (\<lambda>s. (strm s)\<lparr>pend_pos := None\<rparr>), qs_pend = (\<lambda>_. None), qs_woken = []\<rparr>"

inductive queue_reachable :: "(srv_ref \<Rightarrow> proxy \<Rightarrow> proxy c_result) option \<Rightarrow> qstate \<Rightarrow> bool" for cb where
  reach_start: "queue_reachable cb (queue_start px strm)"
| reach_step: "queue_reachable cb st \<Longrightarrow> queue_step cb st (Inr st') \<Longrightarrow> queue_reachable cb st'"

lemma queue_start_ok: "queue_ok (queue_start px strm)"
proof -
  have "queue_at q (qs_px (queue_start px strm)) = queue_init (queue_at q px)" if "q \<in> queue_refs (qs_px (queue_start px strm))" for q
    using that by (auto simp: queue_start_def queue_at_def queue_refs_def split: option.splits)
  then show ?thesis
    by (simp add: queue_inv_def tree_ok_def pend_ok_def queued_def queue_init_def) (simp add: queue_start_def eb_nodes_def)
qed

text \<open>The only fault is that of a callback for a server without a weight.\<close>

definition cb_fault :: "(srv_ref \<Rightarrow> proxy \<Rightarrow> proxy c_result) option \<Rightarrow> qstate \<Rightarrow> qstate c_result \<Rightarrow> bool" where
  "cb_fault cb st r \<longleftrightarrow> r = Inl DivideByZero \<and>
     (\<exists>now_ms now_sec s. r = process_srv_queue cb now_ms now_sec s st \<and> \<not> cb_safe cb (srv_at (qs_px st) s))"

lemma queue_step_ok:
  assumes cb: "conn_callback cb" and inv: "queue_ok st" and step: "queue_step cb st r"
  shows "(\<exists>st'. r = Inr st' \<and> queue_ok st') \<or> cb_fault cb st r"
  using step
proof (cases rule: queue_step.cases)
  case (step_add alloc s now_ms)
  show ?thesis
  proof (cases alloc)
    case None
    then show ?thesis using step_add(1) inv by (simp add: pendconn_add_def)
  next
    case (Some p)
    then show ?thesis using step_add pendconn_add_inv [OF inv] by auto
  qed
next
  case (step_unlink p)
  then show ?thesis using pendconn_unlink_inv [OF inv] inv by (fastforce simp: pendconn_cond_unlink_def)
next
  case (step_serve s now_ms now_sec)
  then show ?thesis using conn_callback.process_srv_queue_outcome [OF cb inv, of s now_ms now_sec] unfolding cb_fault_def by metis
next
  case (step_redistribute s)
  then show ?thesis using pendconn_redistribute_inv [OF inv] by fastforce
next
  case (step_grab s now_ms now_sec)
  then show ?thesis using pendconn_grab_from_px_inv [OF inv, of now_ms now_sec s] by auto
next
  case (step_dequeue s)
  then show ?thesis using pendconn_dequeue_inv [OF inv] by fastforce
next
  case (step_stream f s)
  have "queue_obs st (upd_strm s f st)" using step_stream(2) by (simp add: queue_obs_def)
  from queue_obs_inv [OF this inv] show ?thesis using step_stream(1) by simp
qed (use inv pendconn_free_inv queue_fields_same_inv(1) in blast)+

lemma queue_reachable_inv: "queue_reachable cb st \<Longrightarrow> conn_callback cb \<Longrightarrow> queue_ok st"
proof (induction rule: queue_reachable.induct)
  case (reach_step st st')
  from queue_step_ok [OF reach_step.prems reach_step.IH [OF reach_step.prems] reach_step.hyps(2)] show ?case by (simp add: cb_fault_def)
qed (rule queue_start_ok)

text \<open>A stream assigned to the second server waits in its queue.\<close>

definition sample_stream :: stream where
  "sample_stream = \<lparr>strm_flags = SF_ASSIGNED, strm_target = Some 1, srv_conn = None, pend_pos = None,
     priority_class = 0, priority_offset = 0, srv_queue_pos = 0, prx_queue_pos = 0\<rparr>"

definition sample_waiting :: qstate where
  "sample_waiting = fst (pendconn_add 5 (Some 7) 3 (queue_start sample_proxy (\<lambda>_. sample_stream)))"

lemma sample_waiting_reachable: "queue_reachable cb sample_waiting"
proof -
  have "queue_step cb (queue_start sample_proxy (\<lambda>_. sample_stream)) (Inr sample_waiting)"
    unfolding sample_waiting_def
    by (rule step_add) (simp_all add: queue_start_def add_queue_def sample_stream_def sample_proxy_def queue_refs_def)
  then show ?thesis by (rule reach_step [OF reach_start])
qed

lemma sample_waiting_server:
  "1 < length (px_srv (qs_px sample_waiting))" "cur_eweight (srv_at (qs_px sample_waiting) 1) \<noteq> 0"
  by code_simp+

lemma sample_waiting_small: "queues_small sample_waiting"
proof -
  have "list_all (\<lambda>q. length (q_tree q sample_waiting) < 2) (None # map Some [0..<length (px_srv (qs_px sample_waiting))])"
    by code_simp
  then have "\<forall>q \<in> queue_refs (qs_px sample_waiting). length (q_tree q sample_waiting) < 2"
    by (simp add: queue_refs_def list_all_iff atLeast0LessThan)
  then show ?thesis unfolding queues_small_def by fastforce
qed

text \<open>(C5) Whatever the order in which streams, servers and the rest of the program use the queues,
  after every operation that returns the queues are consistent: each is in key order and holds allocated
  pending connections that point back to it and to a stream waiting on them, its length counts them, and
  \<^verbatim>\<open>totpend\<close> is the sum over all queues. Every operation returns but for one case: under
  least-connection balancing, \<^verbatim>\<open>process_srv_queue\<close> for a server of weight 0 may divide by zero
  in \<^verbatim>\<open>fwlc_srv_reposition\<close>. With the callback of first-available balancing, or with none as the other
  algorithms have, no operation faults or aborts.\<close>

theorem queue_reachable_ok:
  assumes "cb \<in> take_conn_callbacks" and "queue_reachable cb st"
  shows "queue_ok st \<and>
    (\<forall>r. queue_step cb st r \<longrightarrow>
      (\<exists>st'. r = Inr st' \<and> queue_ok st') \<or>
      r = Inl DivideByZero \<and> cb = Some fwlc_srv_reposition \<and>
      (\<exists>now_ms now_sec s. r = process_srv_queue cb now_ms now_sec s st \<and> cur_eweight (srv_at (qs_px st) s) = 0))"
proof -
  note cb = take_conn_callbacks_ok [OF assms(1)]
  have inv: "queue_ok st" by (rule queue_reachable_inv [OF assms(2) cb])
  have "cb = Some fwlc_srv_reposition \<and> cur_eweight sv = 0" if "\<not> cb_safe cb sv" for sv
    using that assms(1) by (auto simp: take_conn_callbacks_def) (simp add: cb_safe_def)
  then show ?thesis using inv queue_step_ok [OF cb inv] unfolding cb_fault_def by blast
qed

text \<open>The stream waits for a server that is then given weight 0.\<close>

definition sample_drained :: qstate where
  "sample_drained = sample_waiting\<lparr>qs_px := upd_srv 1 (\<lambda>s. s\<lparr>cur_eweight := 0\<rparr>) (qs_px sample_waiting)\<rparr>"

lemma sample_drained_reachable: "queue_reachable cb sample_drained"
proof -
  have "queue_step cb sample_waiting (Inr sample_drained)"
    unfolding sample_drained_def by (rule step_proxy, rule queue_fields_same_upd_srv) simp
  then show ?thesis by (rule reach_step [OF sample_waiting_reachable])
qed

theorem queue_reachable_ok_witness:
  "queue_ok sample_waiting \<and>
   (\<exists>st'. process_srv_queue (Some fwlc_srv_reposition) 5 0 1 sample_waiting = Inr st' \<and> queue_ok st') \<and>
   queue_ok sample_drained \<and> process_srv_queue (Some fwlc_srv_reposition) 5 0 1 sample_drained = Inl DivideByZero"
proof -
  have s: "1 < length (px_srv (qs_px sample_waiting))" by (rule sample_waiting_server)
  have "queue_step (Some fwlc_srv_reposition) sample_waiting (process_srv_queue (Some fwlc_srv_reposition) 5 0 1 sample_waiting)"
    by (rule step_serve [OF s])
  moreover have "case process_srv_queue (Some fwlc_srv_reposition) 5 0 1 sample_waiting of Inl e \<Rightarrow> False | Inr _ \<Rightarrow> True"
    "case process_srv_queue (Some fwlc_srv_reposition) 5 0 1 sample_drained of Inl e \<Rightarrow> e = DivideByZero | Inr _ \<Rightarrow> False"
    by code_simp+
  ultimately show ?thesis
    using queue_reachable_ok [OF _ sample_waiting_reachable, of "Some fwlc_srv_reposition"]
      queue_reachable_ok [OF _ sample_drained_reachable, of "Some fwlc_srv_reposition"]
    by (auto simp: take_conn_callbacks_def split: sum.splits)
qed

end
