(* ===== verification/Pendconn_Order.thy ===== *)
theory Pendconn_Order
  imports Pendconn_Run
begin

text \<open>
  The order in which pending connections are served: by priority class, and within a class by the
  time of their key on a clock of 20 bits that wraps around half its range away from now.
\<close>

section \<open>Urgency of a key\<close>

definition key_class :: "u32 \<Rightarrow> nat" where
  "key_class k = unat k div 2 ^ 20"

definition key_age :: "u32 \<Rightarrow> u32 \<Rightarrow> nat" where
  "key_age now_ms k = (unat k mod 2 ^ 20 + 2 ^ 20 - unat (NOW_OFFSET_BOUNDARY now_ms)) mod 2 ^ 20"

definition at_least_as_urgent :: "u32 \<Rightarrow> u32 \<Rightarrow> u32 \<Rightarrow> bool" where
  "at_least_as_urgent now_ms k k' \<longleftrightarrow>
     key_class k < key_class k' \<or> key_class k = key_class k' \<and> key_age now_ms k \<le> key_age now_ms k'"

lemma offset_mask: "(0xfffff :: u32) = mask 20" "(0xfff00000 :: u32) = NOT (mask 20)"
  by (simp_all add: mask_eq_exp_minus_1)

lemma unat_and_offset: "unat (k AND 0xfffff :: u32) = unat k mod 2 ^ 20"
  unfolding offset_mask take_bit_eq_mask [symmetric] unsigned_take_bit_eq by (rule take_bit_eq_mod)

lemma and_not_and: "(k AND NOT m) AND (l AND m) = (0 :: 'a :: len word)"
  by (rule bit_eqI) (auto simp: bit_simps)

lemma or_eq_add: "x AND y = 0 \<Longrightarrow> x OR y = x + y" for x y :: "'a :: len word"
  using word_plus_and_or [of x y] by simp

lemma unat_and_class: "unat (k AND 0xfff00000 :: u32) = unat k div 2 ^ 20 * 2 ^ 20"
proof -
  have "(k AND NOT (mask 20)) + (k AND mask 20) = ((k AND NOT (mask 20)) AND (k AND mask 20)) + ((k AND NOT (mask 20)) OR (k AND mask 20))"
    by (rule word_plus_and_or [symmetric])
  also have "(k AND NOT (mask 20)) OR (k AND mask 20) = k" by (rule bit_eqI) (auto simp: bit_simps)
  finally have "k AND NOT (mask 20) = k - (k AND mask 20)" by (simp add: and_not_and algebra_simps)
  moreover have "k AND mask 20 \<le> k" by (rule word_and_le2)
  moreover have "unat (k AND mask 20) = unat k mod 2 ^ 20" using unat_and_offset [of k] unfolding offset_mask .
  ultimately show ?thesis unfolding offset_mask by (simp only: unat_sub minus_mod_eq_div_mult)
qed

lemma unat_boundary: "unat (NOW_OFFSET_BOUNDARY now_ms) < 2 ^ 20"
  unfolding NOW_OFFSET_BOUNDARY_def unat_and_offset by simp

lemma unat_key_class: "unat (KEY_CLASS k) = key_class k * 2 ^ 20"
  by (simp add: KEY_CLASS_def unat_and_class key_class_def)

lemma unat_key_offset: "unat (KEY_OFFSET k) = unat k mod 2 ^ 20"
  unfolding KEY_OFFSET_def by (rule unat_and_offset)

lemma key_class_less: "KEY_CLASS k < KEY_CLASS k' \<longleftrightarrow> key_class k < key_class k'" "KEY_CLASS k = KEY_CLASS k' \<longleftrightarrow> key_class k = key_class k'"
  by (simp_all add: word_less_nat_alt word_unat_eq_iff unat_key_class)

lemma unat_class_boundary:
  "unat (KEY_CLASS_OFFSET_BOUNDARY now_ms k) = key_class k * 2 ^ 20 + unat (NOW_OFFSET_BOUNDARY now_ms)"
proof -
  have "KEY_CLASS k AND NOW_OFFSET_BOUNDARY now_ms = 0"
    unfolding KEY_CLASS_def NOW_OFFSET_BOUNDARY_def offset_mask by (rule and_not_and)
  then have "KEY_CLASS k OR NOW_OFFSET_BOUNDARY now_ms = KEY_CLASS k + NOW_OFFSET_BOUNDARY now_ms"
    by (rule or_eq_add)
  moreover have "unat (KEY_CLASS k) + unat (NOW_OFFSET_BOUNDARY now_ms) < 2 ^ 32"
  proof -
    have "key_class k < 2 ^ 12" unfolding key_class_def using unsigned_less [of k] by (simp add: div_less_iff_less_mult)
    then have "key_class k * 2 ^ 20 \<le> (2 ^ 12 - 1) * 2 ^ 20" by simp
    then show ?thesis using unat_boundary [of now_ms] unfolding unat_key_class by simp
  qed
  ultimately show ?thesis by (simp add: KEY_CLASS_OFFSET_BOUNDARY_def unat_word_ariths unat_key_class)
qed

section \<open>The most urgent key of a tree\<close>

lemma key_age_eq:
  "key_age now_ms k = (if unat (NOW_OFFSET_BOUNDARY now_ms) \<le> unat k mod 2 ^ 20 then unat k mod 2 ^ 20 - unat (NOW_OFFSET_BOUNDARY now_ms)
     else unat k mod 2 ^ 20 + 2 ^ 20 - unat (NOW_OFFSET_BOUNDARY now_ms))"
proof -
  have le: "(x + n - b) mod n = (if b \<le> x then x - b else x + n - b)" if "x < n" "b < n" for x n b :: nat
  proof (cases "b \<le> x")
    case True
    then have "(x + n - b) mod n = ((x - b) + n) mod n" by simp
    also have "\<dots> = x - b" using that by simp
    finally show ?thesis using True by simp
  qed (use that in simp)
  show ?thesis unfolding key_age_def using unat_boundary by (intro le) simp_all
qed

lemma unat_key_split: "unat k = key_class k * 2 ^ 20 + unat k mod 2 ^ 20"
  unfolding key_class_def by simp

lemma class_offset_le:
  fixes b :: nat
  assumes "b < 2 ^ 20"
  shows "c * 2 ^ 20 + b \<le> unat k \<longleftrightarrow> c < key_class k \<or> c = key_class k \<and> b \<le> unat k mod 2 ^ 20"
proof -
  have o: "unat k mod 2 ^ 20 < 2 ^ 20" by simp
  consider "c < key_class k" | "c = key_class k" | "key_class k < c" by linarith
  then show ?thesis
  proof cases
    case 1
    then have "Suc c * 2 ^ 20 \<le> key_class k * 2 ^ 20" by (intro mult_le_mono1) simp
    then show ?thesis using 1 assms unat_key_split [of k] by simp
  next
    case 2
    then show ?thesis using unat_key_split [of k] by (metis add_le_cancel_left less_irrefl)
  next
    case 3
    then have "Suc (key_class k) * 2 ^ 20 \<le> c * 2 ^ 20" by (intro mult_le_mono1) simp
    then show ?thesis using 3 o unat_key_split [of k] by simp
  qed
qed

lemma key_le_class: "k \<le> k' \<longleftrightarrow> key_class k < key_class k' \<or> key_class k = key_class k' \<and> unat k mod 2 ^ 20 \<le> unat k' mod 2 ^ 20"
  unfolding word_le_nat_alt using class_offset_le [of "unat k mod 2 ^ 20" "key_class k" k'] unat_key_split [of k] by simp

lemma boundary_le_key:
  "KEY_CLASS_OFFSET_BOUNDARY now_ms k \<le> k' \<longleftrightarrow>
     key_class k < key_class k' \<or> key_class k = key_class k' \<and> unat (NOW_OFFSET_BOUNDARY now_ms) \<le> unat k' mod 2 ^ 20"
  unfolding word_le_nat_alt unat_class_boundary by (rule class_offset_le [OF unat_boundary])

lemma pendconn_first_least:
  assumes ord: "eb_ordered t" and r: "pendconn_first now_ms t = Some e" and e': "e' \<in> set t"
  shows "at_least_as_urgent now_ms (fst e) (fst e')"
proof -
  obtain f where f: "eb32_first t = Some f" using r by (auto simp: pendconn_first_def split: option.splits)
  have min: "fst f \<le> fst x" if "x \<in> set t" for x using eb32_first_min(2) [OF ord] f that by (cases f) auto
  let ?x = "KEY_CLASS_OFFSET_BOUNDARY now_ms (fst f)"
  let ?b = "unat (NOW_OFFSET_BOUNDARY now_ms)"
  show ?thesis
  proof (cases "\<exists>g. eb32_lookup_ge ?x t = Some g \<and> key_class (fst g) = key_class (fst f)")
    case True
    then obtain g where g: "eb32_lookup_ge ?x t = Some g" "key_class (fst g) = key_class (fst f)" by blast
    then have e: "e = g" using r f by (simp add: pendconn_first_def Let_def key_class_less)
    have least: "fst g \<le> fst x" if "x \<in> set t" "?x \<le> fst x" for x
      using eb32_lookup_ge_least [OF ord _ that] g(1) by (cases g) auto
    have "?x \<le> fst g" using eb32_lookup_ge_Some(2) g(1) by (cases g) auto
    then have gb: "?b \<le> unat (fst g) mod 2 ^ 20" using g(2) by (simp add: boundary_le_key)
    show ?thesis
    proof (cases "key_class (fst e') = key_class (fst f) \<and> ?b \<le> unat (fst e') mod 2 ^ 20")
      case True
      then have "fst g \<le> fst e'" by (intro least [OF e']) (simp add: boundary_le_key)
      then show ?thesis using True gb g(2) by (auto simp: e at_least_as_urgent_def key_le_class key_age_eq)
    next
      case False
      then show ?thesis using min [OF e'] gb g(2) unat_boundary [of now_ms]
        by (auto simp: e at_least_as_urgent_def key_le_class key_age_eq)
    qed
  next
    case False
    then have e: "e = f" using r f by (auto simp: pendconn_first_def Let_def key_class_less split: option.splits if_splits)
    have nb: "\<not> ?b \<le> unat (fst x) mod 2 ^ 20" if x: "x \<in> set t" "key_class (fst x) = key_class (fst f)" for x
    proof
      assume b: "?b \<le> unat (fst x) mod 2 ^ 20"
      then have ge: "?x \<le> fst x" using x(2) by (simp add: boundary_le_key)
      then have "eb32_lookup_ge ?x t \<noteq> None" using x(1) unfolding eb32_lookup_ge_def find_None_iff by blast
      then obtain g where g: "eb32_lookup_ge ?x t = Some g" by blast
      have "fst g \<le> fst x" using eb32_lookup_ge_least [OF ord _ x(1) ge] g by (cases g) auto
      moreover have "?x \<le> fst g" using eb32_lookup_ge_Some(2) g by (cases g) auto
      ultimately have "key_class (fst g) = key_class (fst f)"
        using x(2) key_le_class [of "fst g" "fst x"] boundary_le_key [of now_ms "fst f" "fst g"] by auto
      with False g show False by blast
    qed
    show ?thesis using min [OF e'] nb [OF eb32_first_in [OF f]] nb [OF e']
      by (auto simp: e at_least_as_urgent_def key_le_class key_age_eq)
  qed
qed

lemma use_srv_first_iff: "use_srv_first now_ms pk ppk \<longleftrightarrow> at_least_as_urgent now_ms pk ppk"
proof -
  let ?w = "\<lambda>k. if KEY_OFFSET k < NOW_OFFSET_BOUNDARY now_ms then KEY_OFFSET k + 0x100000 else KEY_OFFSET k"
  have w: "unat (?w k) = key_age now_ms k + unat (NOW_OFFSET_BOUNDARY now_ms)" for k
  proof -
    have "unat k mod 2 ^ 20 < 2 ^ 20" by simp
    then have "unat (KEY_OFFSET k + 0x100000) = unat (KEY_OFFSET k) + 2 ^ 20"
      unfolding unat_key_offset [symmetric] by (subst unat_add_lem [THEN iffD1]) simp_all
    then show ?thesis using unat_boundary [of now_ms] by (simp add: word_less_nat_alt unat_key_offset key_age_eq)
  qed
  have "?w pk \<le> ?w ppk \<longleftrightarrow> key_age now_ms pk \<le> key_age now_ms ppk" unfolding word_le_nat_alt w by simp
  then show ?thesis
    unfolding use_srv_first_def Let_def at_least_as_urgent_def key_class_less by auto
qed

lemma at_least_as_urgent_trans:
  "at_least_as_urgent now_ms j k \<Longrightarrow> at_least_as_urgent now_ms k l \<Longrightarrow> at_least_as_urgent now_ms j l"
  by (auto simp: at_least_as_urgent_def)

lemma at_least_as_urgent_total: "at_least_as_urgent now_ms j k \<or> at_least_as_urgent now_ms k j"
  by (auto simp: at_least_as_urgent_def)

section \<open>The pending connection served next\<close>

lemma queue_nonempty:
  assumes "queue_ok st" and "queues_small st" and "q \<in> queue_refs (qs_px st)"
  shows "q_length (queue_at q (qs_px st)) \<noteq> 0 \<longleftrightarrow> q_tree q st \<noteq> []"
proof -
  have "q_length (queue_at q (qs_px st)) = of_nat (length (q_tree q st))" "length (q_tree q st) < 2 ^ 32"
    using assms by (simp_all add: queue_inv_def queues_small_def)
  then show ?thesis using of_nat_eq_0_iff_32 by force
qed

lemma pendconn_first_Nil: "pendconn_first now_ms t = None \<longleftrightarrow> t = []"
  by (cases t) (auto simp: pendconn_first_def eb32_first_def Let_def split: option.splits if_splits)

lemma pendconn_first_ex:
  assumes "e' \<in> set t"
  obtains e where "pendconn_first now_ms t = Some e"
  using assms pendconn_first_Nil [of now_ms t] by (cases "pendconn_first now_ms t") auto

lemma process_next_cases:
  assumes inv: "queue_ok st" and small: "queues_small st" and s: "s < length (px_srv (qs_px st))"
  shows "pendconn_process_next_strm now_ms s px_ok st =
    (case (pendconn_first now_ms (q_tree (Some s) st), if px_ok then pendconn_first now_ms (q_tree None st) else None) of
       (None, None) \<Rightarrow> Inr (st, False) | (Some p, None) \<Rightarrow> use_p p s st | (None, Some pp) \<Rightarrow> use_pp pp s st
     | (Some p, Some pp) \<Rightarrow> if at_least_as_urgent now_ms (fst p) (fst pp) then use_p p s st else use_pp pp s st)"
proof -
  have e: "q_length (queue_at q (qs_px st)) = 0 \<Longrightarrow> pendconn_first now_ms (q_tree q st) = None" if "q = Some s \<or> q = None" for q
    using queue_nonempty [OF inv small, of q] pendconn_first_Nil [of now_ms "[]"] that s by (auto simp: queue_refs_def)
  have "(if q_length (srv_queue (srv_at (qs_px st) s)) \<noteq> 0 then pendconn_first now_ms (q_head (srv_queue (srv_at (qs_px st) s))) else None) =
      pendconn_first now_ms (q_tree (Some s) st)"
    "(if px_ok \<and> q_length (px_queue (qs_px st)) \<noteq> 0 then pendconn_first now_ms (q_head (px_queue (qs_px st))) else None) =
      (if px_ok then pendconn_first now_ms (q_tree None st) else None)"
    using e [of "Some s"] e [of None] by (auto simp: queue_at_def)
  then show ?thesis unfolding pendconn_process_next_strm_def Let_def use_srv_first_iff by (simp only:)
qed

lemma process_next_pick:
  assumes inv: "queue_ok st" and small: "queues_small st" and s: "s < length (px_srv (qs_px st))"
  obtains (none) "pendconn_process_next_strm now_ms s px_ok st = Inr (st, False)" "q_tree (Some s) st = []" "px_ok \<longrightarrow> q_tree None st = []"
  | (srv) e where "pendconn_process_next_strm now_ms s px_ok st = use_p e s st" "pendconn_first now_ms (q_tree (Some s) st) = Some e"
      "\<And>e'. px_ok \<Longrightarrow> pendconn_first now_ms (q_tree None st) = Some e' \<Longrightarrow> at_least_as_urgent now_ms (fst e) (fst e')"
  | (prx) e where "pendconn_process_next_strm now_ms s px_ok st = use_pp e s st" "px_ok" "pendconn_first now_ms (q_tree None st) = Some e"
      "\<And>e'. pendconn_first now_ms (q_tree (Some s) st) = Some e' \<Longrightarrow> at_least_as_urgent now_ms (fst e) (fst e')"
proof -
  let ?p = "pendconn_first now_ms (q_tree (Some s) st)"
  let ?pp = "if px_ok then pendconn_first now_ms (q_tree None st) else None"
  note eq = process_next_cases [OF inv small s, of now_ms px_ok]
  show ?thesis
  proof (cases ?p)
    case p: None
    show ?thesis
    proof (cases ?pp)
      case None
      then have "pendconn_process_next_strm now_ms s px_ok st = Inr (st, False)" using eq p by simp
      moreover have "q_tree (Some s) st = []" "px_ok \<longrightarrow> q_tree None st = []"
        using None p pendconn_first_Nil [of now_ms] by (simp_all split: if_splits)
      ultimately show ?thesis by (rule none)
    next
      case (Some e)
      then show ?thesis using prx [of e] eq p by (simp split: if_splits)
    qed
  next
    case p: (Some e)
    show ?thesis
    proof (cases ?pp)
      case None
      then show ?thesis using srv [of e] eq p by (simp split: if_splits)
    next
      case pp: (Some e')
      then have px: "px_ok" "pendconn_first now_ms (q_tree None st) = Some e'" by (simp_all split: if_splits)
      show ?thesis
      proof (cases "at_least_as_urgent now_ms (fst e) (fst e')")
        case True
        then show ?thesis using srv [of e] eq p px by simp
      next
        case False
        then have "at_least_as_urgent now_ms (fst e') (fst e)" using at_least_as_urgent_total by blast
        with False show ?thesis using prx [of e'] eq p px by simp
      qed
    qed
  qed
qed

text \<open>The earliest of one queue precedes all of another whose earliest it precedes.\<close>

lemma first_precedes:
  assumes "eb_ordered t" and "\<And>f. pendconn_first now_ms t = Some f \<Longrightarrow> at_least_as_urgent now_ms k (fst f)" and "e' \<in> set t"
  shows "at_least_as_urgent now_ms k (fst e')"
proof -
  obtain f where f: "pendconn_first now_ms t = Some f" using assms(3) by (rule pendconn_first_ex)
  from at_least_as_urgent_trans [OF assms(2) [OF f] pendconn_first_least [OF assms(1) f assms(3)]] show ?thesis .
qed

text \<open>(C24) \<^verbatim>\<open>pendconn_process_next_strm\<close> takes the most urgent pending connection there is: over
  the server's queue and, if it may be used, the proxy's, it has the least priority class and within
  the class the earliest date, the 20-bit clock wrapping around half its range away from now. It is
  removed from its queue and its stream is woken with the server assigned. Nothing is taken only if
  the queues are empty.\<close>

theorem process_next_most_urgent:
  assumes inv: "queue_ok st" and small: "queues_small st" and s: "s < length (px_srv (qs_px st))"
  shows "\<exists>st' ok. pendconn_process_next_strm now_ms s px_ok st = Inr (st', ok) \<and>
    (if ok then \<exists>q e pc. (q = Some s \<or> px_ok \<and> q = None) \<and> e \<in> set (q_tree q st) \<and>
        (\<forall>e' \<in> set (q_tree (Some s) st) \<union> (if px_ok then set (q_tree None st) else {}). at_least_as_urgent now_ms (fst e) (fst e')) \<and>
        taken q (snd e) s st pc st'
     else st' = st \<and> q_tree (Some s) st = [] \<and> (px_ok \<longrightarrow> q_tree None st = []))"
proof -
  have ord: "eb_ordered (q_tree (Some s) st)" "eb_ordered (q_tree None st)"
    using inv s by (simp_all add: queue_inv_def tree_ok_def queue_refs_def)
  let ?all = "set (q_tree (Some s) st) \<union> (if px_ok then set (q_tree None st) else {})"
  from inv small s show ?thesis
  proof (cases rule: process_next_pick [where now_ms = now_ms and px_ok = px_ok])
    case none
    then show ?thesis by (intro exI [of _ st] exI [of _ False]) simp
  next
    case (srv e)
    have "\<forall>e' \<in> ?all. at_least_as_urgent now_ms (fst e) (fst e')"
      using pendconn_first_least [OF ord(1) srv(2)] first_precedes [OF ord(2) srv(3)] by (simp split: if_splits) blast
    then show ?thesis unfolding srv(1)
      using use_p_inv [OF inv s first_in_nodes [OF srv(2)]] use_p_effect [OF inv s first_in_nodes [OF srv(2)]]
        pendconn_first_in [OF srv(2)] by (metis (no_types, lifting))
  next
    case (prx e)
    have "\<forall>e' \<in> ?all. at_least_as_urgent now_ms (fst e) (fst e')"
      using pendconn_first_least [OF ord(2) prx(3)] first_precedes [OF ord(1) prx(4)] by (simp split: if_splits) blast
    then show ?thesis unfolding prx(1)
      using use_pp_inv [OF inv first_in_nodes [OF prx(3)]] use_pp_effect [OF inv first_in_nodes [OF prx(3)]]
        pendconn_first_in [OF prx(3)] prx(2) by (metis (no_types, lifting))
  qed
qed

theorem process_next_most_urgent_witness:
  "\<exists>st' pc. pendconn_process_next_strm 5 1 True sample_waiting = Inr (st', True) \<and> taken (Some 1) 7 1 sample_waiting pc st'"
proof -
  have ok: "case pendconn_process_next_strm 5 1 True sample_waiting of Inl e \<Rightarrow> False | Inr (st', ok) \<Rightarrow> ok" by code_simp
  have trees: "map snd (q_tree (Some 1) sample_waiting) = [7]" "q_tree None sample_waiting = []" by code_simp+
  have snd7: "e \<in> set (q_tree (Some 1) sample_waiting) \<Longrightarrow> snd e = 7" for e using arg_cong [OF trees(1), of set] by auto
  have "queue_ok sample_waiting" using queue_reachable_inv [OF sample_waiting_reachable no_cb.conn_callback_axioms] .
  from process_next_most_urgent [OF this sample_waiting_small sample_waiting_server(1), of 5 True]
  obtain st' ok' where r: "pendconn_process_next_strm 5 1 True sample_waiting = Inr (st', ok')" and
    e: "if ok' then \<exists>q e pc. (q = Some 1 \<or> True \<and> q = None) \<and> e \<in> set (q_tree q sample_waiting) \<and>
        (\<forall>e' \<in> set (q_tree (Some 1) sample_waiting) \<union> (if True then set (q_tree None sample_waiting) else {}).
          at_least_as_urgent 5 (fst e) (fst e')) \<and> taken q (snd e) 1 sample_waiting pc st'
      else st' = sample_waiting \<and> q_tree (Some 1) sample_waiting = [] \<and> (True \<longrightarrow> q_tree None sample_waiting = [])" by blast
  have "ok'" using ok r by simp
  with e obtain q e pc where q: "q = Some 1 \<or> q = None" "e \<in> set (q_tree q sample_waiting)" "taken q (snd e) 1 sample_waiting pc st'"
    by (simp only: if_True simp_thms) blast
  then have s: "q = Some 1" using trees(2) by auto
  then have "snd e = 7" using snd7 [of e] q(2) by (simp only:)
  with q s r \<open>ok'\<close> show ?thesis by (intro exI [of _ st'] exI [of _ pc]) simp
qed

section \<open>Keys of streams\<close>

lemma push_bit_and_mask: "push_bit n w AND (x AND mask n) = (0 :: 'a :: len word)"
  by (rule bit_eqI) (auto simp: bit_simps)

lemma mod_add_diff: "(a mod m + c - b mod m) mod m = (a + c - b) mod m" for a b c m :: int
  by (metis mod_add_left_eq mod_diff_left_eq mod_diff_right_eq)

lemma make_key_parts:
  assumes "- 0x7ff \<le> cls" and "cls \<le> 0x7ff"
  shows "int (key_class (MAKE_KEY t cls offs)) = cls + 0x7ff"
    and "unat (MAKE_KEY t cls offs) mod 2 ^ 20 = unat (t + word_of_int offs) mod 2 ^ 20"
proof -
  let ?hi = "push_bit 20 (word_of_int (cls + 0x7ff)) :: u32"
  let ?lo = "(t + word_of_int offs) AND 0xfffff"
  define n where "n = nat (cls + 0x7ff)"
  have n: "n \<le> 0xffe" "int n = cls + 0x7ff" using assms by (simp_all add: n_def)
  have "?hi = of_nat (n * 2 ^ 20)" unfolding n(2) [symmetric] of_int_of_nat_eq by (simp add: push_bit_eq_mult)
  moreover have "unat (of_nat (n * 2 ^ 20) :: u32) = n * 2 ^ 20"
    unfolding unsigned_of_nat of_nat_id using n(1) by (intro take_bit_nat_eq_self) simp
  ultimately have hi: "unat ?hi = n * 2 ^ 20" by (simp only:)
  have "?hi AND ?lo = 0" unfolding offset_mask by (rule push_bit_and_mask)
  then have or: "?hi OR ?lo = ?hi + ?lo" by (rule or_eq_add)
  have "unat ?lo < 2 ^ 20" unfolding unat_and_offset by simp
  then have "unat ?hi + unat ?lo < 2 ^ 32" unfolding hi using n(1) by simp
  then have u: "unat (MAKE_KEY t cls offs) = n * 2 ^ 20 + unat (t + word_of_int offs) mod 2 ^ 20"
    unfolding MAKE_KEY_def or unat_word_ariths hi unat_and_offset by simp
  show "int (key_class (MAKE_KEY t cls offs)) = cls + 0x7ff" by (simp add: key_class_def u n(2))
  show "unat (MAKE_KEY t cls offs) mod 2 ^ 20 = unat (t + word_of_int offs) mod 2 ^ 20" by (simp add: u)
qed

lemma int_unat_mod:
  "int (unat (now_ms + word_of_int d :: u32) mod 2 ^ 20) = (uint now_ms + d) mod 2 ^ 20"
proof -
  have "int (unat (now_ms + word_of_int d :: u32)) = (uint now_ms + d) mod 2 ^ 32"
    by (simp add: uint_word_ariths uint_word_of_int mod_add_right_eq)
  then have "int (unat (now_ms + word_of_int d :: u32) mod 2 ^ 20) = (uint now_ms + d) mod 2 ^ 32 mod 2 ^ 20"
    by (simp add: zmod_int)
  then show ?thesis by (simp add: mod_mod_cancel)
qed

lemma key_age_of_date:
  assumes "- 0x80000 \<le> d" and "d < 0x80000" and k: "unat k mod 2 ^ 20 = unat (now_ms + word_of_int d) mod 2 ^ 20"
  shows "int (key_age now_ms k) = d + 0x80000"
proof -
  let ?b = "unat (NOW_OFFSET_BOUNDARY now_ms)"
  have "NOW_OFFSET_BOUNDARY now_ms = (now_ms + word_of_int (- 0x80000)) AND 0xfffff" by (simp add: NOW_OFFSET_BOUNDARY_def)
  then have b: "int ?b = (uint now_ms - 0x80000) mod 2 ^ 20"
    using int_unat_mod [of now_ms "- 0x80000"] by (simp add: unat_and_offset)
  have o: "int (unat k mod 2 ^ 20) = (uint now_ms + d) mod 2 ^ 20" unfolding k by (rule int_unat_mod)
  have "int (key_age now_ms k) = (int (unat k mod 2 ^ 20) + 2 ^ 20 - int ?b) mod 2 ^ 20"
    using unat_boundary [of now_ms] by (simp add: key_age_def zmod_int of_nat_diff)
  also have "\<dots> = (uint now_ms + d + 2 ^ 20 - (uint now_ms - 0x80000)) mod 2 ^ 20"
    unfolding o b by (rule mod_add_diff)
  also have "\<dots> = (d + 0x80000 + 2 ^ 20) mod 2 ^ 20" by (simp add: algebra_simps)
  also have "\<dots> = d + 0x80000" unfolding mod_add_self2 by (rule mod_pos_pos_trivial) (use assms in simp_all)
  finally show ?thesis .
qed

text \<open>(C34) The keys of waiting streams order them as intended: two streams queued at most 2^19 ms
  away from now, their priority offset included, are served by class, and within a class in the
  order of the date at which they were queued plus their offset, although only the low 20 bits of
  that date are kept and these wrap around.\<close>

theorem make_key_orders:
  assumes "- 0x7ff \<le> c1" "c1 \<le> 0x7ff" "- 0x7ff \<le> c2" "c2 \<le> 0x7ff"
    and "- 0x80000 \<le> a1 + o1" "a1 + o1 < 0x80000" "- 0x80000 \<le> a2 + o2" "a2 + o2 < 0x80000"
  shows "at_least_as_urgent now_ms (MAKE_KEY (now_ms + word_of_int a1) c1 o1) (MAKE_KEY (now_ms + word_of_int a2) c2 o2) \<longleftrightarrow>
    c1 < c2 \<or> c1 = c2 \<and> a1 + o1 \<le> a2 + o2"
proof -
  have p: "int (key_class (MAKE_KEY (now_ms + word_of_int a) c x)) = c + 0x7ff"
      "int (key_age now_ms (MAKE_KEY (now_ms + word_of_int a) c x)) = a + x + 0x80000"
    if "- 0x7ff \<le> c" "c \<le> 0x7ff" "- 0x80000 \<le> a + x" "a + x < 0x80000" for a c x
    using make_key_parts [OF that(1,2), of "now_ms + word_of_int a" x]
      key_age_of_date [OF that(3,4), of "MAKE_KEY (now_ms + word_of_int a) c x" now_ms]
    by (simp_all add: add.assoc flip: of_int_add)
  show ?thesis
    unfolding at_least_as_urgent_def using p [OF assms(1,2,5,6)] p [OF assms(3,4,7,8)] by linarith
qed

theorem make_key_orders_witness:
  "at_least_as_urgent 5 (MAKE_KEY (5 + word_of_int (- 20)) 0 0) (MAKE_KEY (5 + word_of_int (- 3)) 0 0) \<and>
   \<not> at_least_as_urgent 5 (MAKE_KEY (5 + word_of_int (- 20)) 0 100) (MAKE_KEY (5 + word_of_int (- 3)) 0 0)"
  using make_key_orders [of 0 0 "- 20" 0 "- 3" 0 5] make_key_orders [of 0 0 "- 20" 100 "- 3" 0 5] by simp

end
