(* ===== verification/Hash.thy ===== *)
theory Hash
  imports Ha_Prelude
begin

text \<open>
  The string hashes of \<^verbatim>\<open>src/haproxy/src/hash.c\<close> and the integer hash \<^verbatim>\<open>full_hash\<close> of
  \<^verbatim>\<open>include/haproxy/intops.h\<close>, on lists of bytes and 32-bit words.
\<close>

section \<open>Operations\<close>

definition byte :: "u8 \<Rightarrow> u32" where
  "byte b = ucast b"

text \<open>\<^verbatim>\<open>(x << n) | (x >> (32 - n))\<close>\<close>

definition rot :: "nat \<Rightarrow> u32 \<Rightarrow> u32" where
  "rot n x = push_bit n x OR drop_bit (32 - n) x"

definition wt6_step :: "u8 \<Rightarrow> u32 \<times> u32 \<times> nat \<times> nat \<Rightarrow> u32 \<times> u32 \<times> nat \<times> nat" where
  "wt6_step b st =
     (case st of (h0, h1, step0, step1) \<Rightarrow>
      let t = byte b;
          h0 = NOT (h0 XOR t);
          h1 = NOT (h1 + t);
          t = rot step0 h1;
          h1 = rot step1 h0;
          h0 = t;
          t = (drop_bit 16 h0 XOR h1) AND 0xffff
      in (h0, h1, unat (t AND 0x1F), unat (drop_bit 11 t)))"

definition hash_wt6 :: "u8 list \<Rightarrow> u32" where
  "hash_wt6 key =
     (case fold wt6_step key (0xa53c965a, 0x5ca6953a, 6, 18) of (h0, h1, _, _) \<Rightarrow> h0 XOR h1)"

definition djb2_step :: "u8 \<Rightarrow> u32 \<Rightarrow> u32" where
  "djb2_step b hash = (push_bit 5 hash + hash) + byte b"

text \<open>The loop unrolled eight times, then the \<^verbatim>\<open>switch\<close> that falls through.\<close>

fun djb2_loop :: "u8 list \<Rightarrow> u32 \<Rightarrow> u32" where
  "djb2_loop (a # b # c # d # e # f # g # h # key) hash =
     (let hash = djb2_step a hash; hash = djb2_step b hash; hash = djb2_step c hash; hash = djb2_step d hash;
          hash = djb2_step e hash; hash = djb2_step f hash; hash = djb2_step g hash; hash = djb2_step h hash
      in djb2_loop key hash)"
| "djb2_loop [a, b, c, d, e, f, g] hash =
     djb2_step g (djb2_step f (djb2_step e (djb2_step d (djb2_step c (djb2_step b (djb2_step a hash))))))"
| "djb2_loop [a, b, c, d, e, f] hash =
     djb2_step f (djb2_step e (djb2_step d (djb2_step c (djb2_step b (djb2_step a hash)))))"
| "djb2_loop [a, b, c, d, e] hash = djb2_step e (djb2_step d (djb2_step c (djb2_step b (djb2_step a hash))))"
| "djb2_loop [a, b, c, d] hash = djb2_step d (djb2_step c (djb2_step b (djb2_step a hash)))"
| "djb2_loop [a, b, c] hash = djb2_step c (djb2_step b (djb2_step a hash))"
| "djb2_loop [a, b] hash = djb2_step b (djb2_step a hash)"
| "djb2_loop [a] hash = djb2_step a hash"
| "djb2_loop [] hash = hash"

definition hash_djb2 :: "u8 list \<Rightarrow> u32" where
  "hash_djb2 key = djb2_loop key 5381"

definition sdbm_step :: "u8 \<Rightarrow> u32 \<Rightarrow> u32" where
  "sdbm_step c hash = byte c + push_bit 6 hash + push_bit 16 hash - hash"

definition hash_sdbm :: "u8 list \<Rightarrow> u32" where
  "hash_sdbm key = fold sdbm_step key 0"

text \<open>One bit of a reflected CRC with polynomial \<open>poly\<close>.\<close>

definition crc_bit :: "u32 \<Rightarrow> u32 \<Rightarrow> u32" where
  "crc_bit poly hash = drop_bit 1 hash XOR (if hash AND 1 \<noteq> 0 then poly else 0)"

definition crc_byte :: "u32 \<Rightarrow> u8 \<Rightarrow> u32 \<Rightarrow> u32" where
  "crc_byte poly b hash = (crc_bit poly ^^ 8) (hash XOR byte b)"

definition hash_crc32 :: "u8 list \<Rightarrow> u32" where
  "hash_crc32 key = NOT (fold (crc_byte 0xedb88320) key (NOT 0))"

definition crctable :: "u32 list" where
  "crctable = [
    0x00000000, 0xF26B8303, 0xE13B70F7, 0x1350F3F4, 0xC79A971F, 0x35F1141C, 0x26A1E7E8, 0xD4CA64EB,
    0x8AD958CF, 0x78B2DBCC, 0x6BE22838, 0x9989AB3B, 0x4D43CFD0, 0xBF284CD3, 0xAC78BF27, 0x5E133C24,
    0x105EC76F, 0xE235446C, 0xF165B798, 0x030E349B, 0xD7C45070, 0x25AFD373, 0x36FF2087, 0xC494A384,
    0x9A879FA0, 0x68EC1CA3, 0x7BBCEF57, 0x89D76C54, 0x5D1D08BF, 0xAF768BBC, 0xBC267848, 0x4E4DFB4B,
    0x20BD8EDE, 0xD2D60DDD, 0xC186FE29, 0x33ED7D2A, 0xE72719C1, 0x154C9AC2, 0x061C6936, 0xF477EA35,
    0xAA64D611, 0x580F5512, 0x4B5FA6E6, 0xB93425E5, 0x6DFE410E, 0x9F95C20D, 0x8CC531F9, 0x7EAEB2FA,
    0x30E349B1, 0xC288CAB2, 0xD1D83946, 0x23B3BA45, 0xF779DEAE, 0x05125DAD, 0x1642AE59, 0xE4292D5A,
    0xBA3A117E, 0x4851927D, 0x5B016189, 0xA96AE28A, 0x7DA08661, 0x8FCB0562, 0x9C9BF696, 0x6EF07595,
    0x417B1DBC, 0xB3109EBF, 0xA0406D4B, 0x522BEE48, 0x86E18AA3, 0x748A09A0, 0x67DAFA54, 0x95B17957,
    0xCBA24573, 0x39C9C670, 0x2A993584, 0xD8F2B687, 0x0C38D26C, 0xFE53516F, 0xED03A29B, 0x1F682198,
    0x5125DAD3, 0xA34E59D0, 0xB01EAA24, 0x42752927, 0x96BF4DCC, 0x64D4CECF, 0x77843D3B, 0x85EFBE38,
    0xDBFC821C, 0x2997011F, 0x3AC7F2EB, 0xC8AC71E8, 0x1C661503, 0xEE0D9600, 0xFD5D65F4, 0x0F36E6F7,
    0x61C69362, 0x93AD1061, 0x80FDE395, 0x72966096, 0xA65C047D, 0x5437877E, 0x4767748A, 0xB50CF789,
    0xEB1FCBAD, 0x197448AE, 0x0A24BB5A, 0xF84F3859, 0x2C855CB2, 0xDEEEDFB1, 0xCDBE2C45, 0x3FD5AF46,
    0x7198540D, 0x83F3D70E, 0x90A324FA, 0x62C8A7F9, 0xB602C312, 0x44694011, 0x5739B3E5, 0xA55230E6,
    0xFB410CC2, 0x092A8FC1, 0x1A7A7C35, 0xE811FF36, 0x3CDB9BDD, 0xCEB018DE, 0xDDE0EB2A, 0x2F8B6829,
    0x82F63B78, 0x709DB87B, 0x63CD4B8F, 0x91A6C88C, 0x456CAC67, 0xB7072F64, 0xA457DC90, 0x563C5F93,
    0x082F63B7, 0xFA44E0B4, 0xE9141340, 0x1B7F9043, 0xCFB5F4A8, 0x3DDE77AB, 0x2E8E845F, 0xDCE5075C,
    0x92A8FC17, 0x60C37F14, 0x73938CE0, 0x81F80FE3, 0x55326B08, 0xA759E80B, 0xB4091BFF, 0x466298FC,
    0x1871A4D8, 0xEA1A27DB, 0xF94AD42F, 0x0B21572C, 0xDFEB33C7, 0x2D80B0C4, 0x3ED04330, 0xCCBBC033,
    0xA24BB5A6, 0x502036A5, 0x4370C551, 0xB11B4652, 0x65D122B9, 0x97BAA1BA, 0x84EA524E, 0x7681D14D,
    0x2892ED69, 0xDAF96E6A, 0xC9A99D9E, 0x3BC21E9D, 0xEF087A76, 0x1D63F975, 0x0E330A81, 0xFC588982,
    0xB21572C9, 0x407EF1CA, 0x532E023E, 0xA145813D, 0x758FE5D6, 0x87E466D5, 0x94B49521, 0x66DF1622,
    0x38CC2A06, 0xCAA7A905, 0xD9F75AF1, 0x2B9CD9F2, 0xFF56BD19, 0x0D3D3E1A, 0x1E6DCDEE, 0xEC064EED,
    0xC38D26C4, 0x31E6A5C7, 0x22B65633, 0xD0DDD530, 0x0417B1DB, 0xF67C32D8, 0xE52CC12C, 0x1747422F,
    0x49547E0B, 0xBB3FFD08, 0xA86F0EFC, 0x5A048DFF, 0x8ECEE914, 0x7CA56A17, 0x6FF599E3, 0x9D9E1AE0,
    0xD3D3E1AB, 0x21B862A8, 0x32E8915C, 0xC083125F, 0x144976B4, 0xE622F5B7, 0xF5720643, 0x07198540,
    0x590AB964, 0xAB613A67, 0xB831C993, 0x4A5A4A90, 0x9E902E7B, 0x6CFBAD78, 0x7FAB5E8C, 0x8DC0DD8F,
    0xE330A81A, 0x115B2B19, 0x020BD8ED, 0xF0605BEE, 0x24AA3F05, 0xD6C1BC06, 0xC5914FF2, 0x37FACCF1,
    0x69E9F0D5, 0x9B8273D6, 0x88D28022, 0x7AB90321, 0xAE7367CA, 0x5C18E4C9, 0x4F48173D, 0xBD23943E,
    0xF36E6F75, 0x0105EC76, 0x12551F82, 0xE03E9C81, 0x34F4F86A, 0xC69F7B69, 0xD5CF889D, 0x27A40B9E,
    0x79B737BA, 0x8BDCB4B9, 0x988C474D, 0x6AE7C44E, 0xBE2DA0A5, 0x4C4623A6, 0x5F16D052, 0xAD7D5351
   ]"

definition crc32c_step :: "u8 \<Rightarrow> u32 \<Rightarrow> u32" where
  "crc32c_step b crc = drop_bit 8 crc XOR (crctable ! unat ((crc XOR byte b) AND 0xff))"

definition hash_crc32c :: "u8 list \<Rightarrow> u32" where
  "hash_crc32c buf = fold crc32c_step buf 0xffffffff XOR 0xffffffff"

definition full_hash :: "u32 \<Rightarrow> u32" where
  "full_hash a =
     (let a = (a + 0x7ed55d16) + push_bit 12 a;
          a = (a XOR 0xc761c23c) XOR drop_bit 19 a;
          a = (a + 0x165667b1) + push_bit 5 a;
          a = (a + 0xd3a2646c) XOR push_bit 9 a;
          a = (a + 0xfd7046c5) + push_bit 3 a;
          a = (a XOR 0xb55a4f09) XOR drop_bit 16 a
      in a * 3221225473)"

section \<open>CRC tables\<close>

lemma crc_bit_xor: "crc_bit poly (x XOR y) = crc_bit poly x XOR crc_bit poly y"
proof -
  have odd: "z AND 1 \<noteq> 0 \<longleftrightarrow> odd z" for z :: u32 by (simp add: and_one_eq odd_iff_mod_2_eq_one)
  have "odd (x XOR y) \<longleftrightarrow> odd x \<noteq> odd y" by (simp add: even_xor_iff)
  then show ?thesis
    unfolding crc_bit_def odd drop_bit_xor by (cases "odd x"; cases "odd y") (simp_all add: ac_simps)
qed

lemma crc_bits_xor: "(crc_bit poly ^^ n) (x XOR y) = (crc_bit poly ^^ n) x XOR (crc_bit poly ^^ n) y"
  by (induction n) (simp_all add: crc_bit_xor)

text \<open>A word whose low \<open>n\<close> bits are clear is only shifted.\<close>

lemma crc_bits_shift: "take_bit n x = 0 \<Longrightarrow> (crc_bit poly ^^ n) x = drop_bit n x"
proof (induction n arbitrary: x)
  case (Suc n)
  from Suc.prems have "even x" by (metis bit_0 bit_take_bit_iff even_zero zero_less_Suc bit_0_eq)
  then have "crc_bit poly x = drop_bit 1 x"
    by (simp add: crc_bit_def and_one_eq even_iff_mod_2_eq_zero)
  moreover have "take_bit n (drop_bit 1 x) = 0"
    using Suc.prems by (simp add: take_bit_drop_bit)
  ultimately show ?case
    using Suc.IH [of "drop_bit 1 x"] by (simp add: funpow_Suc_right del: funpow.simps)
qed simp

text \<open>The table of the byte values below \<open>2 ^ k\<close>. It doubles with each bit, since the bit steps
  commute with XOR; so eight of its entries determine it.\<close>

definition crc32c_bits :: "u32 \<Rightarrow> u32" where
  "crc32c_bits = crc_bit 0x82F63B78 ^^ 8"

definition crc_table :: "nat \<Rightarrow> u32 list" where
  "crc_table k = map (\<lambda>i. crc32c_bits (of_nat i)) [0..<2 ^ k]"

lemma crc_table_Suc:
  "crc_table (Suc k) = crc_table k @ map (\<lambda>x. crc32c_bits (2 ^ k) XOR x) (crc_table k)"
proof -
  have "(of_nat (2 ^ k + i) :: u32) = 2 ^ k XOR of_nat i" if "i < 2 ^ k" for i :: nat
  proof -
    have "2 ^ k + i = 2 ^ k XOR i"
    proof (rule disjunctive_add_eq_xor)
      have "i = take_bit k i" using that by (simp add: take_bit_nat_eq_self)
      then have "\<not> bit i k" by (metis bit_take_bit_iff less_irrefl)
      then show "2 ^ k AND i = 0" by (intro bit_eqI) (auto simp: bit_simps)
    qed
    then show ?thesis by (simp add: of_nat_xor_eq)
  qed
  moreover have "[0..<2 ^ Suc k] = [0..<2 ^ k] @ map (\<lambda>i. 2 ^ k + i) [0..<2 ^ k]"
    using upt_add_eq_append [of 0 "2 ^ k" "2 ^ k"] map_add_upt [of "2 ^ k" "2 ^ k"] by (simp add: mult_2 add.commute)
  ultimately show ?thesis by (simp add: crc_table_def crc32c_bits_def crc_bits_xor)
qed

lemma crc_powers:
  "crc32c_bits 1 = 0xF26B8303"
  "crc32c_bits 2 = 0xE13B70F7"
  "crc32c_bits 4 = 0xC79A971F"
  "crc32c_bits 8 = 0x8AD958CF"
  "crc32c_bits 16 = 0x105EC76F"
  "crc32c_bits 32 = 0x20BD8EDE"
  "crc32c_bits 64 = 0x417B1DBC"
  "crc32c_bits 128 = 0x82F63B78"
  by code_simp+

lemma crctable_all: "crctable = crc_table 8"
proof -
  have "crc_table 0 = [0]" by (simp add: crc_table_def) code_simp
  then show ?thesis by (simp add: eval_nat_numeral crc_table_Suc crc_powers crctable_def)
qed

lemma crctable_nth: "i < 256 \<Longrightarrow> crctable ! i = crc32c_bits (of_nat i)"
  by (simp add: crctable_all crc_table_def)

lemma and_ff: "x AND 0xff = take_bit 8 x" for x :: u32
  by (simp add: take_bit_eq_mask mask_eq_exp_minus_1)

lemma crc32c_bits_split: "crc32c_bits x = crctable ! unat (take_bit 8 x) XOR drop_bit 8 x"
proof -
  have split: "x = take_bit 8 x XOR push_bit 8 (drop_bit 8 x)"
  proof (rule bit_word_eqI)
    fix n
    show "bit x n = bit (take_bit 8 x XOR push_bit 8 (drop_bit 8 x)) n" if "n < LENGTH(32)"
      using that by (cases "n < 8") (simp_all add: bit_simps)
  qed
  have "unat (take_bit 8 x) < 256"
    using take_bit_nat_less_exp [of 8 "unat x"] by (simp add: unsigned_take_bit_eq)
  then have low: "crc32c_bits (take_bit 8 x) = crctable ! unat (take_bit 8 x)"
    by (simp add: crctable_nth)
  have "crc32c_bits (push_bit 8 (drop_bit 8 x)) = drop_bit 8 (push_bit 8 (drop_bit 8 x))"
    unfolding crc32c_bits_def by (rule crc_bits_shift) (simp add: take_bit_push_bit)
  also have "\<dots> = drop_bit 8 x"
    by (rule bit_word_eqI) (auto simp: bit_simps dest: bit_imp_le_length)
  finally show ?thesis
    using low by (subst split) (simp add: crc32c_bits_def crc_bits_xor)
qed

lemma crc32c_step_bitwise: "crc32c_step b crc = crc_byte 0x82F63B78 b crc"
proof -
  have "drop_bit 8 (crc XOR byte b) = drop_bit 8 crc"
    by (rule bit_word_eqI) (auto simp: bit_simps byte_def dest: bit_imp_le_length)
  then show ?thesis
    using crc32c_bits_split [of "crc XOR byte b"]
    by (simp add: crc32c_step_def crc_byte_def crc32c_bits_def and_ff ac_simps del: drop_bit_xor take_bit_xor)
qed

section \<open>Properties\<close>

text \<open>(C30) The table-driven CRC-32C equals the bitwise reflected CRC with polynomial
  \<open>0x82F63B78\<close> (the reflection of the RFC 4960 polynomial), for every input: all 256 entries of the
  table are right and the byte step is the eight bit steps.\<close>

theorem hash_crc32c_bitwise:
  "hash_crc32c buf = NOT (fold (crc_byte 0x82F63B78) buf (NOT 0))"
proof -
  have "crc32c_step = crc_byte 0x82F63B78" by (intro ext) (rule crc32c_step_bitwise)
  moreover have ff: "(0xffffffff :: u32) = - 1" by simp
  ultimately show ?thesis unfolding hash_crc32c_def ff by simp
qed

text \<open>The unrolled DJB2 loop with its falling-through switch is the plain byte-by-byte hash
  \<open>hash * 33 + byte\<close>.\<close>

theorem hash_djb2_fold: "hash_djb2 key = fold (\<lambda>b hash. hash * 33 + byte b) key 5381"
proof -
  have step: "djb2_step b hash = hash * 33 + byte b" for b hash
    by (simp add: djb2_step_def push_bit_eq_mult algebra_simps)
  have "djb2_loop key hash = fold (\<lambda>b hash. hash * 33 + byte b) key hash" for hash
    by (induction key hash rule: djb2_loop.induct) (simp_all add: step Let_def)
  then show ?thesis by (simp add: hash_djb2_def)
qed

text \<open>The SDBM hash is the value of the bytes as digits of a number in base 65599, modulo
  \<open>2^32\<close>.\<close>

theorem hash_sdbm_polynomial:
  "hash_sdbm key = (\<Sum>i < length key. byte (key ! i) * 65599 ^ (length key - Suc i))"
proof (induction key rule: rev_induct)
  case Nil
  then show ?case by (simp add: hash_sdbm_def)
next
  case (snoc b key)
  have step: "sdbm_step b hash = byte b + 65599 * hash" for hash
    by (simp add: sdbm_step_def push_bit_eq_mult algebra_simps)
  have "hash_sdbm (key @ [b]) = byte b + 65599 * (\<Sum>i < length key. byte (key ! i) * 65599 ^ (length key - Suc i))"
    using snoc.IH by (simp add: hash_sdbm_def step)
  also have "65599 * (\<Sum>i < length key. byte (key ! i) * 65599 ^ (length key - Suc i)) =
      (\<Sum>i < length key. byte (key ! i) * 65599 ^ (length key - i))"
    unfolding sum_distrib_left
    by (rule sum.cong) (simp_all add: Suc_diff_Suc power_Suc [symmetric] mult.left_commute del: power_Suc)
  finally show ?case by (simp add: nth_append)
qed

end
