(* ===== verification/Lb_Map.thy ===== *)
theory Lb_Map
  imports Lb_Tree
begin

text \<open>
  Map-based balancing (static round robin and map-based hashing), \<^verbatim>\<open>src/haproxy/src/lb_map.c\<close>:
  a table with one slot per unit of weight, recomputed whenever a server changes, that the lookups
  index.
\<close>

section \<open>Building the map\<close>

text \<open>The inner loop: add each eligible server's weight to its score and find the first one of
  greatest quotient. The score is unsigned, the quotient is stored in an \<^verbatim>\<open>int\<close>.\<close>

fun recalc_scan ::
    "u32 \<Rightarrow> bool \<Rightarrow> srv_ref list \<Rightarrow> proxy \<Rightarrow> c_int \<Rightarrow> srv_ref option \<Rightarrow> proxy \<times> srv_ref option" where
  "recalc_scan tot flag [] px mx best = (px, best)"
| "recalc_scan tot flag (i # is) px mx best =
     (if is_backup (srv_at px i) = flag \<and> srv_willbe_usable (srv_at px i) then
        if tot = 1 then (px, Some i)
        else
          let px = upd_srv i (\<lambda>s. s\<lparr>wscore := wscore s + next_eweight s\<rparr>) px;
              v = (wscore (srv_at px i) + tot) div tot
          in if best = None \<or> mx <s v then recalc_scan tot flag is px v (Some i)
             else recalc_scan tot flag is px mx best
      else recalc_scan tot flag is px mx best)"

definition recalc_round :: "u32 \<Rightarrow> bool \<Rightarrow> nat \<Rightarrow> proxy \<Rightarrow> proxy c_result" where
  "recalc_round tot flag k px =
     (let (px, best) = recalc_scan tot flag [0..<length (px_srv px)] px 0 None
      in if k < length (map_srv px) then
           (let px = px\<lparr>map_srv := (map_srv px)[k := best]\<rparr>
            in case best of
                 Some b \<Rightarrow> Inr (upd_srv b (\<lambda>s. s\<lparr>wscore := wscore s - tot\<rparr>) px)
               | None \<Rightarrow> Inr px)
         else Inl OutOfBounds)"

definition recalc_server_map :: "proxy \<Rightarrow> proxy c_result" where
  "recalc_server_map px =
     (if tot_used px = 0 then Inr px
      else let tot = tot_weight px;
               flag = (srv_act px = 0);
               px = px\<lparr>px_srv := map (\<lambda>s. s\<lparr>wscore := 0\<rparr>) (px_srv px)\<rparr>
           in c_fold (recalc_round tot flag) [0..<nat (sint tot)] px)"

definition map_set_server_status_down :: "srv_ref \<Rightarrow> proxy \<Rightarrow> proxy c_result" where
  "map_set_server_status_down i p =
     (let srv = srv_at p i in
      if \<not> srv_lb_status_changed srv then Inr p
      else if srv_willbe_usable srv then Inr (upd_srv i srv_lb_commit_status p)
      else c_bind (recalc_server_map (update_backend_weight (recount_servers p))) (\<lambda>p.
             Inr (upd_srv i srv_lb_commit_status p)))"

definition map_set_server_status_up :: "srv_ref \<Rightarrow> proxy \<Rightarrow> proxy c_result" where
  "map_set_server_status_up i p =
     (let srv = srv_at p i in
      if \<not> srv_lb_status_changed srv then Inr p
      else if \<not> srv_willbe_usable srv then Inr (upd_srv i srv_lb_commit_status p)
      else c_bind (recalc_server_map (update_backend_weight (recount_servers p))) (\<lambda>p.
             Inr (upd_srv i srv_lb_commit_status p)))"

text \<open>Euclid's algorithm on the \<^verbatim>\<open>int\<close>s \<^verbatim>\<open>pgcd\<close> and \<^verbatim>\<open>w\<close>.\<close>

function euclid :: "int \<Rightarrow> int \<Rightarrow> int" where
  "euclid pgcd w = (if w = 0 then pgcd else euclid w (pgcd smod w))"
  by auto
termination
proof (relation "measure (\<lambda>(_, w). nat \<bar>w\<bar>)")
  fix pgcd w :: int
  assume "w \<noteq> 0"
  then have "\<bar>pgcd smod w\<bar> < \<bar>w\<bar>"
    by (simp add: smod_int_alt_def abs_mult sgn_if)
  then show "((w, pgcd smod w), pgcd, w) \<in> measure (\<lambda>(_, w). nat \<bar>w\<bar>)" by simp
qed simp

declare euclid.simps [simp del]

fun pgcd_loop :: "int \<Rightarrow> int list \<Rightarrow> int" where
  "pgcd_loop pgcd [] = pgcd"
| "pgcd_loop pgcd (w # ws) = (if pgcd > 1 then pgcd_loop (euclid pgcd w) ws else pgcd)"

definition weights_pgcd :: "int list \<Rightarrow> int" where
  "weights_pgcd ws =
     (case dropWhile (\<lambda>w. w = 0) ws of [] \<Rightarrow> 1 | w # ws \<Rightarrow> pgcd_loop w ws)"

definition init_map_srv :: "srv_ref \<Rightarrow> proxy \<times> c_int \<times> c_int \<Rightarrow> proxy \<times> c_int \<times> c_int" where
  "init_map_srv i st =
     (case st of (p, act, bck) \<Rightarrow>
      let p = upd_srv i (\<lambda>s. s\<lparr>next_eweight := (uweight s * wdiv p + wmult p - 1) div wmult p\<rparr>) p;
          srv = srv_at p i;
          act' = (if is_backup srv then act else act + next_eweight srv);
          bck' = (if is_backup srv then bck + next_eweight srv else bck)
      in (upd_srv i srv_lb_commit_status p, act', bck'))"

definition init_server_map :: "proxy \<Rightarrow> proxy c_result" where
  "init_server_map p =
     (if px_srv p = [] then Inr p
      else let p = p\<lparr>wmult := word_of_int (weights_pgcd (map (\<lambda>s. sint (uweight s)) (px_srv p)))\<rparr>;
               (p, act, bck) = fold init_map_srv [0..<length (px_srv p)] (p, 0, 0);
               act = (if act <s bck then bck else act);
               act = (if act = 0 then 1 else act);
               p = p\<lparr>map_srv := replicate (nat (sint act)) None\<rparr>
           in recalc_server_map (update_backend_weight (recount_servers p)))"

section \<open>Lookups\<close>

definition map_slot :: "proxy \<Rightarrow> int \<Rightarrow> srv_ref c_result" where
  "map_slot px k =
     (if 0 \<le> k \<and> nat k < length (map_srv px) then
        (case map_srv px ! nat k of Some s \<Rightarrow> Inr s | None \<Rightarrow> Inl NullDeref)
      else Inl OutOfBounds)"

text \<open>The loop of \<^verbatim>\<open>map_get_server_rr\<close>. It returns the server and the new \<^verbatim>\<open>rr_idx\<close>. The
  first argument bounds the number of rounds; \<open>None\<close> means that it was not enough.\<close>

fun rr_loop ::
    "nat \<Rightarrow> int \<Rightarrow> proxy \<Rightarrow> srv_ref option \<Rightarrow> int \<Rightarrow> srv_ref option \<Rightarrow> int \<Rightarrow> (srv_ref option \<times> int) c_result option" where
  "rr_loop 0 now_sec px srvtoavoid newidx avoided avoididx = None"
| "rr_loop (Suc n) now_sec px srvtoavoid newidx avoided avoididx =
     (case map_slot px newidx of
        Inl e \<Rightarrow> Some (Inl e)
      | Inr srv \<Rightarrow>
          let newidx = newidx + 1;
              fit = srv_not_full now_sec px (srv_at px srv);
              avoided = (if fit then Some srv else avoided);
              avoididx = (if fit then newidx else avoididx)
          in if fit \<and> Some srv \<noteq> srvtoavoid then Some (Inr (Some srv, newidx))
             else let newidx = (if newidx = sint (tot_weight px) then 0 else newidx)
                  in if newidx \<noteq> sint (rr_idx px) then rr_loop n now_sec px srvtoavoid newidx avoided avoididx
                     else Some (Inr (avoided, if avoided \<noteq> None then avoididx else sint (rr_idx px))))"

definition map_get_server_rr :: "int \<Rightarrow> proxy \<Rightarrow> srv_ref option \<Rightarrow> (proxy \<times> srv_ref option) c_result option" where
  "map_get_server_rr now_sec px srvtoavoid =
     (if tot_weight px = 0 then Some (Inr (px, None))
      else let px = (if rr_idx px <s 0 \<or> tot_weight px \<le>s rr_idx px then px\<lparr>rr_idx := 0\<rparr> else px)
           in map_option (\<lambda>r. c_bind r (\<lambda>(srv, idx). Inr (px\<lparr>rr_idx := word_of_int idx\<rparr>, srv)))
                (rr_loop (nat (sint (tot_weight px))) now_sec px srvtoavoid (sint (rr_idx px)) None 0))"

definition map_get_server_hash :: "proxy \<Rightarrow> u32 \<Rightarrow> srv_ref option c_result" where
  "map_get_server_hash px hash =
     (if tot_weight px \<noteq> 0 then
        (let k = unat (hash mod tot_weight px)
         in if k < length (map_srv px) then Inr (map_srv px ! k) else Inl OutOfBounds)
      else Inr None)"

section \<open>One round of the map computation\<close>

definition map_elig :: "bool \<Rightarrow> proxy \<Rightarrow> srv_ref \<Rightarrow> bool" where
  "map_elig flag p i \<longleftrightarrow> i < length (px_srv p) \<and> is_backup (srv_at p i) = flag \<and> srv_willbe_usable (srv_at p i)"

text \<open>The first element of greatest value.\<close>

fun argmax_first :: "(nat \<Rightarrow> int) \<Rightarrow> nat list \<Rightarrow> int \<Rightarrow> nat option \<Rightarrow> nat option" where
  "argmax_first val [] mx best = best"
| "argmax_first val (i # is) mx best =
     (if best = None \<or> mx < val i then argmax_first val is (val i) (Some i) else argmax_first val is mx best)"

lemma argmax_first_some:
  assumes "mx = val b"
  shows "\<exists>b'. argmax_first val is mx (Some b) = Some b' \<and> b' \<in> insert b (set is) \<and>
    (\<forall>i \<in> insert b (set is). val i \<le> val b')"
  using assms
proof (induction "is" arbitrary: mx b)
  case (Cons i "is")
  show ?case
  proof (cases "mx < val i")
    case True
    with Cons.IH [of "val i" i] Cons.prems show ?thesis by fastforce
  next
    case False
    with Cons.IH [of mx b] Cons.prems show ?thesis by fastforce
  qed
qed simp

lemma argmax_first_spec:
  assumes "is \<noteq> []"
  obtains b where "argmax_first val is mx None = Some b" "b \<in> set is" "\<forall>i \<in> set is. val i \<le> val b"
proof -
  obtain i js where "is = i # js" using assms by (cases "is") auto
  with argmax_first_some [of "val i" val i js] that show thesis by auto
qed

lemma argmax_first_cong:
  "(\<And>i. i \<in> set is \<Longrightarrow> f i = g i) \<Longrightarrow> argmax_first f is m b = argmax_first g is m b"
  by (induction "is" arbitrary: m b) auto

definition add_score :: "bool \<Rightarrow> proxy \<Rightarrow> srv_ref list \<Rightarrow> proxy" where
  "add_score flag p is = p\<lparr>px_srv := map (\<lambda>i. if i \<in> set is \<and> map_elig flag p i
     then (srv_at p i)\<lparr>wscore := wscore (srv_at p i) + next_eweight (srv_at p i)\<rparr> else srv_at p i)
     [0..<length (px_srv p)]\<rparr>"

lemma add_score_Nil: "add_score flag p [] = p"
  by (simp add: add_score_def map_nth)

lemma add_score_length [simp]: "length (px_srv (add_score flag p is)) = length (px_srv p)"
  by (simp add: add_score_def)

lemma add_score_nth:
  "j < length (px_srv p) \<Longrightarrow> srv_at (add_score flag p is) j =
     (if j \<in> set is \<and> map_elig flag p j
      then (srv_at p j)\<lparr>wscore := wscore (srv_at p j) + next_eweight (srv_at p j)\<rparr> else srv_at p j)"
  by (simp add: add_score_def)

lemma map_elig_upd_score [simp]:
  "map_elig flag (upd_srv j (\<lambda>s. s\<lparr>wscore := g s\<rparr>) p) i = map_elig flag p i"
  by (cases "i < length (px_srv p)") (auto simp: map_elig_def)

lemma add_score_Cons:
  assumes i: "i \<notin> set is" "i < length (px_srv p)"
  shows "add_score flag p (i # is) =
    (if map_elig flag p i then add_score flag (upd_srv i (\<lambda>s. s\<lparr>wscore := wscore s + next_eweight s\<rparr>) p) is
     else add_score flag p is)"
proof -
  define q where "q = (if map_elig flag p i then upd_srv i (\<lambda>s. s\<lparr>wscore := wscore s + next_eweight s\<rparr>) p else p)"
  have q: "length (px_srv q) = length (px_srv p)" "map_elig flag q j = map_elig flag p j"
    "j < length (px_srv p) \<Longrightarrow> srv_at q j = (if map_elig flag p i \<and> i = j
       then (srv_at p j)\<lparr>wscore := wscore (srv_at p j) + next_eweight (srv_at p j)\<rparr> else srv_at p j)" for j
    by (auto simp: q_def)
  have "srv_at (add_score flag p (i # is)) j = srv_at (add_score flag q is) j" if "j < length (px_srv p)" for j
    using that i by (cases "j = i") (simp_all add: add_score_nth q)
  then have "px_srv (add_score flag p (i # is)) = px_srv (add_score flag q is)"
    by (intro nth_equalityI) (simp_all add: q(1))
  moreover have "add_score flag q is = p\<lparr>px_srv := px_srv (add_score flag q is)\<rparr>"
    "add_score flag p (i # is) = p\<lparr>px_srv := px_srv (add_score flag p (i # is))\<rparr>"
    by (simp_all add: add_score_def q_def upd_srv_def)
  ultimately have "add_score flag p (i # is) = add_score flag q is" by metis
  then show ?thesis by (simp add: q_def)
qed

definition score_val :: "u32 \<Rightarrow> proxy \<Rightarrow> srv_ref \<Rightarrow> int" where
  "score_val tot p i = sint ((wscore (srv_at p i) + next_eweight (srv_at p i) + tot) div tot)"

lemma recalc_scan_spec:
  assumes "tot \<noteq> 1" and "distinct is" and "\<forall>i \<in> set is. i < length (px_srv p)"
  shows "recalc_scan tot flag is p mx best =
    (add_score flag p is, argmax_first (score_val tot p) (filter (map_elig flag p) is) (sint mx) best)"
  using assms(2,3)
proof (induction "is" arbitrary: p mx best)
  case Nil
  then show ?case by (simp add: add_score_Nil)
next
  case (Cons i "is")
  let ?u = "upd_srv i (\<lambda>s. s\<lparr>wscore := wscore s + next_eweight s\<rparr>) p"
  have i: "i < length (px_srv p)" "i \<notin> set is" using Cons.prems by simp_all
  have "argmax_first (score_val tot ?u) (filter (map_elig flag p) is) m b =
      argmax_first (score_val tot p) (filter (map_elig flag p) is) m b" for m b
    using Cons.prems i by (intro argmax_first_cong) (auto simp: score_val_def)
  then show ?case
    using Cons.IH [of ?u] Cons.IH [of p] Cons.prems i assms(1) add_score_Cons [OF i(2,1), of flag]
    by (cases "map_elig flag p i")
       (auto simp: Let_def map_elig_def [of flag p i] score_val_def [of tot p i] word_sless_alt)
qed

section \<open>Every server gets its weight in slots\<close>

text \<open>
  After \<open>k\<close> rounds of a total weight \<open>T\<close>, a server of weight \<open>e\<close> that was picked \<open>c\<close>
  times has the score \<open>e * k - T * c\<close>. The bounds below keep all of it within an \<^verbatim>\<open>int\<close>.
\<close>

definition slots :: "proxy \<Rightarrow> nat \<Rightarrow> srv_ref \<Rightarrow> nat" where
  "slots p k i = count_list (take k (map_srv p)) (Some i)"

definition eweight_of :: "proxy \<Rightarrow> srv_ref \<Rightarrow> int" where
  "eweight_of p i = uint (next_eweight (srv_at p i))"

definition map_group :: "bool \<Rightarrow> proxy \<Rightarrow> srv_ref set" where
  "map_group flag p = {i. map_elig flag p i}"

definition map_score :: "proxy \<Rightarrow> int \<Rightarrow> nat \<Rightarrow> nat \<Rightarrow> srv_ref \<Rightarrow> int" where
  "map_score p T k c i = eweight_of p i * int k - T * int c"

definition recalc_inv :: "proxy \<Rightarrow> int \<Rightarrow> bool \<Rightarrow> nat \<Rightarrow> proxy \<Rightarrow> bool" where
  "recalc_inv p0 T flag k p \<longleftrightarrow>
     p\<lparr>px_srv := px_srv p0, map_srv := map_srv p0\<rparr> = p0 \<and>
     length (map_srv p) = length (map_srv p0) \<and>
     map (\<lambda>s. s\<lparr>wscore := 0\<rparr>) (px_srv p) = map (\<lambda>s. s\<lparr>wscore := 0\<rparr>) (px_srv p0) \<and>
     (\<forall>i \<in> map_group flag p0.
        wscore (srv_at p i) = word_of_int (map_score p0 T k (slots p k i) i) \<and>
        int (slots p k i) \<le> eweight_of p0 i \<and> - T \<le> map_score p0 T k (slots p k i) i) \<and>
     (\<Sum>i \<in> map_group flag p0. int (slots p k i)) = int k \<and>
     (\<forall>j < k. \<exists>i \<in> map_group flag p0. map_srv p ! j = Some i)"

lemma map_group_code [code]: "map_group flag p = set (filter (map_elig flag p) [0..<length (px_srv p)])"
  by (auto simp: map_group_def map_elig_def)

lemma finite_map_group [simp]: "finite (map_group flag p)"
  by (simp add: map_group_def map_elig_def)

lemma word_div_of_int:
  assumes "0 \<le> a" "a < 2 ^ 31" "0 < b" "b < 2 ^ 31"
  shows "sint ((word_of_int a :: u32) div word_of_int b) = a div b"
proof -
  have "uint (word_of_int a :: u32) = a" "uint (word_of_int b :: u32) = b"
    using assms by (simp_all add: unsigned_of_int take_bit_int_eq_self)
  then have u: "uint ((word_of_int a :: u32) div word_of_int b) = a div b"
    by (simp add: uint_div)
  have "a div b \<le> a div 1" using assms by (intro zdiv_mono2) simp_all
  then have "a div b < 2 ^ 31" using assms by simp
  moreover have "0 \<le> a div b" using assms by (simp add: pos_imp_zdiv_nonneg_iff)
  ultimately show ?thesis
    using u by (simp add: sint_uint signed_take_bit_int_eq_self)
qed

text \<open>The start of a round: the invariant holds, the total is the sum of the weights and small
  enough for the scores to stay within an \<^verbatim>\<open>int\<close>.\<close>

definition map_round_ok :: "proxy \<Rightarrow> proxy \<Rightarrow> int \<Rightarrow> u32 \<Rightarrow> bool \<Rightarrow> nat \<Rightarrow> bool" where
  "map_round_ok p0 p T tot flag k \<longleftrightarrow>
     recalc_inv p0 T flag k p \<and> tot = word_of_int T \<and> 2 \<le> T \<and> T * (T + 1) < 2 ^ 31 \<and> int k < T \<and>
     (\<Sum>i \<in> map_group flag p0. eweight_of p0 i) = T"

text \<open>The score with which server \<open>i\<close> enters the comparison of round \<open>k\<close>.\<close>

definition entry_score :: "proxy \<Rightarrow> proxy \<Rightarrow> int \<Rightarrow> nat \<Rightarrow> srv_ref \<Rightarrow> int" where
  "entry_score p0 p T k i = map_score p0 T (Suc k) (slots p k i) i"

lemma round_total:
  assumes "map_round_ok p0 p T tot flag k"
  shows "2 \<le> T" "0 < T" "T < 2 ^ 31" "int k < T" "tot = word_of_int T" "recalc_inv p0 T flag k p"
    "T * (T + 1) < 2 ^ 31" "(\<Sum>i \<in> map_group flag p0. eweight_of p0 i) = T"
proof -
  show T2: "2 \<le> T" and small: "T * (T + 1) < 2 ^ 31" and "int k < T" "tot = word_of_int T" "recalc_inv p0 T flag k p"
    "(\<Sum>i \<in> map_group flag p0. eweight_of p0 i) = T"
    using assms by (simp_all add: map_round_ok_def)
  show "0 < T" using T2 by simp
  have "T * 1 \<le> T * (T + 1)" using T2 by (intro mult_left_mono) simp_all
  then show "T < 2 ^ 31" using small by simp
qed

lemma round_weight:
  assumes ok: "map_round_ok p0 p T tot flag k" and i: "i \<in> map_group flag p0"
  shows "0 < eweight_of p0 i" "eweight_of p0 i \<le> T"
proof -
  have nn: "0 \<le> eweight_of p0 j" for j by (simp add: eweight_of_def)
  have "next_eweight (srv_at p0 i) \<noteq> 0"
    using i by (auto simp: map_group_def map_elig_def srv_willbe_usable_def)
  then have "eweight_of p0 i \<noteq> 0" by (simp add: eweight_of_def uint_0_iff)
  with nn [of i] show "0 < eweight_of p0 i" by simp
  show "eweight_of p0 i \<le> T"
    unfolding round_total(8) [OF ok, symmetric] using i nn by (intro member_le_sum) auto
qed

lemma recalc_inv_srv:
  assumes "recalc_inv p0 T flag k p"
  shows "length (px_srv p) = length (px_srv p0)"
    and "i < length (px_srv p0) \<Longrightarrow> next_eweight (srv_at p i) = next_eweight (srv_at p0 i)"
    and "map_elig flag p i = map_elig flag p0 i"
proof -
  have m: "map (\<lambda>s. s\<lparr>wscore := 0\<rparr>) (px_srv p) = map (\<lambda>s. s\<lparr>wscore := 0\<rparr>) (px_srv p0)"
    using assms by (simp add: recalc_inv_def)
  then show len: "length (px_srv p) = length (px_srv p0)" by (metis length_map)
  have eq: "(srv_at p i)\<lparr>wscore := 0\<rparr> = (srv_at p0 i)\<lparr>wscore := 0\<rparr>" if "i < length (px_srv p0)" for i
    using m len that by (metis (no_types, lifting) nth_map)
  show "i < length (px_srv p0) \<Longrightarrow> next_eweight (srv_at p i) = next_eweight (srv_at p0 i)"
    using arg_cong [OF eq, of i next_eweight] by simp
  show "map_elig flag p i = map_elig flag p0 i"
    using arg_cong [OF eq, of i is_backup] arg_cong [OF eq, of i srv_willbe_usable]
    by (auto simp: map_elig_def len)
qed

lemma round_scores:
  assumes ok: "map_round_ok p0 p T tot flag k" and g: "i \<in> map_group flag p0"
  shows "wscore (srv_at p i) + next_eweight (srv_at p i) = word_of_int (entry_score p0 p T k i)"
    "int (slots p k i) \<le> eweight_of p0 i" "- T < entry_score p0 p T k i" "entry_score p0 p T k i \<le> T * T"
proof -
  note rt = round_total [OF ok]
  have i: "i < length (px_srv p0)" using g by (simp add: map_group_def map_elig_def)
  have ws: "wscore (srv_at p i) = word_of_int (map_score p0 T k (slots p k i) i)"
    and ce: "int (slots p k i) \<le> eweight_of p0 i" and low: "- T \<le> map_score p0 T k (slots p k i) i"
    using rt(6) g by (auto simp: recalc_inv_def)
  have w: "entry_score p0 p T k i = map_score p0 T k (slots p k i) i + eweight_of p0 i"
    by (simp add: entry_score_def map_score_def algebra_simps)
  have "next_eweight (srv_at p i) = word_of_int (eweight_of p0 i)"
    by (simp add: recalc_inv_srv(2) [OF rt(6) i] eweight_of_def)
  then show "wscore (srv_at p i) + next_eweight (srv_at p i) = word_of_int (entry_score p0 p T k i)"
    by (simp add: ws w)
  show "int (slots p k i) \<le> eweight_of p0 i" by (rule ce)
  show "- T < entry_score p0 p T k i" using low round_weight [OF ok g] by (simp add: w)
  have "eweight_of p0 i * int (Suc k) \<le> T * T"
    using round_weight [OF ok g] rt by (intro mult_mono) auto
  moreover have "0 \<le> T * int (slots p k i)" using rt by simp
  ultimately show "entry_score p0 p T k i \<le> T * T" by (simp add: entry_score_def map_score_def)
qed

lemma round_value:
  assumes ok: "map_round_ok p0 p T tot flag k" and g: "i \<in> map_group flag p0"
  shows "score_val tot p i = (entry_score p0 p T k i + T) div T"
proof -
  note rt = round_total [OF ok] and rs = round_scores [OF ok g]
  have "entry_score p0 p T k i + T < 2 ^ 31" using rs(4) rt(7) by (simp add: algebra_simps)
  then show ?thesis
    using rs rt word_div_of_int [of "entry_score p0 p T k i + T" T] by (simp add: score_val_def)
qed

lemma round_sums:
  assumes ok: "map_round_ok p0 p T tot flag k"
  shows "(\<Sum>i \<in> map_group flag p0. int (slots p k i)) = int k"
    "(\<Sum>i \<in> map_group flag p0. entry_score p0 p T k i) = T" "map_group flag p0 \<noteq> {}"
proof -
  note rt = round_total [OF ok]
  show c: "(\<Sum>i \<in> map_group flag p0. int (slots p k i)) = int k" using rt(6) by (simp add: recalc_inv_def)
  have "(\<Sum>i \<in> map_group flag p0. entry_score p0 p T k i) =
      (\<Sum>i \<in> map_group flag p0. eweight_of p0 i) * int (Suc k) - T * (\<Sum>i \<in> map_group flag p0. int (slots p k i))"
    by (simp add: entry_score_def map_score_def sum_subtractf sum_distrib_left sum_distrib_right)
  then show "(\<Sum>i \<in> map_group flag p0. entry_score p0 p T k i) = T" by (simp add: c rt(8) algebra_simps)
  show "map_group flag p0 \<noteq> {}" using rt(1,8) by auto
qed

text \<open>In the last round exactly one server lacks one slot, and its value is greatest.\<close>

lemma last_round_value:
  assumes ok: "map_round_ok p0 p T tot flag k" and k: "int (Suc k) = T"
  shows "\<exists>i \<in> map_group flag p0. 2 \<le> (entry_score p0 p T k i + T) div T"
proof -
  note rt = round_total [OF ok]
  have "\<exists>i \<in> map_group flag p0. int (slots p k i) < eweight_of p0 i"
  proof (rule ccontr)
    assume "\<not> ?thesis"
    then have "(\<Sum>i \<in> map_group flag p0. eweight_of p0 i) \<le> (\<Sum>i \<in> map_group flag p0. int (slots p k i))"
      by (intro sum_mono) auto
    then show False using round_sums(1) [OF ok] rt(8) k by simp
  qed
  then obtain i where i: "i \<in> map_group flag p0" "int (slots p k i) + 1 \<le> eweight_of p0 i" by force
  then have "T * 1 \<le> T * (eweight_of p0 i - int (slots p k i))" using rt by (intro mult_left_mono) auto
  then have "T \<le> entry_score p0 p T k i" using k by (simp add: entry_score_def map_score_def algebra_simps)
  then have "(T + T) div T \<le> (entry_score p0 p T k i + T) div T" using rt by (intro zdiv_mono1) auto
  with i rt show ?thesis by (intro bexI [of _ i]) auto
qed

text \<open>The server of greatest value can take one more slot.\<close>

lemma best_has_room:
  assumes ok: "map_round_ok p0 p T tot flag k" and b: "b \<in> map_group flag p0"
    and best: "\<forall>i \<in> map_group flag p0. (entry_score p0 p T k i + T) div T \<le> (entry_score p0 p T k b + T) div T"
  shows "0 \<le> entry_score p0 p T k b" "int (slots p k b) < eweight_of p0 b"
proof -
  note rt = round_total [OF ok]
  obtain j where j: "j \<in> map_group flag p0" "0 < entry_score p0 p T k j"
  proof (rule ccontr)
    assume "\<not> thesis"
    then have "(\<Sum>i \<in> map_group flag p0. entry_score p0 p T k i) \<le> 0" using that by (intro sum_nonpos) force
    with round_sums(2) [OF ok] rt(1) show False by simp
  qed
  have "T div T \<le> (entry_score p0 p T k j + T) div T" using j rt by (intro zdiv_mono1) auto
  then have v: "1 \<le> (entry_score p0 p T k b + T) div T" using best j rt by force
  then show w0: "0 \<le> entry_score p0 p T k b"
    using rt by (simp add: div_add_self2 pos_imp_zdiv_nonneg_iff)
  show "int (slots p k b) < eweight_of p0 b"
  proof (rule ccontr)
    assume "\<not> ?thesis"
    with round_scores(2) [OF ok b] have "int (slots p k b) = eweight_of p0 b" by simp
    then have wb: "entry_score p0 p T k b = eweight_of p0 b * (int (Suc k) - T)"
      by (simp add: entry_score_def map_score_def algebra_simps)
    with w0 round_weight [OF ok b] have "T \<le> int (Suc k)" by (simp add: zero_le_mult_iff)
    with rt have k: "int (Suc k) = T" by simp
    from last_round_value [OF ok k] best have "2 \<le> (entry_score p0 p T k b + T) div T" by force
    moreover have "entry_score p0 p T k b = 0" using wb k by simp
    ultimately show False using rt by simp
  qed
qed

lemma slots_set:
  assumes "k < length (map_srv p)" and "map_srv q = (map_srv p)[k := Some b]"
  shows "slots q (Suc k) i = slots p k i + (if i = b then 1 else 0)"
  using assms by (simp add: slots_def take_Suc_conv_app_nth take_update_cancel count_list_append)

lemma recalc_round_step:
  assumes ok: "map_round_ok p0 p T tot flag k" and k: "k < length (map_srv p0)"
  shows "\<exists>p'. recalc_round tot flag k p = Inr p' \<and> recalc_inv p0 T flag (Suc k) p'"
proof -
  note rt = round_total [OF ok]
  note inv = rt(6) [unfolded recalc_inv_def]
  let ?n = "length (px_srv p)"
  note len = recalc_inv_srv(1) [OF rt(6)] and elig = recalc_inv_srv(3) [OF rt(6)]
  have "uint tot = T" using rt(1,3,5) by (simp add: unsigned_of_int take_bit_int_eq_self)
  then have "tot \<noteq> 1" using rt(1) by auto
  then have scan: "recalc_scan tot flag [0..<?n] p 0 None =
      (add_score flag p [0..<?n], argmax_first (score_val tot p) (filter (map_elig flag p) [0..<?n]) 0 None)"
    by (subst recalc_scan_spec) auto
  have grp: "set (filter (map_elig flag p) [0..<?n]) = map_group flag p0"
    by (auto simp: map_group_def elig map_elig_def [of flag p0] len)
  then have "filter (map_elig flag p) [0..<?n] \<noteq> []" using round_sums(3) [OF ok] by (metis set_empty2)
  from argmax_first_spec [OF this, of "score_val tot p" 0]
  obtain b where b: "argmax_first (score_val tot p) (filter (map_elig flag p) [0..<?n]) 0 None = Some b"
    "b \<in> map_group flag p0" "\<forall>i \<in> map_group flag p0. score_val tot p i \<le> score_val tot p b"
    unfolding grp by auto
  have room: "0 \<le> entry_score p0 p T k b" "int (slots p k b) < eweight_of p0 b"
    using best_has_room [OF ok b(2)] b(2,3) round_value [OF ok] by simp_all
  define q where "q = (add_score flag p [0..<?n])\<lparr>map_srv := (map_srv p)[k := Some b]\<rparr>"
  define p' where "p' = upd_srv b (\<lambda>s. s\<lparr>wscore := wscore s - tot\<rparr>) q"
  have run: "recalc_round tot flag k p = Inr p'"
    using inv k by (simp add: recalc_round_def scan b(1) p'_def q_def add_score_def)
  have map': "map_srv p' = (map_srv p)[k := Some b]" by (simp add: p'_def q_def)
  have sl: "slots p' (Suc k) i = slots p k i + (if i = b then 1 else 0)" for i
    using inv k by (intro slots_set) (simp_all add: map')
  have nth: "srv_at p' i = (srv_at p i)\<lparr>wscore := (if map_elig flag p0 i then wscore (srv_at p i) + next_eweight (srv_at p i)
      else wscore (srv_at p i)) - (if i = b then tot else 0)\<rparr>" if "i < length (px_srv p0)" for i
    using that by (auto simp: p'_def q_def px_srv_upd_srv nth_list_update add_score_nth len elig)
  have len': "length (px_srv p') = length (px_srv p0)" by (simp add: p'_def q_def len)
  have scores: "wscore (srv_at p' i) = word_of_int (map_score p0 T (Suc k) (slots p' (Suc k) i) i) \<and>
      int (slots p' (Suc k) i) \<le> eweight_of p0 i \<and> - T \<le> map_score p0 T (Suc k) (slots p' (Suc k) i) i"
    if i: "i \<in> map_group flag p0" for i
  proof -
    have il: "i < length (px_srv p0)" "map_elig flag p0 i" using i by (simp_all add: map_group_def map_elig_def)
    have ms: "map_score p0 T (Suc k) (slots p' (Suc k) i) i = entry_score p0 p T k i - (if i = b then T else 0)"
      by (simp add: sl entry_score_def map_score_def algebra_simps)
    show ?thesis
      using round_scores [OF ok i] room rt(2,5) nth [OF il(1)] il(2) unfolding ms by (auto simp: sl)
  qed
  have "(\<Sum>i \<in> map_group flag p0. int (slots p' (Suc k) i)) =
      (\<Sum>i \<in> map_group flag p0. int (slots p k i)) + (\<Sum>i \<in> map_group flag p0. if i = b then 1 else 0)"
    unfolding sum.distrib [symmetric] by (rule sum.cong) (simp_all add: sl)
  also have "\<dots> = int (Suc k)" using round_sums(1) [OF ok] b(2) by (simp add: sum.delta)
  finally have sums: "(\<Sum>i \<in> map_group flag p0. int (slots p' (Suc k) i)) = int (Suc k)" .
  have "p'\<lparr>px_srv := px_srv p0, map_srv := map_srv p0\<rparr> = p\<lparr>px_srv := px_srv p0, map_srv := map_srv p0\<rparr>"
    by (simp add: p'_def q_def add_score_def upd_srv_def)
  moreover have "map (\<lambda>s. s\<lparr>wscore := 0\<rparr>) (px_srv p') = map (\<lambda>s. s\<lparr>wscore := 0\<rparr>) (px_srv p)"
    using len' nth by (intro nth_equalityI) (simp_all add: len)
  moreover have "\<forall>j < Suc k. \<exists>i \<in> map_group flag p0. map_srv p' ! j = Some i"
    using inv b(2) k by (auto simp: map' less_Suc_eq)
  ultimately have "recalc_inv p0 T flag (Suc k) p'"
    using inv scores sums unfolding recalc_inv_def by (simp add: map')
  with run show ?thesis by blast
qed

text \<open>The result of the computation: the first \<open>T\<close> slots hold eligible servers only, each as often
  as its weight.\<close>

definition map_balanced :: "bool \<Rightarrow> nat \<Rightarrow> proxy \<Rightarrow> bool" where
  "map_balanced flag T p \<longleftrightarrow>
     T \<le> length (map_srv p) \<and>
     (\<forall>j < T. \<exists>i. map_elig flag p i \<and> map_srv p ! j = Some i) \<and>
     (\<forall>i. map_elig flag p i \<longrightarrow> slots p T i = unat (next_eweight (srv_at p i)))"

definition map_frame :: "proxy \<Rightarrow> proxy \<Rightarrow> bool" where
  "map_frame p q \<longleftrightarrow> q\<lparr>px_srv := px_srv p, map_srv := map_srv p\<rparr> = p \<and>
     map (\<lambda>s. s\<lparr>wscore := 0\<rparr>) (px_srv q) = map (\<lambda>s. s\<lparr>wscore := 0\<rparr>) (px_srv p)"

lemma recalc_inv_balanced:
  assumes inv: "recalc_inv p0 (int T) flag T p" and sum: "(\<Sum>i \<in> map_group flag p0. eweight_of p0 i) = int T"
    and T: "T \<le> length (map_srv p0)"
  shows "map_balanced flag T p" "map_frame p0 p"
proof -
  show "map_frame p0 p" using inv by (simp add: map_frame_def recalc_inv_def)
  note i = inv [unfolded recalc_inv_def]
  have "int (slots p T i) = eweight_of p0 i" if "i \<in> map_group flag p0" for i
    using i sum that by (intro sum_mono_inv [where f = "\<lambda>i. int (slots p T i)" and g = "eweight_of p0"]) auto
  moreover have "i \<in> map_group flag p0" "i < length (px_srv p0)" if "map_elig flag p i" for i
    using that recalc_inv_srv(3) [OF inv, of i] by (simp_all add: map_group_def, simp add: map_elig_def [of flag p0])
  ultimately have "int (slots p T i) = uint (next_eweight (srv_at p i))" if "map_elig flag p i" for i
    using that recalc_inv_srv(2) [OF inv] by (simp add: eweight_of_def)
  then have "slots p T i = unat (next_eweight (srv_at p i))" if "map_elig flag p i" for i
    using that by (metis int_eq_iff unat_eq_nat_uint)
  then show "map_balanced flag T p"
    using i T recalc_inv_srv(3) [OF inv] by (auto simp: map_balanced_def map_group_def)
qed

lemma recalc_loop:
  assumes T2: "2 \<le> T" and small: "T * (T + 1) < 2 ^ 31" and sum: "(\<Sum>i \<in> map_group flag p0. eweight_of p0 i) = int T"
    and T: "T \<le> length (map_srv p0)"
  shows "\<exists>q. c_fold (recalc_round (of_nat T) flag) [0..<T] (p0\<lparr>px_srv := map (\<lambda>s. s\<lparr>wscore := 0\<rparr>) (px_srv p0)\<rparr>) = Inr q \<and>
    map_balanced flag T q \<and> map_frame p0 q"
proof -
  let ?s = "p0\<lparr>px_srv := map (\<lambda>s. s\<lparr>wscore := 0\<rparr>) (px_srv p0)\<rparr>"
  have small': "int T * (int T + 1) < 2 ^ 31"
    using small by (metis of_nat_less_numeral_power_cancel_iff of_nat_mult of_nat_Suc Suc_eq_plus1 add.commute of_nat_numeral)
  have "\<exists>u. c_fold (recalc_round (of_nat T) flag) [0..<T] ?s = Inr u \<and> recalc_inv p0 (int T) flag T u"
  proof (rule c_fold_upt_rule [where P = "recalc_inv p0 (int T) flag"])
    show "recalc_inv p0 (int T) flag 0 ?s"
      by (auto simp: recalc_inv_def slots_def map_score_def eweight_of_def map_group_def map_elig_def)
    show "\<exists>u. recalc_round (of_nat T) flag k t = Inr u \<and> recalc_inv p0 (int T) flag (Suc k) u"
      if "k < T" "recalc_inv p0 (int T) flag k t" for k t
      using that T2 small' sum T by (intro recalc_round_step) (simp_all add: map_round_ok_def)
  qed
  then show ?thesis using recalc_inv_balanced [OF _ sum T] by blast
qed

text \<open>A total of 1 is one server of weight 1.\<close>

lemma recalc_scan_one:
  assumes "\<exists>i \<in> set is. is_backup (srv_at p i) = flag \<and> srv_willbe_usable (srv_at p i)"
  shows "\<exists>i \<in> set is. recalc_scan 1 flag is p mx None = (p, Some i) \<and> is_backup (srv_at p i) = flag \<and>
    srv_willbe_usable (srv_at p i)"
  using assms by (induction "is") auto

lemma recalc_one:
  assumes sum: "(\<Sum>i \<in> map_group flag p0. eweight_of p0 i) = 1" and T: "1 \<le> length (map_srv p0)"
  shows "\<exists>q. c_fold (recalc_round 1 flag) [0..<1] (p0\<lparr>px_srv := map (\<lambda>s. s\<lparr>wscore := 0\<rparr>) (px_srv p0)\<rparr>) = Inr q \<and>
    map_balanced flag 1 q \<and> map_frame p0 q"
proof -
  let ?s = "p0\<lparr>px_srv := map (\<lambda>s. s\<lparr>wscore := 0\<rparr>) (px_srv p0)\<rparr>"
  have el: "map_elig flag ?s i = map_elig flag p0 i" for i by (auto simp: map_elig_def)
  have "map_group flag p0 \<noteq> {}" using sum by auto
  then obtain g where "map_elig flag ?s g" by (auto simp: map_group_def el)
  then have "\<exists>i \<in> set [0..<length (px_srv ?s)]. is_backup (srv_at ?s i) = flag \<and> srv_willbe_usable (srv_at ?s i)"
    by (auto simp: map_elig_def)
  from recalc_scan_one [OF this, of 0] obtain b where
    b: "recalc_scan 1 flag [0..<length (px_srv ?s)] ?s 0 None = (?s, Some b)" "map_elig flag p0 b"
    by (auto simp: map_elig_def)
  define q where "q = upd_srv b (\<lambda>s. s\<lparr>wscore := wscore s - 1\<rparr>) (?s\<lparr>map_srv := (map_srv p0)[0 := Some b]\<rparr>)"
  have run: "c_fold (recalc_round 1 flag) [0..<1] ?s = Inr q"
    using T b(1) by (auto simp: recalc_round_def q_def)
  have elq: "map_elig flag q i = map_elig flag p0 i" for i
    by (cases "i < length (px_srv p0)") (auto simp: q_def map_elig_def)
  have nn: "0 \<le> eweight_of p0 j" for j by (simp add: eweight_of_def)
  have pos: "0 < eweight_of p0 j" if "map_elig flag p0 j" for j
    using that nn [of j] by (auto simp: map_elig_def srv_willbe_usable_def eweight_of_def uint_0_iff le_less)
  have only: "i = b \<and> eweight_of p0 i = 1" if "map_elig flag p0 i" for i
  proof -
    have "(\<Sum>j \<in> {i, b}. eweight_of p0 j) \<le> (\<Sum>j \<in> map_group flag p0. eweight_of p0 j)"
      using that b(2) nn by (intro sum_mono2 finite_map_group) (auto simp: map_group_def)
    with sum pos [OF that] pos [OF b(2)] show ?thesis by (cases "i = b") auto
  qed
  have "next_eweight (srv_at q b) = next_eweight (srv_at p0 b)" using b(2) by (simp add: q_def map_elig_def)
  then have "unat (next_eweight (srv_at q b)) = 1" using only [OF b(2)] by (simp add: eweight_of_def unat_eq_nat_uint)
  moreover have "slots q 1 b = 1" using T by (cases "map_srv p0") (simp_all add: slots_def q_def)
  ultimately have all: "slots q 1 i = unat (next_eweight (srv_at q i))" if "map_elig flag q i" for i
    using that only [of i] unfolding elq by metis
  have "map_srv q ! 0 = Some b" "length (map_srv q) = length (map_srv p0)"
    using T by (simp_all add: q_def Suc_le_eq)
  then have "map_balanced flag 1 q"
    unfolding map_balanced_def using T b(2) all elq by (metis less_one)
  moreover have "map_frame p0 q"
  proof -
    have "map (\<lambda>s. s\<lparr>wscore := 0\<rparr>) (px_srv q) = map (\<lambda>s. s\<lparr>wscore := 0\<rparr>) (px_srv p0)"
      by (rule nth_equalityI) (auto simp: q_def)
    then show ?thesis by (simp add: map_frame_def q_def upd_srv_def)
  qed
  ultimately show ?thesis using run by blast
qed

section \<open>Round robin over the map\<close>

text \<open>The slots in the order in which the loop visits them, and the link from each to the next.\<close>

definition rr_order :: "nat \<Rightarrow> nat \<Rightarrow> nat list" where
  "rr_order T r = [r..<T] @ [0..<r]"

fun rr_chain :: "nat \<Rightarrow> nat \<Rightarrow> nat list \<Rightarrow> bool" where
  "rr_chain T r [] = False"
| "rr_chain T r [k] = (k < T \<and> (if Suc k = T then 0 else Suc k) = r)"
| "rr_chain T r (k # k' # ks) = (k < T \<and> (if Suc k = T then 0 else Suc k) = k' \<and> k' \<noteq> r \<and> rr_chain T r (k' # ks))"

lemma rr_chain_low:
  assumes "k < r" and "r < T"
  shows "rr_chain T r [k..<r]"
  using assms(1)
proof (induction "r - k" arbitrary: k)
  case (Suc d)
  show ?case
  proof (cases "Suc k = r")
    case True
    then show ?thesis using assms by (simp add: upt_rec)
  next
    case False
    with Suc have "rr_chain T r [Suc k..<r]" by simp
    then show ?thesis using False Suc.prems assms(2) by (simp add: upt_rec [of k] upt_rec [of "Suc k"])
  qed
qed simp

lemma rr_chain_high:
  assumes "r \<le> k" and "k < T" and "r < T"
  shows "rr_chain T r ([k..<T] @ [0..<r])"
  using assms(1,2)
proof (induction "T - k" arbitrary: k)
  case (Suc d)
  show ?case
  proof (cases "Suc k = T")
    case True
    then have k: "[k..<T] = [k]" by (simp flip: True)
    show ?thesis
    proof (cases "r = 0")
      case False
      then have "[0..<r] = 0 # [Suc 0..<r]" by (simp add: upt_conv_Cons)
      then show ?thesis using rr_chain_low [of 0 r T] False assms(3) True Suc.prems(2) unfolding k by simp
    qed (use True k Suc.prems in simp)
  next
    case False
    with Suc have "rr_chain T r ([Suc k..<T] @ [0..<r])" by simp
    then show ?thesis using False Suc.prems by (simp add: upt_rec [of k] upt_rec [of "Suc k"])
  qed
qed simp

lemma rr_order_facts:
  assumes "r < T"
  shows "rr_chain T r (rr_order T r)" "set (rr_order T r) = {..<T}" "length (rr_order T r) = T" "hd (rr_order T r) = r"
  using assms rr_chain_high [of r r T] by (auto simp: rr_order_def hd_append upt_rec [of r])

text \<open>The map has a server in each of its first \<open>T\<close> slots.\<close>

definition map_filled :: "nat \<Rightarrow> proxy \<Rightarrow> bool" where
  "map_filled T p \<longleftrightarrow> T \<le> length (map_srv p) \<and> (\<forall>k < T. map_srv p ! k \<noteq> None)"

lemma map_slot_filled: "map_filled T p \<Longrightarrow> k < T \<Longrightarrow> map_slot p (int k) = Inr (the (map_srv p ! k))"
  by (auto simp: map_filled_def map_slot_def split: option.splits)

lemma rr_loop_scan:
  assumes fl: "map_filled T p" and tot: "sint (tot_weight p) = int T" and r: "sint (rr_idx p) = int r"
    and "rr_chain T r ks"
  shows "\<exists>idx. rr_loop (length ks) now_sec p av (int (hd ks)) avoided ai =
    Some (Inr (tree_scan (\<lambda>s. srv_not_full now_sec p (srv_at p s)) (\<lambda>s. Some s \<noteq> av) avoided
      (map (\<lambda>k. the (map_srv p ! k)) ks), idx))"
  using assms(4)
proof (induction ks arbitrary: avoided ai)
  case (Cons k ks)
  let ?s = "the (map_srv p ! k)" and ?fit = "\<lambda>s. srv_not_full now_sec p (srv_at p s)"
  have k: "k < T" using Cons.prems by (cases ks) auto
  note slot = map_slot_filled [OF fl k]
  have wrap: "(if int k + 1 = sint (tot_weight p) then 0 else int k + 1) = int (if Suc k = T then 0 else Suc k)"
    using tot by auto
  show ?case
  proof (cases ks)
    case Nil
    then have "(if Suc k = T then 0 else Suc k) = r" using Cons.prems by simp
    then show ?thesis using wrap r by (simp add: Nil slot Let_def)
  next
    case (Cons k' ks')
    then have next_k: "(if Suc k = T then 0 else Suc k) = k'" "k' \<noteq> r" "rr_chain T r ks"
      using Cons.prems by simp_all
    then have nx: "(if int k + 1 = sint (tot_weight p) then 0 else int k + 1) = int (hd ks)" using wrap Cons by simp
    have ne: "int (hd ks) \<noteq> sint (rr_idx p)" using next_k(2) r Cons by simp
    show ?thesis
      using Cons.IH [OF next_k(3)] nx ne by (auto simp: slot Let_def)
  qed
qed simp

section \<open>Euclid's algorithm\<close>

lemma euclid_gcd: "0 \<le> a \<Longrightarrow> 0 \<le> b \<Longrightarrow> euclid a b = gcd a b"
proof (induction a b rule: euclid.induct)
  case (1 a b)
  show ?case
  proof (cases "b = 0")
    case True
    with 1 show ?thesis by (simp add: euclid.simps)
  next
    case False
    with 1 have "a smod b = a mod b" by (simp add: smod_int_alt_def sgn_if)
    moreover from this have "0 \<le> a smod b" using 1 False by (simp add: pos_mod_sign)
    ultimately show ?thesis using 1 False by (simp add: euclid.simps [of a b] gcd_red_int [of a b] ac_simps)
  qed
qed

lemma pgcd_loop_gcd:
  "0 \<le> g \<Longrightarrow> \<forall>w \<in> set ws. 0 \<le> w \<Longrightarrow> g \<noteq> 0 \<Longrightarrow> pgcd_loop g ws = gcd g (Gcd (set ws))"
proof (induction ws arbitrary: g)
  case (Cons w ws)
  show ?case
  proof (cases "g > 1")
    case True
    have "gcd g w \<noteq> 0" using Cons.prems by simp
    then show ?thesis using True Cons by (simp add: euclid_gcd gcd.assoc)
  next
    case False
    with Cons.prems have "g = 1" by simp
    then show ?thesis by simp
  qed
qed simp

lemma weights_pgcd_Gcd:
  assumes "\<forall>w \<in> set ws. 0 \<le> w"
  shows "weights_pgcd ws = (if \<forall>w \<in> set ws. w = 0 then 1 else Gcd (set ws))"
proof -
  have drop: "Gcd (set ws) = Gcd (set (dropWhile (\<lambda>w. w = 0) ws))"
    by (induction ws) auto
  show ?thesis
  proof (cases "dropWhile (\<lambda>w. w = 0) ws")
    case Nil
    then have "\<forall>w \<in> set ws. w = 0" by (simp add: dropWhile_eq_Nil_conv)
    then show ?thesis unfolding weights_pgcd_def Nil by simp
  next
    case (Cons w us)
    then have "w \<noteq> 0" using hd_dropWhile [of "\<lambda>w. w = 0" ws] by auto
    moreover have sub: "set (w # us) \<subseteq> set ws" using Cons by (metis set_dropWhileD subsetI)
    ultimately have "\<not> (\<forall>w \<in> set ws. w = 0)" by auto
    moreover have "pgcd_loop w us = gcd w (Gcd (set us))"
      using \<open>w \<noteq> 0\<close> sub assms by (intro pgcd_loop_gcd) auto
    ultimately show ?thesis using Cons drop by (auto simp: weights_pgcd_def)
  qed
qed

section \<open>Properties\<close>

text \<open>(C21) The map is fair: when the total weight is the sum of the weights of the servers in
  charge and the map was allocated for it, the computation stays within the map and leaves every slot
  with a server that is in charge, each server appearing exactly as often as its weight.\<close>

theorem recalc_server_map_fair:
  assumes "tot_used p \<noteq> 0" and "tot_weight p = of_nat T" and "0 < T" and "T * (T + 1) < 2 ^ 31"
    and "T \<le> length (map_srv p)"
    and "(\<Sum>i \<in> map_group (srv_act p = 0) p. eweight_of p i) = int T"
  shows "\<exists>q. recalc_server_map p = Inr q \<and> map_balanced (srv_act p = 0) T q \<and> map_frame p q"
proof -
  have "T * 1 \<le> T * (T + 1)" by (intro mult_left_mono) simp_all
  then have "T < 2 ^ 31" using assms(4) by simp
  then have "nat (sint (of_nat T :: c_int)) = T"
    by (simp add: signed_of_nat signed_take_bit_int_eq_self)
  then show ?thesis
    using assms recalc_one [of p "srv_act p = 0"] recalc_loop [of T p "srv_act p = 0"]
    by (cases "T = 1") (simp_all add: recalc_server_map_def Let_def)
qed

definition sample_map :: proxy where
  "sample_map = update_backend_weight (recount_servers (sample_proxy\<lparr>map_srv := replicate 6 None\<rparr>))"

theorem recalc_server_map_fair_witness:
  "\<exists>q. recalc_server_map sample_map = Inr q \<and> map_balanced (srv_act sample_map = 0) 6 q \<and> map_frame sample_map q"
proof (rule recalc_server_map_fair)
  show "tot_used sample_map \<noteq> 0" "tot_weight sample_map = of_nat 6" "6 \<le> length (map_srv sample_map)"
    "(\<Sum>i \<in> map_group (srv_act sample_map = 0) sample_map. eweight_of sample_map i) = int 6"
    by code_simp+
qed simp_all

text \<open>(C27) Round robin over a filled map: the loop ends after at most one pass over the map, reads
  no slot outside of it, and returns the first server from the current position on that is not full
  and is not the one to avoid, else the one to avoid if it is not full, else NULL.\<close>

theorem map_get_server_rr_spec:
  assumes "sint (tot_weight p) = int T" and "0 < T" and "map_filled T p" and "rr_idx p = of_nat r" and "r < T"
  shows "\<exists>idx. map_get_server_rr now_sec p av = Some (Inr (p\<lparr>rr_idx := idx\<rparr>,
    (let nodes = map (\<lambda>k. the (map_srv p ! k)) (rr_order T r);
         fit = (\<lambda>s. srv_not_full now_sec p (srv_at p s))
     in case find (\<lambda>s. fit s \<and> Some s \<noteq> av) nodes of
          Some s \<Rightarrow> Some s
        | None \<Rightarrow> (case av of Some a \<Rightarrow> if a \<in> set nodes \<and> fit a then Some a else None | None \<Rightarrow> None))))"
proof -
  have "int T < 2 ^ 31" using sint_less [of "tot_weight p"] assms(1) by simp
  then have r: "sint (rr_idx p) = int r"
    using assms(4,5) by (simp add: signed_of_nat signed_take_bit_int_eq_self)
  have "tot_weight p \<noteq> 0" using assms(1,2) by auto
  moreover have "\<not> rr_idx p <s 0" "\<not> tot_weight p \<le>s rr_idx p"
    using r assms(1,5) by (simp_all add: word_sless_alt word_sle_eq)
  moreover note rr_loop_scan [OF assms(3,1) r rr_order_facts(1) [OF assms(5)], of now_sec av None 0]
  ultimately show ?thesis
    using assms(1,5) r by (auto simp: map_get_server_rr_def rr_order_facts tree_scan_avoid Let_def)
qed

theorem map_get_server_rr_spec_witness:
  "\<exists>idx. map_get_server_rr 0 (projr (recalc_server_map sample_map)) (Some 2) =
    Some (Inr ((projr (recalc_server_map sample_map))\<lparr>rr_idx := idx\<rparr>, Some 0))"
proof -
  let ?p = "projr (recalc_server_map sample_map)"
  have "sint (tot_weight ?p) = int 6" "map_filled 6 ?p" "rr_idx ?p = of_nat 0" by code_simp+
  from map_get_server_rr_spec [OF this(1) _ this(2,3), of 0 "Some 2"]
  have "\<exists>idx. map_get_server_rr 0 ?p (Some 2) = Some (Inr (?p\<lparr>rr_idx := idx\<rparr>,
    (let nodes = map (\<lambda>k. the (map_srv ?p ! k)) (rr_order 6 0);
         fit = (\<lambda>s. srv_not_full 0 ?p (srv_at ?p s))
     in case find (\<lambda>s. fit s \<and> Some s \<noteq> Some 2) nodes of
          Some s \<Rightarrow> Some s
        | None \<Rightarrow> (case Some 2 of Some a \<Rightarrow> if a \<in> set nodes \<and> fit a then Some a else None | None \<Rightarrow> None))))"
    by simp
  moreover have "(let nodes = map (\<lambda>k. the (map_srv ?p ! k)) (rr_order 6 0);
         fit = (\<lambda>s. srv_not_full 0 ?p (srv_at ?p s))
     in case find (\<lambda>s. fit s \<and> Some s \<noteq> Some 2) nodes of
          Some s \<Rightarrow> Some s
        | None \<Rightarrow> (case Some 2 of Some a \<Rightarrow> if a \<in> set nodes \<and> fit a then Some a else None | None \<Rightarrow> None)) = Some 0"
    by code_simp
  ultimately show ?thesis by simp
qed

text \<open>Without \<^verbatim>\<open>option allbackups\<close> only the first backup server is meant to be used, but
  the map is computed over all backup servers with the weight of the first one as its total: with two
  backup servers of weights 2 and 3 and no active server, the second one gets a slot too.\<close>

theorem recalc_server_map_second_backup:
  "let p = sample_proxy\<lparr>px_srv := [sample_server ''b1'' SRV_F_BACKUP 2 1, sample_server ''b2'' SRV_F_BACKUP 3 2]\<rparr>;
       q = projr (init_server_map p)
   in init_server_map p = Inr q \<and> \<not> use_all_bk q \<and> srv_act q = 0 \<and> fbck q = Some 0 \<and>
      take (unat (tot_weight q)) (map_srv q) = [Some 0, Some 1]"
  by code_simp

text \<open>\<^verbatim>\<open>init_server_map\<close> reduces the weights by their greatest common divisor: its two
  nested loops compute the divisor of all weights, skipping leading zero weights and stopping early
  at 1.\<close>

theorem weights_pgcd_correct:
  assumes "\<forall>s \<in> set srvs. uweight s \<le> SRV_UWGHT_MAX"
  shows "weights_pgcd (map (\<lambda>s. sint (uweight s)) srvs) =
    (if \<forall>s \<in> set srvs. uweight s = 0 then 1 else Gcd ((\<lambda>s. uint (uweight s)) ` set srvs))"
proof -
  have "sint w = uint w" if "w \<le> SRV_UWGHT_MAX" for w :: u32
  proof -
    have "uint w \<le> 256" using that by (simp add: word_le_def)
    moreover have "- (2 ^ 31) \<le> uint w" by (rule order_trans [of _ 0]) simp_all
    ultimately show ?thesis by (simp add: sint_uint signed_take_bit_int_eq_self)
  qed
  then have "map (\<lambda>s. sint (uweight s)) srvs = map (\<lambda>s. uint (uweight s)) srvs"
    using assms by simp
  then show ?thesis by (simp only:) (subst weights_pgcd_Gcd, auto simp: uint_0_iff)
qed

theorem weights_pgcd_correct_witness:
  "weights_pgcd (map (\<lambda>s. sint (uweight s)) [sample_server ''a'' 0 6 1, sample_server ''b'' 0 10 2]) = 2"
proof -
  have "\<forall>s \<in> set [sample_server ''a'' 0 6 1, sample_server ''b'' 0 10 2]. uweight s \<le> SRV_UWGHT_MAX"
    by code_simp
  from weights_pgcd_correct [OF this] show ?thesis
    by (simp add: sample_server_def gcd_non_0_int)
qed

end
