(* ===== verification/Lb_Chash.thy ===== *)
theory Lb_Chash
  imports Lb_Tree Hash Whitelist
begin

text \<open>
  Consistent hashing, \<^verbatim>\<open>src/haproxy/src/lb_chash.c\<close>: every usable server appears in the tree of
  its group as many times as its weight, at keys derived from its unique id; a lookup takes the
  occurrence nearest to the hash of the request. \<open>alloc n\<close> tells whether an allocation of \<open>n\<close>
  nodes succeeds.
\<close>

section \<open>Occurrences of a server\<close>

abbreviation ch_key :: "server \<Rightarrow> nat \<Rightarrow> u32" where
  "ch_key s k \<equiv> full_hash (puid s * SRV_EWGHT_RANGE + of_nat k)"

definition chash_skip_node :: "tree_occ eb_root \<Rightarrow> tree_occ option \<Rightarrow> tree_occ option" where
  "chash_skip_node root node =
     (case node of
        None \<Rightarrow> None
      | Some stop \<Rightarrow>
          (case (case eb32_next stop root of None \<Rightarrow> eb32_first root | Some e \<Rightarrow> Some e) of
             None \<Rightarrow> None
           | Some (_, node) \<Rightarrow> if node = stop then None else Some node))"

text \<open>The tree \<^verbatim>\<open>s->lb_tree\<close> points to, and moving \<^verbatim>\<open>chash.last\<close> off a node.\<close>

definition ch_tree :: "server \<Rightarrow> proxy \<Rightarrow> tree_occ eb_root" where
  "ch_tree s p = (if lb_tree s = Some Root_bck then chash_bck p else chash_act p)"

definition ch_unlast :: "srv_ref \<Rightarrow> nat \<Rightarrow> proxy \<Rightarrow> proxy" where
  "ch_unlast i k p =
     (if chash_last p = Some (i, k) then p\<lparr>chash_last := chash_skip_node (ch_tree (srv_at p i) p) (chash_last p)\<rparr>
      else p)"

text \<open>One round of the loops that remove occurrences.\<close>

definition ch_remove_last :: "srv_ref \<Rightarrow> proxy \<Rightarrow> proxy c_result" where
  "ch_remove_last i p =
     (let s = srv_at p i;
          now = (if lb_nodes_tot s \<le> lb_nodes_now s then lb_nodes_tot s else lb_nodes_now s) - 1;
          p = upd_srv i (\<lambda>s. s\<lparr>lb_nodes_now := now\<rparr>) p
      in if now < lb_nodes_tot s \<and> unat now < length (lb_nodes s) then
           (let p = ch_unlast i (unat now) p
            in Inr (p\<lparr>chash_act := eb32_delete (i, unat now) (chash_act p),
                      chash_bck := eb32_delete (i, unat now) (chash_bck p)\<rparr>))
         else Inl OutOfBounds)"

lemma ch_remove_last_decreases:
  assumes "i < length (px_srv p)" and "b < lb_nodes_now (srv_at p i)" and "ch_remove_last i p = Inr q"
  shows "lb_nodes_now (srv_at q i) < lb_nodes_now (srv_at p i)"
proof -
  define t n where "t = lb_nodes_tot (srv_at p i)" and "n = lb_nodes_now (srv_at p i)"
  have q: "lb_nodes_now (srv_at q i) = (if t \<le> n then t else n) - 1" "(if t \<le> n then t else n) - 1 < t"
    using assms by (auto simp: ch_remove_last_def ch_unlast_def Let_def t_def n_def split: if_splits)
  then have "t \<noteq> 0" "n \<noteq> 0" using assms(2) by (auto simp: n_def)
  then have "unat t \<noteq> 0" "unat n \<noteq> 0" by (simp_all add: unat_eq_zero)
  then have "(if t \<le> n then t else n) - 1 < n"
    using \<open>t \<noteq> 0\<close> \<open>n \<noteq> 0\<close> by (auto simp: word_less_nat_alt word_le_nat_alt unat_minus_one)
  then show ?thesis using q by (simp add: n_def)
qed

text \<open>\<^verbatim>\<open>while (s->lb_nodes_now > b)\<close>, for \<open>b\<close> the new weight or 0.\<close>

function ch_shrink :: "u32 \<Rightarrow> srv_ref \<Rightarrow> proxy \<Rightarrow> proxy c_result" where
  "ch_shrink b i p =
     (if i < length (px_srv p) \<and> b < lb_nodes_now (srv_at p i) then
        (case ch_remove_last i p of Inl e \<Rightarrow> Inl e | Inr q \<Rightarrow> ch_shrink b i q)
      else Inr p)"
  by auto
termination
  by (relation "measure (\<lambda>(b, i, p). unat (lb_nodes_now (srv_at p i)))")
     (use ch_remove_last_decreases in \<open>auto simp: word_less_nat_alt\<close>)

declare ch_shrink.simps [simp del]

definition chash_dequeue_srv :: "srv_ref \<Rightarrow> proxy \<Rightarrow> proxy c_result" where
  "chash_dequeue_srv i p = ch_shrink 0 i p"

definition ch_realloc :: "(u32 \<Rightarrow> bool) \<Rightarrow> srv_ref \<Rightarrow> proxy \<Rightarrow> proxy c_result" where
  "ch_realloc alloc i p =
     (if lb_nodes_tot (srv_at p i) < next_eweight (srv_at p i) then
        c_bind (chash_dequeue_srv i p) (\<lambda>p.
        if alloc (next_eweight (srv_at p i)) then
          Inr (upd_srv i (\<lambda>s. s\<lparr>lb_nodes := take (unat (lb_nodes_tot s)) (lb_nodes s) @
                 map (ch_key s) [unat (lb_nodes_tot s)..<unat (next_eweight s)],
               lb_nodes_tot := next_eweight s\<rparr>) p)
        else Inr p)
      else Inr p)"

definition ch_add_node :: "srv_ref \<Rightarrow> proxy \<Rightarrow> proxy" where
  "ch_add_node i p =
     (let s = srv_at p i;
          now = unat (lb_nodes_now s);
          p = ch_unlast i now p;
          p = (case lb_tree s of
                 Some Root_act \<Rightarrow> p\<lparr>chash_act := eb32_insert (lb_nodes s ! now) (i, now) (chash_act p)\<rparr>
               | Some Root_bck \<Rightarrow> p\<lparr>chash_bck := eb32_insert (lb_nodes s ! now) (i, now) (chash_bck p)\<rparr>
               | _ \<Rightarrow> p)
      in upd_srv i (\<lambda>s. s\<lparr>lb_nodes_now := lb_nodes_now s + 1\<rparr>) p)"

lemma ch_add_node_srv: "px_srv (ch_add_node i p) = (px_srv p)[i := (srv_at p i)\<lparr>lb_nodes_now := lb_nodes_now (srv_at p i) + 1\<rparr>]"
  by (simp add: ch_add_node_def ch_unlast_def Let_def px_srv_upd_srv split: option.splits eb_root_ptr.splits)

text \<open>The loop that adds occurrences.\<close>

function ch_extend :: "srv_ref \<Rightarrow> proxy \<Rightarrow> proxy c_result" where
  "ch_extend i p =
     (let s = srv_at p i in
      if i < length (px_srv p) \<and> lb_nodes_now s < next_eweight s \<and> lb_nodes_now s < lb_nodes_tot s then
        if unat (lb_nodes_now s) < length (lb_nodes s) then ch_extend i (ch_add_node i p)
        else Inl OutOfBounds
      else Inr p)"
  by auto
termination
proof (relation "measure (\<lambda>(i, p). unat (next_eweight (srv_at p i)) - unat (lb_nodes_now (srv_at p i)))")
  fix i p s
  assume "s = srv_at p i" and "i < length (px_srv p) \<and> lb_nodes_now s < next_eweight s \<and> lb_nodes_now s < lb_nodes_tot s"
  then show "((i, ch_add_node i p), i, p) \<in> measure (\<lambda>(i, p). unat (next_eweight (srv_at p i)) - unat (lb_nodes_now (srv_at p i)))"
    by (auto simp: ch_add_node_srv word_less_nat_alt unat_add_1_less)
qed simp

declare ch_extend.simps [simp del]

definition chash_queue_dequeue_srv :: "(u32 \<Rightarrow> bool) \<Rightarrow> srv_ref \<Rightarrow> proxy \<Rightarrow> proxy c_result" where
  "chash_queue_dequeue_srv alloc i p =
     c_bind (ch_shrink (next_eweight (srv_at p i)) i p) (\<lambda>p.
     c_bind (ch_realloc alloc i p) (\<lambda>p.
     ch_extend i p))"

section \<open>Callbacks\<close>

definition chash_set_server_status_down :: "srv_ref \<Rightarrow> proxy \<Rightarrow> proxy c_result" where
  "chash_set_server_status_down i p =
     (let srv = srv_at p i in
      if \<not> srv_lb_status_changed srv then Inr p
      else if srv_willbe_usable srv then Inr (upd_srv i srv_lb_commit_status p)
      else
        c_bind (if \<not> srv_currently_usable srv then Inr p
                else chash_dequeue_srv i (acct_srv_down i p)) (\<lambda>p.
        let p = update_backend_weight p
        in Inr (upd_srv i srv_lb_commit_status p)))"

definition chash_set_server_status_up :: "(u32 \<Rightarrow> bool) \<Rightarrow> srv_ref \<Rightarrow> proxy \<Rightarrow> proxy c_result" where
  "chash_set_server_status_up alloc i p =
     (let srv = srv_at p i in
      if \<not> srv_lb_status_changed srv then Inr p
      else if \<not> srv_willbe_usable srv then Inr (upd_srv i srv_lb_commit_status p)
      else
        c_bind (if srv_currently_usable srv then Inr p
                else chash_queue_dequeue_srv alloc i (acct_srv_up i p)) (\<lambda>p.
        let p = update_backend_weight p
        in Inr (upd_srv i srv_lb_commit_status p)))"

definition chash_update_server_weight :: "(u32 \<Rightarrow> bool) \<Rightarrow> srv_ref \<Rightarrow> proxy \<Rightarrow> proxy c_result" where
  "chash_update_server_weight alloc i p =
     (let srv = srv_at p i in
      if \<not> srv_lb_status_changed srv then Inr p
      else let old_state = srv_currently_usable srv; new_state = srv_willbe_usable srv in
      if \<not> old_state \<and> \<not> new_state then Inr (upd_srv i srv_lb_commit_status p)
      else if \<not> old_state \<and> new_state then chash_set_server_status_up alloc i p
      else if old_state \<and> \<not> new_state then chash_set_server_status_down i p
      else
        c_bind (chash_queue_dequeue_srv alloc i p) (\<lambda>p.
        let p = acct_srv_reweight i p;
            p = update_backend_weight p
        in Inr (upd_srv i srv_lb_commit_status p)))"

text \<open>The result is \<open>-1\<close> when an allocation failed, else \<open>0\<close>.\<close>

fun ch_init_loop :: "(u32 \<Rightarrow> bool) \<Rightarrow> srv_ref list \<Rightarrow> proxy \<Rightarrow> (proxy \<times> int) c_result" where
  "ch_init_loop alloc [] p = Inr (p, 0)"
| "ch_init_loop alloc (i # is) p =
     (let p = upd_srv i (\<lambda>s. s\<lparr>lb_tree := Some (if is_backup s then Root_bck else Root_act),
                 lb_nodes_tot := uweight s * BE_WEIGHT_SCALE, lb_nodes_now := 0, lb_nodes := []\<rparr>) p
      in if \<not> alloc (lb_nodes_tot (srv_at p i)) then Inr (p, -1)
         else
           let p = upd_srv i (\<lambda>s. s\<lparr>lb_nodes := map (ch_key s) [0..<unat (lb_nodes_tot s)]\<rparr>) p
           in c_bind (if srv_currently_usable (srv_at p i) then chash_queue_dequeue_srv alloc i p else Inr p)
                (ch_init_loop alloc is))"

definition chash_init_server_tree :: "(u32 \<Rightarrow> bool) \<Rightarrow> proxy \<Rightarrow> (proxy \<times> int) c_result" where
  "chash_init_server_tree alloc p =
     (let p = init_weights_and_count p;
          p = p\<lparr>chash_act := [], chash_bck := [], chash_last := None\<rparr>
      in ch_init_loop alloc [0..<length (px_srv p)] p)"

section \<open>Lookups\<close>

definition ch_slots :: "proxy \<Rightarrow> server \<Rightarrow> u32 c_result" where
  "ch_slots px s =
     (if tot_weight px = 0 then Inl DivideByZero
      else let tot_slots = word_of_int (sint ((px_served px + 1) * hash_balance_factor px + 99) sdiv 100);
               slots_per_weight = tot_slots div tot_weight px;
               remainder = tot_slots mod tot_weight px;
               slots = cur_eweight s * slots_per_weight;
               slots = slots + (((cumulative_weight s + cur_eweight s) * remainder) div tot_weight px -
                                (cumulative_weight s * remainder) div tot_weight px)
           in Inr (if slots = 0 then 1 else slots))"

definition chash_server_is_eligible :: "proxy \<Rightarrow> server \<Rightarrow> bool c_result" where
  "chash_server_is_eligible px s = c_bind (ch_slots px s) (\<lambda>slots. Inr (served s < slots))"

text \<open>The condition of the loop of \<^verbatim>\<open>chash_get_server_hash\<close>: the server is left out if it is the
  one to avoid or has its share of the load, unless the whitelist names it.\<close>

definition ch_skip :: "proxy \<Rightarrow> srv_ref option \<Rightarrow> string option \<Rightarrow> srv_ref \<Rightarrow> bool c_result" where
  "ch_skip p avoid whitelist nsrv =
     c_bind (if Some nsrv = avoid then Inr True
             else if hash_balance_factor p \<noteq> 0 then
               c_bind (chash_server_is_eligible p (srv_at p nsrv)) (\<lambda>e. Inr (\<not> e))
             else Inr False) (\<lambda>b.
     if b then c_bind (onWhitelist whitelist (srv_id (srv_at p nsrv))) (\<lambda>w. Inr (\<not> w)) else Inr False)"

text \<open>The loop itself, over the nodes that follow and, once the end of the tree is reached, over the
  whole tree; it gives up at the second end, returning the server of the last node it saw.\<close>

fun ch_hash_loop ::
    "(srv_ref \<Rightarrow> bool c_result) \<Rightarrow> srv_ref \<Rightarrow> srv_ref list \<Rightarrow> srv_ref list option \<Rightarrow> srv_ref c_result" where
  "ch_hash_loop skip nsrv [] again =
     c_bind (skip nsrv) (\<lambda>b.
     if \<not> b then Inr nsrv
     else case again of Some (s # ss) \<Rightarrow> ch_hash_loop skip s ss None | _ \<Rightarrow> Inr nsrv)"
| "ch_hash_loop skip nsrv (s # ss) again =
     c_bind (skip nsrv) (\<lambda>b. if \<not> b then Inr nsrv else ch_hash_loop skip s ss again)"

text \<open>The node to start from: the nearest to the hash of the nodes before and after it.\<close>

definition ch_locate :: "u32 \<Rightarrow> tree_occ eb_root \<Rightarrow> (u32 \<times> tree_occ) option" where
  "ch_locate hash root =
     (case (case eb32_lookup_ge hash root of None \<Rightarrow> eb32_first root | Some e \<Rightarrow> Some e) of
        None \<Rightarrow> None
      | Some next \<Rightarrow>
          let prev = (case eb32_prev (snd next) root of None \<Rightarrow> the (eb32_last root) | Some e \<Rightarrow> e);
              dp = hash - fst prev;
              dn = fst next - hash
          in Some (if dp \<le> dn then prev else next))"

definition chash_get_server_hash ::
    "proxy \<Rightarrow> u32 \<Rightarrow> srv_ref option \<Rightarrow> string option \<Rightarrow> srv_ref option c_result" where
  "chash_get_server_hash p hash avoid whitelist =
     (let find_in = (\<lambda>root.
        case ch_locate hash root of
          None \<Rightarrow> Inr None
        | Some next \<Rightarrow>
            c_bind (ch_hash_loop (ch_skip p avoid whitelist) (fst (snd next))
              (map fst (eb_nodes (eb32_after (snd next) root))) (Some (map fst (eb_nodes root)))) (\<lambda>s.
            Inr (Some s)))
      in if srv_act p \<noteq> 0 then find_in (chash_act p)
         else if fbck p \<noteq> None then Inr (fbck p)
         else if srv_bck p \<noteq> 0 then find_in (chash_bck p)
         else Inr None)"

text \<open>\<^verbatim>\<open>eb32_next (last)\<close> walks the tree \<^verbatim>\<open>last\<close> is in, which need not be the one served.\<close>

definition ch_next :: "proxy \<Rightarrow> tree_occ \<Rightarrow> tree_occ option" where
  "ch_next p n = map_option snd (eb32_next n (if eb32_in_tree n (chash_act p) then chash_act p else chash_bck p))"

text \<open>The loop of \<^verbatim>\<open>chash_get_next_server\<close>, with a bound on the rounds (\<open>None\<close>: not enough). It
  returns the server and the new \<^verbatim>\<open>chash.last\<close>.\<close>

fun ch_rr_loop ::
    "nat \<Rightarrow> int \<Rightarrow> proxy \<Rightarrow> tree_occ eb_root \<Rightarrow> srv_ref option \<Rightarrow> tree_occ option \<Rightarrow> tree_occ option \<Rightarrow> tree_occ option
       \<Rightarrow> (srv_ref option \<times> tree_occ option) option" where
  "ch_rr_loop 0 now_sec p root srvtoavoid node stop avoided = None"
| "ch_rr_loop (Suc n) now_sec p root srvtoavoid node stop avoided =
     (let node = (case node of None \<Rightarrow> None | Some m \<Rightarrow> ch_next p m);
          node = (case node of None \<Rightarrow> map_option snd (eb32_first root) | Some m \<Rightarrow> Some m)
      in case node of
           None \<Rightarrow> Some (None, None)
         | Some m \<Rightarrow>
             let stop = (if stop = None then Some m else stop);
                 fit = srv_not_full now_sec p (srv_at p (fst m))
             in if fit \<and> Some (fst m) \<noteq> srvtoavoid then Some (Some (fst m), Some m)
                else
                  let avoided = (if fit then Some m else avoided)
                  in if Some m \<noteq> stop then ch_rr_loop n now_sec p root srvtoavoid (Some m) stop avoided
                     else Some (map_option fst avoided, avoided))"

definition chash_get_next_server :: "nat \<Rightarrow> int \<Rightarrow> proxy \<Rightarrow> srv_ref option \<Rightarrow> (proxy \<times> srv_ref option) option" where
  "chash_get_next_server fuel now_sec p srvtoavoid =
     (let search = (\<lambda>root. map_option (\<lambda>(srv, last). (p\<lparr>chash_last := last\<rparr>, srv))
            (ch_rr_loop fuel now_sec p root srvtoavoid (chash_last p) (chash_last p) None))
      in if srv_act p \<noteq> 0 then search (chash_act p)
         else if fbck p \<noteq> None then Some (p, fbck p)
         else if srv_bck p \<noteq> 0 then search (chash_bck p)
         else Some (p, None))"

section \<open>The trees hold the first occurrences of every server\<close>

text \<open>The occurrences in the tree of group \<open>b\<close>, and what holds of the nodes of each server.\<close>

definition ch_occs :: "nat \<Rightarrow> bool \<Rightarrow> proxy \<Rightarrow> (u32 \<times> tree_occ) set" where
  "ch_occs N b p = {(key, j, k). j < N \<and> is_backup (srv_at p j) = b \<and>
     k < unat (lb_nodes_now (srv_at p j)) \<and> key = lb_nodes (srv_at p j) ! k}"

definition ch_srv_ok :: "server \<Rightarrow> bool" where
  "ch_srv_ok s \<longleftrightarrow> lb_tree s = Some (root_of s) \<and> lb_nodes_now s \<le> lb_nodes_tot s \<and>
     lb_nodes s = map (ch_key s) [0..<unat (lb_nodes_tot s)]"

definition ch_core :: "nat \<Rightarrow> proxy \<Rightarrow> bool" where
  "ch_core N p \<longleftrightarrow> N \<le> length (px_srv p) \<and>
     eb_ordered (chash_act p) \<and> eb_ordered (chash_bck p) \<and>
     set (chash_act p) = ch_occs N False p \<and> set (chash_bck p) = ch_occs N True p \<and>
     (\<forall>j < N. ch_srv_ok (srv_at p j)) \<and>
     (\<forall>n. chash_last p = Some n \<longrightarrow> n \<in> set (eb_nodes (chash_act p)) \<union> set (eb_nodes (chash_bck p)))"

lemma ch_core_srv: "ch_core N p \<Longrightarrow> i < N \<Longrightarrow> ch_srv_ok (srv_at p i)"
  by (simp add: ch_core_def)

lemma ch_core_len: "ch_core N p \<Longrightarrow> i < N \<Longrightarrow> i < length (px_srv p)"
  by (simp add: ch_core_def)

lemma ch_core_nodes:
  assumes "ch_core N p"
  shows "n \<in> set (eb_nodes (chash_act p)) \<longleftrightarrow> fst n < N \<and>
      \<not> is_backup (srv_at p (fst n)) \<and> snd n < unat (lb_nodes_now (srv_at p (fst n)))"
    and "n \<in> set (eb_nodes (chash_bck p)) \<longleftrightarrow> fst n < N \<and>
      is_backup (srv_at p (fst n)) \<and> snd n < unat (lb_nodes_now (srv_at p (fst n)))"
  using assms by (force simp: ch_core_def set_eb_nodes ch_occs_def image_iff)+

text \<open>Changing the number of occurrences of one server.\<close>

abbreviation set_now :: "u32 \<Rightarrow> server \<Rightarrow> server" where
  "set_now n \<equiv> (\<lambda>s. s\<lparr>lb_nodes_now := n\<rparr>)"

lemma set_now_simps [simp]:
  "is_backup (set_now n s) = is_backup s" "root_of (set_now n s) = root_of s"
  by (simp_all add: is_backup_def root_of_def)

lemma ch_srv_ok_now: "ch_srv_ok s \<Longrightarrow> n \<le> lb_nodes_tot s \<Longrightarrow> ch_srv_ok (set_now n s)"
  by (simp add: ch_srv_ok_def)

lemma ch_occs_pred:
  assumes "i < length (px_srv p)" and "unat (lb_nodes_now (srv_at p i)) = Suc (unat n)"
    and "px_srv q = (px_srv p)[i := set_now n (srv_at p i)]"
  shows "ch_occs N b q = {e \<in> ch_occs N b p. snd e \<noteq> (i, unat n)}"
  using assms(1,2) unfolding ch_occs_def assms(3)
  by (auto simp: nth_list_update less_Suc_eq split: if_splits)

lemma ch_occs_succ:
  assumes "i < length (px_srv p)" and "i < N" and "unat n = Suc (unat (lb_nodes_now (srv_at p i)))"
    and "px_srv q = (px_srv p)[i := set_now n (srv_at p i)]"
  shows "ch_occs N b q = ch_occs N b p \<union>
    (if is_backup (srv_at p i) = b
     then {(lb_nodes (srv_at p i) ! unat (lb_nodes_now (srv_at p i)), (i, unat (lb_nodes_now (srv_at p i))))} else {})"
  using assms(1-3) unfolding ch_occs_def assms(4)
  by (auto simp: nth_list_update less_Suc_eq split: if_splits)

lemma chash_skip_node_in:
  assumes "chash_skip_node root (Some n) = Some m"
  shows "m \<noteq> n \<and> m \<in> set (eb_nodes root)"
  using assms eb32_next_in [of n root] eb32_first_in [of root]
  by (force simp: chash_skip_node_def set_eb_nodes split: option.splits if_splits)

text \<open>What an operation on the occurrences of server \<open>i\<close> leaves alone.\<close>

definition ch_step :: "srv_ref \<Rightarrow> (server \<Rightarrow> server) \<Rightarrow> proxy \<Rightarrow> proxy \<Rightarrow> bool" where
  "ch_step i f p q \<longleftrightarrow> px_srv q = (px_srv p)[i := f (srv_at p i)] \<and> acct_fields q = acct_fields p"

lemma ch_remove_last_ok:
  assumes core: "ch_core N p" and iN: "i < N" and pos: "0 < lb_nodes_now (srv_at p i)"
  obtains q where "ch_remove_last i p = Inr q" "ch_core N q" "ch_step i (set_now (lb_nodes_now (srv_at p i) - 1)) p q"
proof -
  define s n where "s = srv_at p i" and "n = lb_nodes_now (srv_at p i) - 1"
  have i: "i < length (px_srv p)" by (rule ch_core_len [OF core iN])
  have s: "ch_srv_ok s" using ch_core_srv [OF core iN] by (simp add: s_def)
  have n: "unat (lb_nodes_now s) = Suc (unat n)"
    using pos unat_minus_one [of "lb_nodes_now s"] by (simp add: s_def n_def word_less_nat_alt word_neq_0_conv)
  have now: "(if lb_nodes_tot s \<le> lb_nodes_now s then lb_nodes_tot s else lb_nodes_now s) = lb_nodes_now s"
    using s by (auto simp: ch_srv_ok_def)
  have lt: "n < lb_nodes_tot s" "unat n < length (lb_nodes s)"
    using s n by (auto simp: ch_srv_ok_def word_less_nat_alt word_le_nat_alt)
  define p1 where "p1 = ch_unlast i (unat n) (upd_srv i (set_now n) p)"
  define q where "q = p1\<lparr>chash_act := eb32_delete (i, unat n) (chash_act p1), chash_bck := eb32_delete (i, unat n) (chash_bck p1)\<rparr>"
  have srv: "px_srv q = (px_srv p)[i := set_now n s]" "px_srv p1 = (px_srv p)[i := set_now n s]"
    by (simp_all add: q_def p1_def ch_unlast_def s_def px_srv_upd_srv)
  have trees: "chash_act p1 = chash_act p" "chash_bck p1 = chash_bck p"
    by (simp_all add: p1_def ch_unlast_def)
  have del: "set (eb32_delete m t) = {e \<in> set t. snd e \<noteq> m}" for m and t :: "tree_occ eb_root"
    by (auto simp: eb32_delete_def)
  have occs: "ch_occs N b q = {e \<in> ch_occs N b p. snd e \<noteq> (i, unat n)}" for b
    by (rule ch_occs_pred [OF i]) (use n srv in \<open>simp_all add: s_def\<close>)
  have last: "m \<in> set (eb_nodes (chash_act q)) \<union> set (eb_nodes (chash_bck q))" if "chash_last q = Some m" for m
  proof -
    have "m \<noteq> (i, unat n) \<and> m \<in> set (eb_nodes (chash_act p)) \<union> set (eb_nodes (chash_bck p))"
    proof (cases "chash_last p = Some (i, unat n)")
      case True
      with that show ?thesis
        using chash_skip_node_in [of "ch_tree (srv_at (upd_srv i (set_now n) p) i) (upd_srv i (set_now n) p)" "(i, unat n)" m]
        by (auto simp: q_def p1_def ch_unlast_def ch_tree_def split: if_splits)
    next
      case False
      with that core show ?thesis by (auto simp: q_def p1_def ch_unlast_def ch_core_def)
    qed
    then show ?thesis by (simp add: q_def trees)
  qed
  have sok: "N \<le> length (px_srv q) \<and> (\<forall>j < N. ch_srv_ok (srv_at q j))"
    using core i ch_srv_ok_now [OF s less_imp_le [OF lt(1)]]
    by (auto simp: srv(1) ch_core_def nth_list_update)
  have sets: "set (chash_act q) = ch_occs N False q" "set (chash_bck q) = ch_occs N True q"
    using core by (simp_all add: occs) (simp_all add: q_def del trees ch_core_def)
  have ords: "eb_ordered (chash_act q)" "eb_ordered (chash_bck q)"
    using core by (simp_all add: q_def trees eb_ordered_delete ch_core_def)
  have "ch_core N q"
    unfolding ch_core_def using ords sets sok last by blast
  moreover have "ch_remove_last i p = Inr q"
    using now lt by (simp add: ch_remove_last_def Let_def s_def [symmetric] n_def [folded s_def, symmetric] q_def p1_def)
  moreover have "ch_step i (set_now n) p q"
    by (simp add: ch_step_def srv s_def acct_fields_def) (simp add: q_def p1_def ch_unlast_def)
  ultimately show thesis using that by (simp add: n_def)
qed

lemma ch_stepD:
  assumes "ch_step i f p q" and "i < length (px_srv p)"
  shows "length (px_srv q) = length (px_srv p)" "srv_at q i = f (srv_at p i)" "acct_fields q = acct_fields p"
  using assms by (simp_all add: ch_step_def)

lemma ch_step_trans:
  "\<lbrakk>ch_step i f p q; ch_step i g q r; i < length (px_srv p)\<rbrakk> \<Longrightarrow> ch_step i (\<lambda>s. g (f s)) p r"
  by (simp add: ch_step_def)

lemma ch_step_cong: "ch_step i f p q \<Longrightarrow> f (srv_at p i) = g (srv_at p i) \<Longrightarrow> ch_step i g p q"
  by (simp add: ch_step_def)

lemma ch_step_refl: "f (srv_at p i) = srv_at p i \<Longrightarrow> ch_step i f p p"
  by (simp add: ch_step_def)

lemma ch_shrink_ok:
  assumes "ch_core N p" and "i < N"
  shows "\<exists>q. ch_shrink b i p = Inr q \<and> ch_core N q \<and> ch_step i (\<lambda>s. set_now (min (lb_nodes_now s) b) s) p q"
  using assms
proof (induction b i p rule: ch_shrink.induct)
  case (1 b i p)
  note i = ch_core_len [OF 1(2,3)]
  show ?case
  proof (cases "b < lb_nodes_now (srv_at p i)")
    case False
    then show ?thesis
      using 1(2) i by (intro exI [of _ p]) (auto simp: ch_shrink.simps [of b i p] intro!: ch_step_refl)
  next
    case True
    then have "0 < lb_nodes_now (srv_at p i)" by (simp add: word_less_nat_alt)
    from ch_remove_last_ok [OF 1(2,3) this] obtain q where
      q: "ch_remove_last i p = Inr q" "ch_core N q" "ch_step i (set_now (lb_nodes_now (srv_at p i) - 1)) p q" .
    from 1(1) [OF _ q(1,2) 1(3)] i True obtain r where
      r: "ch_shrink b i q = Inr r" "ch_core N r" "ch_step i (\<lambda>s. set_now (min (lb_nodes_now s) b) s) q r" by auto
    have "b \<le> lb_nodes_now (srv_at p i) - 1"
      using True \<open>0 < lb_nodes_now (srv_at p i)\<close> unat_minus_one [of "lb_nodes_now (srv_at p i)"]
      by (simp add: word_less_nat_alt word_le_nat_alt word_neq_0_conv)
    then have "min (lb_nodes_now (srv_at p i) - 1) b = b" by (rule min.absorb2)
    then have "ch_step i (\<lambda>s. set_now (min (lb_nodes_now s) b) s) p r"
      using True by (intro ch_step_cong [OF ch_step_trans [OF q(3) r(3) i]]) simp
    with r q(1) True i show ?thesis by (simp add: ch_shrink.simps [of b i p])
  qed
qed

lemma ch_add_node_ok:
  assumes core: "ch_core N p" and iN: "i < N"
    and lt: "lb_nodes_now (srv_at p i) < lb_nodes_tot (srv_at p i)"
  shows "ch_core N (ch_add_node i p) \<and> ch_step i (set_now (lb_nodes_now (srv_at p i) + 1)) p (ch_add_node i p)"
proof -
  define s k q where "s = srv_at p i" and "k = unat (lb_nodes_now (srv_at p i))" and "q = ch_add_node i p"
  have i: "i < length (px_srv p)" by (rule ch_core_len [OF core iN])
  have s: "ch_srv_ok s" using ch_core_srv [OF core iN] by (simp add: s_def)
  have new: "(i, k) \<notin> set (eb_nodes (chash_act p))" "(i, k) \<notin> set (eb_nodes (chash_bck p))"
    using ch_core_nodes [OF core, of "(i, k)"] by (simp_all add: k_def)
  then have nl: "ch_unlast i k p = p"
    using core by (auto simp: ch_unlast_def ch_core_def)
  have trees: "chash_act q = (if is_backup s then chash_act p else eb32_insert (lb_nodes s ! k) (i, k) (chash_act p))"
    "chash_bck q = (if is_backup s then eb32_insert (lb_nodes s ! k) (i, k) (chash_bck p) else chash_bck p)"
    "chash_last q = chash_last p" "acct_fields q = acct_fields p"
    using s nl by (simp_all add: q_def ch_add_node_def Let_def s_def [symmetric] k_def [folded s_def, symmetric]
        ch_srv_ok_def root_of_def acct_fields_def)
  have srv: "px_srv q = (px_srv p)[i := set_now (lb_nodes_now s + 1) s]"
    by (simp add: q_def ch_add_node_srv s_def)
  have k1: "unat (lb_nodes_now s + 1) = Suc k"
    using lt by (simp add: k_def s_def word_less_nat_alt unat_add_1_less)
  then have le: "lb_nodes_now s + 1 \<le> lb_nodes_tot s"
    using lt by (simp add: word_le_nat_alt word_less_nat_alt s_def k_def)
  have occs: "ch_occs N b q = ch_occs N b p \<union> (if is_backup s = b then {(lb_nodes s ! k, (i, k))} else {})" for b
    using ch_occs_succ [OF i iN, of "lb_nodes_now s + 1" q b] k1 srv by (simp add: s_def k_def)
  have sok: "N \<le> length (px_srv q) \<and> (\<forall>j < N. ch_srv_ok (srv_at q j))"
    using core i ch_srv_ok_now [OF s le]
    by (auto simp: srv ch_core_def nth_list_update)
  have sets: "set (chash_act q) = ch_occs N False q" "set (chash_bck q) = ch_occs N True q"
    using core by (auto simp: occs trees ch_core_def)
  have ords: "eb_ordered (chash_act q)" "eb_ordered (chash_bck q)"
    using core new by (simp_all add: trees eb_ordered_insert ch_core_def)
  have last: "\<forall>n. chash_last q = Some n \<longrightarrow> n \<in> set (eb_nodes (chash_act q)) \<union> set (eb_nodes (chash_bck q))"
    using core by (auto simp: trees ch_core_def)
  have "ch_core N q"
    unfolding ch_core_def using ords sets sok last by blast
  moreover have "ch_step i (set_now (lb_nodes_now s + 1)) p q"
    by (simp add: ch_step_def srv trees s_def)
  ultimately show ?thesis by (simp add: q_def s_def)
qed

lemma ch_extend_ok:
  assumes "ch_core N p" and "i < N" and "lb_nodes_now (srv_at p i) \<le> next_eweight (srv_at p i)"
  shows "\<exists>q. ch_extend i p = Inr q \<and> ch_core N q \<and>
    ch_step i (\<lambda>s. set_now (min (next_eweight s) (lb_nodes_tot s)) s) p q"
  using assms
proof (induction i p rule: ch_extend.induct)
  case (1 i p)
  define s where "s = srv_at p i"
  note il = ch_core_len [OF 1(2,3)]
  have s: "ch_srv_ok s" using ch_core_srv [OF 1(2,3)] by (simp add: s_def)
  show ?case
  proof (cases "lb_nodes_now s < next_eweight s \<and> lb_nodes_now s < lb_nodes_tot s")
    case False
    then have "lb_nodes_now s = min (next_eweight s) (lb_nodes_tot s)"
      using s 1(4) by (auto simp: ch_srv_ok_def s_def min_def)
    with False 1(2) il show ?thesis
      by (intro exI [of _ p]) (auto simp: ch_extend.simps [of i p] s_def Let_def intro!: ch_step_refl)
  next
    case True
    let ?q = "ch_add_node i p"
    have q: "ch_core N ?q" "ch_step i (set_now (lb_nodes_now s + 1)) p ?q"
      using ch_add_node_ok [OF 1(2,3)] True by (simp_all add: s_def)
    have k1: "unat (lb_nodes_now s + 1) = Suc (unat (lb_nodes_now s))"
      using True unat_add_1_less [of "lb_nodes_now s" "next_eweight s"] by (simp add: word_less_nat_alt)
    have len: "unat (lb_nodes_now s) < length (lb_nodes s)"
      using s True by (simp add: ch_srv_ok_def word_less_nat_alt)
    have le: "lb_nodes_now (srv_at ?q i) \<le> next_eweight (srv_at ?q i)"
      using ch_stepD [OF q(2) il] True k1 by (simp_all add: s_def word_le_nat_alt word_less_nat_alt)
    from 1(1) [OF refl _ _ q(1) 1(3) le] il True len obtain r where
      r: "ch_extend i ?q = Inr r" "ch_core N r" "ch_step i (\<lambda>s. set_now (min (next_eweight s) (lb_nodes_tot s)) s) ?q r"
      by (auto simp: s_def)
    have "ch_step i (\<lambda>s. set_now (min (next_eweight s) (lb_nodes_tot s)) s) p r"
      by (intro ch_step_cong [OF ch_step_trans [OF q(2) r(3) il]]) simp
    with r True len il show ?thesis by (simp add: ch_extend.simps [of i p] s_def Let_def)
  qed
qed

text \<open>The number of allocated nodes after an adjustment.\<close>

definition ch_tot :: "(u32 \<Rightarrow> bool) \<Rightarrow> server \<Rightarrow> u32" where
  "ch_tot alloc s =
     (if lb_nodes_tot s < next_eweight s \<and> alloc (next_eweight s) then next_eweight s else lb_nodes_tot s)"

abbreviation set_nodes :: "u32 \<Rightarrow> u32 \<Rightarrow> server \<Rightarrow> server" where
  "set_nodes t n s \<equiv> s\<lparr>lb_nodes := map (ch_key s) [0..<unat t], lb_nodes_tot := t, lb_nodes_now := n\<rparr>"

lemma ch_core_realloc:
  assumes core: "ch_core N p" and iN: "i < N" and now: "lb_nodes_now (srv_at p i) = 0"
    and f: "ch_srv_ok (f (srv_at p i))" "lb_nodes_now (f (srv_at p i)) = 0" "is_backup (f (srv_at p i)) = is_backup (srv_at p i)"
  shows "ch_core N (upd_srv i f p)"
proof -
  have N: "N \<le> length (px_srv p)" using core by (simp add: ch_core_def)
  then have nth: "j < N \<Longrightarrow> srv_at (upd_srv i f p) j = (if i = j then f (srv_at p j) else srv_at p j)" for j by simp
  have "ch_occs N b (upd_srv i f p) = ch_occs N b p" for b
    using now f by (auto simp: ch_occs_def nth split: if_splits)
  moreover have "\<forall>j < N. ch_srv_ok (srv_at (upd_srv i f p) j)"
    using core f(1) by (auto simp: nth ch_core_def)
  ultimately show ?thesis using core by (simp add: ch_core_def)
qed

lemma upt_split: "a < b \<Longrightarrow> [0..<a] @ [a..<b] = [0..<b]" for a b :: nat
  using upt_add_eq_append [of 0 a "b - a"] by simp

lemma ch_realloc_ok:
  assumes core: "ch_core N p" and iN: "i < N"
  shows "\<exists>q. ch_realloc alloc i p = Inr q \<and> ch_core N q \<and>
    ch_step i (\<lambda>s. set_nodes (ch_tot alloc s) (if lb_nodes_tot s < next_eweight s then 0 else lb_nodes_now s) s) p q"
proof (cases "lb_nodes_tot (srv_at p i) < next_eweight (srv_at p i)")
  case False
  then show ?thesis
    using core ch_core_srv [OF core iN]
    by (intro exI [of _ p]) (auto simp: ch_realloc_def ch_tot_def ch_srv_ok_def intro!: ch_step_refl)
next
  case True
  from ch_shrink_ok [OF core iN, of 0] obtain q where
    q: "chash_dequeue_srv i p = Inr q" "ch_core N q" "ch_step i (\<lambda>s. set_now (min (lb_nodes_now s) 0) s) p q"
    by (auto simp: chash_dequeue_srv_def)
  have i: "i < length (px_srv p)" by (rule ch_core_len [OF core iN])
  note qi = ch_stepD [OF q(3) i]
  define g where "g s = s\<lparr>lb_nodes := take (unat (lb_nodes_tot s)) (lb_nodes s) @
     map (ch_key s) [unat (lb_nodes_tot s)..<unat (next_eweight s)], lb_nodes_tot := next_eweight s\<rparr>" for s
  have s: "ch_srv_ok (srv_at p i)" by (rule ch_core_srv [OF core iN])
  have g: "g (srv_at q i) = set_nodes (next_eweight (srv_at p i)) 0 (srv_at p i)"
    using True s unfolding g_def qi
    by (simp add: ch_srv_ok_def word_less_nat_alt map_append [symmetric] upt_split del: map_append)
  have "ch_srv_ok (g (srv_at q i))" "lb_nodes_now (g (srv_at q i)) = 0" "is_backup (g (srv_at q i)) = is_backup (srv_at q i)"
    using s unfolding g by (simp_all add: ch_srv_ok_def root_of_def is_backup_def qi)
  then have "ch_core N (upd_srv i g q)"
    using iN q(2) by (intro ch_core_realloc) (simp_all add: qi)
  moreover have "ch_step i (\<lambda>s. set_nodes (next_eweight s) 0 s) p (upd_srv i g q)"
    using i qi q(3) g by (simp add: ch_step_def px_srv_upd_srv)
  moreover have "ch_step i (\<lambda>s. set_nodes (lb_nodes_tot s) 0 s) p q"
    using s by (intro ch_step_cong [OF q(3)]) (simp add: ch_srv_ok_def)
  moreover have "next_eweight (srv_at q i) = next_eweight (srv_at p i)" by (simp add: qi)
  ultimately show ?thesis
    using True q by (auto simp: ch_realloc_def ch_tot_def g_def [abs_def] intro: ch_step_cong)
qed

lemma chash_queue_dequeue_ok:
  assumes core: "ch_core N p" and iN: "i < N"
  shows "\<exists>q. chash_queue_dequeue_srv alloc i p = Inr q \<and> ch_core N q \<and>
    ch_step i (\<lambda>s. set_nodes (ch_tot alloc s) (min (next_eweight s) (ch_tot alloc s)) s) p q"
proof -
  have s: "ch_srv_ok (srv_at p i)" by (rule ch_core_srv [OF core iN])
  from ch_shrink_ok [OF core iN] obtain q where
    q: "ch_shrink (next_eweight (srv_at p i)) i p = Inr q" "ch_core N q"
      "ch_step i (\<lambda>s. set_now (min (lb_nodes_now s) (next_eweight (srv_at p i))) s) p q" by blast
  have i: "i < length (px_srv p)" by (rule ch_core_len [OF core iN])
  note qi = ch_stepD [OF q(3) i]
  from ch_realloc_ok [OF q(2) iN, of alloc] obtain r where
    r: "ch_realloc alloc i q = Inr r" "ch_core N r" "ch_step i (\<lambda>s. set_nodes (ch_tot alloc s)
      (if lb_nodes_tot s < next_eweight s then 0 else lb_nodes_now s) s) q r" by auto
  have iq: "i < length (px_srv q)" using i qi(1) by simp
  note ri = ch_stepD [OF r(3) iq]
  have "lb_nodes_now (srv_at r i) \<le> next_eweight (srv_at r i)"
    by (simp add: ri qi)
  from ch_extend_ok [OF r(2) iN this] obtain t where
    t: "ch_extend i r = Inr t" "ch_core N t" "ch_step i (\<lambda>s. set_now (min (next_eweight s) (lb_nodes_tot s)) s) r t" by auto
  have tot: "ch_tot alloc (set_now n s) = ch_tot alloc s" for n s by (simp add: ch_tot_def)
  have "ch_step i (\<lambda>s. set_nodes (ch_tot alloc s) (min (next_eweight s) (ch_tot alloc s)) s) p t"
    by (rule ch_step_cong [OF ch_step_trans [OF q(3) ch_step_trans [OF r(3) t(3) iq] i]]) (simp add: tot)
  with q r t show ?thesis by (auto simp: chash_queue_dequeue_srv_def)
qed

section \<open>The callbacks keep the trees\<close>

text \<open>Server \<open>j\<close> is in its tree as often as its weight, as far as nodes could be allocated.\<close>

definition ch_tinv :: "(srv_ref \<Rightarrow> u32) \<Rightarrow> proxy \<Rightarrow> bool" where
  "ch_tinv W p \<longleftrightarrow> ch_core (length (px_srv p)) p \<and>
     (\<forall>j < length (px_srv p). lb_nodes_now (srv_at p j) = min (W j) (lb_nodes_tot (srv_at p j)))"

definition c_total :: "(srv_ref \<Rightarrow> proxy \<Rightarrow> proxy c_result) \<Rightarrow> srv_ref \<Rightarrow> proxy \<Rightarrow> proxy" where
  "c_total f i p = (case f i p of Inr q \<Rightarrow> q | Inl _ \<Rightarrow> p)"

definition chash_cb :: "(u32 \<Rightarrow> bool) \<Rightarrow> lb_callback \<Rightarrow> srv_ref \<Rightarrow> proxy \<Rightarrow> proxy" where
  "chash_cb alloc = shape_cb (c_total (chash_set_server_status_up alloc)) (c_total chash_set_server_status_down)
     (c_total (chash_update_server_weight alloc))"

lemma ch_core_cong:
  assumes "chash_act q = chash_act p" "chash_bck q = chash_bck p" "chash_last q = chash_last p"
    and len: "length (px_srv q) = length (px_srv p)"
    and nth: "\<And>j. j < length (px_srv p) \<Longrightarrow> lb_nodes (srv_at q j) = lb_nodes (srv_at p j) \<and>
      lb_nodes_now (srv_at q j) = lb_nodes_now (srv_at p j) \<and> lb_nodes_tot (srv_at q j) = lb_nodes_tot (srv_at p j) \<and>
      lb_tree (srv_at q j) = lb_tree (srv_at p j) \<and> is_backup (srv_at q j) = is_backup (srv_at p j) \<and>
      puid (srv_at q j) = puid (srv_at p j)"
  shows "ch_tinv W q = ch_tinv W p"
proof -
  have "ch_occs (length (px_srv p)) b q = ch_occs (length (px_srv p)) b p" for b
    using nth by (auto simp: ch_occs_def)
  moreover have "(\<forall>j < length (px_srv p). ch_srv_ok (srv_at q j)) = (\<forall>j < length (px_srv p). ch_srv_ok (srv_at p j))"
    using nth by (auto simp: ch_srv_ok_def root_of_def)
  ultimately have "ch_core (length (px_srv q)) q = ch_core (length (px_srv p)) p"
    using assms(1-3) len by (simp add: ch_core_def)
  then show "ch_tinv W q = ch_tinv W p" using len nth by (simp add: ch_tinv_def)
qed

lemma chash_acct_frame:
  "chash_act (acct_srv_down i p) = chash_act p" "chash_bck (acct_srv_down i p) = chash_bck p"
  "chash_last (acct_srv_down i p) = chash_last p"
  "chash_act (acct_srv_up i p) = chash_act p" "chash_bck (acct_srv_up i p) = chash_bck p"
  "chash_last (acct_srv_up i p) = chash_last p"
  "chash_act (acct_srv_reweight i p) = chash_act p" "chash_bck (acct_srv_reweight i p) = chash_bck p"
  "chash_last (acct_srv_reweight i p) = chash_last p"
  "chash_act (update_backend_weight p) = chash_act p" "chash_bck (update_backend_weight p) = chash_bck p"
  "chash_last (update_backend_weight p) = chash_last p"
  by (simp_all add: acct_srv_down_def acct_srv_up_def acct_srv_reweight_def elect_fbck_def Let_def
      update_backend_weight_def split: option.splits)

lemma ch_tinv_acct:
  "ch_tinv W (acct_srv_down i p) = ch_tinv W p" "ch_tinv W (acct_srv_up i p) = ch_tinv W p"
  "ch_tinv W (acct_srv_reweight i p) = ch_tinv W p" "ch_tinv W (update_backend_weight p) = ch_tinv W p"
  "ch_tinv W (upd_srv i srv_lb_commit_status p) = ch_tinv W p" "ch_tinv W (upd_srv i (set_pending e) p) = ch_tinv W p"
  by (rule ch_core_cong; simp add: chash_acct_frame srv_lb_commit_status_def set_pending_def is_backup_def)+

lemma ch_step_same_acct:
  assumes "ch_step i f p q" and "acct_key (f (srv_at p i)) = acct_key (srv_at p i)"
  shows "same_acct p q"
  using assms by (intro same_acctI) (auto simp: ch_step_def, metis nth_list_update_eq nth_list_update_neq)

lemma ch_tinv_step:
  assumes "ch_tinv W p" and "ch_core (length (px_srv p)) q" and "ch_step i f p q" and "i < length (px_srv p)"
    and "lb_nodes_now (f (srv_at p i)) = min w (lb_nodes_tot (f (srv_at p i)))"
  shows "ch_tinv (W(i := w)) q"
  using assms by (auto simp: ch_tinv_def ch_step_def nth_list_update)

text \<open>Under the invariant the operations do not fault, and their steps are of the common shape.\<close>

lemma c_total_Inr: "f i p = Inr q \<Longrightarrow> c_total f i p = q"
  by (simp add: c_total_def)

lemma chash_ops_total:
  assumes "ch_core (length (px_srv p)) p" and "i < length (px_srv p)"
  shows "chash_dequeue_srv i p = Inr (c_total chash_dequeue_srv i p)"
    "chash_queue_dequeue_srv alloc i p = Inr (c_total (chash_queue_dequeue_srv alloc) i p)"
  using ch_shrink_ok [OF assms, of 0] chash_queue_dequeue_ok [OF assms, of alloc]
  by (auto simp: c_total_def chash_dequeue_srv_def)

lemma ch_upd_same_acct:
  assumes "px_srv q = (px_srv p)[i := f (srv_at p i)]" and "acct_fields q = acct_fields p"
    and "acct_key (f (srv_at p i)) = acct_key (srv_at p i)"
  shows "same_acct p q"
  using assms by (intro ch_step_same_acct [of i f]) (simp_all add: ch_step_def)

lemma upd_srv_same_acct: "(\<And>s. acct_key (f s) = acct_key s) \<Longrightarrow> same_acct p (upd_srv i f p)"
  by (rule ch_upd_same_acct [OF px_srv_upd_srv]) simp_all

lemma ch_remove_last_same_acct: "ch_remove_last i p = Inr q \<Longrightarrow> same_acct p q"
  by (rule ch_upd_same_acct [of _ _ i "set_now ((if lb_nodes_tot (srv_at p i) \<le> lb_nodes_now (srv_at p i)
        then lb_nodes_tot (srv_at p i) else lb_nodes_now (srv_at p i)) - 1)"])
     (auto simp: ch_remove_last_def ch_unlast_def Let_def px_srv_upd_srv acct_fields_def split: if_splits)

lemma ch_shrink_same_acct: "ch_shrink b i p = Inr q \<Longrightarrow> same_acct p q"
proof (induction b i p rule: ch_shrink.induct)
  case (1 b i p)
  then show ?case
    by (subst (asm) (2) ch_shrink.simps)
       (auto split: if_splits sum.splits intro: same_acct_refl same_acct_trans ch_remove_last_same_acct)
qed

lemma ch_add_node_same_acct: "same_acct p (ch_add_node i p)"
  by (rule ch_upd_same_acct [of _ _ i "set_now (lb_nodes_now (srv_at p i) + 1)"])
     (auto simp: px_srv_upd_srv ch_add_node_def ch_unlast_def Let_def acct_fields_def split: option.splits eb_root_ptr.splits)

lemma ch_extend_same_acct: "ch_extend i p = Inr q \<Longrightarrow> same_acct p q"
proof (induction i p rule: ch_extend.induct)
  case (1 i p)
  then show ?case
    by (subst (asm) (2) ch_extend.simps)
       (auto simp: Let_def split: if_splits intro: same_acct_refl same_acct_trans ch_add_node_same_acct)
qed

lemma ch_realloc_same_acct: "ch_realloc alloc i p = Inr q \<Longrightarrow> same_acct p q"
  by (auto simp: ch_realloc_def c_bind_Inr_iff chash_dequeue_srv_def split: if_splits
      intro!: same_acct_refl same_acct_trans [OF ch_shrink_same_acct upd_srv_same_acct] intro: ch_shrink_same_acct)

lemma chash_ops_same_acct:
  "same_acct p (c_total chash_dequeue_srv i p)" "same_acct p (c_total (chash_queue_dequeue_srv alloc) i p)"
  by (auto simp: c_total_def chash_dequeue_srv_def chash_queue_dequeue_srv_def c_bind_Inr_iff
      split: sum.splits intro: same_acct_refl ch_shrink_same_acct)
     (meson ch_extend_same_acct ch_realloc_same_acct ch_shrink_same_acct same_acct_trans)

text \<open>The weight update adjusts the tree before it updates the totals, which does not matter.\<close>

abbreviation with_tot :: "c_int \<Rightarrow> c_int \<Rightarrow> proxy \<Rightarrow> proxy" where
  "with_tot a b p \<equiv> p\<lparr>tot_wact := a, tot_wbck := b\<rparr>"

lemma upd_srv_with_tot: "upd_srv i f (with_tot a b p) = with_tot a b (upd_srv i f p)"
  by (simp add: upd_srv_def)

lemma ch_remove_last_tot: "ch_remove_last i (with_tot a b p) = c_bind (ch_remove_last i p) (\<lambda>q. Inr (with_tot a b q))"
  by (simp add: ch_remove_last_def ch_unlast_def ch_tree_def Let_def upd_srv_with_tot)

lemma ch_add_node_tot: "ch_add_node i (with_tot a b p) = with_tot a b (ch_add_node i p)"
  by (simp add: ch_add_node_def ch_unlast_def ch_tree_def Let_def upd_srv_with_tot split: option.splits eb_root_ptr.splits)
     (simp add: upd_srv_def)

lemma ch_shrink_tot: "ch_shrink w i (with_tot a b p) = c_bind (ch_shrink w i p) (\<lambda>q. Inr (with_tot a b q))"
proof (induction w i p rule: ch_shrink.induct)
  case (1 w i p)
  show ?case
    using 1 by (subst (1 2) ch_shrink.simps) (auto simp: ch_remove_last_tot split: sum.splits)
qed

lemma ch_extend_tot: "ch_extend i (with_tot a b p) = c_bind (ch_extend i p) (\<lambda>q. Inr (with_tot a b q))"
proof (induction i p rule: ch_extend.induct)
  case (1 i p)
  show ?case
    using 1 by (subst (1 2) ch_extend.simps) (simp add: ch_add_node_tot Let_def)
qed

lemma chash_queue_dequeue_tot:
  "chash_queue_dequeue_srv alloc i (with_tot a b p) = c_bind (chash_queue_dequeue_srv alloc i p) (\<lambda>q. Inr (with_tot a b q))"
proof -
  have "ch_realloc alloc i (with_tot a b q) = c_bind (ch_realloc alloc i q) (\<lambda>q. Inr (with_tot a b q))" for q
    by (simp add: ch_realloc_def chash_dequeue_srv_def ch_shrink_tot upd_srv_with_tot)
       (auto simp: c_bind_assoc upd_srv_with_tot intro!: arg_cong [where f = "c_bind _"])
  then show ?thesis
    by (simp add: chash_queue_dequeue_srv_def ch_shrink_tot ch_extend_tot c_bind_assoc)
qed

lemma acct_srv_reweight_eq:
  "acct_srv_reweight i p =
     with_tot (tot_wact p + (if is_backup (srv_at p i) then 0 else next_eweight (srv_at p i) - cur_eweight (srv_at p i)))
       (tot_wbck p + (if is_backup (srv_at p i) then next_eweight (srv_at p i) - cur_eweight (srv_at p i) else 0)) p"
  by (simp add: acct_srv_reweight_def Let_def)

lemma chash_queue_dequeue_reweight:
  assumes "chash_queue_dequeue_srv alloc i p = Inr q" and "i < length (px_srv p)"
  shows "chash_queue_dequeue_srv alloc i (acct_srv_reweight i p) = Inr (acct_srv_reweight i q)"
proof -
  have sa: "same_acct p q"
    using chash_ops_same_acct(2) [of p alloc i] assms(1) by (simp add: c_total_def)
  have key: "acct_key (srv_at q i) = acct_key (srv_at p i)" "tot_wact q = tot_wact p" "tot_wbck q = tot_wbck p"
    using sa assms(2) same_acct_length [OF sa] unfolding same_acct_def by (metis nth_map)+
  then show ?thesis
    using assms(1) unfolding acct_srv_reweight_eq chash_queue_dequeue_tot by (simp add: acct_key_def)
qed

interpretation chash: tree_callbacks ch_tinv "c_total (chash_queue_dequeue_srv alloc)" "c_total chash_dequeue_srv"
  "c_total (chash_queue_dequeue_srv alloc)" "c_total (chash_set_server_status_up alloc)"
  "c_total chash_set_server_status_down" "c_total (chash_update_server_weight alloc)"
proof
  fix W i and p :: proxy
  assume ti: "ch_tinv W p" and i: "i < length (px_srv p)"
  let ?q = "c_total (chash_queue_dequeue_srv alloc) i p"
  have core: "ch_core (length (px_srv p)) p" using ti by (simp add: ch_tinv_def)
  have "ch_tinv (W(i := next_eweight (srv_at p i))) ?q"
    using chash_queue_dequeue_ok [OF core i, of alloc]
    by (auto simp: c_total_def intro!: ch_tinv_step [OF ti _ _ i])
  then show "ch_tinv (W(i := next_eweight (srv_at p i))) ?q" "ch_tinv (W(i := next_eweight (srv_at p i))) ?q"
    by blast+
  show "ch_tinv (W(i := 0)) (c_total chash_dequeue_srv i p)"
    using ch_shrink_ok [OF core i, of 0]
    by (auto simp: c_total_def chash_dequeue_srv_def intro!: ch_tinv_step [OF ti _ _ i])
next
  fix i and p :: proxy
  assume ti: "ch_tinv (lb_weights p) p" and rdy: "lb_ready i p"
  have i: "i < length (px_srv p)" using rdy by (simp add: lb_ready_def)
  have core: "ch_core (length (px_srv p)) p" "ch_core (length (px_srv (acct_srv_down i p))) (acct_srv_down i p)"
    "ch_core (length (px_srv (acct_srv_up i p))) (acct_srv_up i p)"
    using ti ch_tinv_acct(1,2) [of "lb_weights p" i p] by (auto simp: ch_tinv_def)
  note tot = chash_ops_total [OF core(1) i] chash_ops_total [OF core(2), of i] chash_ops_total [OF core(3), of i]
  show down: "c_total chash_set_server_status_down i p = status_down_shape (c_total chash_dequeue_srv) i p"
    using tot i by (simp add: c_total_def [of chash_set_server_status_down] chash_set_server_status_down_def
        status_down_shape_def acct_commit_def Let_def)
  show up: "c_total (chash_set_server_status_up alloc) i p = status_up_shape (c_total (chash_queue_dequeue_srv alloc)) i p"
    using tot i by (simp add: c_total_def [of "chash_set_server_status_up alloc"] chash_set_server_status_up_def
        status_up_shape_def acct_commit_def Let_def)
  obtain q where q: "chash_queue_dequeue_srv alloc i p = Inr q"
    using tot(2) by blast
  have "c_total (chash_queue_dequeue_srv alloc) i (acct_srv_reweight i p) = acct_srv_reweight i q"
    by (simp add: c_total_def chash_queue_dequeue_reweight [OF q i])
  then show "c_total (chash_update_server_weight alloc) i p = update_weight_shape (c_total (chash_set_server_status_up alloc))
      (c_total chash_set_server_status_down) (c_total (chash_queue_dequeue_srv alloc)) i p"
    by (simp add: c_total_def [of "chash_update_server_weight alloc"] c_total_def [of "chash_set_server_status_up alloc"]
        c_total_def [of chash_set_server_status_down] chash_update_server_weight_def q
        update_weight_shape_def acct_commit_def Let_def)
qed (simp_all add: chash_ops_same_acct ch_tinv_acct)

definition chash_inv :: "proxy \<Rightarrow> bool" where
  "chash_inv p \<longleftrightarrow> ch_tinv (lb_weights p) p"

lemma chash_no_fault:
  assumes "chash_inv p" and "i < length (px_srv p)"
  shows "\<exists>q. chash_set_server_status_down i p = Inr q" "\<exists>q. chash_set_server_status_up alloc i p = Inr q"
    "\<exists>q. chash_update_server_weight alloc i p = Inr q"
proof -
  have core: "ch_core (length (px_srv p)) p" "ch_core (length (px_srv (acct_srv_down i p))) (acct_srv_down i p)"
    "ch_core (length (px_srv (acct_srv_up i p))) (acct_srv_up i p)"
    using assms(1) ch_tinv_acct(1,2) [of "lb_weights p" i p] by (auto simp: chash_inv_def ch_tinv_def)
  note tot = chash_ops_total(1) [OF core(2), of i] chash_ops_total(2) [OF core(3), of i alloc]
    chash_ops_total(2) [OF core(1) assms(2), of alloc]
  from tot(1,2) assms(2) obtain q r where
    q: "chash_dequeue_srv i (acct_srv_down i p) = Inr q" "chash_queue_dequeue_srv alloc i (acct_srv_up i p) = Inr r" by auto
  show down: "\<exists>q. chash_set_server_status_down i p = Inr q"
    by (simp add: chash_set_server_status_down_def Let_def q(1))
  show up: "\<exists>q. chash_set_server_status_up alloc i p = Inr q"
    by (simp add: chash_set_server_status_up_def Let_def q(2))
  from tot(3) obtain t where "chash_queue_dequeue_srv alloc i p = Inr t" by blast
  with up down show "\<exists>q. chash_update_server_weight alloc i p = Inr q"
    by (simp add: chash_update_server_weight_def Let_def)
qed

lemma chash_events_invariant:
  assumes "chash_inv p" "lb_acct p" "all_committed p" "run_events (chash_cb alloc) es p = Some q"
  shows "chash_inv q \<and> lb_acct q \<and> all_committed q"
  using chash.lb.events_ok [of p alloc es q] assms by (simp add: chash_inv_def chash_cb_def)

section \<open>Initialisation\<close>

abbreviation ch_fresh :: "server \<Rightarrow> server" where
  "ch_fresh s \<equiv> s\<lparr>lb_tree := Some (root_of s), lb_nodes_tot := uweight s * BE_WEIGHT_SCALE, lb_nodes_now := 0,
     lb_nodes := map (ch_key s) [0..<unat (uweight s * BE_WEIGHT_SCALE)]\<rparr>"

lemma ch_fresh_simps [simp]: "is_backup (ch_fresh s) = is_backup s" "root_of (ch_fresh s) = root_of s"
  "acct_key (ch_fresh s) = acct_key s"
  by (simp_all add: is_backup_def root_of_def)

lemma ch_core_fresh:
  assumes "ch_core k p" and "k < length (px_srv p)"
  shows "ch_core (Suc k) (upd_srv k ch_fresh p)"
proof -
  have "ch_occs (Suc k) b (upd_srv k ch_fresh p) = ch_occs k b p" for b
    using assms(2) by (auto simp: ch_occs_def less_Suc_eq)
  moreover have "\<forall>j < Suc k. ch_srv_ok (srv_at (upd_srv k ch_fresh p) j)"
    using assms by (auto simp: ch_core_def less_Suc_eq ch_srv_ok_def)
  ultimately show ?thesis using assms by (simp add: ch_core_def)
qed

definition ch_init_inv :: "proxy \<Rightarrow> nat \<Rightarrow> proxy \<Rightarrow> bool" where
  "ch_init_inv r k p \<longleftrightarrow> ch_core k p \<and> same_acct r p \<and>
     (\<forall>j < k. lb_nodes_now (srv_at p j) = min (lb_weights r j) (lb_nodes_tot (srv_at p j)))"

lemma ch_init_step:
  assumes inv: "ch_init_inv r k p" and k: "k < length (px_srv p)" and ac: "all_committed r"
  defines "p' \<equiv> upd_srv k ch_fresh p"
  shows "\<exists>q. (if srv_currently_usable (srv_at p' k) then chash_queue_dequeue_srv alloc k p' else Inr p') = Inr q \<and>
    ch_init_inv r (Suc k) q \<and> length (px_srv q) = length (px_srv p)"
proof -
  have core: "ch_core (Suc k) p'" using inv k by (simp add: p'_def ch_init_inv_def ch_core_fresh)
  have sa: "same_acct r p'"
    using inv by (auto simp: p'_def ch_init_inv_def intro!: same_acct_trans [OF _ upd_srv_same_acct])
  have len: "length (px_srv p') = length (px_srv p)" by (simp add: p'_def)
  have W: "lb_weights r = lb_weights p'" using same_acct_weights(1) [OF sa] by simp
  have old: "\<forall>j < k. lb_nodes_now (srv_at p' j) = min (lb_weights r j) (lb_nodes_tot (srv_at p' j))"
    using inv k by (auto simp: ch_init_inv_def p'_def)
  show ?thesis
  proof (cases "srv_currently_usable (srv_at p' k)")
    case False
    then have "lb_weights r k = 0" by (simp add: W lb_weights_def)
    with False core sa old k show ?thesis
      by (auto simp: ch_init_inv_def less_Suc_eq p'_def)
  next
    case True
    have "committed (srv_at p' k)"
      using same_acct_all_committed [OF sa ac] k by (simp add: all_committed_nth len)
    then have ew: "next_eweight (srv_at p' k) = lb_weights r k"
      using True k by (simp add: W lb_weights_def len committed_eweight)
    from chash_queue_dequeue_ok [OF core, of k alloc] obtain q where
      q: "chash_queue_dequeue_srv alloc k p' = Inr q" "ch_core (Suc k) q"
        "ch_step k (\<lambda>s. set_nodes (ch_tot alloc s) (min (next_eweight s) (ch_tot alloc s)) s) p' q" by auto
    have "same_acct r q"
      using chash_ops_same_acct(2) [of p' alloc k] q(1) same_acct_trans [OF sa] by (simp add: c_total_def)
    moreover have "\<forall>j < Suc k. lb_nodes_now (srv_at q j) = min (lb_weights r j) (lb_nodes_tot (srv_at q j))"
      using old q(3) ew k len by (auto simp: ch_step_def less_Suc_eq nth_list_update)
    ultimately show ?thesis
      using True q len k by (auto simp: ch_init_inv_def ch_step_def)
  qed
qed

lemma ch_init_loop_ok:
  assumes "all_committed r" and "ch_init_inv r k p" and "k \<le> length (px_srv p)"
  shows "\<exists>q rc. ch_init_loop alloc [k..<length (px_srv p)] p = Inr (q, rc) \<and>
    (if rc = 0 then ch_init_inv r (length (px_srv p)) q \<and> length (px_srv q) = length (px_srv p)
     else rc = -1 \<and> (\<exists>n. \<not> alloc n))"
  using assms(2,3)
proof (induction "length (px_srv p) - k" arbitrary: k p)
  case 0
  then show ?case by simp
next
  case (Suc d)
  then have k: "k < length (px_srv p)" by simp
  define p1 where "p1 = upd_srv k (\<lambda>s. s\<lparr>lb_tree := Some (root_of s), lb_nodes_tot := uweight s * BE_WEIGHT_SCALE,
    lb_nodes_now := 0, lb_nodes := []\<rparr>) p"
  have fresh: "upd_srv k (\<lambda>s. s\<lparr>lb_nodes := map (ch_key s) [0..<unat (lb_nodes_tot s)]\<rparr>) p1 = upd_srv k ch_fresh p"
    by (simp add: p1_def upd_srv_upd_srv)
  from ch_init_step [OF Suc.prems(1) k assms(1), of alloc] obtain q where
    q: "(if srv_currently_usable (srv_at (upd_srv k ch_fresh p) k)
         then chash_queue_dequeue_srv alloc k (upd_srv k ch_fresh p) else Inr (upd_srv k ch_fresh p)) = Inr q"
      "ch_init_inv r (Suc k) q" "length (px_srv q) = length (px_srv p)" by blast
  have step: "ch_init_loop alloc [k..<length (px_srv p)] p =
      (if \<not> alloc (lb_nodes_tot (srv_at p1 k)) then Inr (p1, -1) else ch_init_loop alloc [Suc k..<length (px_srv p)] q)"
    using k q(1) by (simp add: upt_conv_Cons Let_def root_of_if p1_def [symmetric] fresh)
  have "d = length (px_srv q) - Suc k" "Suc k \<le> length (px_srv q)"
    using Suc.hyps(2) q(3) k by simp_all
  from Suc.hyps(1) [OF this(1) q(2) this(2)] show ?case
    unfolding step q(3) by (cases "alloc (lb_nodes_tot (srv_at p1 k))") (simp, auto)
qed

lemma chash_init_ok:
  assumes "length (px_srv p) < 2 ^ 32"
  shows "\<exists>q rc. chash_init_server_tree alloc p = Inr (q, rc) \<and>
    (if rc = 0 then chash_inv q \<and> lb_acct q \<and> all_committed q else rc = -1 \<and> (\<exists>n. \<not> alloc n))"
proof -
  define r where "r = (init_weights_and_count p)\<lparr>chash_act := [], chash_bck := [], chash_last := None\<rparr>"
  have sa: "same_acct (init_weights_and_count p) r"
    by (rule same_acctI) (simp_all add: r_def acct_fields_def)
  have ac: "all_committed r" and la: "lb_acct r"
    using same_acct_all_committed [OF sa] same_acct_lb_acct [OF sa] init_weights_and_count_ok [OF assms] by blast+
  have "ch_init_inv r 0 r"
    by (simp add: ch_init_inv_def ch_core_def ch_occs_def same_acct_refl) (simp add: r_def)
  from ch_init_loop_ok [OF ac this, of alloc] obtain q rc where
    q: "ch_init_loop alloc [0..<length (px_srv r)] r = Inr (q, rc)"
      "if rc = 0 then ch_init_inv r (length (px_srv r)) q \<and> length (px_srv q) = length (px_srv r)
       else rc = -1 \<and> (\<exists>n. \<not> alloc n)" by auto
  have "chash_init_server_tree alloc p = Inr (q, rc)"
    using q(1) by (simp add: chash_init_server_tree_def Let_def r_def)
  moreover have "chash_inv q \<and> lb_acct q \<and> all_committed q" if "rc = 0"
  proof -
    from q(2) that have i: "ch_init_inv r (length (px_srv r)) q" "length (px_srv q) = length (px_srv r)" by simp_all
    then have rq: "same_acct r q" by (simp add: ch_init_inv_def)
    show ?thesis
      using i same_acct_lb_acct [OF rq la] same_acct_all_committed [OF rq ac] same_acct_weights(1) [OF rq]
      by (simp add: chash_inv_def ch_tinv_def ch_init_inv_def)
  qed
  ultimately show ?thesis using q(2) by auto
qed

end
