(* ===== verification/Backend_Hash.thy ===== *)
theory Backend_Hash
  imports Hash Lb_Map Lb_Chash Smartdrop_Gate
begin

text \<open>
  The hash-based lookups of \<^verbatim>\<open>src/haproxy/src/backend.c\<close>: what part of the request is hashed,
  and the server the hash leads to. A request is given by the pieces the functions read: the source
  address, the URI, the body, the value of the header or the RDP cookie, as bytes. The whitelist
  passed to consistent hashing is the constant that names every server.
\<close>

section \<open>Algorithm flags\<close>

abbreviation BE_LB_PARM :: u32 where "BE_LB_PARM \<equiv> 0x000FF"
abbreviation BE_LB_NEED :: u32 where "BE_LB_NEED \<equiv> 0x00F00"
abbreviation BE_LB_KIND :: u32 where "BE_LB_KIND \<equiv> 0x07000"
abbreviation BE_LB_LKUP :: u32 where "BE_LB_LKUP \<equiv> 0x70000"
abbreviation BE_LB_LKUP_MAP :: u32 where "BE_LB_LKUP_MAP \<equiv> 0x10000"
abbreviation BE_LB_LKUP_RRTREE :: u32 where "BE_LB_LKUP_RRTREE \<equiv> 0x20000"
abbreviation BE_LB_LKUP_LCTREE :: u32 where "BE_LB_LKUP_LCTREE \<equiv> 0x30000"
abbreviation BE_LB_LKUP_CHTREE :: u32 where "BE_LB_LKUP_CHTREE \<equiv> 0x40000"
abbreviation BE_LB_LKUP_FSTREE :: u32 where "BE_LB_LKUP_FSTREE \<equiv> 0x50000"
abbreviation BE_LB_HASH_MOD :: u32 where "BE_LB_HASH_MOD \<equiv> 0x200000"
abbreviation BE_LB_HMOD_AVAL :: u32 where "BE_LB_HMOD_AVAL \<equiv> 0x200000"
abbreviation BE_LB_HASH_FUNC :: u32 where "BE_LB_HASH_FUNC \<equiv> 0xC00000"
abbreviation BE_LB_HFCN_DJB2 :: u32 where "BE_LB_HFCN_DJB2 \<equiv> 0x400000"
abbreviation BE_LB_HFCN_WT6 :: u32 where "BE_LB_HFCN_WT6 \<equiv> 0x800000"
abbreviation BE_LB_HFCN_CRC32 :: u32 where "BE_LB_HFCN_CRC32 \<equiv> 0xC00000"

definition gen_hash :: "proxy \<Rightarrow> u8 list \<Rightarrow> u32" where
  "gen_hash px key =
     (let f = algo px AND BE_LB_HASH_FUNC
      in if f = BE_LB_HFCN_DJB2 then hash_djb2 key
         else if f = BE_LB_HFCN_WT6 then hash_wt6 key
         else if f = BE_LB_HFCN_CRC32 then hash_crc32 key
         else hash_sdbm key)"

text \<open>The end of every hash-based lookup: the avalanche modifier, then the ring or the map.\<close>

definition hash_modify :: "proxy \<Rightarrow> u32 \<Rightarrow> u32" where
  "hash_modify px hash = (if algo px AND BE_LB_HASH_MOD = BE_LB_HMOD_AVAL then full_hash hash else hash)"

definition hash_done :: "proxy \<Rightarrow> u32 \<Rightarrow> srv_ref option \<Rightarrow> srv_ref option c_result" where
  "hash_done px hash avoid =
     (if algo px AND BE_LB_LKUP = BE_LB_LKUP_CHTREE then chash_get_server_hash px hash avoid (Some ''1234567'')
      else map_get_server_hash px hash)"

section \<open>Source address\<close>

definition ntohl4 :: "u8 \<Rightarrow> u8 \<Rightarrow> u8 \<Rightarrow> u8 \<Rightarrow> u32" where
  "ntohl4 a b c d = push_bit 24 (ucast a) OR push_bit 16 (ucast b) OR push_bit 8 (ucast c) OR ucast d"

fun sh_loop :: "u8 list \<Rightarrow> u32 \<Rightarrow> u32" where
  "sh_loop (a # b # c # d # addr) h = sh_loop addr (h XOR ntohl4 a b c d)"
| "sh_loop addr h = h"

definition get_server_sh :: "proxy \<Rightarrow> u8 list \<Rightarrow> srv_ref option \<Rightarrow> srv_ref option c_result" where
  "get_server_sh px addr avoid =
     (if tot_weight px = 0 then Inr None
      else if tot_used px = 1 then hash_done px 0 avoid
      else hash_done px (hash_modify px (sh_loop addr 0)) avoid)"

section \<open>URI\<close>

abbreviation slash :: u8 where "slash \<equiv> 47"
abbreviation qmark :: u8 where "qmark \<equiv> 63"
abbreviation amp :: u8 where "amp \<equiv> 38"
abbreviation equals :: u8 where "equals \<equiv> 61"
abbreviation dot :: u8 where "dot \<equiv> 46"

text \<open>The part of the URI that the loop walks over.\<close>

fun uh_scan :: "c_int \<Rightarrow> c_int \<Rightarrow> c_int \<Rightarrow> u8 list \<Rightarrow> u8 list" where
  "uh_scan opt1 opt3 slashes [] = []"
| "uh_scan opt1 opt3 slashes (c # uri) =
     (if c = slash then
        (let slashes = slashes + 1 in if slashes = opt3 then [] else c # uh_scan opt1 opt3 slashes uri)
      else if c = qmark \<and> opt1 AND 1 = 0 then []
      else c # uh_scan opt1 opt3 slashes uri)"

text \<open>\<^verbatim>\<open>uri_len\<close> is reduced to the \<^verbatim>\<open>len\<close> argument; the loop counts it down to zero, so a
  negative one would run past the URI.\<close>

definition get_server_uh :: "proxy \<Rightarrow> u8 list \<Rightarrow> srv_ref option \<Rightarrow> srv_ref option c_result" where
  "get_server_uh px uri avoid =
     (if tot_weight px = 0 then Inr None
      else if tot_used px = 1 then hash_done px 0 avoid
      else
        let uri_len = (if arg_opt2 px \<noteq> 0 then min (int (length uri)) (sint (arg_opt2 px)) else int (length uri))
        in if uri_len < 0 then Inl OutOfBounds
           else
             let hash = gen_hash px (uh_scan (arg_opt1 px) (arg_opt3 px) 0 (take (nat uri_len) uri))
             in hash_done px (hash_modify px hash) avoid)"

section \<open>URL parameter\<close>

definition arg_bytes :: "proxy \<Rightarrow> u8 list" where
  "arg_bytes px = map of_char (arg_str px)"

text \<open>What follows the first occurrence of a byte, as \<^verbatim>\<open>memchr\<close> finds it.\<close>

definition after_byte :: "u8 \<Rightarrow> u8 list \<Rightarrow> u8 list option" where
  "after_byte b xs = (case dropWhile (\<lambda>c. c \<noteq> b) xs of [] \<Rightarrow> None | _ # ys \<Rightarrow> Some ys)"

lemma after_byte_length: "after_byte b xs = Some ys \<Longrightarrow> length ys < length xs"
  using length_dropWhile_le [of "\<lambda>c. c \<noteq> b" xs] by (auto simp: after_byte_def split: list.splits)

text \<open>The loop over the parameters: the value of the first one of the given name.\<close>

function ph_loop :: "u8 list \<Rightarrow> u8 list \<Rightarrow> u8 list option" where
  "ph_loop name params =
     (if length params \<le> length name then None
      else if params ! length name = equals \<and> take (length name) params = name then
        Some (takeWhile (\<lambda>c. c \<noteq> amp) (drop (length name + 1) params))
      else case after_byte amp params of None \<Rightarrow> None | Some params' \<Rightarrow> ph_loop name params')"
  by auto
termination
  by (relation "measure (\<lambda>(name, params). length params)") (auto dest: after_byte_length)

declare ph_loop.simps [simp del]

definition get_server_ph :: "proxy \<Rightarrow> u8 list \<Rightarrow> srv_ref option \<Rightarrow> srv_ref option c_result" where
  "get_server_ph px uri avoid =
     (if tot_weight px = 0 then Inr None
      else case after_byte qmark uri of
        None \<Rightarrow> Inr None
      | Some params \<Rightarrow>
          (case ph_loop (arg_bytes px) params of
             None \<Rightarrow> Inr None
           | Some value \<Rightarrow> hash_done px (hash_modify px (gen_hash px value)) avoid))"

text \<open>The character classes of \<^verbatim>\<open>http.c\<close> that matter below.\<close>

definition HTTP_IS_TOKEN :: "u8 \<Rightarrow> bool" where
  "HTTP_IS_TOKEN c \<longleftrightarrow> c \<in> {33, 35, 36, 37, 38, 39, 42, 43, 45, 46, 94, 95, 96, 124, 126} \<or>
     48 \<le> c \<and> c \<le> 57 \<or> 65 \<le> c \<and> c \<le> 90 \<or> 97 \<le> c \<and> c \<le> 122"

definition HTTP_IS_LWS :: "u8 \<Rightarrow> bool" where
  "HTTP_IS_LWS c \<longleftrightarrow> c \<in> {9, 10, 13, 32}"

text \<open>The loop over the value in a body tests the byte at \<^verbatim>\<open>p\<close>, which stays at the start of the
  value: \<open>None\<close> if the first byte is neither a token nor white space.\<close>

fun post_value :: "u8 \<Rightarrow> u8 list \<Rightarrow> u8 list option" where
  "post_value p [] = Some []"
| "post_value p (c # v) =
     (if c = amp then Some []
      else if \<not> HTTP_IS_TOKEN p then (if HTTP_IS_LWS p then Some [] else None)
      else map_option ((#) c) (post_value p v))"

definition ph_post_value :: "u8 list \<Rightarrow> u8 list option" where
  "ph_post_value v = (case v of [] \<Rightarrow> Some [] | c # _ \<Rightarrow> post_value c v)"

text \<open>The outcome is the value, or nothing.\<close>

function ph_post_loop :: "u8 list \<Rightarrow> u8 list \<Rightarrow> u8 list option" where
  "ph_post_loop name params =
     (if length params \<le> length name then None
      else if params ! length name = equals \<and> take (length name) params = name then
        ph_post_value (drop (length name + 1) params)
      else case after_byte amp params of None \<Rightarrow> None | Some params' \<Rightarrow> ph_post_loop name params')"
  by auto
termination
  by (relation "measure (\<lambda>(name, params). length params)") (auto dest: after_byte_length)

declare ph_post_loop.simps [simp del]

text \<open>\<open>body\<close> is the first data block of the request, if any.\<close>

definition get_server_ph_post :: "proxy \<Rightarrow> u8 list option \<Rightarrow> srv_ref option \<Rightarrow> srv_ref option c_result" where
  "get_server_ph_post px body avoid =
     (if tot_weight px = 0 then Inr None
      else case ph_post_loop (arg_bytes px) (case body of None \<Rightarrow> [] | Some b \<Rightarrow> b) of
        None \<Rightarrow> Inr None
      | Some value \<Rightarrow> hash_done px (hash_modify px (gen_hash px value)) avoid)"

section \<open>Header\<close>

text \<open>With \<^verbatim>\<open>use_domain_only\<close> the walk goes back from the end of the value; \<^verbatim>\<open>p\<close> and
  \<^verbatim>\<open>len\<close> move together, so that one number stands for both. The first byte read is the one after
  the value. The result is where the domain starts and ends.\<close>

primrec hh_loop :: "u8 list \<Rightarrow> bool \<Rightarrow> nat \<Rightarrow> nat \<Rightarrow> nat \<times> nat" where
  "hh_loop buf dohash e 0 = (0, e)"
| "hh_loop buf dohash e (Suc n) =
     (if dohash then (if buf ! n = dot then (Suc n, e) else hh_loop buf dohash e n)
      else if buf ! Suc n = dot then hh_loop buf True (Suc n) n
      else hh_loop buf False e n)"

definition hh_domain :: "u8 list \<Rightarrow> u8 \<Rightarrow> u8 list" where
  "hh_domain value next_byte =
     (case hh_loop (value @ [next_byte]) False (length value) (length value) of
        (start, e) \<Rightarrow> take (e - start) (drop start value))"

text \<open>\<open>hdr\<close> is the value of the first header of the configured name; \<open>next_byte\<close> is what follows it in
  the buffer.\<close>

definition get_server_hh :: "proxy \<Rightarrow> u8 list option \<Rightarrow> u8 \<Rightarrow> srv_ref option \<Rightarrow> srv_ref option c_result" where
  "get_server_hh px hdr next_byte avoid =
     (if tot_weight px = 0 then Inr None
      else if tot_used px = 1 then hash_done px 0 avoid
      else case hdr of
        None \<Rightarrow> Inr None
      | Some value \<Rightarrow>
          if value = [] then Inr None
          else
            let hash = (if arg_opt1 px = 0 then gen_hash px value else gen_hash px (hh_domain value next_byte))
            in hash_done px (hash_modify px hash) avoid)"

section \<open>RDP cookie\<close>

text \<open>\<open>cookie\<close> is what \<^verbatim>\<open>fetch_rdp_cookie_name\<close> finds, \<open>None\<close> if it fails or may still change.\<close>

definition get_server_rch :: "proxy \<Rightarrow> u8 list option \<Rightarrow> srv_ref option \<Rightarrow> srv_ref option c_result" where
  "get_server_rch px cookie avoid =
     (if tot_weight px = 0 then Inr None
      else case cookie of
        None \<Rightarrow> Inr None
      | Some value \<Rightarrow>
          if value = [] then Inr None
          else if tot_used px = 1 then hash_done px 0 avoid
          else hash_done px (hash_modify px (gen_hash px value)) avoid)"

section \<open>Random draws\<close>

text \<open>The comparison of two draws, on unsigned products that wrap around.\<close>

definition rnd_better :: "proxy \<Rightarrow> srv_ref option \<Rightarrow> srv_ref \<Rightarrow> srv_ref" where
  "rnd_better px prev cur =
     (case prev of
        None \<Rightarrow> cur
      | Some q \<Rightarrow>
          if q \<noteq> cur \<and> served (srv_at px q) * cur_eweight (srv_at px cur) < served (srv_at px cur) * cur_eweight (srv_at px q)
          then q else cur)"

text \<open>\<open>rng k\<close> is the \<open>k\<close>-th value of \<^verbatim>\<open>statistical_prng\<close>; \<open>n\<close> draws are left after this one.\<close>

fun rnd_loop :: "(nat \<Rightarrow> u32) \<Rightarrow> proxy \<Rightarrow> srv_ref option \<Rightarrow> string option \<Rightarrow> srv_ref option \<Rightarrow> nat \<Rightarrow> nat \<Rightarrow> srv_ref option c_result" where
  "rnd_loop rng px avoid servers prev k n =
     c_bind (chash_get_server_hash px (rng k) avoid servers) (\<lambda>cur.
       case cur of
         None \<Rightarrow> Inr None
       | Some c \<Rightarrow>
           let cur = rnd_better px prev c
           in (case n of 0 \<Rightarrow> Inr (Some cur) | Suc m \<Rightarrow> rnd_loop rng px avoid servers (Some cur) (Suc k) m))"

declare rnd_loop.simps [simp del]

definition get_server_rnd ::
    "sd_env \<Rightarrow> (nat \<Rightarrow> u32) \<Rightarrow> int \<Rightarrow> proxy \<Rightarrow> srv_ref option \<Rightarrow> string option \<Rightarrow> sd_state \<Rightarrow> (sd_state \<times> srv_ref option) c_result" where
  "get_server_rnd env rng now_sec px avoid key st =
     (if tot_weight px = 0 then Inr (st, None)
      else c_bind (wl_gate 1000 5 env key st) (\<lambda>(st, servers).
        case servers of
          None \<Rightarrow> Inr (st, None)
        | Some servers \<Rightarrow>
            c_bind (rnd_loop rng px avoid (Some servers) None 0 (nat (sint (arg_opt1 px - 1)))) (\<lambda>cur.
              case cur of
                None \<Rightarrow> Inr (st, None)
              | Some c \<Rightarrow>
                  if q_length (srv_queue (srv_at px c)) \<noteq> 0 \<or>
                     (maxconn (srv_at px c) \<noteq> 0 \<and> srv_dynamic_maxconn now_sec px (srv_at px c) \<le> served (srv_at px c))
                  then Inr (st, None)
                  else Inr (st, Some c))))"

end
