(* ===== verification/Backend_Param.thy ===== *)
theory Backend_Param
  imports Backend_Hash
begin

text \<open>
  What the hash-based lookups hash: the value of the first URL parameter of the configured name, the
  URI up to its query, the domain of a host name; and which of several random draws is kept.
\<close>

section \<open>URL parameters\<close>

text \<open>A query as a browser writes it.\<close>

fun encode_query :: "(u8 list \<times> u8 list) list \<Rightarrow> u8 list" where
  "encode_query [] = []"
| "encode_query [(n, v)] = n @ equals # v"
| "encode_query ((n, v) # ps) = n @ equals # v @ amp # encode_query ps"

definition param_ok :: "u8 list \<times> u8 list \<Rightarrow> bool" where
  "param_ok p \<longleftrightarrow> amp \<notin> set (fst p) \<and> equals \<notin> set (fst p) \<and> amp \<notin> set (snd p)"

lemma after_byte_append: "b \<notin> set xs \<Longrightarrow> after_byte b (xs @ b # ys) = Some ys"
  by (induction xs) (auto simp: after_byte_def)

lemma after_byte_None: "b \<notin> set xs \<Longrightarrow> after_byte b xs = None"
  by (induction xs) (auto simp: after_byte_def)

text \<open>The test of the loop at the start of a parameter \<open>n = v\<close>.\<close>

lemma param_match:
  assumes "equals \<notin> set name" and "equals \<notin> set n" and "length name < length (n @ equals # r)"
  shows "(n @ equals # r) ! length name = equals \<and> take (length name) (n @ equals # r) = name \<longleftrightarrow> n = name"
proof
  assume a: "(n @ equals # r) ! length name = equals \<and> take (length name) (n @ equals # r) = name"
  show "n = name"
  proof (cases "length name" "length n" rule: linorder_cases)
    case less
    then have "equals \<in> set n" using a nth_mem [OF less] by (simp add: nth_append)
    then show ?thesis using assms(2) by simp
  next
    case equal
    then show ?thesis using a by simp
  next
    case greater
    then have "equals \<in> set (take (length name) (n @ equals # r))" by (simp add: take_Cons')
    moreover have "take (length name) (n @ equals # r) = name" using a by blast
    ultimately show ?thesis using assms(1) by (simp only:)
  qed
qed (use assms in auto)

lemma ph_loop_encode:
  assumes "list_all param_ok ps" and "equals \<notin> set name" and "amp \<notin> set name"
  shows "ph_loop name (encode_query ps) = map_of ps name"
  using assms(1)
proof (induction ps rule: encode_query.induct)
  case 1
  then show ?case by (simp add: ph_loop.simps)
next
  case (2 n v)
  then have ok: "equals \<notin> set n" "amp \<notin> set n" "amp \<notin> set v" by (simp_all add: param_ok_def)
  then have "after_byte amp (n @ equals # v) = None" by (intro after_byte_None) simp
  moreover have "takeWhile (\<lambda>c. c \<noteq> amp) v = v" using ok(3) by (simp add: takeWhile_eq_all_conv) blast
  ultimately show ?case
    using param_match [OF assms(2) ok(1), of v] by (auto simp: ph_loop.simps [of name "n @ equals # v"])
next
  case (3 n v p ps)
  then have ok: "equals \<notin> set n" "amp \<notin> set n" "amp \<notin> set v" and ps: "list_all param_ok (p # ps)"
    by (auto simp: param_ok_def list_all_iff)
  let ?r = "encode_query (p # ps)"
  have IH: "ph_loop name ?r = map_of (p # ps) name" using 3 ps by simp
  have after: "after_byte amp (n @ equals # v @ amp # ?r) = Some ?r"
    using ok after_byte_append [of amp "n @ equals # v" ?r] by simp
  have tw: "takeWhile (\<lambda>c. c \<noteq> amp) (v @ amp # ?r) = v" using ok(3) by (induction v) auto
  have eq: "encode_query ((n, v) # p # ps) = n @ equals # v @ amp # ?r" by (cases p) simp
  show ?case
  proof (cases "length name < length (n @ equals # v @ amp # ?r)")
    case True
    then show ?thesis
      using param_match [OF assms(2) ok(1) True] IH after tw unfolding eq
      by (auto simp: ph_loop.simps [of name "n @ equals # v @ amp # ?r"])
  next
    case False
    then have "length ?r \<le> length name" "n \<noteq> name" by auto
    then have "ph_loop name ?r = None" by (simp add: ph_loop.simps [of name ?r])
    with False \<open>n \<noteq> name\<close> IH show ?thesis unfolding eq by (simp add: ph_loop.simps [of name "n @ equals # v @ amp # ?r"])
  qed
qed

text \<open>(C33) The URL parameter lookup hashes the value of the first parameter of the configured name:
  for a URI whose query is a list of parameters, the server found is that of the value the list gives
  for the name, and none if there is no such parameter, however the names and values resemble each
  other.\<close>

theorem get_server_ph_first:
  assumes "list_all param_ok ps" and "equals \<notin> set (arg_bytes px)" and "amp \<notin> set (arg_bytes px)"
    and "qmark \<notin> set path" and "tot_weight px \<noteq> 0"
  shows "get_server_ph px (path @ qmark # encode_query ps) avoid =
    (case map_of ps (arg_bytes px) of
       None \<Rightarrow> Inr None
     | Some value \<Rightarrow> hash_done px (hash_modify px (gen_hash px value)) avoid)"
  using ph_loop_encode [OF assms(1-3)] after_byte_append [OF assms(4)] assms(5) by (simp add: get_server_ph_def)

text \<open>The parameter \<^verbatim>\<open>id\<close> among ones that resemble it.\<close>

theorem get_server_ph_first_witness:
  "get_server_ph (sample_proxy\<lparr>arg_str := ''id'', tot_weight := 6, map_srv := [Some 0, Some 1, Some 2]\<rparr>)
     ([slash] @ qmark # encode_query [([105], [100]), ([105, 100, 120], [49]), ([105, 100], [55]), ([105, 100], [56])]) None =
   map_get_server_hash (sample_proxy\<lparr>arg_str := ''id'', tot_weight := 6, map_srv := [Some 0, Some 1, Some 2]\<rparr>) (hash_sdbm [55])"
proof -
  let ?px = "sample_proxy\<lparr>arg_str := ''id'', tot_weight := 6, map_srv := [Some 0, Some 1, Some 2]\<rparr>"
  let ?ps = "[([105], [100]), ([105, 100, 120], [49]), ([105, 100], [55]), ([105, 100], [56])]"
  have name: "arg_bytes ?px = [105, 100]" by code_simp
  have algo: "algo ?px = 0" by (simp add: sample_proxy_def)
  have "list_all param_ok ?ps" by (simp add: param_ok_def)
  from get_server_ph_first [OF this, of ?px "[slash]" None]
  have "get_server_ph ?px ([slash] @ qmark # encode_query ?ps) None = hash_done ?px (hash_modify ?px (gen_hash ?px [55])) None"
    unfolding name by simp
  then show ?thesis using algo by (simp only: hash_done_def hash_modify_def gen_hash_def Let_def) simp
qed

section \<open>URI and domain\<close>

lemma uh_scan_query:
  assumes "opt1 AND 1 = 0" and "qmark \<notin> set path"
  shows "uh_scan opt1 opt3 n (path @ qmark # q) = uh_scan opt1 opt3 n path"
  using assms(2) by (induction path arbitrary: n) (auto simp: assms(1) Let_def)

text \<open>The query string does not change the server of a path, so that a cache behind it is hit.\<close>

lemma get_server_uh_query:
  assumes "arg_opt1 px AND 1 = 0" and "qmark \<notin> set path" and "0 \<le>s arg_opt2 px"
  shows "get_server_uh px (path @ qmark # q) avoid = get_server_uh px path avoid"
proof -
  let ?len = "\<lambda>uri :: u8 list. if arg_opt2 px \<noteq> 0 then min (int (length uri)) (sint (arg_opt2 px)) else int (length uri)"
  have pos: "\<not> ?len uri < 0" for uri using assms(3) by (auto simp: word_sle_eq min_def)
  have scan: "uh_scan (arg_opt1 px) opt3 0 (take n (path @ qmark # q)) = uh_scan (arg_opt1 px) opt3 0 (take n path)" for n opt3
  proof (cases "n \<le> length path")
    case False
    then obtain k where "n - length path = Suc k" by (metis Suc_diff_Suc not_le)
    then show ?thesis using uh_scan_query [OF assms(1,2)] False by simp
  qed simp
  have len: "take (nat (?len (path @ qmark # q))) path = take (nat (?len path)) path" by (auto simp: min_def le_nat_iff)
  show ?thesis unfolding get_server_uh_def Let_def by (simp only: pos scan len if_False)
qed

lemma hh_loop_skip:
  "i \<le> n \<Longrightarrow> (\<And>j. i < j \<Longrightarrow> j \<le> n \<Longrightarrow> buf ! j \<noteq> dot) \<Longrightarrow> hh_loop buf False e n = hh_loop buf False e i"
  by (induction n) (auto simp: le_Suc_eq)

lemma hh_loop_start:
  "i \<le> n \<Longrightarrow> (\<And>j. i \<le> j \<Longrightarrow> j < n \<Longrightarrow> buf ! j \<noteq> dot) \<Longrightarrow> i = 0 \<or> buf ! (i - 1) = dot \<Longrightarrow> hh_loop buf True e n = (i, e)"
proof (induction n)
  case (Suc n)
  show ?case
  proof (cases "i = Suc n")
    case False
    then have "i \<le> n" "buf ! n \<noteq> dot" using Suc.prems by auto
    then show ?thesis using Suc by simp
  qed (use Suc.prems in simp)
qed simp

text \<open>With \<^verbatim>\<open>use_domain_only\<close> the label before the top-level domain is hashed, provided that the
  byte after the header value is not a dot.\<close>

lemma hh_domain_label:
  assumes "dot \<notin> set tld" and "dot \<notin> set name" and "name \<noteq> []" and "pre = [] \<or> last pre = dot" and "nb \<noteq> dot"
  shows "hh_domain (pre @ name @ dot # tld) nb = name"
proof -
  let ?v = "pre @ name @ dot # tld"
  let ?buf = "?v @ [nb]"
  let ?d = "length pre + length name"
  have after: "?buf ! j \<noteq> dot" if "?d < j" "j \<le> length ?v" for j
  proof -
    have "?buf ! j = (tld @ [nb]) ! (j - Suc ?d)" using that by (auto simp: nth_append nth_Cons' split: if_splits)
    moreover have "(tld @ [nb]) ! (j - Suc ?d) \<in> set (tld @ [nb])" using that by (intro nth_mem) simp
    ultimately show ?thesis using assms(1,5) by auto
  qed
  obtain k where k: "?d = Suc k" using assms(3) by (cases name) auto
  have at: "?buf ! ?d = dot" by (simp add: nth_append)
  have name: "?buf ! j \<noteq> dot" if "length pre \<le> j" "j < k" for j
  proof -
    have j: "j - length pre < length name" using that k by linarith
    then have "?buf ! j = name ! (j - length pre)" using that by (simp add: nth_append)
    then show ?thesis using assms(2) nth_mem [OF j] by auto
  qed
  have pre: "length pre = 0 \<or> ?buf ! (length pre - 1) = dot"
    using assms(4) by (cases "pre = []") (simp_all add: nth_append last_conv_nth)
  have "hh_loop ?buf False (length ?v) (length ?v) = hh_loop ?buf False (length ?v) ?d"
    by (rule hh_loop_skip [OF _ after]) simp
  also have "\<dots> = hh_loop ?buf True ?d k" using at unfolding k by simp
  also have "\<dots> = (length pre, ?d)" by (rule hh_loop_start [OF _ name pre]) (use k assms(3) in \<open>cases name; simp\<close>)
  finally show ?thesis by (simp add: hh_domain_def)
qed

text \<open>The result depends on the byte after the value: if it is a dot, the last label is hashed.\<close>

lemma hh_domain_next_byte: "hh_domain [119, 46, 97, 46, 98] 46 = [98]" "hh_domain [119, 46, 97, 46, 98] 32 = [97]"
  by code_simp+

section \<open>Random draws\<close>

text \<open>Server \<open>q\<close> has at most the load of \<open>c\<close> relative to the weights.\<close>

definition load_le :: "proxy \<Rightarrow> srv_ref \<Rightarrow> srv_ref \<Rightarrow> bool" where
  "load_le px q c \<longleftrightarrow>
     unat (served (srv_at px q)) * unat (cur_eweight (srv_at px c)) \<le> unat (served (srv_at px c)) * unat (cur_eweight (srv_at px q))"

text \<open>The products of the comparison do not wrap around, and weights are positive.\<close>

definition loads_small :: "proxy \<Rightarrow> srv_ref set \<Rightarrow> bool" where
  "loads_small px S \<longleftrightarrow> (\<forall>q \<in> S. 0 < unat (cur_eweight (srv_at px q))) \<and>
     (\<forall>q \<in> S. \<forall>c \<in> S. unat (served (srv_at px q)) * unat (cur_eweight (srv_at px c)) < 2 ^ 32)"

lemma load_le_trans:
  assumes "load_le px a b" and "load_le px b c" and "0 < unat (cur_eweight (srv_at px b))"
  shows "load_le px a c"
proof -
  let ?s = "\<lambda>i. unat (served (srv_at px i))" and ?w = "\<lambda>i. unat (cur_eweight (srv_at px i))"
  have "?s a * ?w c * ?w b = ?s a * ?w b * ?w c" by simp
  also have "\<dots> \<le> ?s b * ?w a * ?w c" using assms(1) unfolding load_le_def by (rule mult_le_mono1)
  also have "\<dots> = ?s b * ?w c * ?w a" by simp
  also have "\<dots> \<le> ?s c * ?w b * ?w a" using assms(2) unfolding load_le_def by (rule mult_le_mono1)
  finally have "?s a * ?w c * ?w b \<le> ?s c * ?w a * ?w b" by (simp add: ac_simps)
  then show ?thesis using assms(3) by (simp add: load_le_def)
qed

lemma rnd_better_le:
  assumes "loads_small px S" and "c \<in> S" and "case prev of None \<Rightarrow> True | Some q \<Rightarrow> q \<in> S"
  shows "rnd_better px prev c \<in> S \<and> load_le px (rnd_better px prev c) c \<and> (\<forall>q. prev = Some q \<longrightarrow> load_le px (rnd_better px prev c) q)"
proof (cases prev)
  case (Some q)
  have u: "unat (served (srv_at px x) * cur_eweight (srv_at px y)) = unat (served (srv_at px x)) * unat (cur_eweight (srv_at px y))"
    if "x \<in> S" "y \<in> S" for x y
    using assms(1) that by (simp add: loads_small_def unat_word_ariths)
  have q: "q \<in> S" using assms(3) Some by simp
  show ?thesis
    using Some q assms(2) u [OF q assms(2)] u [OF assms(2) q] by (auto simp: rnd_better_def load_le_def word_less_nat_alt)
qed (use assms in \<open>simp add: rnd_better_def load_le_def\<close>)

text \<open>The servers that are drawn until the loop ends.\<close>

lemma rnd_loop_least:
  assumes small: "loads_small px S" and prev: "case prev of None \<Rightarrow> True | Some q \<Rightarrow> q \<in> S"
    and draw: "\<And>j. j \<le> n \<Longrightarrow> \<exists>c. chash_get_server_hash px (rng (k + j)) avoid servers = Inr (Some c) \<and> c \<in> S"
  shows "\<exists>c. rnd_loop rng px avoid servers prev k n = Inr (Some c) \<and> c \<in> S \<and> (\<forall>q. prev = Some q \<longrightarrow> load_le px c q) \<and>
    (\<forall>j \<le> n. \<forall>q. chash_get_server_hash px (rng (k + j)) avoid servers = Inr (Some q) \<longrightarrow> load_le px c q)"
  using prev draw
proof (induction n arbitrary: prev k)
  case 0
  from 0(2) [of 0] obtain c where c: "chash_get_server_hash px (rng k) avoid servers = Inr (Some c)" "c \<in> S" by auto
  show ?case using rnd_better_le [OF small c(2) 0(1)] c(1) by (simp add: rnd_loop.simps)
next
  case (Suc n)
  from Suc.prems(2) [of 0] obtain c where c: "chash_get_server_hash px (rng k) avoid servers = Inr (Some c)" "c \<in> S" by auto
  let ?b = "rnd_better px prev c"
  note b = rnd_better_le [OF small c(2) Suc.prems(1)]
  have "\<exists>c. chash_get_server_hash px (rng (Suc k + j)) avoid servers = Inr (Some c) \<and> c \<in> S" if "j \<le> n" for j
    using Suc.prems(2) [of "Suc j"] that by simp
  from Suc.IH [of "Some ?b" "Suc k", OF _ this] b obtain d where
    d: "rnd_loop rng px avoid servers (Some ?b) (Suc k) n = Inr (Some d)" "d \<in> S" "load_le px d ?b"
      "\<forall>j \<le> n. \<forall>q. chash_get_server_hash px (rng (Suc k + j)) avoid servers = Inr (Some q) \<longrightarrow> load_le px d q"
    by auto
  have w: "0 < unat (cur_eweight (srv_at px ?b))" using b small unfolding loads_small_def by blast
  have "load_le px d q" if "j \<le> Suc n" "chash_get_server_hash px (rng (k + j)) avoid servers = Inr (Some q)" for j q
  proof (cases j)
    case 0
    then have "q = c" using that c(1) by simp
    then show ?thesis using load_le_trans [OF d(3) _ w] b by blast
  next
    case (Suc i)
    then show ?thesis using d(4) that by simp
  qed
  moreover have "load_le px d q" if "prev = Some q" for q using load_le_trans [OF d(3) _ w] b that by blast
  moreover have "rnd_loop rng px avoid servers prev k (Suc n) = Inr (Some d)"
    using c(1) d(1) by (simp add: rnd_loop.simps [of rng px avoid servers prev k])
  ultimately show ?case using d(2) by blast
qed

text \<open>(C26) Random balancing keeps the least loaded of its draws: when the request passes the whitelist and
  every draw meets a server, the server considered is one drawn whose number of connections relative
  to its weight is least, and it is returned unless it has a queue or is full. The products compared
  are assumed not to wrap around.\<close>

theorem get_server_rnd_least_loaded:
  assumes "tot_weight px \<noteq> 0" and gate: "wl_gate 1000 5 env key st = Inr (st', Some servers)" and small: "loads_small px S"
    and draws: "0 <s arg_opt1 px"
    and draw: "\<And>j. j < unat (arg_opt1 px) \<Longrightarrow> \<exists>c. chash_get_server_hash px (rng j) avoid (Some servers) = Inr (Some c) \<and> c \<in> S"
  shows "\<exists>c. c \<in> S \<and>
    (\<forall>j < unat (arg_opt1 px). \<forall>q. chash_get_server_hash px (rng j) avoid (Some servers) = Inr (Some q) \<longrightarrow> load_le px c q) \<and>
    get_server_rnd env rng now_sec px avoid key st =
      Inr (st', if q_length (srv_queue (srv_at px c)) \<noteq> 0 \<or>
        (maxconn (srv_at px c) \<noteq> 0 \<and> srv_dynamic_maxconn now_sec px (srv_at px c) \<le> served (srv_at px c)) then None else Some c)"
proof -
  have pos: "0 < sint (arg_opt1 px)" using draws by (simp add: word_sless_alt)
  have n: "Suc (nat (sint (arg_opt1 px - 1))) = unat (arg_opt1 px)"
  proof -
    have "sint (arg_opt1 px) < 2 ^ 31" using sint_less [of "arg_opt1 px"] by simp
    then have "signed_take_bit 31 (sint (arg_opt1 px) - 1) = sint (arg_opt1 px) - 1" using pos by (intro signed_take_bit_int_eq_self) simp_all
    then have "sint (arg_opt1 px - 1) = sint (arg_opt1 px) - 1" by (simp add: sint_word_ariths)
    moreover have "uint (arg_opt1 px) = sint (arg_opt1 px)"
      using pos \<open>sint (arg_opt1 px) < 2 ^ 31\<close> by (simp add: uint_sint take_bit_int_eq_self)
    ultimately show ?thesis using pos by (simp flip: nat_uint_eq)
  qed
  let ?n = "nat (sint (arg_opt1 px - 1))"
  have "\<exists>c. chash_get_server_hash px (rng (0 + j)) avoid (Some servers) = Inr (Some c) \<and> c \<in> S" if "j \<le> ?n" for j
    using draw [of j] that n by simp
  from rnd_loop_least [where prev = None and rng = rng and k = 0 and n = ?n, OF small _ this] obtain c where
    "rnd_loop rng px avoid (Some servers) None 0 ?n = Inr (Some c)" "c \<in> S"
    "\<forall>j \<le> ?n. \<forall>q. chash_get_server_hash px (rng j) avoid (Some servers) = Inr (Some q) \<longrightarrow> load_le px c q" by auto
  then show ?thesis
    using assms(1) gate n by (intro exI [of _ c]) (auto simp: get_server_rnd_def less_Suc_eq_le [symmetric])
qed

text \<open>Two draws among three servers, of which the second is idle.\<close>

definition sample_ring :: proxy where
  "sample_ring = (upd_srv 0 (\<lambda>s. s\<lparr>served := 3\<rparr>) sample_proxy)
     \<lparr>chash_act := [(10, (0, 0)), (20, (1, 0)), (30, (2, 0))], srv_act := 3, tot_weight := 6, arg_opt1 := 2\<rparr>"

lemma sample_ring_draws:
  "chash_get_server_hash sample_ring 10 None (Some (''13'' @ [nl])) = Inr (Some 0)"
  "chash_get_server_hash sample_ring 20 None (Some (''13'' @ [nl])) = Inr (Some 1)"
  by code_simp+

theorem get_server_rnd_least_loaded_witness:
  "get_server_rnd sample_env (\<lambda>j. if j = 0 then 10 else 20) 0 sample_ring None (Some ''GET'') sample_sd = Inr (sample_sd\<lparr>sd_count := 1\<rparr>, Some 1)"
proof -
  let ?rng = "\<lambda>j :: nat. if j = 0 then 10 else 20 :: u32"
  have refresh: "wl_refresh 1000 5 sample_env sample_sd = Inr (sample_sd\<lparr>sd_count := 1\<rparr>)"
    by (simp add: wl_refresh_def sample_env_def sample_sd_def howLong_def)
  have gate: "wl_gate 1000 5 sample_env (Some ''GET'') sample_sd = Inr (sample_sd\<lparr>sd_count := 1\<rparr>, Some (''13'' @ [nl]))"
    using wl_gate_outcome [OF refresh, of "''GET''"] sample_sd_ok method_names_ok by (simp add: nl_def)
  have small: "loads_small sample_ring {0, 1}" by (simp add: loads_small_def sample_ring_def sample_proxy_def sample_server_def)
  have w: "tot_weight sample_ring \<noteq> 0" "0 <s arg_opt1 sample_ring" "unat (arg_opt1 sample_ring) = 2"
    by (simp_all add: sample_ring_def word_sless_alt)
  have "\<exists>c. chash_get_server_hash sample_ring (?rng j) None (Some (''13'' @ [nl])) = Inr (Some c) \<and> c \<in> {0, 1}" if "j < 2" for j
    using sample_ring_draws by auto
  then have draw: "\<exists>c. chash_get_server_hash sample_ring (?rng j) None (Some (''13'' @ [nl])) = Inr (Some c) \<and> c \<in> {0, 1}"
    if "j < unat (arg_opt1 sample_ring)" for j using that w(3) by simp
  obtain c where c: "c \<in> {0, 1}" and le: "\<forall>j < unat (arg_opt1 sample_ring). \<forall>q.
      chash_get_server_hash sample_ring (?rng j) None (Some (''13'' @ [nl])) = Inr (Some q) \<longrightarrow> load_le sample_ring c q" and
    r: "get_server_rnd sample_env ?rng 0 sample_ring None (Some ''GET'') sample_sd = Inr (sample_sd\<lparr>sd_count := 1\<rparr>,
      if q_length (srv_queue (srv_at sample_ring c)) \<noteq> 0 \<or> (maxconn (srv_at sample_ring c) \<noteq> 0 \<and>
        srv_dynamic_maxconn 0 sample_ring (srv_at sample_ring c) \<le> served (srv_at sample_ring c)) then None else Some c)"
    using get_server_rnd_least_loaded [where now_sec = 0 and rng = ?rng and avoid = None, OF w(1) gate small w(2) draw] by blast
  have "load_le sample_ring c 1" using le [rule_format, of 1] w(3) sample_ring_draws(2) by simp
  then have "c = 1" using c by (auto simp: load_le_def sample_ring_def sample_proxy_def sample_server_def)
  moreover have "q_length (srv_queue (srv_at sample_ring 1)) = 0 \<and>
      \<not> srv_dynamic_maxconn 0 sample_ring (srv_at sample_ring 1) \<le> served (srv_at sample_ring 1)" by code_simp
  ultimately show ?thesis using r by simp
qed

end
