(* ===== verification/Lb_Fwrr.thy ===== *)
theory Lb_Fwrr
  imports Lb_Tree Smartdrop_Gate
begin

text \<open>
  Weighted round robin, \<^verbatim>\<open>src/haproxy/src/lb_fwrr.c\<close>: in each of the two groups the servers wait in
  a tree ordered by position (\<^verbatim>\<open>curr\<close>) or in one of two trees ordered by weight, \<^verbatim>\<open>init\<close> for those
  not placed yet in this time range and \<^verbatim>\<open>next\<close> for those to be placed in the next one. \<^verbatim>\<open>init\<close>
  and \<^verbatim>\<open>next\<close> point to \<^verbatim>\<open>t0\<close> and \<^verbatim>\<open>t1\<close> and are swapped at the end of a range. Groups are named by
  the backup flag of their servers.
\<close>

section \<open>Groups and trees\<close>

definition fwrr_grp :: "bool \<Rightarrow> proxy \<Rightarrow> fwrr_group" where
  "fwrr_grp b p = (if b then fwrr_bck p else fwrr_act p)"

definition upd_grp :: "bool \<Rightarrow> (fwrr_group \<Rightarrow> fwrr_group) \<Rightarrow> proxy \<Rightarrow> proxy" where
  "upd_grp b f p = (if b then p\<lparr>fwrr_bck := f (fwrr_bck p)\<rparr> else p\<lparr>fwrr_act := f (fwrr_act p)\<rparr>)"

definition grp_tree :: "eb_root_ptr \<Rightarrow> fwrr_group \<Rightarrow> srv_ref eb_root" where
  "grp_tree r g = (case r of Root_t0 \<Rightarrow> grp_t0 g | Root_t1 \<Rightarrow> grp_t1 g | _ \<Rightarrow> grp_curr g)"

definition upd_tree :: "eb_root_ptr \<Rightarrow> (srv_ref eb_root \<Rightarrow> srv_ref eb_root) \<Rightarrow> fwrr_group \<Rightarrow> fwrr_group" where
  "upd_tree r f g = (case r of Root_t0 \<Rightarrow> g\<lparr>grp_t0 := f (grp_t0 g)\<rparr> | Root_t1 \<Rightarrow> g\<lparr>grp_t1 := f (grp_t1 g)\<rparr>
     | _ \<Rightarrow> g\<lparr>grp_curr := f (grp_curr g)\<rparr>)"

abbreviation srv_grp :: "srv_ref \<Rightarrow> proxy \<Rightarrow> fwrr_group" where
  "srv_grp i p \<equiv> fwrr_grp (is_backup (srv_at p i)) p"

section \<open>Queueing\<close>

definition fwrr_remove_from_tree :: "srv_ref \<Rightarrow> proxy \<Rightarrow> proxy" where
  "fwrr_remove_from_tree i p = upd_srv i (\<lambda>s. s\<lparr>lb_tree := None\<rparr>) p"

definition fwrr_queue_by_weight :: "bool \<Rightarrow> eb_root_ptr \<Rightarrow> srv_ref \<Rightarrow> proxy \<Rightarrow> proxy" where
  "fwrr_queue_by_weight b root i p =
     (let p = upd_srv i (\<lambda>s. s\<lparr>lb_key := SRV_EWGHT_MAX - next_eweight s\<rparr>) p;
          p = upd_grp b (upd_tree root (eb32_insert (lb_key (srv_at p i)) i)) p
      in upd_srv i (\<lambda>s. s\<lparr>lb_tree := Some root\<rparr>) p)"

definition grp_delete :: "srv_ref \<Rightarrow> fwrr_group \<Rightarrow> fwrr_group" where
  "grp_delete i g = g\<lparr>grp_curr := eb32_delete i (grp_curr g), grp_t0 := eb32_delete i (grp_t0 g),
     grp_t1 := eb32_delete i (grp_t1 g)\<rparr>"

definition fwrr_dequeue_srv :: "srv_ref \<Rightarrow> proxy \<Rightarrow> proxy" where
  "fwrr_dequeue_srv i p = p\<lparr>fwrr_act := grp_delete i (fwrr_act p), fwrr_bck := grp_delete i (fwrr_bck p)\<rparr>"

definition fwrr_queue_srv :: "srv_ref \<Rightarrow> proxy \<Rightarrow> proxy" where
  "fwrr_queue_srv i p =
     (let s = srv_at p i; b = is_backup s; grp = fwrr_grp b p in
      if \<not> srv_willbe_usable s then fwrr_remove_from_tree i p
      else if next_eweight s = 0 \<or> 2 * curr_weight grp \<le> npos s \<or> curr_weight grp + next_weight grp \<le> npos s then
        (let p = upd_srv i (\<lambda>s. s\<lparr>npos := npos s - curr_weight grp\<rparr>) p
         in fwrr_queue_by_weight b (grp_next grp) i p)
      else
        (let p = upd_srv i (\<lambda>s. s\<lparr>lb_key := SRV_UWGHT_RANGE * npos s +
                   (SRV_EWGHT_MAX + rweight s - next_eweight s) div BE_WEIGHT_SCALE\<rparr>) p;
             p = upd_grp b (upd_tree Root_curr (eb32_insert (lb_key (srv_at p i)) i)) p
         in upd_srv i (\<lambda>s. s\<lparr>lb_tree := Some Root_curr\<rparr>) p))"

definition fwrr_get_srv_init :: "srv_ref \<Rightarrow> proxy \<Rightarrow> proxy" where
  "fwrr_get_srv_init i p = upd_srv i (\<lambda>s. s\<lparr>npos := 0, rweight := 0\<rparr>) p"

definition fwrr_get_srv_next :: "srv_ref \<Rightarrow> proxy \<Rightarrow> proxy" where
  "fwrr_get_srv_next i p = upd_srv i (\<lambda>s. s\<lparr>npos := npos s + curr_weight (srv_grp i p)\<rparr>) p"

definition fwrr_get_srv_down :: "srv_ref \<Rightarrow> proxy \<Rightarrow> proxy" where
  "fwrr_get_srv_down i p = upd_srv i (\<lambda>s. s\<lparr>npos := curr_pos (srv_grp i p)\<rparr>) p"

definition fwrr_get_srv :: "srv_ref \<Rightarrow> proxy \<Rightarrow> proxy" where
  "fwrr_get_srv i p =
     (let s = srv_at p i; grp = srv_grp i p in
      if lb_tree s = Some (grp_init grp) then fwrr_get_srv_init i p
      else if lb_tree s = Some (grp_next grp) then fwrr_get_srv_next i p
      else if lb_tree s = None then fwrr_get_srv_down i p
      else p)"

section \<open>Callbacks\<close>

text \<open>The counters of a server that goes down or comes up: the weight of the group is updated, and
  the total of the group copied from it.\<close>

definition fwrr_count_down :: "srv_ref \<Rightarrow> proxy \<Rightarrow> proxy" where
  "fwrr_count_down i p =
     (let srv = srv_at p i;
          p = upd_grp (is_backup srv) (\<lambda>g. g\<lparr>next_weight := next_weight g - cur_eweight srv\<rparr>) p
      in if is_backup srv then
           (let p = p\<lparr>tot_wbck := next_weight (fwrr_bck p), srv_bck := srv_bck p - 1\<rparr>
            in if Some i = fbck p then p\<lparr>fbck := next_usable_backup i p\<rparr> else p)
         else p\<lparr>tot_wact := next_weight (fwrr_act p), srv_act := srv_act p - 1\<rparr>)"

definition fwrr_set_server_status_down :: "srv_ref \<Rightarrow> proxy \<Rightarrow> proxy" where
  "fwrr_set_server_status_down i p =
     (let srv = srv_at p i in
      if \<not> srv_lb_status_changed srv then p
      else if srv_willbe_usable srv then upd_srv i srv_lb_commit_status p
      else
        (let p = (if \<not> srv_currently_usable srv then p
                  else let p = fwrr_count_down i p;
                           p = fwrr_dequeue_srv i p
                       in fwrr_remove_from_tree i p);
             p = update_backend_weight p
         in upd_srv i srv_lb_commit_status p))"

definition fwrr_count_up :: "srv_ref \<Rightarrow> proxy \<Rightarrow> proxy" where
  "fwrr_count_up i p =
     (let srv = srv_at p i;
          p = upd_grp (is_backup srv) (\<lambda>g. g\<lparr>next_weight := next_weight g + next_eweight srv\<rparr>) p
      in if is_backup srv then
           elect_fbck i (p\<lparr>tot_wbck := next_weight (fwrr_bck p), srv_bck := srv_bck p + 1\<rparr>)
         else p\<lparr>tot_wact := next_weight (fwrr_act p), srv_act := srv_act p + 1\<rparr>)"

text \<open>The place of a server that comes up.\<close>

definition fwrr_place_up :: "srv_ref \<Rightarrow> proxy \<Rightarrow> proxy" where
  "fwrr_place_up i p =
     (let p = fwrr_get_srv i p;
          grp = srv_grp i p;
          p = upd_srv i (\<lambda>s. s\<lparr>npos := curr_pos grp +
                (next_weight grp + curr_weight grp - curr_pos grp) div next_eweight s\<rparr>) p
      in fwrr_queue_srv i p)"

definition fwrr_set_server_status_up :: "srv_ref \<Rightarrow> proxy \<Rightarrow> proxy" where
  "fwrr_set_server_status_up i p =
     (let srv = srv_at p i in
      if \<not> srv_lb_status_changed srv then p
      else if \<not> srv_willbe_usable srv then upd_srv i srv_lb_commit_status p
      else
        (let p = (if srv_currently_usable srv then p
                  else let p = fwrr_count_up i p
                       in fwrr_place_up i p);
             p = update_backend_weight p
         in upd_srv i srv_lb_commit_status p))"

text \<open>The next position of a server of the current or next tree whose weight changed.\<close>

definition fwrr_adjust_npos :: "srv_ref \<Rightarrow> proxy \<Rightarrow> proxy" where
  "fwrr_adjust_npos i p =
     (let grp = srv_grp i p; srv = srv_at p i in
      if 0 < next_eweight srv then
        (let prev_next = npos srv;
             step = next_weight grp div next_eweight srv;
             npos' = lpos srv + step;
             npos' = (if prev_next < npos' then prev_next else npos');
             npos' = (if npos' < curr_pos grp + 2 then curr_pos grp + step else npos')
         in upd_srv i (\<lambda>s. s\<lparr>npos := npos', rweight := 0\<rparr>) p)
      else upd_srv i (\<lambda>s. s\<lparr>npos := curr_pos grp + curr_weight grp\<rparr>) p)"

definition fwrr_replace :: "srv_ref \<Rightarrow> proxy \<Rightarrow> proxy" where
  "fwrr_replace i p =
     (let srv = srv_at p i; b = is_backup srv; grp = fwrr_grp b p in
      if lb_tree srv = Some (grp_init grp) then fwrr_queue_by_weight b (grp_init grp) i (fwrr_dequeue_srv i p)
      else if lb_tree srv = None then fwrr_place_up i (fwrr_dequeue_srv i p)
      else fwrr_queue_srv i (fwrr_dequeue_srv i (fwrr_adjust_npos i (fwrr_get_srv i p))))"

definition fwrr_count_weight :: "srv_ref \<Rightarrow> proxy \<Rightarrow> proxy" where
  "fwrr_count_weight i p =
     (let srv = srv_at p i;
          p = upd_grp (is_backup srv) (\<lambda>g. g\<lparr>next_weight := next_weight g - cur_eweight srv + next_eweight srv\<rparr>) p
      in p\<lparr>tot_wact := next_weight (fwrr_act p), tot_wbck := next_weight (fwrr_bck p)\<rparr>)"

definition fwrr_update_server_weight :: "srv_ref \<Rightarrow> proxy \<Rightarrow> proxy" where
  "fwrr_update_server_weight i p =
     (let srv = srv_at p i in
      if \<not> srv_lb_status_changed srv then p
      else let old_state = srv_currently_usable srv; new_state = srv_willbe_usable srv in
      if \<not> old_state \<and> \<not> new_state then upd_srv i srv_lb_commit_status p
      else if \<not> old_state \<and> new_state then fwrr_set_server_status_up i p
      else if old_state \<and> \<not> new_state then fwrr_set_server_status_down i p
      else
        (let p = fwrr_count_weight i p;
             p = fwrr_replace i p;
             p = update_backend_weight p
         in upd_srv i srv_lb_commit_status p))"

text \<open>One group prepared for a total weight.\<close>

definition fwrr_fresh_group :: "c_int \<Rightarrow> fwrr_group \<Rightarrow> fwrr_group" where
  "fwrr_fresh_group w g = g\<lparr>curr_pos := w, curr_weight := w, next_weight := w, grp_curr := [], grp_t0 := [], grp_t1 := [],
     grp_init := Root_t0, grp_next := Root_t1\<rparr>"

definition fwrr_init_server_groups :: "proxy \<Rightarrow> proxy" where
  "fwrr_init_server_groups p =
     (let p = init_weights_and_count p;
          p = p\<lparr>fwrr_act := fwrr_fresh_group (tot_wact p) (fwrr_act p), fwrr_bck := fwrr_fresh_group (tot_wbck p) (fwrr_bck p)\<rparr>
      in fold (\<lambda>i p. if \<not> srv_currently_usable (srv_at p i) then p
                     else let b = is_backup (srv_at p i)
                          in fwrr_queue_by_weight b (grp_init (fwrr_grp b p)) i p)
           [0..<length (px_srv p)] p)"

section \<open>Lookup\<close>

definition fwrr_switch_trees :: "fwrr_group \<Rightarrow> fwrr_group" where
  "fwrr_switch_trees g =
     (let g = g\<lparr>grp_init := grp_next g, grp_next := grp_init g\<rparr>;
          g = g\<lparr>curr_weight := next_weight g\<rparr>
      in g\<lparr>curr_pos := curr_weight g\<rparr>)"

definition fwrr_get_server_from_group :: "bool \<Rightarrow> proxy \<Rightarrow> proxy \<times> srv_ref option" where
  "fwrr_get_server_from_group b p =
     (let grp = fwrr_grp b p;
          s1 = map_option snd (eb32_first (grp_curr grp));
          first_ok = (case s1 of
             Some s \<Rightarrow> cur_eweight (srv_at p s) \<noteq> 0 \<and> npos (srv_at p s) \<le> curr_pos grp
           | None \<Rightarrow> False)
      in if first_ok then (p, s1)
         else case map_option snd (eb32_first (grp_tree (grp_init grp) grp)) of
           Some s2 \<Rightarrow> if cur_eweight (srv_at p s2) \<noteq> 0 then (fwrr_get_srv_init s2 p, Some s2) else (p, s1)
         | None \<Rightarrow> (p, s1))"

definition fwrr_update_position :: "bool \<Rightarrow> srv_ref \<Rightarrow> proxy \<Rightarrow> proxy" where
  "fwrr_update_position b i p =
     (let eweight = cur_eweight (srv_at p i); grp = fwrr_grp b p in
      if eweight = 0 then p
      else upd_srv i (\<lambda>s.
        let s = (if npos s = 0 then s\<lparr>npos := curr_pos grp\<rparr> else s);
            s = s\<lparr>lpos := npos s\<rparr>;
            s = s\<lparr>npos := npos s + next_weight grp div eweight\<rparr>;
            s = s\<lparr>rweight := rweight s + next_weight grp mod eweight\<rparr>
        in if eweight \<le> rweight s then s\<lparr>rweight := rweight s - eweight, npos := npos s + 1\<rparr> else s) p)"

text \<open>The inner loop: take a server from the group, after one switch of the trees if need be.\<close>

definition fwrr_pick :: "bool \<Rightarrow> bool \<Rightarrow> proxy \<Rightarrow> proxy \<times> srv_ref option \<times> bool" where
  "fwrr_pick b switched p =
     (case fwrr_get_server_from_group b p of
        (p, Some s) \<Rightarrow> (p, Some s, switched)
      | (p, None) \<Rightarrow>
          if switched then (p, None, switched)
          else case fwrr_get_server_from_group b (upd_grp b fwrr_switch_trees p) of (p, r) \<Rightarrow> (p, r, True))"

text \<open>Before and after the inner loop of one round.\<close>

definition fwrr_collect_weight :: "fwrr_group \<Rightarrow> fwrr_group" where
  "fwrr_collect_weight g = (if curr_weight g = 0 then g\<lparr>curr_weight := next_weight g, curr_pos := next_weight g\<rparr> else g)"

definition fwrr_extract :: "bool \<Rightarrow> srv_ref \<Rightarrow> proxy \<Rightarrow> proxy" where
  "fwrr_extract b s p =
     (let p = fwrr_update_position b s p;
          p = fwrr_dequeue_srv s p
      in upd_grp b (\<lambda>g. g\<lparr>curr_pos := curr_pos g + 1\<rparr>) p)"

definition fwrr_size :: "bool \<Rightarrow> proxy \<Rightarrow> nat" where
  "fwrr_size b p = (let g = fwrr_grp b p in length (grp_curr g) + length (grp_t0 g) + length (grp_t1 g))"

lemma upd_grp_simps [simp]:
  "fwrr_grp b (upd_grp c f p) = (if b = c then f (fwrr_grp b p) else fwrr_grp b p)"
  "px_srv (upd_grp b f p) = px_srv p"
  "fwrr_grp b (upd_srv i h p) = fwrr_grp b p"
  by (auto simp: fwrr_grp_def upd_grp_def)

lemma grp_tree_simps [simp]:
  "grp_tree r (g\<lparr>curr_pos := x\<rparr>) = grp_tree r g" "grp_tree r (g\<lparr>curr_weight := x\<rparr>) = grp_tree r g"
  "grp_tree r (g\<lparr>next_weight := x\<rparr>) = grp_tree r g" "grp_tree r (g\<lparr>grp_init := y\<rparr>) = grp_tree r g"
  "grp_tree r (g\<lparr>grp_next := y\<rparr>) = grp_tree r g"
  by (simp_all add: grp_tree_def split: eb_root_ptr.splits)

lemma fwrr_get_server_cases:
  assumes "fwrr_get_server_from_group b p = (q, r)"
  obtains (curr) k s where "q = p" "r = Some s" "eb32_first (grp_curr (fwrr_grp b p)) = Some (k, s)"
  | (init) k s where "q = fwrr_get_srv_init s p" "r = Some s" "cur_eweight (srv_at p s) \<noteq> 0"
      "eb32_first (grp_tree (grp_init (fwrr_grp b p)) (fwrr_grp b p)) = Some (k, s)"
  | (none) "q = p" "r = None" "grp_curr (fwrr_grp b p) = []"
      "\<And>k s. eb32_first (grp_tree (grp_init (fwrr_grp b p)) (fwrr_grp b p)) = Some (k, s) \<Longrightarrow> cur_eweight (srv_at p s) = 0"
proof -
  show thesis
    using assms that
    by (cases "grp_curr (fwrr_grp b p)"; cases "grp_tree (grp_init (fwrr_grp b p)) (fwrr_grp b p)")
       (auto simp: fwrr_get_server_from_group_def eb32_first_def Let_def split: if_splits)
qed

lemma fwrr_get_srv_init_grp [simp]: "fwrr_grp b (fwrr_get_srv_init s p) = fwrr_grp b p"
  by (simp add: fwrr_get_srv_init_def)

lemma delete_shorter:
  "length (eb32_delete s t) \<le> length t" "eb32_first t = Some (k, s) \<Longrightarrow> length (eb32_delete s t) < length t"
  by (auto simp: eb32_delete_def eb32_first_def less_Suc_eq_le split: list.splits)

lemma fwrr_size_get:
  assumes "fwrr_get_server_from_group b p = (q, Some s)"
  shows "fwrr_size b (fwrr_extract b s q) < fwrr_size b p"
proof -
  define g where "g = fwrr_grp b p"
  have grp: "fwrr_grp b q = g" using assms by (cases rule: fwrr_get_server_cases) (simp_all add: g_def)
  have "fwrr_size b (fwrr_extract b s q) = length (eb32_delete s (grp_curr g)) +
      length (eb32_delete s (grp_t0 g)) + length (eb32_delete s (grp_t1 g))"
    using grp by (auto simp: fwrr_size_def fwrr_extract_def fwrr_update_position_def fwrr_dequeue_srv_def fwrr_grp_def upd_grp_def
        grp_delete_def Let_def)
  moreover have "fwrr_size b p = length (grp_curr g) + length (grp_t0 g) + length (grp_t1 g)"
    by (simp add: fwrr_size_def g_def Let_def)
  moreover obtain k r where "eb32_first (grp_tree r g) = Some (k, s)"
  proof -
    from assms show thesis
      using that [of Root_curr] that [of "grp_init g"]
      by (cases rule: fwrr_get_server_cases) (auto simp: g_def [symmetric] grp_tree_def [of Root_curr])
  qed
  ultimately show ?thesis
    using delete_shorter(1) [of s "grp_curr g"] delete_shorter(1) [of s "grp_t0 g"] delete_shorter(1) [of s "grp_t1 g"]
      delete_shorter(2) [of "grp_tree r g" k s]
    by (cases r) (auto simp: grp_tree_def)
qed

lemma fwrr_size_switch: "fwrr_size b (upd_grp b fwrr_switch_trees p) = fwrr_size b p"
  by (simp add: fwrr_size_def fwrr_switch_trees_def Let_def)

lemma fwrr_size_pick:
  assumes "fwrr_pick b switched p = (q, Some s, sw)"
  shows "fwrr_size b (fwrr_extract b s q) < fwrr_size b p"
proof (cases "fwrr_get_server_from_group b p")
  case (Pair p1 r)
  show ?thesis
  proof (cases r)
    case (Some s')
    then show ?thesis using assms Pair fwrr_size_get [of b p q s] by (simp add: fwrr_pick_def)
  next
    case None
    then have "p1 = p" using Pair by (auto elim: fwrr_get_server_cases)
    then show ?thesis
      using assms Pair None fwrr_size_get [of b "upd_grp b fwrr_switch_trees p" q s]
      by (auto simp: fwrr_pick_def fwrr_size_switch split: if_splits prod.splits)
  qed
qed

lemma fwrr_size_collect: "fwrr_size b (upd_grp b fwrr_collect_weight p) = fwrr_size b p"
  by (simp add: fwrr_size_def fwrr_collect_weight_def Let_def)

text \<open>The outer loop. It returns the chosen server (the avoided one when nothing else is left), the
  saturated servers it took out, latest first, whether the trees were switched, and the last server
  digit. \<^verbatim>\<open>servers\<close> is not null here.\<close>

function fwrr_loop ::
    "int \<Rightarrow> bool \<Rightarrow> srv_ref option \<Rightarrow> string \<Rightarrow> proxy \<Rightarrow> bool \<Rightarrow> srv_ref option \<Rightarrow> srv_ref list
       \<Rightarrow> (proxy \<times> srv_ref option \<times> srv_ref list \<times> bool) c_result" where
  "fwrr_loop now_sec b srvtoavoid servers p switched avoided full =
     (case fwrr_pick b switched (upd_grp b fwrr_collect_weight p) of
        (p, None, switched) \<Rightarrow> Inr (p, avoided, full, switched)
      | (p, Some srv, switched) \<Rightarrow>
          let p = fwrr_extract b srv p in
          if srv_not_full now_sec p (srv_at p srv) then
            c_bind (srv_num (srv_at p srv)) (\<lambda>num.
              if Some srv \<noteq> srvtoavoid \<or> avoided \<noteq> None \<or> num \<in> set servers then Inr (p, Some srv, full, switched)
              else fwrr_loop now_sec b srvtoavoid servers p switched (Some srv) (srv # full))
          else fwrr_loop now_sec b srvtoavoid servers p switched avoided (srv # full))"
  by auto
termination
proof (relation "measure (\<lambda>(now_sec, b, av, servers, p, switched, avoided, full). fwrr_size b p)", goal_cases)
  case (2 now_sec b av servers p switched avoided full q y r sw s p' num)
  then have "fwrr_pick b switched (upd_grp b fwrr_collect_weight p) = (q, Some s, sw)" by simp
  with 2 show ?case using fwrr_size_pick [of b switched "upd_grp b fwrr_collect_weight p" q s sw] by (simp add: fwrr_size_collect)
next
  case (3 now_sec b av servers p switched avoided full q y r sw s p')
  then have "fwrr_pick b switched (upd_grp b fwrr_collect_weight p) = (q, Some s, sw)" by simp
  with 3 show ?case using fwrr_size_pick [of b switched "upd_grp b fwrr_collect_weight p" q s sw] by (simp add: fwrr_size_collect)
qed simp

declare fwrr_loop.simps [simp del]

definition fwrr_requeue :: "bool \<Rightarrow> bool \<Rightarrow> srv_ref option \<Rightarrow> srv_ref \<Rightarrow> proxy \<Rightarrow> proxy" where
  "fwrr_requeue b switched srv f p =
     (if Some f = srv then p
      else if switched then fwrr_queue_by_weight b (grp_init (fwrr_grp b p)) f p
      else fwrr_queue_srv f p)"

definition fwrr_search :: "int \<Rightarrow> bool \<Rightarrow> srv_ref option \<Rightarrow> string \<Rightarrow> proxy \<Rightarrow> (proxy \<times> srv_ref option) c_result" where
  "fwrr_search now_sec b srvtoavoid servers p =
     c_bind (fwrr_loop now_sec b srvtoavoid servers p False None []) (\<lambda>(p, srv, full, switched).
     let p = (case srv of Some s \<Rightarrow> fwrr_queue_srv s p | None \<Rightarrow> p)
     in Inr (fold (fwrr_requeue b switched srv) full p, srv))"

definition fwrr_get_next_server ::
    "sd_env \<Rightarrow> int \<Rightarrow> proxy \<Rightarrow> srv_ref option \<Rightarrow> string option \<Rightarrow> sd_state \<Rightarrow> (sd_state \<times> proxy \<times> srv_ref option) c_result" where
  "fwrr_get_next_server env now_sec p srvtoavoid key st =
     c_bind (wl_gate 10000 2 env key st) (\<lambda>(st, servers).
     case servers of
       None \<Rightarrow> Inr (st, p, None)
     | Some servers \<Rightarrow>
         if srv_act p \<noteq> 0 then c_bind (fwrr_search now_sec False srvtoavoid servers p) (\<lambda>r. Inr (st, r))
         else if fbck p \<noteq> None then Inr (st, p, fbck p)
         else if srv_bck p \<noteq> 0 then c_bind (fwrr_search now_sec True srvtoavoid servers p) (\<lambda>r. Inr (st, r))
         else Inr (st, p, None))"

end
