(* ===== verification/Backend_Assign.thy ===== *)
theory Backend_Assign
  imports Backend_Hash Pendconn Lb_Fas Lb_Fwlc Lb_Fwrr
begin

text \<open>
  How a stream gets its server: \<^verbatim>\<open>assign_server\<close> and \<^verbatim>\<open>assign_server_and_queue\<close> of
  \<^verbatim>\<open>src/haproxy/src/backend.c\<close> and \<^verbatim>\<open>sess_change_server\<close> of \<^verbatim>\<open>stream.c\<close>. They call the
  lookup of the configured algorithm and the queues. The HTTP transaction and the session are those of
  the stream at hand; the parts of the request the lookups read are arguments. A target that is not
  a server (dispatch mode) counts as none. The outer option of the results is \<open>None\<close> when the loop of
  a lookup does not end within the given fuel.
\<close>

section \<open>Data\<close>

abbreviation SF_REDISP :: u32 where "SF_REDISP \<equiv> 0x00000100"
abbreviation SF_REDIRECTABLE :: u32 where "SF_REDIRECTABLE \<equiv> 0x00000400"
abbreviation PR_O_TRANSP :: u32 where "PR_O_TRANSP \<equiv> 0x00000002"
abbreviation PR_O_PREF_LAST :: u32 where "PR_O_PREF_LAST \<equiv> 0x00000020"
abbreviation PR_O_DISPATCH :: u32 where "PR_O_DISPATCH \<equiv> 0x00000040"
abbreviation SESS_FL_PREFER_LAST :: u32 where "SESS_FL_PREFER_LAST \<equiv> 0x00000001"
abbreviation CO_FL_WAIT_XPRT :: u32 where "CO_FL_WAIT_XPRT \<equiv> 0x07C30000"
abbreviation CO_FL_SESS_IDLE :: u32 where "CO_FL_SESS_IDLE \<equiv> 0x40000000"
abbreviation TX_CK_MASK :: u32 where "TX_CK_MASK \<equiv> 0x000000E0"
abbreviation TX_CK_VALID :: u32 where "TX_CK_VALID \<equiv> 0x00000060"
abbreviation TX_CK_DOWN :: u32 where "TX_CK_DOWN \<equiv> 0x00000040"
abbreviation BE_LB_KIND_RR :: u32 where "BE_LB_KIND_RR \<equiv> 0x01000"
abbreviation BE_LB_KIND_HI :: u32 where "BE_LB_KIND_HI \<equiv> 0x03000"
abbreviation BE_LB_ALGO_RR :: u32 where "BE_LB_ALGO_RR \<equiv> 0x01000"
abbreviation BE_LB_ALGO_SRR :: u32 where "BE_LB_ALGO_SRR \<equiv> 0x01001"
abbreviation BE_LB_ALGO_FAS :: u32 where "BE_LB_ALGO_FAS \<equiv> 0x02001"
abbreviation BE_LB_RR_RANDOM :: u32 where "BE_LB_RR_RANDOM \<equiv> 0x00002"
abbreviation BE_LB_HASH_SRC :: u32 where "BE_LB_HASH_SRC \<equiv> 0x00000"
abbreviation BE_LB_HASH_URI :: u32 where "BE_LB_HASH_URI \<equiv> 0x00001"
abbreviation BE_LB_HASH_PRM :: u32 where "BE_LB_HASH_PRM \<equiv> 0x00002"
abbreviation BE_LB_HASH_HDR :: u32 where "BE_LB_HASH_HDR \<equiv> 0x00003"
abbreviation BE_LB_HASH_RDP :: u32 where "BE_LB_HASH_RDP \<equiv> 0x00004"
abbreviation HTTP_METH_POST :: int where "HTTP_METH_POST \<equiv> 3"

datatype srv_status = SRV_STATUS_OK | SRV_STATUS_INTERNAL | SRV_STATUS_NOSRV | SRV_STATUS_FULL | SRV_STATUS_QUEUED

record txn =
  tx_meth :: int
  tx_flags :: u32

text \<open>An entry of the session's list of servers: the server, if it is one of this backend, and the
  flags of the connections kept to it.\<close>

record session =
  sess_flags :: u32
  sess_srv_list :: "(srv_ref option \<times> u32 list) list"
  idle_conns :: u32

record bstate =
  bs_q :: qstate
  bs_sd :: sd_state
  bs_txn :: "txn option"
  bs_sess :: session

text \<open>The request: whether its headers have been parsed, the source address (4 or 16 bytes), the URI
  and its path, the first data block of the body, the value of the configured header with the byte
  after it, the RDP cookie.\<close>

record request =
  rq_htx :: bool
  rq_src :: "u8 list option"
  rq_uri :: "u8 list"
  rq_path :: "u8 list option"
  rq_body :: "u8 list option"
  rq_hdr :: "u8 list option"
  rq_next :: u8
  rq_cookie :: "u8 list option"

record be_env =
  be_now_ms :: u32
  be_now_sec :: int
  be_sd :: sd_env
  be_rng :: "nat \<Rightarrow> u32"
  be_fuel :: nat
  be_alloc :: "pend_ref option"
  be_malloc :: "nat \<Rightarrow> nat option"
  be_take :: "(srv_ref \<Rightarrow> proxy \<Rightarrow> proxy c_result) option"
  be_drop :: "(srv_ref \<Rightarrow> proxy \<Rightarrow> proxy c_result) option"

definition r_bind :: "'a c_result option \<Rightarrow> ('a \<Rightarrow> 'b c_result option) \<Rightarrow> 'b c_result option" where
  "r_bind r f = (case r of None \<Rightarrow> None | Some (Inl e) \<Rightarrow> Some (Inl e) | Some (Inr x) \<Rightarrow> f x)"

lemma r_bind_simps [simp]: "r_bind None f = None" "r_bind (Some (Inl e)) f = Some (Inl e)" "r_bind (Some (Inr x)) f = f x"
  by (simp_all add: r_bind_def)

lemma r_bind_Inr_iff: "r_bind r f = Some (Inr y) \<longleftrightarrow> (\<exists>x. r = Some (Inr x) \<and> f x = Some (Inr y))"
  by (auto simp: r_bind_def split: option.splits sum.splits)

section \<open>Connection slots\<close>

definition run_cb :: "(srv_ref \<Rightarrow> proxy \<Rightarrow> proxy c_result) option \<Rightarrow> srv_ref \<Rightarrow> qstate \<Rightarrow> qstate c_result" where
  "run_cb cb i st = (case cb of None \<Rightarrow> Inr st | Some f \<Rightarrow> c_bind (f i (qs_px st)) (\<lambda>p. Inr (st\<lparr>qs_px := p\<rparr>)))"

definition add_served :: "c_int \<Rightarrow> srv_ref \<Rightarrow> qstate \<Rightarrow> qstate" where
  "add_served d i st =
     (let p = upd_srv i (\<lambda>s. s\<lparr>served := served s + d\<rparr>) (qs_px st)
      in st\<lparr>qs_px := p\<lparr>px_served := px_served p + d\<rparr>\<rparr>)"

definition sess_change_server :: "be_env \<Rightarrow> strm_ref \<Rightarrow> srv_ref option \<Rightarrow> qstate \<Rightarrow> qstate c_result" where
  "sess_change_server env strm newsrv st =
     (let oldsrv = srv_conn (qs_strm st strm) in
      if oldsrv = newsrv then Inr st
      else
        c_bind (case oldsrv of
            None \<Rightarrow> Inr st
          | Some old \<Rightarrow>
              c_bind (run_cb (be_drop env) old (add_served (-1) old st)) (\<lambda>st.
                Inr (upd_strm strm (\<lambda>s. s\<lparr>srv_conn := None\<rparr>) st))) (\<lambda>st.
        case newsrv of
          None \<Rightarrow> Inr st
        | Some i \<Rightarrow>
            c_bind (run_cb (be_take env) i (add_served 1 i st)) (\<lambda>st.
              Inr (upd_strm strm (\<lambda>s. s\<lparr>srv_conn := Some i\<rparr>) st))))"

section \<open>Lookups\<close>

text \<open>The \<^verbatim>\<open>switch\<close> over the input to hash: \<open>None\<close> for an unknown algorithm or address family,
  otherwise the server found or none.\<close>

definition lb_hash :: "proxy \<Rightarrow> request \<Rightarrow> txn \<Rightarrow> srv_ref option \<Rightarrow> srv_ref option option c_result" where
  "lb_hash px rq tx prev_srv =
     (let parm = algo px AND BE_LB_PARM;
          found = (\<lambda>r. c_bind r (\<lambda>srv. Inr (Some srv)))
      in if parm = BE_LB_HASH_SRC then
           (case rq_src rq of Some addr \<Rightarrow> found (get_server_sh px addr prev_srv) | None \<Rightarrow> Inr None)
         else if parm = BE_LB_HASH_URI then
           (if rq_htx rq then
              let uri = (if arg_opt1 px AND 2 \<noteq> 0 then (case rq_path rq of Some path \<Rightarrow> path | None \<Rightarrow> []) else rq_uri rq)
              in found (get_server_uh px uri prev_srv)
            else Inr (Some None))
         else if parm = BE_LB_HASH_PRM then
           (if rq_htx rq then
              c_bind (get_server_ph px (rq_uri rq) prev_srv) (\<lambda>srv.
              if srv = None \<and> tx_meth tx = HTTP_METH_POST then found (get_server_ph_post px (rq_body rq) prev_srv)
              else Inr (Some srv))
            else Inr (Some None))
         else if parm = BE_LB_HASH_HDR then
           (if rq_htx rq then found (get_server_hh px (rq_hdr rq) (rq_next rq) prev_srv) else Inr (Some None))
         else if parm = BE_LB_HASH_RDP then found (get_server_rch px (rq_cookie rq) prev_srv)
         else Inr None)"

type_synonym lookup_result = "(proxy \<times> sd_state \<times> srv_ref option option) c_result option"

definition lookup_rr :: "be_env \<Rightarrow> proxy \<Rightarrow> srv_ref option \<Rightarrow> sd_state \<Rightarrow> lookup_result" where
  "lookup_rr env px prev_srv sd =
     r_bind (map_get_server_rr (be_now_sec env) px prev_srv) (\<lambda>(px, srv). Some (Inr (px, sd, Some srv)))"

definition lookup_chash_rr :: "be_env \<Rightarrow> proxy \<Rightarrow> srv_ref option \<Rightarrow> sd_state \<Rightarrow> lookup_result" where
  "lookup_chash_rr env px prev_srv sd =
     map_option (\<lambda>(px, srv). Inr (px, sd, Some srv)) (chash_get_next_server (be_fuel env) (be_now_sec env) px prev_srv)"

text \<open>The \<^verbatim>\<open>switch\<close> over the lookup function; the innermost option is \<open>None\<close> for an unknown one.\<close>

definition lb_lookup ::
    "be_env \<Rightarrow> proxy \<Rightarrow> request \<Rightarrow> txn \<Rightarrow> srv_ref option \<Rightarrow> string option \<Rightarrow> sd_state \<Rightarrow> lookup_result" where
  "lb_lookup env px rq tx prev_srv key sd =
     (let lkup = algo px AND BE_LB_LKUP; kind = algo px AND BE_LB_KIND
      in if lkup = BE_LB_LKUP_RRTREE then
           Some (c_bind (fwrr_get_next_server (be_sd env) (be_now_sec env) px prev_srv key sd) (\<lambda>(sd, px, srv). Inr (px, sd, Some srv)))
         else if lkup = BE_LB_LKUP_FSTREE then Some (Inr (px, sd, Some (fas_get_next_server (be_now_sec env) px prev_srv)))
         else if lkup = BE_LB_LKUP_LCTREE then
           Some (c_bind (fwlc_get_next_server (be_sd env) (be_now_sec env) px prev_srv key sd) (\<lambda>(sd, srv). Inr (px, sd, Some srv)))
         else if lkup = BE_LB_LKUP_CHTREE \<or> lkup = BE_LB_LKUP_MAP then
           (if kind = BE_LB_KIND_RR then
              (if algo px AND BE_LB_PARM = BE_LB_RR_RANDOM then
                 Some (c_bind (get_server_rnd (be_sd env) (be_rng env) (be_now_sec env) px prev_srv key sd) (\<lambda>(sd, srv). Inr (px, sd, Some srv)))
               else lookup_rr env px prev_srv sd)
            else if kind \<noteq> BE_LB_KIND_HI then Some (Inr (px, sd, None))
            else
              r_bind (Some (lb_hash px rq tx prev_srv)) (\<lambda>r.
              case r of
                None \<Rightarrow> Some (Inr (px, sd, None))
              | Some (Some srv) \<Rightarrow> Some (Inr (px, sd, Some (Some srv)))
              | Some None \<Rightarrow> if lkup = BE_LB_LKUP_CHTREE then lookup_chash_rr env px prev_srv sd else lookup_rr env px prev_srv sd))
         else Some (Inr (px, sd, None)))"

section \<open>Assigning a server\<close>

text \<open>The first connection that is established, by its position.\<close>

fun sess_conn :: "u32 list \<Rightarrow> nat option" where
  "sess_conn [] = None"
| "sess_conn (c # cs) = (if c AND CO_FL_WAIT_XPRT = 0 then Some 0 else map_option Suc (sess_conn cs))"

text \<open>The search for a server the session has used: its entry and connection.\<close>

fun sess_last :: "int \<Rightarrow> proxy \<Rightarrow> bool \<Rightarrow> (srv_ref option \<times> u32 list) list \<Rightarrow> (nat \<times> srv_ref \<times> nat) option" where
  "sess_last now_sec px prefer [] = None"
| "sess_last now_sec px prefer ((t, conns) # l) =
     (let skip = map_option (\<lambda>(n, r). (Suc n, r)) (sess_last now_sec px prefer l) in
      case t of
        None \<Rightarrow> skip
      | Some i \<Rightarrow>
          if (prefer \<or> max_ka_queue px = 0 \<or> server_has_room now_sec px (srv_at px i) \<or>
              q_length (srv_queue (srv_at px i)) + 1 < max_ka_queue px) \<and> srv_currently_usable (srv_at px i)
          then (case sess_conn conns of Some c \<Rightarrow> Some (0, i, c) | None \<Rightarrow> skip)
          else skip)"

definition sess_take_conn :: "nat \<Rightarrow> nat \<Rightarrow> session \<Rightarrow> session" where
  "sess_take_conn n c sess =
     (let (t, conns) = sess_srv_list sess ! n in
      if conns ! c AND CO_FL_SESS_IDLE \<noteq> 0 then
        sess\<lparr>sess_srv_list := (sess_srv_list sess)[n := (t, conns[c := conns ! c AND NOT CO_FL_SESS_IDLE])],
          idle_conns := idle_conns sess - 1\<rparr>
      else sess)"

text \<open>The choice of a server: the state, the status so far and the server found.\<close>

type_synonym choice = "bstate \<times> srv_status \<times> srv_ref option"

definition set_target :: "strm_ref \<Rightarrow> srv_ref \<Rightarrow> bstate \<Rightarrow> bstate" where
  "set_target s i st = st\<lparr>bs_q := upd_strm s (\<lambda>x. x\<lparr>strm_target := Some i\<rparr>) (bs_q st)\<rparr>"

text \<open>After the lookup.\<close>

definition lookup_done :: "strm_ref \<Rightarrow> srv_ref option \<Rightarrow> proxy \<Rightarrow> sd_state \<Rightarrow> srv_ref option option \<Rightarrow> bstate \<Rightarrow> choice" where
  "lookup_done s prev_srv px sd found st =
     (let st = st\<lparr>bs_q := (bs_q st)\<lparr>qs_px := px\<rparr>, bs_sd := sd\<rparr>
      in case found of
           None \<Rightarrow> (st, SRV_STATUS_INTERNAL, None)
         | Some None \<Rightarrow> (st, SRV_STATUS_FULL, None)
         | Some (Some i) \<Rightarrow>
             let px = (if Some i \<noteq> prev_srv then
                         upd_srv i (\<lambda>x. x\<lparr>srv_cum_lbconn := srv_cum_lbconn x + 1\<rparr>) (px\<lparr>px_cum_lbconn := px_cum_lbconn px + 1\<rparr>)
                       else px)
             in (set_target s i (st\<lparr>bs_q := (bs_q st)\<lparr>qs_px := px\<rparr>\<rparr>), SRV_STATUS_OK, Some i))"

definition choose_lb ::
    "be_env \<Rightarrow> request \<Rightarrow> strm_ref \<Rightarrow> txn \<Rightarrow> string option \<Rightarrow> srv_ref option \<Rightarrow> bstate \<Rightarrow> choice c_result option" where
  "choose_lb env rq s tx key prev_srv st =
     (let px = qs_px (bs_q st) in
      if algo px AND BE_LB_KIND \<noteq> 0 then
        (if tot_weight px = 0 then Some (Inr (st, SRV_STATUS_NOSRV, None))
         else if q_length (px_queue px) \<noteq> 0 \<and> q_length (px_queue px) \<noteq> beconn px \<and>
                 algo px AND (BE_LB_KIND OR BE_LB_NEED OR BE_LB_PARM) \<in> {BE_LB_ALGO_FAS, BE_LB_ALGO_RR, BE_LB_ALGO_SRR}
         then Some (Inr (st, SRV_STATUS_FULL, None))
         else
           r_bind (lb_lookup env px rq tx prev_srv key (bs_sd st)) (\<lambda>(px, sd, found).
             Some (Inr (lookup_done s prev_srv px sd found st))))
      else if px_options px AND (PR_O_DISPATCH OR PR_O_TRANSP) \<noteq> 0 then Some (Inr (st, SRV_STATUS_OK, None))
      else Some (Inr (st, SRV_STATUS_NOSRV, None)))"

definition choose_server ::
    "be_env \<Rightarrow> request \<Rightarrow> strm_ref \<Rightarrow> txn \<Rightarrow> string option \<Rightarrow> srv_ref option \<Rightarrow> bstate \<Rightarrow> choice c_result option" where
  "choose_server env rq s tx key prev_srv st =
     (let px = qs_px (bs_q st); sess = bs_sess st;
          prefer = (sess_flags sess AND SESS_FL_PREFER_LAST \<noteq> 0);
          last = (if algo px AND BE_LB_KIND \<noteq> BE_LB_KIND_HI \<and> (prefer \<or> px_options px AND PR_O_PREF_LAST \<noteq> 0)
                  then sess_last (be_now_sec env) px prefer (sess_srv_list sess) else None)
      in case last of
           Some (n, i, c) \<Rightarrow> Some (Inr (set_target s i (st\<lparr>bs_sess := sess_take_conn n c sess\<rparr>), SRV_STATUS_OK, Some i))
         | None \<Rightarrow> choose_lb env rq s tx key prev_srv st)"

text \<open>The end of \<^verbatim>\<open>assign_server\<close>: the old slot, if any, is taken again for the same server, or
  offered to the streams that wait.\<close>

definition settle_slot :: "be_env \<Rightarrow> strm_ref \<Rightarrow> srv_ref option \<Rightarrow> srv_ref option \<Rightarrow> qstate \<Rightarrow> qstate c_result" where
  "settle_slot env s conn_slot srv q = (case conn_slot of
     None \<Rightarrow> Inr q
   | Some c \<Rightarrow>
       if Some c = srv then sess_change_server env s srv q
       else if may_dequeue_tasks (be_now_sec env) (Some (srv_at (qs_px q) c)) (qs_px q)
       then process_srv_queue (be_take env) (be_now_ms env) (be_now_sec env) c q
       else Inr q)"

text \<open>\<^verbatim>\<open>fetchKey\<close> comes first: it reads the transaction, which a TCP stream does not have, and may
  write past the end of its block.\<close>

definition assign_server :: "be_env \<Rightarrow> request \<Rightarrow> strm_ref \<Rightarrow> bstate \<Rightarrow> (bstate \<times> srv_status) c_result option" where
  "assign_server env rq s st =
     (case bs_txn st of
        None \<Rightarrow> Some (Inl NullDeref)
      | Some tx \<Rightarrow>
          r_bind (Some (fetchKey (be_malloc env) (tx_meth tx))) (\<lambda>key.
          let strm = qs_strm (bs_q st) s in
          if pend_pos strm \<noteq> None \<or> strm_flags strm AND SF_ASSIGNED \<noteq> 0 then Some (Inr (st, SRV_STATUS_INTERNAL))
          else
            let prev_srv = strm_target strm; conn_slot = srv_conn strm in
            r_bind (Some (sess_change_server env s None (bs_q st))) (\<lambda>q.
            let st = st\<lparr>bs_q := upd_strm s (\<lambda>x. x\<lparr>strm_target := None\<rparr>) q\<rparr> in
            r_bind (choose_server env rq s tx key prev_srv st) (\<lambda>(st, err, srv).
            let q = bs_q st;
                q = (if err = SRV_STATUS_OK then upd_strm s (\<lambda>x. x\<lparr>strm_flags := strm_flags x OR SF_ASSIGNED\<rparr>) q else q)
            in r_bind (Some (settle_slot env s conn_slot srv q)) (\<lambda>q.
               Some (Inr (st\<lparr>bs_q := q\<rparr>, err)))))))"

section \<open>Assigning or queueing\<close>

text \<open>The counters after a stream that had a server was balanced again.\<close>

definition count_redispatch :: "strm_ref \<Rightarrow> srv_ref \<Rightarrow> bstate \<Rightarrow> bstate" where
  "count_redispatch s prev_srv st =
     (let q = bs_q st; px = qs_px q in
      if Some prev_srv \<noteq> strm_target (qs_strm q s) then
        let tx = (case bs_txn st of
              Some t \<Rightarrow> Some (if tx_flags t AND TX_CK_MASK = TX_CK_VALID
                             then t\<lparr>tx_flags := (tx_flags t AND NOT TX_CK_MASK) OR TX_CK_DOWN\<rparr> else t)
            | None \<Rightarrow> None);
            q = upd_strm s (\<lambda>x. x\<lparr>strm_flags := strm_flags x OR SF_REDISP\<rparr>) q;
            px = upd_srv prev_srv (\<lambda>x. x\<lparr>srv_redispatches := srv_redispatches x + 1\<rparr>) px
        in st\<lparr>bs_txn := tx, bs_q := q\<lparr>qs_px := px\<lparr>px_redispatches := px_redispatches px + 1\<rparr>\<rparr>\<rparr>
      else
        let px = upd_srv prev_srv (\<lambda>x. x\<lparr>srv_retries := srv_retries x + 1\<rparr>) px
        in st\<lparr>bs_q := q\<lparr>qs_px := px\<lparr>px_retries := px_retries px + 1\<rparr>\<rparr>\<rparr>)"

definition try_queue :: "be_env \<Rightarrow> strm_ref \<Rightarrow> bstate \<Rightarrow> bstate \<times> srv_status" where
  "try_queue env s st =
     (case pendconn_add (be_now_ms env) (be_alloc env) s (bs_q st) of
        (q, Some _) \<Rightarrow> (st\<lparr>bs_q := q\<rparr>, SRV_STATUS_QUEUED)
      | (q, None) \<Rightarrow> (st\<lparr>bs_q := q\<rparr>, SRV_STATUS_INTERNAL))"

text \<open>What follows a successful assignment: take a slot of the server, or wait for one.\<close>

definition take_slot :: "be_env \<Rightarrow> strm_ref \<Rightarrow> bstate \<Rightarrow> (bstate \<times> srv_status) c_result" where
  "take_slot env s st =
     (let q = bs_q st; strm = qs_strm q s in
      case strm_target strm of
        None \<Rightarrow> Inr (st, SRV_STATUS_OK)
      | Some i \<Rightarrow>
          let srv = srv_at (qs_px q) i;
              reserve = c_bind (sess_change_server env s (Some i) q) (\<lambda>q. Inr (st\<lparr>bs_q := q\<rparr>, SRV_STATUS_OK)) in
          if srv_conn strm = Some i then Inr (st, SRV_STATUS_OK)
          else if strm_flags strm AND SF_REDIRECTABLE \<noteq> 0 \<and> rdr_len srv \<noteq> 0 then reserve
          else if maxconn srv \<noteq> 0 \<and>
                  (q_length (srv_queue srv) \<noteq> 0 \<or> srv_dynamic_maxconn (be_now_sec env) (qs_px q) srv \<le> served srv) then
            (if 0 <s maxqueue srv \<and> maxqueue srv \<le> q_length (srv_queue srv) then Inr (st, SRV_STATUS_FULL)
             else Inr (try_queue env s st))
          else reserve)"

definition assign_server_and_queue :: "be_env \<Rightarrow> request \<Rightarrow> strm_ref \<Rightarrow> bstate \<Rightarrow> (bstate \<times> srv_status) c_result option" where
  "assign_server_and_queue env rq s st =
     (let strm = qs_strm (bs_q st) s in
      if pend_pos strm \<noteq> None then Some (Inr (st, SRV_STATUS_INTERNAL))
      else
        r_bind (if strm_flags strm AND SF_ASSIGNED = 0 then
                  r_bind (assign_server env rq s st) (\<lambda>(st, err).
                    Some (Inr (case strm_target strm of Some p \<Rightarrow> count_redispatch s p st | None \<Rightarrow> st, err)))
                else Some (Inr (st, SRV_STATUS_OK))) (\<lambda>(st, err).
        case err of
          SRV_STATUS_OK \<Rightarrow> Some (take_slot env s st)
        | SRV_STATUS_FULL \<Rightarrow> Some (Inr (try_queue env s st))
        | SRV_STATUS_NOSRV \<Rightarrow> Some (Inr (st, SRV_STATUS_NOSRV))
        | _ \<Rightarrow> Some (Inr (st, SRV_STATUS_INTERNAL))))"

end
