(* ===== verification/Pendconn_Serve.thy ===== *)
theory Pendconn_Serve
  imports Pendconn_Run
begin

text \<open>
  What becomes of the streams that wait: \<^verbatim>\<open>process_srv_queue\<close> hands every pending connection
  it takes to the server and wakes the stream, and the stream then finds its server.
\<close>

section \<open>What serving does to the pending connections\<close>

abbreviation in_queue :: "qstate \<Rightarrow> pend_ref \<Rightarrow> pendconn \<Rightarrow> bool" where
  "in_queue st p pc \<equiv> eb32_in_tree p (q_tree (pc_queue pc) st)"

definition serves :: "srv_ref \<Rightarrow> qstate \<Rightarrow> qstate \<Rightarrow> bool" where
  "serves s st st' \<longleftrightarrow> set (qs_woken st) \<subseteq> set (qs_woken st') \<and>
     (\<forall>t. pend_pos (qs_strm st' t) = pend_pos (qs_strm st t)) \<and>
     (\<forall>t. pend_pos (qs_strm st t) = None \<longrightarrow> qs_strm st' t = qs_strm st t) \<and>
     (\<forall>p. qs_pend st p = None \<longrightarrow> qs_pend st' p = None) \<and>
     (\<forall>p pc. qs_pend st p = Some pc \<longrightarrow>
       (\<exists>pc'. qs_pend st' p = Some pc' \<and> pc_strm pc' = pc_strm pc \<and> pc_queue pc' = pc_queue pc \<and>
         (\<not> in_queue st p pc \<longrightarrow> \<not> in_queue st' p pc \<and> pc_target pc' = pc_target pc) \<and>
         (in_queue st p pc \<longrightarrow> \<not> in_queue st' p pc \<longrightarrow> pc_target pc' = Some s \<and> pc_strm pc \<in> set (qs_woken st'))))"

lemma serves_refl [simp]: "serves s st st"
  by (simp add: serves_def)

lemma serves_trans:
  assumes a: "serves s st1 st2" and b: "serves s st2 st3"
  shows "serves s st1 st3"
proof -
  have w: "set (qs_woken st2) \<subseteq> set (qs_woken st3)" using b by (simp add: serves_def)
  have "\<exists>pc'. qs_pend st3 p = Some pc' \<and> pc_strm pc' = pc_strm pc \<and> pc_queue pc' = pc_queue pc \<and>
         (\<not> in_queue st1 p pc \<longrightarrow> \<not> in_queue st3 p pc \<and> pc_target pc' = pc_target pc) \<and>
         (in_queue st1 p pc \<longrightarrow> \<not> in_queue st3 p pc \<longrightarrow> pc_target pc' = Some s \<and> pc_strm pc \<in> set (qs_woken st3))"
    if pc: "qs_pend st1 p = Some pc" for p pc
  proof -
    from a pc obtain pc2 where pc2: "qs_pend st2 p = Some pc2" "pc_strm pc2 = pc_strm pc" "pc_queue pc2 = pc_queue pc"
        "\<not> in_queue st1 p pc \<longrightarrow> \<not> in_queue st2 p pc \<and> pc_target pc2 = pc_target pc"
        "in_queue st1 p pc \<longrightarrow> \<not> in_queue st2 p pc \<longrightarrow> pc_target pc2 = Some s \<and> pc_strm pc \<in> set (qs_woken st2)"
      unfolding serves_def by blast
    from b pc2(1) obtain pc3 where "qs_pend st3 p = Some pc3" "pc_strm pc3 = pc_strm pc2" "pc_queue pc3 = pc_queue pc2"
        "\<not> in_queue st2 p pc2 \<longrightarrow> \<not> in_queue st3 p pc2 \<and> pc_target pc3 = pc_target pc2"
        "in_queue st2 p pc2 \<longrightarrow> \<not> in_queue st3 p pc2 \<longrightarrow> pc_target pc3 = Some s \<and> pc_strm pc2 \<in> set (qs_woken st3)"
      unfolding serves_def by blast
    with pc2 w show ?thesis by (intro exI [of _ pc3]) auto
  qed
  then show ?thesis using a b w unfolding serves_def by auto
qed

text \<open>Taking one pending connection out of its queue and assigning it.\<close>

lemma serves_take:
  assumes inv: "queue_inv L D st" and q: "q \<in> queue_refs (qs_px st)" and p: "p \<in> set (eb_nodes (q_tree q st))"
    and taken: "taken q p s st pc st'"
  shows "serves s st st'"
proof -
  note t = taken [unfolded taken_def]
  then have pc: "qs_pend st p = Some pc" by simp
  have iq: "in_queue st' x px \<longleftrightarrow> x \<noteq> p \<and> in_queue st x px" if x: "qs_pend st x = Some px" for x px
  proof -
    have "pc_queue px \<in> queue_refs (qs_px st)" using queue_inv_pend_ref [OF inv x] .
    moreover have "pc_queue px = q" if "x = p" using queue_inv_mem [OF inv x q] p that by simp
    ultimately show ?thesis using t by (auto simp: eb32_in_tree_iff)
  qed
  have "in_queue st p pc" using queue_inv_mem [OF inv pc q p] p by (simp add: eb32_in_tree_iff)
  moreover have "pend_pos (qs_strm st (pc_strm pc)) = Some p" using inv pc by (simp add: queue_inv_def pend_ok_def)
  then have "pend_pos (qs_strm st t) = None \<Longrightarrow> t \<noteq> pc_strm pc" for t by auto
  ultimately show ?thesis unfolding serves_def using iq t by auto
qed

lemma process_next_serves:
  assumes inv: "queue_inv L D st" and s: "s < length (px_srv (qs_px st))"
    and r: "pendconn_process_next_strm now_ms s px_ok st = Inr (st', ok)"
  shows "serves s st st'"
proof -
  have p: "serves s st st'" if "pendconn_first now_ms (q_head (srv_queue (srv_at (qs_px st) s))) = Some e" "use_p e s st = Inr (st', ok)" for e
  proof -
    have e: "snd e \<in> set (eb_nodes (q_tree (Some s) st))" using first_in_nodes [OF that(1)] by (simp add: queue_at_def)
    from use_p_effect [OF inv s e that(2)] show ?thesis using serves_take [OF inv _ e] s by (auto simp: queue_refs_def)
  qed
  have pp: "serves s st st'" if "pendconn_first now_ms (q_head (px_queue (qs_px st))) = Some e" "use_pp e s st = Inr (st', ok)" for e
  proof -
    have e: "snd e \<in> set (eb_nodes (q_tree None st))" using first_in_nodes [OF that(1)] by (simp add: queue_at_def)
    from use_pp_effect [OF inv e that(2)] show ?thesis using serves_take [OF inv _ e] by (auto simp: queue_refs_def)
  qed
  show ?thesis using r p pp by (auto simp: pendconn_process_next_strm_def Let_def split: option.splits if_splits)
qed

lemma serves_proxy:
  assumes "queue_inv L D st" and "\<And>q. q \<in> queue_refs (qs_px st) \<Longrightarrow> queue_at q px = queue_at q (qs_px st)"
  shows "serves s st (st\<lparr>qs_px := px\<rparr>)"
  using assms queue_inv_pend_ref by (fastforce simp: serves_def)

lemma srv_queue_loop_serves:
  assumes "queue_inv (\<lambda>_. 0) D st" and "srv_queue_loop now_ms s px_ok maxc st n = Inr (st', n', stop)"
  shows "serves s st st'"
  using assms
proof (induction now_ms s px_ok maxc st n arbitrary: D rule: srv_queue_loop.induct)
  case (1 now_ms s px_ok maxc st n)
  note sim = srv_queue_loop.simps [of now_ms s px_ok maxc st n]
  show ?case
  proof (cases "s < length (px_srv (qs_px st)) \<and> served (srv_at (qs_px st) s) <s maxc")
    case False
    then show ?thesis using 1(3) by (auto simp: sim split: if_splits)
  next
    case True
    then have s: "s < length (px_srv (qs_px st))" and lt: "served (srv_at (qs_px st) s) <s maxc" by simp_all
    obtain st1 ok where p: "pendconn_process_next_strm now_ms s px_ok st = Inr (st1, ok)"
      and r: "(if \<not> ok then Inr (st1, n, True) else srv_queue_loop now_ms s px_ok maxc (srv_served_inc s st1) (Suc n)) = Inr (st', n', stop)"
      using 1(3) True by (auto simp: sim c_bind_Inr_iff)
    note sv = process_next_serves [OF 1(2) s p]
    have inv1: "queue_inv (\<lambda>_. 0) (if ok then Suc D else D) st1" using process_next_inv [OF 1(2) s, of now_ms px_ok] p by auto
    have same: "queue_fields_same (qs_px st1) (upd_srv s (\<lambda>t. t\<lparr>served := served t + 1\<rparr>) (qs_px st1))"
      by (rule queue_fields_same_upd_srv) simp
    have inc: "serves s st (srv_served_inc s st1)"
      unfolding srv_served_inc_def by (rule serves_trans [OF sv serves_proxy [OF inv1]]) (use same in \<open>simp add: queue_fields_same_def\<close>)
    show ?thesis
    proof (cases ok)
      case True
      then have "queue_inv (\<lambda>_. 0) (Suc D) (srv_served_inc s st1)"
        using queue_fields_same_inv(1) [OF same] inv1 by (simp add: srv_served_inc_def)
      from 1(1) [OF _ lt p refl _ this] s True r have "serves s (srv_served_inc s st1) st'" by simp
      then show ?thesis by (rule serves_trans [OF inc])
    qed (use r sv in simp)
  qed
qed

lemma srv_queue_rounds_serves:
  assumes inv: "queue_inv (\<lambda>_. 0) D st" and s: "s < length (px_srv (qs_px st))"
    and r: "srv_queue_rounds now_ms now_sec s px_ok stop st n = Inr (st', n')"
  shows "serves s st st'"
  using assms
proof (induction now_ms now_sec s px_ok stop st n arbitrary: D rule: srv_queue_rounds.induct)
  case (1 now_ms now_sec s px_ok stop st n)
  note sim = srv_queue_rounds.simps [of now_ms now_sec s px_ok _ st n]
  show ?case
  proof (cases "\<not> stop \<and> served (srv_at (qs_px st) s) <s srv_dynamic_maxconn now_sec (qs_px st) (srv_at (qs_px st) s)")
    case True
    then obtain st1 n1 stop1 where
      l: "srv_queue_loop now_ms s px_ok (srv_dynamic_maxconn now_sec (qs_px st) (srv_at (qs_px st) s)) st n = Inr (st1, n1, stop1)"
      and r: "srv_queue_rounds now_ms now_sec s px_ok stop1 st1 n1 = Inr (st', n')"
      using 1(4) by (auto simp: sim Let_def c_bind_Inr_iff)
    have "queue_inv (\<lambda>_. 0) (D + (n1 - n)) st1" 
      using srv_queue_loop_inv [OF 1(2,3), of now_ms px_ok "srv_dynamic_maxconn now_sec (qs_px st) (srv_at (qs_px st) s)" n] l by auto
    moreover have "s < length (px_srv (qs_px st1))" using srv_queue_loop_exit [OF l] 1(3) by simp
    ultimately have "serves s st1 st'" using 1(1) [OF refl True l refl refl _ _ r] by blast
    then show ?thesis by (rule serves_trans [OF srv_queue_loop_serves [OF 1(2) l]])
  qed (use 1(4) in \<open>auto simp: sim Let_def\<close>)
qed

lemma process_srv_queue_serves:
  assumes cb: "conn_callback cb" and inv: "queue_ok st" and s: "s < length (px_srv (qs_px st))"
    and r: "process_srv_queue cb now_ms now_sec s st = Inr st'"
  shows "serves s st st'"
proof -
  let ?ok = "px_queue_ok s (qs_px st)"
  obtain st1 n where rounds: "srv_queue_rounds now_ms now_sec s ?ok False st 0 = Inr (st1, n)"
    and inv1: "queue_inv (\<lambda>_. 0) n st1"
    using srv_queue_rounds_inv [OF inv s] by blast
  let ?p = "(qs_px st1)\<lparr>totpend := totpend (qs_px st1) - of_nat n, px_served := px_served (qs_px st1) + of_nat n\<rparr>"
  note sv = srv_queue_rounds_serves [OF inv s rounds]
  show ?thesis
  proof (cases "n = 0")
    case True
    then show ?thesis using r rounds sv by (simp add: process_srv_queue_def Let_def px_queue_ok_def)
  next
    case False
    then obtain px where px: "st' = st1\<lparr>qs_px := px\<rparr>"
      "px = ?p \<or> (\<exists>f. cb = Some f \<and> f s ?p = Inr px)"
      using r rounds by (cases cb) (auto simp: process_srv_queue_def Let_def px_queue_ok_def c_bind_Inr_iff)
    have fr: "s < length (px_srv ?p)" using srv_queue_rounds_frame [OF rounds] s by simp
    have "queue_at q px = queue_at q (qs_px st1)" if "q \<in> queue_refs (qs_px st1)" for q
      using px(2)
    proof
      assume "\<exists>f. cb = Some f \<and> f s ?p = Inr px"
      then obtain f where f: "cb = Some f" "f s ?p = Inr px" by blast
      from conn_callback.cb_outcome [OF cb f(1) fr] f(2)
      have "queue_fields_same ?p px" by (simp add: cb_frame_def)
      then show ?thesis using that by (simp add: queue_fields_same_def)
    qed simp
    from serves_trans [OF sv serves_proxy [OF inv1 this]] show ?thesis unfolding px(1) .
  qed
qed

text \<open>A pending connection that was taken tells its stream the server.\<close>

lemma pendconn_dequeue_target:
  assumes "pend_pos (qs_strm st t) = Some p" and "qs_pend st p = Some pc" and "pc_target pc = Some s" and "\<not> in_queue st p pc"
  shows "\<exists>st'. pendconn_dequeue t st = Inr (st', 0) \<and> strm_target (qs_strm st' t) = Some s \<and>
    strm_flags (qs_strm st' t) AND SF_ASSIGNED \<noteq> 0 \<and> pend_pos (qs_strm st' t) = None"
proof -
  have "(x OR SF_ASSIGNED) AND SF_ASSIGNED = SF_ASSIGNED" for x :: u32 by (simp add: bit.conj_disj_distrib2)
  then show ?thesis using assms by (simp add: pendconn_dequeue_def with_pend_def Let_def)
qed

text \<open>(C12) A stream that waits in the queue of a server, or in the proxy's queue while the server may
  take from it, does not wait in vain: \<^verbatim>\<open>process_srv_queue\<close> returns, for least-connection balancing if the server
  has a weight, and if the server then still has a free slot below its dynamic \<^verbatim>\<open>maxconn\<close> (a
  server whose \<^verbatim>\<open>maxconn\<close> is 0 counts as full), the stream has been woken, and its next \<^verbatim>\<open>pendconn_dequeue\<close> succeeds and assigns it
  to that server.\<close>

theorem process_srv_queue_serves_waiting:
  assumes cb: "cb \<in> take_conn_callbacks" and reach: "queue_reachable cb st" and small: "queues_small st"
    and s: "s < length (px_srv (qs_px st))" "cb = Some fwlc_srv_reposition \<longrightarrow> cur_eweight (srv_at (qs_px st) s) \<noteq> 0"
    and wait: "pend_pos (qs_strm st t) = Some p"
      "eb32_in_tree p (q_tree (Some s) st) \<or> px_queue_ok s (qs_px st) \<and> eb32_in_tree p (q_tree None st)"
  shows "\<exists>st'. process_srv_queue cb now_ms now_sec s st = Inr st' \<and>
    (served (srv_at (qs_px st') s) <s srv_dynamic_maxconn now_sec (qs_px st') (srv_at (qs_px st') s) \<longrightarrow>
      t \<in> set (qs_woken st') \<and>
      (\<exists>st''. pendconn_dequeue t st' = Inr (st'', 0) \<and> strm_target (qs_strm st'' t) = Some s \<and>
        strm_flags (qs_strm st'' t) AND SF_ASSIGNED \<noteq> 0 \<and> pend_pos (qs_strm st'' t) = None))"
proof -
  note cbk = take_conn_callbacks_ok [OF cb]
  have inv: "queue_ok st" using queue_reachable_inv [OF reach cbk] .
  have w: "cb_safe cb (srv_at (qs_px st) s)" using cb s(2) by (auto simp: take_conn_callbacks_def cb_safe_def)
  obtain st' where r: "process_srv_queue cb now_ms now_sec s st = Inr st'" and
    e: "\<not> served (srv_at (qs_px st') s) <s srv_dynamic_maxconn now_sec (qs_px st') (srv_at (qs_px st') s) \<or>
      q_tree (Some s) st' = [] \<and> (px_queue_ok s (qs_px st) \<longrightarrow> q_tree None st' = [])"
    using conn_callback.process_srv_queue_ok [OF cbk inv s(1) w, of now_ms now_sec] small by blast
  note sv = process_srv_queue_serves [OF cbk inv s(1) r]
  obtain pc where pc: "qs_pend st p = Some pc" "pc_strm pc = t" using queue_inv_pos [OF inv wait(1)] .
  have m: "eb32_in_tree p (q_tree (Some s) st) \<Longrightarrow> pc_queue pc = Some s" "eb32_in_tree p (q_tree None st) \<Longrightarrow> pc_queue pc = None"
    using queue_inv_mem [OF inv pc(1), of "Some s"] queue_inv_mem [OF inv pc(1), of None] s(1)
    by (auto simp: eb32_in_tree_iff queue_refs_def)
  have q: "pc_queue pc = Some s \<or> px_queue_ok s (qs_px st) \<and> pc_queue pc = None" "in_queue st p pc"
    using wait(2) m by auto
  have "t \<in> set (qs_woken st') \<and>
      (\<exists>st''. pendconn_dequeue t st' = Inr (st'', 0) \<and> strm_target (qs_strm st'' t) = Some s \<and>
        strm_flags (qs_strm st'' t) AND SF_ASSIGNED \<noteq> 0 \<and> pend_pos (qs_strm st'' t) = None)"
    if "served (srv_at (qs_px st') s) <s srv_dynamic_maxconn now_sec (qs_px st') (srv_at (qs_px st') s)"
  proof -
    have out: "\<not> in_queue st' p pc" using e q(1) that by (auto simp: eb32_in_tree_def)
    with sv pc q(2) obtain pc' where pc': "qs_pend st' p = Some pc'" "pc_queue pc' = pc_queue pc" "pc_target pc' = Some s"
        "pc_strm pc \<in> set (qs_woken st')" "pend_pos (qs_strm st' t) = Some p"
      using wait(1) unfolding serves_def by metis
    then show ?thesis using pendconn_dequeue_target [OF pc'(5,1,3)] out pc(2) by simp
  qed
  then show ?thesis using r by blast
qed

theorem process_srv_queue_serves_waiting_witness:
  "\<exists>st' st''. process_srv_queue (Some fwlc_srv_reposition) 5 0 1 sample_waiting = Inr st' \<and> 3 \<in> set (qs_woken st') \<and>
     pendconn_dequeue 3 st' = Inr (st'', 0) \<and> strm_target (qs_strm st'' 3) = Some 1"
proof -
  have free: "case process_srv_queue (Some fwlc_srv_reposition) 5 0 1 sample_waiting of
      Inl e \<Rightarrow> False | Inr st' \<Rightarrow> served (srv_at (qs_px st') 1) <s srv_dynamic_maxconn 0 (qs_px st') (srv_at (qs_px st') 1)"
    by code_simp
  have wait: "pend_pos (qs_strm sample_waiting 3) = Some 7" "eb32_in_tree 7 (q_tree (Some 1) sample_waiting)"
    by code_simp+
  show ?thesis
    using process_srv_queue_serves_waiting [OF _ sample_waiting_reachable sample_waiting_small sample_waiting_server(1) _ wait(1) disjI1 [OF wait(2)],
        of "Some fwlc_srv_reposition" 5 0] free sample_waiting_server(2)
    by (auto simp: take_conn_callbacks_def)
qed

end
