(* ===== verification/Backend_Slots.thy ===== *)
theory Backend_Slots
  imports Backend_Assign Pendconn_Serve
begin

text \<open>
  Connection slots: a stream holds a slot of the server its \<^verbatim>\<open>srv_conn\<close> names, and
  \<^verbatim>\<open>served\<close> counts the holders, for every server and for the proxy. Streams that wait in a
  queue hold none.
\<close>

section \<open>The invariant\<close>

definition holders :: "qstate \<Rightarrow> srv_ref \<Rightarrow> strm_ref set" where
  "holders st i = {t. srv_conn (qs_strm st t) = Some i}"

definition all_holders :: "qstate \<Rightarrow> strm_ref set" where
  "all_holders st = {t. srv_conn (qs_strm st t) \<noteq> None}"

text \<open>\<open>D\<close> is by how much the counter of the proxy lags behind while a queue is served.\<close>

definition slots_inv :: "nat \<Rightarrow> qstate \<Rightarrow> bool" where
  "slots_inv D st \<longleftrightarrow> finite (all_holders st) \<and>
     (\<forall>t i. srv_conn (qs_strm st t) = Some i \<longrightarrow> i < length (px_srv (qs_px st))) \<and>
     (\<forall>i < length (px_srv (qs_px st)). served (srv_at (qs_px st) i) = of_nat (card (holders st i))) \<and>
     px_served (qs_px st) + of_nat D = of_nat (card (all_holders st)) \<and>
     (\<forall>q \<in> queue_refs (qs_px st). \<forall>p \<in> set (eb_nodes (q_tree q st)). \<forall>pc. qs_pend st p = Some pc \<longrightarrow>
        srv_conn (qs_strm st (pc_strm pc)) = None)"

abbreviation slots_ok :: "qstate \<Rightarrow> bool" where
  "slots_ok \<equiv> slots_inv 0"

lemma holders_subset: "holders st i \<subseteq> all_holders st"
  by (auto simp: holders_def all_holders_def)

lemma finite_holders: "finite (all_holders st) \<Longrightarrow> finite (holders st i)"
  using holders_subset finite_subset by blast

lemma holders_gain:
  assumes "\<And>t. srv_conn (qs_strm st' t) = (if t = x then Some s else srv_conn (qs_strm st t))" and "srv_conn (qs_strm st x) = None"
  shows "holders st' i = (if i = s then insert x (holders st s) else holders st i)" "x \<notin> holders st i"
    "all_holders st' = insert x (all_holders st)" "x \<notin> all_holders st"
  using assms by (auto simp: holders_def all_holders_def)

lemma holders_loss:
  assumes "\<And>t. srv_conn (qs_strm st' t) = (if t = x then None else srv_conn (qs_strm st t))" and "srv_conn (qs_strm st x) = Some s"
  shows "holders st' i = (if i = s then holders st s - {x} else holders st i)" "x \<in> holders st s"
    "all_holders st' = all_holders st - {x}" "x \<in> all_holders st"
  using assms by (auto simp: holders_def all_holders_def)

text \<open>Proxies that agree on the slots and the queues.\<close>

definition slot_frame :: "proxy \<Rightarrow> proxy \<Rightarrow> bool" where
  "slot_frame p p' \<longleftrightarrow> queue_fields_same p p' \<and> length (px_srv p') = length (px_srv p) \<and> px_served p' = px_served p \<and>
     (\<forall>j < length (px_srv p). served (srv_at p' j) = served (srv_at p j) \<and> cur_eweight (srv_at p' j) = cur_eweight (srv_at p j))"

lemma Some_queue_refs: "Some i \<in> queue_refs p \<longleftrightarrow> i < length (px_srv p)"
  by (auto simp: queue_refs_def)

lemma queue_refs_length: "queue_refs p = queue_refs p' \<Longrightarrow> length (px_srv p) = length (px_srv p')"
  by (metis Some_queue_refs less_irrefl linorder_neqE_nat)

lemma cb_frame_slot_frame: "cb_frame s p p' \<Longrightarrow> slot_frame p p'"
  using queue_refs_length [of p' p] by (simp add: cb_frame_def slot_frame_def queue_fields_same_def)

lemma slot_frame_inv:
  assumes "slot_frame (qs_px st) p"
  shows "queue_inv L D st \<Longrightarrow> queue_inv L D (st\<lparr>qs_px := p\<rparr>)" "slots_inv E st \<Longrightarrow> slots_inv E (st\<lparr>qs_px := p\<rparr>)"
proof -
  have f: "queue_fields_same (qs_px st) p" using assms by (simp add: slot_frame_def)
  show "queue_inv L D st \<Longrightarrow> queue_inv L D (st\<lparr>qs_px := p\<rparr>)" by (rule queue_fields_same_inv(1) [OF f])
  have "holders (st\<lparr>qs_px := p\<rparr>) = holders st" "all_holders (st\<lparr>qs_px := p\<rparr>) = all_holders st"
    by (auto simp: holders_def all_holders_def)
  then show "slots_inv E st \<Longrightarrow> slots_inv E (st\<lparr>qs_px := p\<rparr>)"
    using assms by (simp add: slots_inv_def slot_frame_def queue_fields_same_def)
qed

lemma queue_fields_same_trans: "queue_fields_same p q \<Longrightarrow> queue_fields_same q r \<Longrightarrow> queue_fields_same p r"
  by (simp add: queue_fields_same_def)

lemma slot_frame_refl [simp]: "slot_frame p p"
  by (simp add: slot_frame_def queue_fields_same_def)

lemma slot_frame_trans: "slot_frame p q \<Longrightarrow> slot_frame q r \<Longrightarrow> slot_frame p r"
  by (simp add: slot_frame_def queue_fields_same_def)

text \<open>Changes of a stream that concern neither its slot nor its pending connection.\<close>

lemma upd_strm_inv:
  assumes "pend_pos (f (qs_strm st s)) = pend_pos (qs_strm st s)" and "srv_conn (f (qs_strm st s)) = srv_conn (qs_strm st s)"
  shows "queue_inv L D st \<Longrightarrow> queue_inv L D (upd_strm s f st)" "slots_inv E st \<Longrightarrow> slots_inv E (upd_strm s f st)"
proof -
  have "queue_obs st (upd_strm s f st)" using assms(1) by (simp add: queue_obs_def)
  then show "queue_inv L D st \<Longrightarrow> queue_inv L D (upd_strm s f st)" by (rule queue_obs_inv)
  have c: "srv_conn (qs_strm (upd_strm s f st) t) = srv_conn (qs_strm st t)" for t using assms(2) by simp
  then have "holders (upd_strm s f st) = holders st" "all_holders (upd_strm s f st) = all_holders st"
    by (simp_all add: holders_def all_holders_def fun_eq_iff)
  then show "slots_inv E st \<Longrightarrow> slots_inv E (upd_strm s f st)" using c by (simp add: slots_inv_def)
qed

section \<open>Taking and releasing a slot\<close>

text \<open>A stream that is in no queue takes a slot of server \<open>i\<close>.\<close>

lemma slots_take:
  assumes inv: "slots_inv D st" and i: "i < length (px_srv (qs_px st))" and x: "srv_conn (qs_strm st x) = None"
    and conn: "\<And>t. srv_conn (qs_strm st' t) = (if t = x then Some i else srv_conn (qs_strm st t))"
    and len: "length (px_srv (qs_px st')) = length (px_srv (qs_px st))"
    and served: "\<And>j. j < length (px_srv (qs_px st)) \<Longrightarrow>
      served (srv_at (qs_px st') j) = (if j = i then served (srv_at (qs_px st) i) + 1 else served (srv_at (qs_px st) j))"
    and px: "px_served (qs_px st') + of_nat D' = px_served (qs_px st) + of_nat D + 1"
    and queued: "\<And>q p pc. q \<in> queue_refs (qs_px st) \<Longrightarrow> p \<in> set (eb_nodes (q_tree q st')) \<Longrightarrow> qs_pend st' p = Some pc \<Longrightarrow>
      srv_conn (qs_strm st' (pc_strm pc)) = None"
  shows "slots_inv D' st'"
proof -
  note g = holders_gain [OF conn x]
  have fin: "finite (all_holders st)" using inv by (simp add: slots_inv_def)
  have "served (srv_at (qs_px st') j) = of_nat (card (holders st' j))" if "j < length (px_srv (qs_px st))" for j
    using inv that served [OF that] g(1,2) finite_holders [OF fin] by (simp add: slots_inv_def)
  moreover have "px_served (qs_px st') + of_nat D' = of_nat (card (all_holders st'))"
    using inv px g(3,4) fin by (simp add: slots_inv_def)
  moreover have "queue_refs (qs_px st') = queue_refs (qs_px st)" using len by (rule queue_refs_cong)
  ultimately show ?thesis using inv g(3) conn i len queued fin unfolding slots_inv_def by auto
qed

lemma slots_release:
  assumes inv: "slots_inv D st" and x: "srv_conn (qs_strm st x) = Some i"
    and conn: "\<And>t. srv_conn (qs_strm st' t) = (if t = x then None else srv_conn (qs_strm st t))"
    and len: "length (px_srv (qs_px st')) = length (px_srv (qs_px st))"
    and served: "\<And>j. j < length (px_srv (qs_px st)) \<Longrightarrow>
      served (srv_at (qs_px st') j) = (if j = i then served (srv_at (qs_px st) i) - 1 else served (srv_at (qs_px st) j))"
    and px: "px_served (qs_px st') = px_served (qs_px st) - 1"
    and queues: "\<And>q. q \<in> queue_refs (qs_px st) \<Longrightarrow> q_tree q st' = q_tree q st" "qs_pend st' = qs_pend st"
  shows "slots_inv D st'"
proof -
  note g = holders_loss [OF conn x]
  have fin: "finite (all_holders st)" using inv by (simp add: slots_inv_def)
  have c: "of_nat (card A) - 1 = (of_nat (card (A - {x})) :: c_int)" if "x \<in> A" "finite A" for A :: "strm_ref set"
  proof -
    have "card A = Suc (card (A - {x}))" using card_Suc_Diff1 [OF that(2,1)] by simp
    then show ?thesis by simp
  qed
  have "served (srv_at (qs_px st') j) = of_nat (card (holders st' j))" if "j < length (px_srv (qs_px st))" for j
    using inv that served [OF that] g(1) c [OF g(2) finite_holders [OF fin]] by (auto simp: slots_inv_def)
  moreover have "px_served (qs_px st') + of_nat D = of_nat (card (all_holders st'))"
  proof -
    have "px_served (qs_px st') + of_nat D = (px_served (qs_px st) + of_nat D) - 1" using px by simp
    also have "\<dots> = of_nat (card (all_holders st)) - 1" using inv by (simp add: slots_inv_def)
    finally show ?thesis using g(3) c [OF g(4) fin] by simp
  qed
  moreover have "queue_refs (qs_px st') = queue_refs (qs_px st)" using len by (rule queue_refs_cong)
  ultimately show ?thesis using inv g(3) conn len queues fin unfolding slots_inv_def by simp
qed

lemma add_served_fields:
  assumes "i < length (px_srv (qs_px st))"
  shows "queue_fields_same (qs_px st) (qs_px (add_served d i st))"
    "length (px_srv (qs_px (add_served d i st))) = length (px_srv (qs_px st))" "px_served (qs_px (add_served d i st)) = px_served (qs_px st) + d"
    "served (srv_at (qs_px (add_served d i st)) j) = (if j = i then served (srv_at (qs_px st) i) + d else served (srv_at (qs_px st) j))"
    "cur_eweight (srv_at (qs_px (add_served d i st)) i) = cur_eweight (srv_at (qs_px st) i)"
    "qs_strm (add_served d i st) = qs_strm st" "qs_pend (add_served d i st) = qs_pend st"
proof -
  have "queue_fields_same p (p\<lparr>px_served := y\<rparr>)" for p y by (rule queue_fields_same_served)
  moreover have "queue_fields_same (qs_px st) (upd_srv i (\<lambda>s. s\<lparr>served := served s + d\<rparr>) (qs_px st))"
    by (rule queue_fields_same_upd_srv) simp
  ultimately show "queue_fields_same (qs_px st) (qs_px (add_served d i st))"
    unfolding add_served_def Let_def by (auto simp: queue_fields_same_def)
qed (use assms in \<open>auto simp: add_served_def Let_def upd_srv_def nth_list_update\<close>)

text \<open>A callback that satisfies its contract, run after a change of \<^verbatim>\<open>served\<close>.\<close>

lemma run_cb_ok:
  assumes "conn_callback cb" and "i < length (px_srv (qs_px st))" and "cb_safe cb (srv_at (qs_px st) i)"
  shows "\<exists>p. run_cb cb i st = Inr (st\<lparr>qs_px := p\<rparr>) \<and> slot_frame (qs_px st) p"
proof (cases cb)
  case None
  then show ?thesis by (intro exI [of _ "qs_px st"]) (simp add: run_cb_def)
next
  case (Some f)
  from conn_callback.cb_ok [OF assms(1) Some assms(2,3)] obtain p where "f i (qs_px st) = Inr p" "cb_frame i (qs_px st) p" by auto
  then show ?thesis using Some cb_frame_slot_frame by (auto simp: run_cb_def)
qed

end
