(* ===== verification/Slots_Queue.thy ===== *)
theory Slots_Queue
  imports Backend_Slots
begin

text \<open>
  The queue operations keep the connection slots accounted for: \<^verbatim>\<open>process_srv_queue\<close> gives a
  slot to every stream it takes out of a queue, and the other operations give none.
\<close>

section \<open>Serving a queue\<close>

lemma q_view_px_served: "q_view px' = q_view px \<Longrightarrow> px_served px' = px_served px"
  by (drule arg_cong [where f = px_served]) (simp add: q_view_def)

text \<open>The stream of a pending connection taken out of its queue now holds a slot of the server.\<close>

lemma slots_taken:
  assumes q: "queue_inv L E st" and sl: "slots_inv D st" and s: "s < length (px_srv (qs_px st))"
    and r: "r \<in> queue_refs (qs_px st)" "p \<in> set (eb_nodes (q_tree r st))"
    and taken: "taken r p s st pc st'" and view: "q_view (qs_px st') = q_view (qs_px st)"
  shows "slots_inv (Suc D) (srv_served_inc s st')"
proof -
  note t = taken [unfolded taken_def]
  note v = q_view_eqD(1,4) [OF view]
  have none: "srv_conn (qs_strm st (pc_strm pc)) = None" using sl r t by (auto simp: slots_inv_def)
  have inc: "srv_at (qs_px (srv_served_inc s st')) j =
      (if j = s then (srv_at (qs_px st') s)\<lparr>served := served (srv_at (qs_px st') s) + 1\<rparr> else srv_at (qs_px st') j)"
    for j using s v(1) by (simp add: srv_served_inc_def upd_srv_def nth_list_update)
  have tree: "q_tree q (srv_served_inc s st') = q_tree q st'" if "q \<in> queue_refs (qs_px st)" for q
    using that queue_refs_cong [OF v(1)] by (simp add: srv_served_inc_def queue_at_upd_srv)
  show ?thesis
  proof (rule slots_take [OF sl s none])
    fix q x px assume x: "q \<in> queue_refs (qs_px st)" "x \<in> set (eb_nodes (q_tree q (srv_served_inc s st')))"
      "qs_pend (srv_served_inc s st') x = Some px"
    have st': "qs_pend st' x = Some px" using x(3) by (simp add: srv_served_inc_def)
    have ne: "x \<noteq> p"
    proof
      assume eq: "x = p"
      then have "q = r" using queue_inv_mem [OF q _ x(1)] queue_inv_mem [OF q _ r] r x t
        by (auto simp: tree split: if_splits)
      then show False using x t eq by (auto simp: tree)
    qed
    then have px: "qs_pend st x = Some px" "x \<in> set (eb_nodes (q_tree q st))" using st' x t by (auto simp: tree split: if_splits)
    have "pend_pos (qs_strm st (pc_strm px)) = Some x" "pend_pos (qs_strm st (pc_strm pc)) = Some p"
      using q px(1) t by (auto simp: queue_inv_def pend_ok_def)
    then have "pc_strm px \<noteq> pc_strm pc" using ne by auto
    then show "srv_conn (qs_strm (srv_served_inc s st') (pc_strm px)) = None"
      using sl x(1) px t by (auto simp: slots_inv_def srv_served_inc_def)
  next
    show "px_served (qs_px (srv_served_inc s st')) + of_nat (Suc D) = px_served (qs_px st) + of_nat D + 1"
      using q_view_px_served [OF view] by (simp add: srv_served_inc_def upd_srv_def)
  qed (use t v s inc in \<open>auto simp: srv_served_inc_def\<close>)
qed

lemma process_next_slots:
  assumes q: "queue_inv L E st" and sl: "slots_inv D st" and s: "s < length (px_srv (qs_px st))"
    and r: "pendconn_process_next_strm now_ms s px_ok st = Inr (st', ok)"
  shows "if ok then slots_inv (Suc D) (srv_served_inc s st') else slots_inv D st'"
proof -
  note view = q_view_process [OF r]
  have refs: "Some s \<in> queue_refs (qs_px st)" "None \<in> queue_refs (qs_px st)" using s by (auto simp: queue_refs_def)
  have p: ?thesis if "pendconn_first now_ms (q_head (srv_queue (srv_at (qs_px st) s))) = Some e" "use_p e s st = Inr (st', ok)" for e
  proof -
    have e: "snd e \<in> set (eb_nodes (q_tree (Some s) st))" using first_in_nodes [OF that(1)] by (simp add: queue_at_def)
    from use_p_effect [OF q s e that(2)] show ?thesis using slots_taken [OF q sl s refs(1) e _ view] by auto
  qed
  have pp: ?thesis if "pendconn_first now_ms (q_head (px_queue (qs_px st))) = Some e" "use_pp e s st = Inr (st', ok)" for e
  proof -
    have e: "snd e \<in> set (eb_nodes (q_tree None st))" using first_in_nodes [OF that(1)] by (simp add: queue_at_def)
    from use_pp_effect [OF q e that(2)] show ?thesis using slots_taken [OF q sl s refs(2) e _ view] by auto
  qed
  show ?thesis using r p pp sl by (auto simp: pendconn_process_next_strm_def Let_def split: option.splits if_splits)
qed

lemma srv_queue_loop_slots:
  assumes "queue_inv (\<lambda>_. 0) E st" and "slots_inv n st" and "srv_queue_loop now_ms s px_ok maxc st n = Inr (st', n', stop)"
  shows "slots_inv n' st'"
  using assms
proof (induction now_ms s px_ok maxc st n arbitrary: E rule: srv_queue_loop.induct)
  case (1 now_ms s px_ok maxc st n)
  note sim = srv_queue_loop.simps [of now_ms s px_ok maxc st n]
  show ?case
  proof (cases "s < length (px_srv (qs_px st)) \<and> served (srv_at (qs_px st) s) <s maxc")
    case False
    then show ?thesis using 1(3,4) by (auto simp: sim split: if_splits)
  next
    case True
    then have s: "s < length (px_srv (qs_px st))" and lt: "served (srv_at (qs_px st) s) <s maxc" by simp_all
    obtain st1 ok where p: "pendconn_process_next_strm now_ms s px_ok st = Inr (st1, ok)"
      and r: "(if \<not> ok then Inr (st1, n, True) else srv_queue_loop now_ms s px_ok maxc (srv_served_inc s st1) (Suc n)) = Inr (st', n', stop)"
      using 1(4) True by (auto simp: sim c_bind_Inr_iff)
    note sl = process_next_slots [OF 1(2,3) s p]
    have inv1: "queue_inv (\<lambda>_. 0) (if ok then Suc E else E) st1" using process_next_inv [OF 1(2) s, of now_ms px_ok] p by auto
    show ?thesis
    proof (cases ok)
      case True
      have "queue_fields_same (qs_px st1) (upd_srv s (\<lambda>t. t\<lparr>served := served t + 1\<rparr>) (qs_px st1))"
        by (rule queue_fields_same_upd_srv) simp
      from queue_fields_same_inv(1) [OF this] inv1 True have "queue_inv (\<lambda>_. 0) (Suc E) (srv_served_inc s st1)"
        by (simp add: srv_served_inc_def)
      from 1(1) [OF _ lt p refl _ this] s True r sl show ?thesis by simp
    qed (use r sl in auto)
  qed
qed

lemma srv_queue_rounds_slots:
  assumes "queue_inv (\<lambda>_. 0) E st" and "s < length (px_srv (qs_px st))" and "slots_inv n st"
    and "srv_queue_rounds now_ms now_sec s px_ok stop st n = Inr (st', n')"
  shows "slots_inv n' st'"
  using assms
proof (induction now_ms now_sec s px_ok stop st n arbitrary: E rule: srv_queue_rounds.induct)
  case (1 now_ms now_sec s px_ok stop st n)
  note sim = srv_queue_rounds.simps [of now_ms now_sec s px_ok _ st n]
  show ?case
  proof (cases "\<not> stop \<and> served (srv_at (qs_px st) s) <s srv_dynamic_maxconn now_sec (qs_px st) (srv_at (qs_px st) s)")
    case True
    then obtain st1 n1 stop1 where
      l: "srv_queue_loop now_ms s px_ok (srv_dynamic_maxconn now_sec (qs_px st) (srv_at (qs_px st) s)) st n = Inr (st1, n1, stop1)"
      and r: "srv_queue_rounds now_ms now_sec s px_ok stop1 st1 n1 = Inr (st', n')"
      using 1(5) by (auto simp: sim Let_def c_bind_Inr_iff)
    have "queue_inv (\<lambda>_. 0) (E + (n1 - n)) st1"
      using srv_queue_loop_inv [OF 1(2,3), of now_ms px_ok "srv_dynamic_maxconn now_sec (qs_px st) (srv_at (qs_px st) s)" n] l by auto
    moreover have "s < length (px_srv (qs_px st1))" using srv_queue_loop_exit [OF l] 1(3) by simp
    ultimately show ?thesis using 1(1) [OF refl True l refl refl _ _ _ r] srv_queue_loop_slots [OF 1(2,4) l] by blast
  qed (use 1(4,5) in \<open>auto simp: sim Let_def\<close>)
qed

lemma process_srv_queue_slots:
  assumes cb: "conn_callback cb" and inv: "queue_ok st" and sl: "slots_ok st" and s: "s < length (px_srv (qs_px st))"
    and w: "cb_safe cb (srv_at (qs_px st) s)"
  shows "\<exists>st'. process_srv_queue cb now_ms now_sec s st = Inr st' \<and> queue_ok st' \<and> slots_ok st' \<and> serves s st st'"
proof -
  obtain st' where r: "process_srv_queue cb now_ms now_sec s st = Inr st'" and ok: "queue_ok st'"
    using conn_callback.process_srv_queue_ok [OF cb inv s w] by blast
  obtain st1 n where rounds: "srv_queue_rounds now_ms now_sec s (px_queue_ok s (qs_px st)) False st 0 = Inr (st1, n)"
    using srv_queue_rounds_inv [OF inv s] by blast
  let ?st = "st1\<lparr>qs_px := (qs_px st1)\<lparr>totpend := totpend (qs_px st1) - of_nat n, px_served := px_served (qs_px st1) + of_nat n\<rparr>\<rparr>"
  have sl1: "slots_inv n st1" using srv_queue_rounds_slots [OF inv s sl rounds] .
  have "holders ?st = holders st1" "all_holders ?st = all_holders st1" by (auto simp: holders_def all_holders_def)
  moreover have "queue_at q (qs_px ?st) = queue_at q (qs_px st1)" for q by (cases q) (simp_all add: queue_at_def)
  ultimately have slp: "slots_ok ?st" using sl1 by (simp add: slots_inv_def queue_refs_def)
  have len: "s < length (px_srv (qs_px ?st))" "cb_safe cb (srv_at (qs_px ?st) s)"
    using srv_queue_rounds_frame [OF rounds] s cb_safe_cong [OF _ w] by auto
  have eq: "process_srv_queue cb now_ms now_sec s st = (if n = 0 then Inr st1 else run_cb cb s ?st)"
    unfolding process_srv_queue_def Let_def px_queue_ok_def [symmetric] rounds run_cb_def by (cases cb) simp_all
  have "slots_ok st'"
  proof (cases "n = 0")
    case True
    then show ?thesis using eq r sl1 by simp
  next
    case False
    obtain p where "run_cb cb s ?st = Inr (?st\<lparr>qs_px := p\<rparr>)" "slot_frame (qs_px ?st) p"
      using run_cb_ok [OF cb len] by blast
    then show ?thesis using slot_frame_inv(2) [OF _ slp] eq r False by simp
  qed
  then show ?thesis using r ok process_srv_queue_serves [OF cb inv s r] by blast
qed

section \<open>Leaving a queue\<close>

text \<open>Streams may leave the queues; nobody gets a slot.\<close>

definition only_leaves :: "qstate \<Rightarrow> qstate \<Rightarrow> bool" where
  "only_leaves st st' \<longleftrightarrow> q_view (qs_px st') = q_view (qs_px st) \<and>
     (\<forall>t. srv_conn (qs_strm st' t) = srv_conn (qs_strm st t)) \<and>
     (\<forall>q \<in> queue_refs (qs_px st). set (eb_nodes (q_tree q st')) \<subseteq> set (eb_nodes (q_tree q st))) \<and>
     (\<forall>p pc'. qs_pend st' p = Some pc' \<longrightarrow> (\<exists>pc. qs_pend st p = Some pc \<and> pc_strm pc' = pc_strm pc))"

lemma only_leaves_refl [simp]: "only_leaves st st"
  by (simp add: only_leaves_def)

lemma only_leaves_trans:
  assumes "only_leaves st1 st2" and "only_leaves st2 st3"
  shows "only_leaves st1 st3"
proof -
  note l = assms [unfolded only_leaves_def]
  have "queue_refs (qs_px st2) = queue_refs (qs_px st1)" using l(1) by (intro queue_refs_cong q_view_eqD(1)) simp
  then have "set (eb_nodes (q_tree q st3)) \<subseteq> set (eb_nodes (q_tree q st1))" if "q \<in> queue_refs (qs_px st1)" for q
    using l(1) l(2) that by blast
  moreover have "\<exists>pc. qs_pend st1 p = Some pc \<and> pc_strm pc3 = pc_strm pc" if p: "qs_pend st3 p = Some pc3" for p pc3
  proof -
    obtain pc2 where "qs_pend st2 p = Some pc2" "pc_strm pc3 = pc_strm pc2" using l(2) p by blast
    moreover from this obtain pc where "qs_pend st1 p = Some pc" "pc_strm pc2 = pc_strm pc" using l(1) by blast
    ultimately show ?thesis by simp
  qed
  ultimately show ?thesis using l by (simp add: only_leaves_def)
qed

lemma only_leaves_slots:
  assumes "only_leaves st st'" and "slots_inv D st"
  shows "slots_inv D st'"
proof -
  note l = assms(1) [unfolded only_leaves_def]
  have "holders st' = holders st" "all_holders st' = all_holders st" using l by (simp_all add: holders_def all_holders_def fun_eq_iff)
  moreover have v: "length (px_srv (qs_px st')) = length (px_srv (qs_px st))" "px_served (qs_px st') = px_served (qs_px st)"
      "j < length (px_srv (qs_px st)) \<Longrightarrow> served (srv_at (qs_px st') j) = served (srv_at (qs_px st) j)" for j
    using l q_view_eqD q_view_px_served by metis+
  moreover have "srv_conn (qs_strm st' (pc_strm pc)) = None"
    if q: "q \<in> queue_refs (qs_px st')" "p \<in> set (eb_nodes (q_tree q st'))" "qs_pend st' p = Some pc" for q p pc
  proof -
    have "q \<in> queue_refs (qs_px st)" using q(1) queue_refs_cong [OF v(1)] by simp
    moreover from this have "p \<in> set (eb_nodes (q_tree q st))" using q(2) l by blast
    moreover obtain pc0 where "qs_pend st p = Some pc0" "pc_strm pc = pc_strm pc0" using q(3) l by blast
    ultimately show ?thesis using assms(2) l by (simp add: slots_inv_def)
  qed
  ultimately show ?thesis using assms(2) l unfolding slots_inv_def by simp
qed

lemma set_nodes_delete: "set (eb_nodes (eb32_delete p t)) = set (eb_nodes t) - {p}"
  by (auto simp: eb32_delete_def set_eb_nodes)

lemma only_leaves_upd_queue:
  assumes "only_leaves st0 st" and "\<And>x. set (eb_nodes (q_head (f x))) \<subseteq> set (eb_nodes (q_head x))"
  shows "only_leaves st0 (upd_queue q f st)"
  by (rule only_leaves_trans [OF assms(1)]) (use assms(2) in \<open>simp add: only_leaves_def queue_at_upd_queue\<close>)

lemma only_leaves_upd_strm:
  assumes "only_leaves st0 st" and "\<And>x. srv_conn (f x) = srv_conn x"
  shows "only_leaves st0 (upd_strm s f st)"
  by (rule only_leaves_trans [OF assms(1)]) (use assms(2) in \<open>simp add: only_leaves_def\<close>)

lemma only_leaves_upd_pend:
  assumes "only_leaves st0 st" and "\<And>x. pc_strm (f x) = pc_strm x"
  shows "only_leaves st0 (upd_pend p f st)"
  by (rule only_leaves_trans [OF assms(1)]) (use assms(2) in \<open>auto simp: only_leaves_def upd_pend_def\<close>)

lemma only_leaves_misc:
  assumes "only_leaves st0 st"
  shows "only_leaves st0 (task_wakeup s st)" "only_leaves st0 (st\<lparr>qs_px := (qs_px st)\<lparr>totpend := n\<rparr>\<rparr>)"
    "only_leaves st0 (st\<lparr>qs_pend := (qs_pend st)(p := None)\<rparr>)"
  by (rule only_leaves_trans [OF assms]; auto simp: only_leaves_def task_wakeup_def queue_at_def split: option.splits if_splits)+

lemmas leaves = only_leaves_upd_queue only_leaves_upd_strm only_leaves_upd_pend only_leaves_misc

lemma with_pend_Inr: "with_pend p st f = Inr r \<longleftrightarrow> (\<exists>pc. qs_pend st p = Some pc \<and> f pc = Inr r)"
  by (simp add: with_pend_def split: option.splits)

lemma unlink_srv_leaves: "only_leaves st (pendconn_unlink_srv p pc st)"
  unfolding pendconn_unlink_srv_def Let_def by (intro leaves) (auto simp: set_nodes_delete)

lemma unlink_prx_leaves: "only_leaves st (pendconn_unlink_prx p pc st)"
  unfolding pendconn_unlink_prx_def Let_def by (intro leaves) (auto simp: set_nodes_delete)

lemma pendconn_unlink_leaves:
  assumes "pendconn_unlink p st = Inr st'"
  shows "only_leaves st st'"
proof -
  obtain pc where pc: "qs_pend st p = Some pc" using assms by (auto simp: pendconn_unlink_def with_pend_Inr)
  show ?thesis
  proof (cases "in_queue st p pc")
    case True
    show ?thesis using assms True unfolding pendconn_unlink_def with_pend_def pc Let_def
      by (auto intro!: leaves simp: set_nodes_delete split: if_splits)
  next
    case False
    then show ?thesis using assms pc by (simp add: pendconn_unlink_def with_pend_def Let_def)
  qed
qed

lemma pendconn_free_leaves:
  assumes "pendconn_free s st = Inr st'"
  shows "only_leaves st st'"
proof (cases "pend_pos (qs_strm st s)")
  case (Some p)
  then obtain st1 where u: "pendconn_unlink p st = Inr st1"
    and st': "st' = (let st = upd_strm s (\<lambda>t. t\<lparr>pend_pos := None\<rparr>) st1 in st\<lparr>qs_pend := (qs_pend st)(p := None)\<rparr>)"
    using assms by (auto simp: pendconn_free_def pendconn_cond_unlink_def c_bind_Inr_iff)
  show ?thesis unfolding st' Let_def
    by (intro leaves pendconn_unlink_leaves [OF u]) simp
qed (use assms in \<open>simp add: pendconn_free_def\<close>)

lemma pendconn_dequeue_leaves:
  assumes "pendconn_dequeue s st = Inr (st', r)"
  shows "only_leaves st st'"
proof -
  obtain p pc where p: "pend_pos (qs_strm st s) = Some p" "qs_pend st p = Some pc"
    using assms by (auto simp: pendconn_dequeue_def with_pend_Inr split: option.splits)
  let ?keep = "SF_DIRECT OR SF_ASSIGNED OR SF_ADDR_SET"
  define st1 where "st1 = upd_strm s (\<lambda>s. s\<lparr>strm_flags := (strm_flags s AND NOT ?keep) OR (pc_flags pc AND ?keep)\<rparr>) st"
  define st2 where "st2 = (case pc_target pc of
      Some t \<Rightarrow> upd_strm s (\<lambda>s. s\<lparr>strm_target := Some t, strm_flags := strm_flags s OR SF_ASSIGNED\<rparr>) st1 | None \<Rightarrow> st1)"
  define st3 where "st3 = upd_strm s (\<lambda>s. s\<lparr>pend_pos := None\<rparr>) st2"
  have st1: "only_leaves st st1" unfolding st1_def by (intro leaves) simp_all
  have "only_leaves st st2" unfolding st2_def by (cases "pc_target pc") (simp_all add: st1 leaves(2))
  then have "only_leaves st (st3\<lparr>qs_pend := (qs_pend st3)(p := None)\<rparr>)" unfolding st3_def by (intro leaves) simp_all
  moreover have "st' = st \<or> st' = st3\<lparr>qs_pend := (qs_pend st3)(p := None)\<rparr>"
    using assms p unfolding pendconn_dequeue_def with_pend_def Let_def st3_def st2_def st1_def by (auto split: if_splits)
  ultimately show ?thesis by auto
qed

lemma redistribute_loop_leaves: "redistribute_loop ps st n = Inr (st', n') \<Longrightarrow> only_leaves st st'"
proof (induction ps arbitrary: st n)
  case (Cons p ps)
  then obtain pc where pc: "qs_pend st p = Some pc" by (auto simp: with_pend_Inr)
  have "only_leaves st (task_wakeup (pc_strm pc) (upd_pend p f (pendconn_unlink_srv p pc st)))" if "\<And>x. pc_strm (f x) = pc_strm x" for f
    using that by (intro leaves unlink_srv_leaves)
  note step = only_leaves_trans [OF this Cons.IH]
  show ?case using Cons.prems Cons.IH
    by (cases "pc_flags pc AND SF_FORCE_PRST = 0") (auto simp: with_pend_def pc Let_def intro: step [rotated])
qed simp

lemma grab_loop_leaves: "grab_loop now_ms maxc s st n = Inr (st', n') \<Longrightarrow> only_leaves st st'"
proof (induction now_ms maxc s st n rule: grab_loop.induct)
  case (1 now_ms maxc s st n)
  have "only_leaves st (grab_one p pc s st)" for p pc
    unfolding grab_one_def Let_def by (intro leaves unlink_prx_leaves) simp
  note step = only_leaves_trans [OF this]
  show ?case using 1(2) 1(1) [THEN step] by (auto simp: grab_loop.simps [of now_ms maxc s st n] split: option.splits if_splits)
qed

lemma pendconn_redistribute_leaves:
  "pendconn_redistribute s st = Inr (st', n) \<Longrightarrow> only_leaves st st'"
  by (auto simp: pendconn_redistribute_def c_bind_Inr_iff Let_def split: if_splits intro!: leaves dest: redistribute_loop_leaves)

lemma pendconn_grab_leaves:
  "pendconn_grab_from_px now_ms now_sec s st = Inr (st', n) \<Longrightarrow> only_leaves st st'"
  by (auto simp: pendconn_grab_from_px_def c_bind_Inr_iff Let_def split: if_splits intro!: leaves dest: grab_loop_leaves)

end
