(* ===== verification/Backend_Outcome.thy ===== *)
theory Backend_Outcome
  imports Slots_Queue
begin

text \<open>
  What becomes of a stream that asks for a server: whatever the balancing algorithm, as long as it
  keeps the contract stated here, the stream ends with a slot of its server, in one queue, or with
  neither.
\<close>

section \<open>What a balancing algorithm sees\<close>

text \<open>The proxy and its servers without their queues, loads and counters.\<close>

definition srv_view :: "server \<Rightarrow> server" where
  "srv_view s = s\<lparr>srv_queue := sample_queue, served := 0, cur_sess := 0, srv_cum_lbconn := 0, srv_redispatches := 0, srv_retries := 0,
     srv_nbpend_max := 0\<rparr>"

definition lb_view :: "proxy \<Rightarrow> proxy" where
  "lb_view p = p\<lparr>px_queue := sample_queue, totpend := 0, px_served := 0, px_cum_lbconn := 0, px_redispatches := 0,
     px_retries := 0, px_nbpend_max := 0, px_srv := map srv_view (px_srv p)\<rparr>"

lemma lb_view_upd_srv: "(\<And>x. srv_view (h x) = srv_view x) \<Longrightarrow> lb_view (upd_srv i h p) = lb_view p"
  by (cases "i < length (px_srv p)")
     (simp_all add: lb_view_def upd_srv_def map_update list_update_same_conv list_update_beyond)

lemma lb_view_fields [simp]:
  "lb_view (p\<lparr>px_queue := q\<rparr>) = lb_view p" "lb_view (p\<lparr>totpend := n\<rparr>) = lb_view p" "lb_view (p\<lparr>px_served := c\<rparr>) = lb_view p"
  "lb_view (p\<lparr>px_cum_lbconn := k\<rparr>) = lb_view p" "lb_view (p\<lparr>px_redispatches := k\<rparr>) = lb_view p"
  "lb_view (p\<lparr>px_retries := k\<rparr>) = lb_view p" "lb_view (p\<lparr>px_nbpend_max := n\<rparr>) = lb_view p"
  by (simp_all add: lb_view_def)

lemma lb_view_q_view: "q_view p' = q_view p \<Longrightarrow> lb_view p' = lb_view p"
proof -
  have "lb_view (q_view p) = lb_view p" for p by (simp add: lb_view_def q_view_def srv_view_def comp_def)
  then show "q_view p' = q_view p \<Longrightarrow> lb_view p' = lb_view p" by metis
qed

definition weights_same :: "proxy \<Rightarrow> proxy \<Rightarrow> bool" where
  "weights_same p p' \<longleftrightarrow> length (px_srv p') = length (px_srv p) \<and>
     (\<forall>j < length (px_srv p). cur_eweight (srv_at p' j) = cur_eweight (srv_at p j))"

lemma weights_same_refl [simp]: "weights_same p p"
  by (simp add: weights_same_def)

lemma weights_same_trans: "weights_same p q \<Longrightarrow> weights_same q r \<Longrightarrow> weights_same p r"
  by (simp add: weights_same_def)

lemma weights_same_view:
  assumes "lb_view p' = lb_view p"
  shows "weights_same p p'"
proof -
  have m: "map srv_view (px_srv p') = map srv_view (px_srv p)"
    using arg_cong [OF assms, of px_srv] by (simp add: lb_view_def)
  then have len: "length (px_srv p') = length (px_srv p)" by (metis length_map)
  have "srv_view (srv_at p' j) = srv_view (srv_at p j)" if "j < length (px_srv p)" for j
    using m that len by (metis nth_map)
  moreover have "cur_eweight (srv_view s) = cur_eweight s" for s by (simp add: srv_view_def)
  ultimately show ?thesis unfolding weights_same_def using len by metis
qed

lemma weights_same_frame: "slot_frame p p' \<Longrightarrow> weights_same p p'"
  by (simp add: slot_frame_def weights_same_def)

lemma lb_view_add_served: "lb_view (qs_px (add_served d i st)) = lb_view (qs_px st)"
  by (simp add: add_served_def Let_def lb_view_upd_srv srv_view_def)

lemma lb_view_upd_queue: "lb_view (qs_px (upd_queue q f st)) = lb_view (qs_px st)"
  by (rule lb_view_q_view) simp

lemma lb_view_pendconn_add: "lb_view (qs_px (fst (pendconn_add now_ms a s st))) = lb_view (qs_px st)"
proof (cases a)
  case (Some p)
  have "lb_view (update_nbpend_max q n px) = lb_view px" for q n px
    by (auto simp: update_nbpend_max_def srv_view_def intro!: lb_view_upd_srv split: option.splits)
  then show ?thesis by (simp add: Some pendconn_add_def Let_def lb_view_upd_queue)
qed (simp add: pendconn_add_def)

lemma srv_queue_loop_view:
  "srv_queue_loop now_ms s px_ok maxc st n = Inr (st', n', stop) \<Longrightarrow> lb_view (qs_px st') = lb_view (qs_px st)"
proof (induction now_ms s px_ok maxc st n rule: srv_queue_loop.induct)
  case (1 now_ms s px_ok maxc st n)
  have inc: "lb_view (qs_px (srv_served_inc s st1)) = lb_view (qs_px st1)" for st1
    by (simp add: srv_served_inc_def lb_view_upd_srv srv_view_def)
  show ?case using 1(2) 1(1) [OF _ _ _ refl]
    by (auto simp: srv_queue_loop.simps [of now_ms s px_ok maxc st n] c_bind_Inr_iff inc
        split: if_splits) (metis q_view_process lb_view_q_view)+
qed

lemma srv_queue_rounds_view:
  "srv_queue_rounds now_ms now_sec s px_ok stop st n = Inr (st', n') \<Longrightarrow> lb_view (qs_px st') = lb_view (qs_px st)"
proof (induction now_ms now_sec s px_ok stop st n rule: srv_queue_rounds.induct)
  case (1 now_ms now_sec s px_ok stop st n)
  show ?case using 1(2) 1(1) [OF refl _ _ refl refl]
    by (auto simp: srv_queue_rounds.simps [of now_ms now_sec s px_ok stop st n] c_bind_Inr_iff Let_def
        split: if_splits) (metis srv_queue_loop_view)
qed

section \<open>Choosing a server\<close>

text \<open>Updates of a stream by a field that is neither its slot nor its place in a queue, and of the
  proxy outside of the queues and the slots.\<close>

definition same_place :: "strm_ref \<Rightarrow> bstate \<Rightarrow> bstate \<Rightarrow> bool" where
  "same_place s st st' \<longleftrightarrow> slot_frame (qs_px (bs_q st)) (qs_px (bs_q st')) \<and> qs_pend (bs_q st') = qs_pend (bs_q st) \<and>
     (\<forall>t. t \<noteq> s \<longrightarrow> qs_strm (bs_q st') t = qs_strm (bs_q st) t) \<and>
     pend_pos (qs_strm (bs_q st') s) = pend_pos (qs_strm (bs_q st) s) \<and>
     srv_conn (qs_strm (bs_q st') s) = srv_conn (qs_strm (bs_q st) s)"

lemma same_place_inv:
  assumes "same_place s st st'"
  shows "queue_ok (bs_q st) \<Longrightarrow> queue_ok (bs_q st')" "slots_ok (bs_q st) \<Longrightarrow> slots_ok (bs_q st')"
proof -
  note p = assms [unfolded same_place_def slot_frame_def queue_fields_same_def]
  have t: "pend_pos (qs_strm (bs_q st') t) = pend_pos (qs_strm (bs_q st) t)" "srv_conn (qs_strm (bs_q st') t) = srv_conn (qs_strm (bs_q st) t)" for t
    using p by (cases "t = s"; simp)+
  have "queue_obs (bs_q st) (bs_q st')" using p t by (simp add: queue_obs_def)
  then show "queue_ok (bs_q st) \<Longrightarrow> queue_ok (bs_q st')" by (rule queue_obs_inv)
  have "holders (bs_q st') = holders (bs_q st)" "all_holders (bs_q st') = all_holders (bs_q st)"
    using t by (simp_all add: holders_def all_holders_def fun_eq_iff)
  then show "slots_ok (bs_q st) \<Longrightarrow> slots_ok (bs_q st')" using p t by (simp add: slots_inv_def)
qed

lemma same_place_refl [simp]: "same_place s st st"
  by (simp add: same_place_def)

lemma same_place_trans: "same_place s st1 st2 \<Longrightarrow> same_place s st2 st3 \<Longrightarrow> same_place s st1 st3"
  unfolding same_place_def using slot_frame_trans by (metis (no_types, lifting))

lemma slot_frame_upd_srv:
  assumes h: "\<And>x. srv_queue (h x) = srv_queue x" "\<And>x. served (h x) = served x" "\<And>x. cur_eweight (h x) = cur_eweight x"
  shows "slot_frame p (upd_srv i h p)"
proof -
  have "served (srv_at (upd_srv i h p) j) = served (srv_at p j)" "cur_eweight (srv_at (upd_srv i h p) j) = cur_eweight (srv_at p j)"
    if "j < length (px_srv p)" for j
    using that h(2,3) by (cases "i = j"; simp add: upd_srv_def)+
  then show ?thesis using queue_fields_same_upd_srv [OF h(1)] by (simp add: slot_frame_def) (simp add: upd_srv_def)
qed

lemma slot_frame_counters:
  "slot_frame p (p\<lparr>px_cum_lbconn := n\<rparr>)" "slot_frame p (p\<lparr>px_redispatches := n\<rparr>)" "slot_frame p (p\<lparr>px_retries := n\<rparr>)"
  by (auto simp: slot_frame_def queue_fields_same_def queue_refs_def queue_at_def split: option.splits)

text \<open>What the lookup promises: the slots and the queues are left alone, and the server exists.\<close>

definition lookup_ok :: "proxy \<Rightarrow> proxy \<Rightarrow> srv_ref option option \<Rightarrow> bool" where
  "lookup_ok px px' found \<longleftrightarrow> slot_frame px px' \<and> (\<forall>i. found = Some (Some i) \<longrightarrow> i < length (px_srv px))"

lemma sess_last_in:
  "sess_last now_sec px prefer l = Some (n, i, c) \<Longrightarrow> n < length l \<and> fst (l ! n) = Some i"
proof (induction l arbitrary: n)
  case (Cons e l)
  obtain t conns where e: "e = (t, conns)" by (cases e)
  show ?case using Cons by (auto simp: e Let_def split: option.splits if_splits)
qed simp

text \<open>The transaction stays, and the session names the same servers.\<close>

definition ctx_kept :: "bstate \<Rightarrow> bstate \<Rightarrow> bool" where
  "ctx_kept st st' \<longleftrightarrow> (bs_txn st \<noteq> None \<longrightarrow> bs_txn st' \<noteq> None) \<and>
     fst ` set (sess_srv_list (bs_sess st')) \<subseteq> fst ` set (sess_srv_list (bs_sess st))"

lemma ctx_kept_same: "bs_txn st' = bs_txn st \<Longrightarrow> bs_sess st' = bs_sess st \<Longrightarrow> ctx_kept st st'"
  by (simp add: ctx_kept_def)

lemma ctx_kept_trans: "ctx_kept st1 st2 \<Longrightarrow> ctx_kept st2 st3 \<Longrightarrow> ctx_kept st1 st3"
  unfolding ctx_kept_def by blast

lemma sess_take_conn_servers:
  assumes "n < length (sess_srv_list sess)"
  shows "fst ` set (sess_srv_list (sess_take_conn n c sess)) \<subseteq> fst ` set (sess_srv_list sess)"
proof -
  obtain t conns where e: "sess_srv_list sess ! n = (t, conns)" by (cases "sess_srv_list sess ! n")
  then have "map fst (sess_srv_list sess) ! n = t" using assms by simp
  then have "map fst (sess_srv_list (sess_take_conn n c sess)) = map fst (sess_srv_list sess)"
    using assms by (simp add: sess_take_conn_def e map_update list_update_same_conv)
  from arg_cong [OF this, of set] show ?thesis by simp
qed

text \<open>What a choice leaves of the stream's place, and what it says.\<close>

definition choice_ok :: "strm_ref \<Rightarrow> bstate \<Rightarrow> choice \<Rightarrow> bool" where
  "choice_ok s st r \<longleftrightarrow>
     (case r of (st', err, srv) \<Rightarrow>
        same_place s st st' \<and> ctx_kept st st' \<and> err \<noteq> SRV_STATUS_QUEUED \<and> strm_flags (qs_strm (bs_q st') s) = strm_flags (qs_strm (bs_q st) s) \<and>
        (case srv of
           None \<Rightarrow> strm_target (qs_strm (bs_q st') s) = strm_target (qs_strm (bs_q st) s)
         | Some i \<Rightarrow> strm_target (qs_strm (bs_q st') s) = Some i \<and> i < length (px_srv (qs_px (bs_q st))) \<and> err = SRV_STATUS_OK))"

text \<open>The data of the algorithm afterwards are those the lookup left, or those before.\<close>

lemma lookup_done_ok:
  assumes "lookup_ok (qs_px (bs_q st)) px' found"
  shows "choice_ok s st (lookup_done s prev px' sd' found st) \<and>
    lb_view (qs_px (bs_q (fst (lookup_done s prev px' sd' found st)))) = lb_view px'"
proof -
  have px: "slot_frame (qs_px (bs_q st)) px'" using assms by (simp add: lookup_ok_def)
  have "slot_frame (qs_px (bs_q st)) (upd_srv i (\<lambda>x. x\<lparr>srv_cum_lbconn := srv_cum_lbconn x + 1\<rparr>) (px'\<lparr>px_cum_lbconn := n\<rparr>))" for i n
    by (rule slot_frame_trans [OF slot_frame_trans [OF px slot_frame_counters(1)] slot_frame_upd_srv]) simp_all
  moreover have "lb_view (upd_srv i (\<lambda>x. x\<lparr>srv_cum_lbconn := srv_cum_lbconn x + 1\<rparr>) (px'\<lparr>px_cum_lbconn := n\<rparr>)) = lb_view px'" for i n
    by (simp add: lb_view_upd_srv srv_view_def)
  ultimately show ?thesis using px assms
    by (auto simp: choice_ok_def lookup_done_def Let_def same_place_def ctx_kept_def set_target_def lookup_ok_def split: option.splits)
qed

lemma choose_server_ok:
  assumes look: "lb_lookup env (qs_px (bs_q st)) rq tx prev key (bs_sd st) = Some (Inr (px', sd', found))"
    and ok: "lookup_ok (qs_px (bs_q st)) px' found"
    and sess: "\<forall>e \<in> set (sess_srv_list (bs_sess st)). \<forall>i. fst e = Some i \<longrightarrow> i < length (px_srv (qs_px (bs_q st)))"
  shows "\<exists>r. choose_server env rq s tx key prev st = Some (Inr r) \<and> choice_ok s st r \<and>
    lb_view (qs_px (bs_q (fst r))) \<in> {lb_view (qs_px (bs_q st)), lb_view px'}"
proof -
  have lb: "\<exists>r. choose_lb env rq s tx key prev st = Some (Inr r) \<and> choice_ok s st r \<and>
      lb_view (qs_px (bs_q (fst r))) \<in> {lb_view (qs_px (bs_q st)), lb_view px'}"
    using look lookup_done_ok [OF ok, of s prev sd'] by (auto simp: choose_lb_def Let_def choice_ok_def ctx_kept_same)
  have "i < length (px_srv (qs_px (bs_q st)))" if "sess_last (be_now_sec env) px pf (sess_srv_list (bs_sess st)) = Some (n, i, c)"
    for px pf n i c
    using sess_last_in [OF that] sess nth_mem by metis
  moreover have "ctx_kept st (set_target s i (st\<lparr>bs_sess := sess_take_conn n c (bs_sess st)\<rparr>))"
    if "sess_last (be_now_sec env) px pf (sess_srv_list (bs_sess st)) = Some (n, i, c)" for px pf n i c
    using sess_take_conn_servers sess_last_in [OF that] by (simp add: ctx_kept_def set_target_def)
  ultimately show ?thesis
    using lb by (auto simp: choose_server_def Let_def choice_ok_def same_place_def set_target_def split: option.splits if_splits)
qed

section \<open>The contract of a balancing algorithm\<close>

type_synonym conn_cb = "(srv_ref \<Rightarrow> proxy \<Rightarrow> proxy c_result) option"

text \<open>No callback divides by the weight of a server that has none.\<close>

definition weighted :: "conn_cb \<Rightarrow> conn_cb \<Rightarrow> proxy \<Rightarrow> bool" where
  "weighted tcb dcb p \<longleftrightarrow> (\<forall>i < length (px_srv p). cb_safe tcb (srv_at p i) \<and> cb_safe dcb (srv_at p i))"

lemma weighted_same: "weights_same p p' \<Longrightarrow> weighted tcb dcb p \<Longrightarrow> weighted tcb dcb p'"
  unfolding weights_same_def weighted_def by (metis cb_safe_cong)

definition state_ok :: "(proxy \<Rightarrow> bool) \<Rightarrow> qstate \<Rightarrow> bool" where
  "state_ok linv q \<longleftrightarrow> queue_ok q \<and> slots_ok q \<and> linv (qs_px q)"

lemma qs_px_eqD: "st = st\<lparr>qs_px := p\<rparr> \<Longrightarrow> p = qs_px st" "st\<lparr>qs_px := p'\<rparr> = st\<lparr>qs_px := p\<rparr> \<Longrightarrow> p = p'"
  by (drule arg_cong [where f = qs_px], simp)+

text \<open>\<open>linv\<close> is the invariant of the algorithm's own data. It does not depend on the queues, the loads
  and the counters, and the callbacks keep it.\<close>

locale lb_conn =
  fixes tcb dcb :: conn_cb and linv :: "proxy \<Rightarrow> bool"
  assumes take_ok: "conn_callback tcb" and drop_ok: "conn_callback dcb"
    and inv_view: "linv p \<Longrightarrow> lb_view p' = lb_view p \<Longrightarrow> linv p'"
    and inv_cb: "linv p \<Longrightarrow> i < length (px_srv p) \<Longrightarrow> tcb = Some f \<or> dcb = Some f \<Longrightarrow> f i p = Inr p' \<Longrightarrow> linv p'"
begin

lemma run_cb_state:
  assumes "linv (qs_px st)" and "cb = tcb \<or> cb = dcb" and "i < length (px_srv (qs_px st))" and "weighted tcb dcb (qs_px st)"
  shows "\<exists>p. run_cb cb i st = Inr (st\<lparr>qs_px := p\<rparr>) \<and> slot_frame (qs_px st) p \<and> linv p"
proof -
  have "conn_callback cb" "cb_safe cb (srv_at (qs_px st) i)"
    using assms take_ok drop_ok by (auto simp: weighted_def)
  then obtain p where p: "run_cb cb i st = Inr (st\<lparr>qs_px := p\<rparr>)" "slot_frame (qs_px st) p"
    using run_cb_ok assms(3) by blast
  have "p = (case cb of None \<Rightarrow> qs_px st | Some f \<Rightarrow> (case f i (qs_px st) of Inr p' \<Rightarrow> p' | Inl _ \<Rightarrow> qs_px st))"
    using p(1) by (auto simp: run_cb_def split: option.splits sum.splits dest: qs_px_eqD)
  then have "linv p" using assms(1-3) inv_cb [of "qs_px st" i] by (auto split: option.splits sum.splits)
  with p show ?thesis by blast
qed

end

text \<open>A stream changes its slot and nothing else.\<close>

definition placed :: "strm_ref \<Rightarrow> srv_ref option \<Rightarrow> qstate \<Rightarrow> qstate \<Rightarrow> bool" where
  "placed s c q q' \<longleftrightarrow> weights_same (qs_px q) (qs_px q') \<and> qs_pend q' = qs_pend q \<and>
     qs_strm q' = (qs_strm q)(s := (qs_strm q s)\<lparr>srv_conn := c\<rparr>)"

definition release_slot :: "be_env \<Rightarrow> strm_ref \<Rightarrow> srv_ref \<Rightarrow> qstate \<Rightarrow> qstate c_result" where
  "release_slot env s i st = c_bind (run_cb (be_drop env) i (add_served (-1) i st)) (\<lambda>st.
     Inr (upd_strm s (\<lambda>s. s\<lparr>srv_conn := None\<rparr>) st))"

definition reserve_slot :: "be_env \<Rightarrow> strm_ref \<Rightarrow> srv_ref \<Rightarrow> qstate \<Rightarrow> qstate c_result" where
  "reserve_slot env s i st = c_bind (run_cb (be_take env) i (add_served 1 i st)) (\<lambda>st.
     Inr (upd_strm s (\<lambda>s. s\<lparr>srv_conn := Some i\<rparr>) st))"

lemma sess_change_server_split:
  "sess_change_server env s c st =
     (if srv_conn (qs_strm st s) = c then Inr st
      else c_bind (case srv_conn (qs_strm st s) of None \<Rightarrow> Inr st | Some i \<Rightarrow> release_slot env s i st) (\<lambda>st.
        case c of None \<Rightarrow> Inr st | Some i \<Rightarrow> reserve_slot env s i st))"
  unfolding sess_change_server_def Let_def release_slot_def reserve_slot_def ..

lemma upd_strm_strm: "qs_strm (upd_strm s f st) = (qs_strm st)(s := f (qs_strm st s))" "qs_pend (upd_strm s f st) = qs_pend st"
  by (simp_all add: upd_strm_def fun_eq_iff)

lemma slot_change_obs:
  assumes "queue_fields_same (qs_px st) p" and "st' = upd_strm s (\<lambda>x. x\<lparr>srv_conn := c\<rparr>) ((add_served d i st)\<lparr>qs_px := p\<rparr>)"
    and "i < length (px_srv (qs_px st))"
  shows "queue_ok st \<Longrightarrow> queue_ok st'"
proof -
  have "queue_obs st st'" using assms add_served_fields(6,7) [OF assms(3)] by (simp add: queue_obs_def queue_fields_same_def)
  then show "queue_ok st \<Longrightarrow> queue_ok st'" by (rule queue_obs_inv)
qed

context lb_conn begin

lemma release_slot_ok:
  assumes ok: "state_ok linv st" and x: "srv_conn (qs_strm st s) = Some i" and w: "weighted tcb dcb (qs_px st)" and env: "be_drop env = dcb"
  shows "\<exists>st'. release_slot env s i st = Inr st' \<and> state_ok linv st' \<and> placed s None st st'"
proof -
  have q: "queue_ok st" and sl: "slots_ok st" and linv: "linv (qs_px st)" using ok by (simp_all add: state_ok_def)
  have i: "i < length (px_srv (qs_px st))" using sl x by (simp add: slots_inv_def)
  note a = add_served_fields [OF i, of "-1"]
  have view: "lb_view (qs_px (add_served (-1) i st)) = lb_view (qs_px st)" by (rule lb_view_add_served)
  obtain p where p: "run_cb dcb i (add_served (-1) i st) = Inr ((add_served (-1) i st)\<lparr>qs_px := p\<rparr>)"
    and fr: "slot_frame (qs_px (add_served (-1) i st)) p" and invp: "linv p"
    using run_cb_state [OF inv_view [OF linv view], of dcb i] i a(2) weighted_same [OF weights_same_view [OF view] w] by auto
  let ?st = "upd_strm s (\<lambda>x. x\<lparr>srv_conn := None\<rparr>) ((add_served (-1) i st)\<lparr>qs_px := p\<rparr>)"
  have same: "queue_fields_same (qs_px st) p" using a(1) fr queue_fields_same_trans slot_frame_def by blast
  have "slots_ok ?st"
    by (rule slots_release [OF sl x]) (use a fr i same in \<open>auto simp: slot_frame_def queue_fields_same_def\<close>)
  moreover have "placed s None st ?st"
    using weights_same_trans [OF weights_same_view [OF view] weights_same_frame [OF fr]] a(6,7)
    by (simp add: placed_def upd_strm_strm)
  ultimately show ?thesis using p env slot_change_obs [OF same refl i q] invp by (simp add: release_slot_def state_ok_def)
qed

lemma reserve_slot_state:
  assumes ok: "state_ok linv st" and x: "srv_conn (qs_strm st s) = None" and pos: "pend_pos (qs_strm st s) = None"
    and i: "i < length (px_srv (qs_px st))" and w: "weighted tcb dcb (qs_px st)" and env: "be_take env = tcb"
  shows "\<exists>st'. reserve_slot env s i st = Inr st' \<and> state_ok linv st' \<and> placed s (Some i) st st'"
proof -
  have q: "queue_ok st" and sl: "slots_ok st" and linv: "linv (qs_px st)" using ok by (simp_all add: state_ok_def)
  note a = add_served_fields [OF i, of 1]
  have view: "lb_view (qs_px (add_served 1 i st)) = lb_view (qs_px st)" by (rule lb_view_add_served)
  obtain p where p: "run_cb tcb i (add_served 1 i st) = Inr ((add_served 1 i st)\<lparr>qs_px := p\<rparr>)"
    and fr: "slot_frame (qs_px (add_served 1 i st)) p" and invp: "linv p"
    using run_cb_state [OF inv_view [OF linv view], of tcb i] i a(2) weighted_same [OF weights_same_view [OF view] w] by auto
  let ?st = "upd_strm s (\<lambda>x. x\<lparr>srv_conn := Some i\<rparr>) ((add_served 1 i st)\<lparr>qs_px := p\<rparr>)"
  have same: "queue_fields_same (qs_px st) p" using a(1) fr queue_fields_same_trans slot_frame_def by blast
  have "slots_ok ?st"
  proof (rule slots_take [OF sl i x])
    fix r y pc assume r: "r \<in> queue_refs (qs_px st)" "y \<in> set (eb_nodes (q_tree r ?st))" "qs_pend ?st y = Some pc"
    then have y: "y \<in> set (eb_nodes (q_tree r st))" "qs_pend st y = Some pc" using same a(7) by (auto simp: queue_fields_same_def)
    then have "pend_pos (qs_strm st (pc_strm pc)) = Some y" using q by (auto simp: queue_inv_def pend_ok_def)
    then have "pc_strm pc \<noteq> s" using pos by auto
    then show "srv_conn (qs_strm ?st (pc_strm pc)) = None" using sl r(1) y a(6) by (auto simp: slots_inv_def)
  qed (use a fr i in \<open>auto simp: slot_frame_def\<close>)
  moreover have "placed s (Some i) st ?st"
    using weights_same_trans [OF weights_same_view [OF view] weights_same_frame [OF fr]] a(6,7)
    by (simp add: placed_def upd_strm_strm)
  ultimately show ?thesis using p env slot_change_obs [OF same refl i q] invp by (simp add: reserve_slot_def state_ok_def)
qed

lemma sess_change_server_ok:
  assumes ok: "state_ok linv st" and w: "weighted tcb dcb (qs_px st)" and env: "be_take env = tcb" "be_drop env = dcb"
    and c: "c = None \<or> pend_pos (qs_strm st s) = None \<and> the c < length (px_srv (qs_px st))"
  shows "\<exists>st'. sess_change_server env s c st = Inr st' \<and> state_ok linv st' \<and> placed s c st st'"
proof (cases "srv_conn (qs_strm st s) = c")
  case True
  then have "(qs_strm st)(s := (qs_strm st s)\<lparr>srv_conn := c\<rparr>) = qs_strm st" by (auto simp: fun_eq_iff)
  then show ?thesis using True ok by (simp add: sess_change_server_split placed_def)
next
  case False
  obtain st1 where st1: "(case srv_conn (qs_strm st s) of None \<Rightarrow> Inr st | Some i \<Rightarrow> release_slot env s i st) = Inr st1"
      "state_ok linv st1" "placed s None st st1"
  proof (cases "srv_conn (qs_strm st s)")
    case None
    then have "(qs_strm st)(s := (qs_strm st s)\<lparr>srv_conn := None\<rparr>) = qs_strm st" by (auto simp: fun_eq_iff)
    then show ?thesis using that [of st] None ok by (simp add: placed_def)
  next
    case (Some i)
    then show ?thesis using that release_slot_ok [OF ok Some w env(2)] by auto
  qed
  show ?thesis
  proof (cases c)
    case None
    then show ?thesis using False st1 by (auto simp: sess_change_server_split)
  next
    case (Some i)
    have "\<exists>st'. reserve_slot env s i st1 = Inr st' \<and> state_ok linv st' \<and> placed s (Some i) st1 st'"
      by (rule reserve_slot_state [OF st1(2) _ _ _ weighted_same [OF _ w] env(1)])
         (use st1(3) c Some in \<open>auto simp: placed_def weights_same_def\<close>)
    then show ?thesis using False Some st1 weights_same_trans by (auto simp: sess_change_server_split placed_def)
  qed
qed

end

section \<open>Assigning a server\<close>

text \<open>No new pending connection, and the flags of the stream but two.\<close>

abbreviation SF_KEPT :: u32 where "SF_KEPT \<equiv> NOT (SF_ASSIGNED OR SF_REDISP)"

definition flags_kept :: "strm_ref \<Rightarrow> qstate \<Rightarrow> qstate \<Rightarrow> bool" where
  "flags_kept s q q' \<longleftrightarrow> strm_flags (qs_strm q' s) AND SF_KEPT = strm_flags (qs_strm q s) AND SF_KEPT"

lemma flags_kept_trans: "flags_kept s q1 q2 \<Longrightarrow> flags_kept s q2 q3 \<Longrightarrow> flags_kept s q1 q3"
  by (simp add: flags_kept_def)

definition fresh_kept :: "qstate \<Rightarrow> qstate \<Rightarrow> bool" where
  "fresh_kept q q' \<longleftrightarrow> (\<forall>p. qs_pend q p = None \<longrightarrow> qs_pend q' p = None)"

context lb_conn begin

lemma process_srv_queue_state:
  assumes ok: "state_ok linv q" and w: "weighted tcb dcb (qs_px q)" and c: "c < length (px_srv (qs_px q))"
  shows "\<exists>q'. process_srv_queue tcb now_ms now_sec c q = Inr q' \<and> state_ok linv q' \<and> weights_same (qs_px q) (qs_px q') \<and> serves c q q'"
proof -
  have q: "queue_ok q" and sl: "slots_ok q" and i: "linv (qs_px q)" using ok by (simp_all add: state_ok_def)
  have wc: "cb_safe tcb (srv_at (qs_px q) c)" using w c by (simp add: weighted_def)
  obtain q' where q': "process_srv_queue tcb now_ms now_sec c q = Inr q'" "queue_ok q'" "slots_ok q'" "serves c q q'"
    using process_srv_queue_slots [OF take_ok q sl c wc] by blast
  obtain q1 n where rounds: "srv_queue_rounds now_ms now_sec c (px_queue_ok c (qs_px q)) False q 0 = Inr (q1, n)"
    using srv_queue_rounds_inv [OF q c] by blast
  define q2 where "q2 = q1\<lparr>qs_px := (qs_px q1)\<lparr>totpend := totpend (qs_px q1) - of_nat n, px_served := px_served (qs_px q1) + of_nat n\<rparr>\<rparr>"
  have v1: "lb_view (qs_px q1) = lb_view (qs_px q)" using srv_queue_rounds_view [OF rounds] .
  then have v2: "lb_view (qs_px q2) = lb_view (qs_px q)" by (simp add: q2_def)
  have eq: "process_srv_queue tcb now_ms now_sec c q = (if n = 0 then Inr q1 else run_cb tcb c q2)"
    unfolding process_srv_queue_def Let_def px_queue_ok_def [symmetric] rounds run_cb_def q2_def by (cases tcb) simp_all
  have "linv (qs_px q') \<and> weights_same (qs_px q) (qs_px q')"
  proof (cases "n = 0")
    case True
    then show ?thesis using eq q'(1) inv_view [OF i v1] weights_same_view [OF v1] by simp
  next
    case False
    obtain p where "run_cb tcb c q2 = Inr (q2\<lparr>qs_px := p\<rparr>)" "slot_frame (qs_px q2) p" "linv p"
      using run_cb_state [OF inv_view [OF i v2]] c weights_same_view [OF v2] weighted_same [OF _ w]
      by (metis weights_same_def)
    then show ?thesis
      using False eq q'(1) weights_same_trans [OF weights_same_view [OF v2] weights_same_frame] by auto
  qed
  then show ?thesis using q' by (simp add: state_ok_def)
qed

lemma settle_slot_ok:
  assumes ok: "state_ok linv q" and w: "weighted tcb dcb (qs_px q)" and env: "be_take env = tcb" "be_drop env = dcb"
    and pos: "pend_pos (qs_strm q s) = None" and c: "\<forall>c. conn_slot = Some c \<longrightarrow> c < length (px_srv (qs_px q))"
  shows "\<exists>q'. settle_slot env s conn_slot srv q = Inr q' \<and> state_ok linv q' \<and> weights_same (qs_px q) (qs_px q') \<and> fresh_kept q q' \<and>
    (qs_strm q' s = qs_strm q s \<or> srv \<noteq> None \<and> qs_strm q' s = (qs_strm q s)\<lparr>srv_conn := srv\<rparr>)"
proof (cases conn_slot)
  case None
  then show ?thesis using ok by (simp add: settle_slot_def fresh_kept_def)
next
  case (Some x)
  then have x: "x < length (px_srv (qs_px q))" using c by simp
  show ?thesis
  proof (cases "Some x = srv")
    case True
    have "\<exists>q'. sess_change_server env s srv q = Inr q' \<and> state_ok linv q' \<and> placed s srv q q'"
      by (rule sess_change_server_ok [OF ok w env]) (use True x pos in auto)
    then show ?thesis using Some True by (auto simp: settle_slot_def placed_def fresh_kept_def)
  next
    case False
    obtain q' where "process_srv_queue tcb (be_now_ms env) (be_now_sec env) x q = Inr q'" "state_ok linv q'"
        "weights_same (qs_px q) (qs_px q')" "serves x q q'"
      using process_srv_queue_state [OF ok w x] by blast
    then show ?thesis using Some False ok env pos by (auto simp: settle_slot_def fresh_kept_def serves_def)
  qed
qed

end

text \<open>A stream after \<^verbatim>\<open>assign_server\<close>.\<close>

definition assigned :: "strm_ref \<Rightarrow> srv_status \<Rightarrow> qstate \<Rightarrow> bool" where
  "assigned s err q \<longleftrightarrow>
     (let x = qs_strm q s in
      pend_pos x = None \<and> err \<noteq> SRV_STATUS_QUEUED \<and> (\<forall>i. strm_target x = Some i \<longrightarrow> i < length (px_srv (qs_px q))) \<and>
      (srv_conn x = None \<or> srv_conn x = strm_target x) \<and>
      (if err = SRV_STATUS_OK then strm_flags x AND SF_ASSIGNED \<noteq> 0
       else strm_flags x AND SF_ASSIGNED = 0 \<and> strm_target x = None))"

lemma SF_ASSIGNED_set: "(x OR SF_ASSIGNED) AND SF_ASSIGNED = (SF_ASSIGNED :: u32)"
  by (simp add: bit.conj_disj_distrib2)

text \<open>Under its invariant the lookup of the algorithm answers, and its callbacks never divide by zero.\<close>

locale lb_backend = lb_conn +
  assumes lookup: "linv p \<Longrightarrow> \<exists>p' sd' found. lb_lookup env p rq tx prev key sd = Some (Inr (p', sd', found)) \<and>
      lookup_ok p p' found \<and> linv p'"
    and safe: "weighted tcb dcb p"
begin

lemma assign_server_ok:
  assumes ok: "state_ok linv (bs_q st)" and w: "weighted tcb dcb (qs_px (bs_q st))" and env: "be_take env = tcb" "be_drop env = dcb"
    and tx: "bs_txn st = Some tx" "fetchKey (be_malloc env) (tx_meth tx) = Inr key" and pos: "pend_pos (qs_strm (bs_q st) s) = None" and fl: "strm_flags (qs_strm (bs_q st) s) AND SF_ASSIGNED = 0"
    and sess: "\<forall>e \<in> set (sess_srv_list (bs_sess st)). \<forall>i. fst e = Some i \<longrightarrow> i < length (px_srv (qs_px (bs_q st)))"
  shows "\<exists>st' err. assign_server env rq s st = Some (Inr (st', err)) \<and> state_ok linv (bs_q st') \<and>
    weights_same (qs_px (bs_q st)) (qs_px (bs_q st')) \<and> fresh_kept (bs_q st) (bs_q st') \<and> assigned s err (bs_q st') \<and>
    flags_kept s (bs_q st) (bs_q st') \<and> ctx_kept st st'"
proof -
  let ?prev = "strm_target (qs_strm (bs_q st) s)" and ?slot = "srv_conn (qs_strm (bs_q st) s)"
  obtain q1 where q1: "sess_change_server env s None (bs_q st) = Inr q1" "state_ok linv q1" "placed s None (bs_q st) q1"
    using sess_change_server_ok [OF ok w env, of None s] by auto
  note pl = q1(3) [unfolded placed_def]
  define st1 where "st1 = st\<lparr>bs_q := upd_strm s (\<lambda>x. x\<lparr>strm_target := None\<rparr>) q1\<rparr>"
  have ok1: "state_ok linv (bs_q st1)" using q1(2) upd_strm_inv [of "\<lambda>x. x\<lparr>strm_target := None\<rparr>" q1 s] by (simp add: st1_def state_ok_def)
  have len1: "length (px_srv (qs_px (bs_q st1))) = length (px_srv (qs_px (bs_q st)))" using pl by (simp add: st1_def weights_same_def)
  obtain px' sd' found where look: "lb_lookup env (qs_px (bs_q st1)) rq tx ?prev key (bs_sd st1) = Some (Inr (px', sd', found))"
      "lookup_ok (qs_px (bs_q st1)) px' found" "linv px'"
    using lookup ok1 by (metis state_ok_def)
  obtain st2 err srv where ch: "choose_server env rq s tx key ?prev st1 = Some (Inr (st2, err, srv))" "choice_ok s st1 (st2, err, srv)"
      "lb_view (qs_px (bs_q st2)) \<in> {lb_view (qs_px (bs_q st1)), lb_view px'}"
    using choose_server_ok [OF look(1,2), of s] sess len1 by (auto simp: st1_def)
  note c = ch(2) [unfolded choice_ok_def prod.case same_place_def]
  have same: "same_place s st1 st2" using ch(2) by (simp add: choice_ok_def)
  have inv2: "linv (qs_px (bs_q st2))" using ch(3) look(3) ok1 inv_view by (auto simp: state_ok_def)
  have ok2: "state_ok linv (bs_q st2)" using same_place_inv [OF same] ok1 inv2 by (simp add: state_ok_def)
  have ws: "weights_same (qs_px (bs_q st)) (qs_px (bs_q st2))"
    using pl c weights_same_trans weights_same_frame by (auto simp: st1_def)
  define q3 where "q3 = (if err = SRV_STATUS_OK then upd_strm s (\<lambda>x. x\<lparr>strm_flags := strm_flags x OR SF_ASSIGNED\<rparr>) (bs_q st2) else bs_q st2)"
  have ok3: "state_ok linv q3" using ok2 upd_strm_inv [of "\<lambda>x. x\<lparr>strm_flags := strm_flags x OR SF_ASSIGNED\<rparr>" "bs_q st2" s]
    by (simp add: q3_def state_ok_def)
  have x: "pend_pos (qs_strm q3 s) = None" "srv_conn (qs_strm q3 s) = None" "qs_pend q3 = qs_pend (bs_q st)" "qs_px q3 = qs_px (bs_q st2)"
      "strm_flags (qs_strm q3 s) = (if err = SRV_STATUS_OK then strm_flags (qs_strm (bs_q st) s) OR SF_ASSIGNED else strm_flags (qs_strm (bs_q st) s))"
      "strm_target (qs_strm q3 s) = srv"
    using c pl pos by (auto simp: q3_def st1_def upd_strm_strm split: option.splits)
  have slot: "\<forall>c. ?slot = Some c \<longrightarrow> c < length (px_srv (qs_px q3))"
    using ok ws x(4) by (auto simp: state_ok_def slots_inv_def weights_same_def)
  obtain q4 where q4: "settle_slot env s ?slot srv q3 = Inr q4" "state_ok linv q4" "weights_same (qs_px q3) (qs_px q4)" "fresh_kept q3 q4"
      "qs_strm q4 s = qs_strm q3 s \<or> srv \<noteq> None \<and> qs_strm q4 s = (qs_strm q3 s)\<lparr>srv_conn := srv\<rparr>"
    using settle_slot_ok [OF ok3 _ env x(1) slot] weighted_same [OF ws w] x(4) by auto
  have eq: "assign_server env rq s st = Some (Inr (st2\<lparr>bs_q := q4\<rparr>, err))"
    using tx pos fl q1(1) ch(1) q4(1) by (simp add: assign_server_def Let_def st1_def q3_def)
  have srv: "\<forall>i. srv = Some i \<longrightarrow> i < length (px_srv (qs_px q4)) \<and> err = SRV_STATUS_OK" "err \<noteq> SRV_STATUS_QUEUED"
    using c len1 ws q4(3) x(4) by (auto simp: weights_same_def)
  have "assigned s err q4"
    using q4(5) srv x(1,2,5,6) fl by (auto simp: assigned_def Let_def SF_ASSIGNED_set)
  moreover have "weights_same (qs_px (bs_q st)) (qs_px q4)" "fresh_kept (bs_q st) q4"
    using ws q4(3,4) x(3,4) weights_same_trans by (auto simp: fresh_kept_def)
  moreover have "flags_kept s (bs_q st) q4" using q4(5) x(5) by (auto simp: flags_kept_def bit.conj_disj_distrib2)
  moreover have "ctx_kept st (st2\<lparr>bs_q := q4\<rparr>)" using c by (simp add: ctx_kept_def st1_def)
  ultimately show ?thesis using eq q4(2) by auto
qed

end

section \<open>Assigning or queueing\<close>

text \<open>The outcome of \<^verbatim>\<open>assign_server_and_queue\<close>: a slot of the stream's server, a place in the
  queue of its server or of the proxy, or neither.\<close>

definition outcome :: "strm_ref \<Rightarrow> srv_status \<Rightarrow> qstate \<Rightarrow> bool" where
  "outcome s err q \<longleftrightarrow>
     (let x = qs_strm q s in
      case err of
        SRV_STATUS_OK \<Rightarrow> pend_pos x = None \<and> strm_flags x AND SF_ASSIGNED \<noteq> 0 \<and> srv_conn x = strm_target x
      | SRV_STATUS_QUEUED \<Rightarrow> srv_conn x = None \<and>
          (\<exists>p pc. pend_pos x = Some p \<and> qs_pend q p = Some pc \<and> pc_strm pc = s \<and> pc_target pc = None \<and>
            pc_queue pc = (if strm_flags x AND SF_ASSIGNED \<noteq> 0 then strm_target x else None) \<and> eb32_in_tree p (q_tree (pc_queue pc) q))
      | SRV_STATUS_FULL \<Rightarrow> pend_pos x = None \<and> srv_conn x = None \<and> strm_flags x AND SF_ASSIGNED \<noteq> 0 \<and> strm_target x \<noteq> None
      | SRV_STATUS_NOSRV \<Rightarrow> pend_pos x = None \<and> srv_conn x = None \<and> strm_target x = None
      | SRV_STATUS_INTERNAL \<Rightarrow> pend_pos x = None \<and> srv_conn x = None)"

text \<open>What remains of the state for a stream that was not queued.\<close>

definition asked :: "strm_ref \<Rightarrow> srv_status \<Rightarrow> bstate \<Rightarrow> bstate \<Rightarrow> bool" where
  "asked s err st st' \<longleftrightarrow> weights_same (qs_px (bs_q st)) (qs_px (bs_q st')) \<and> flags_kept s (bs_q st) (bs_q st') \<and> ctx_kept st st' \<and>
     (\<forall>i. strm_target (qs_strm (bs_q st') s) = Some i \<longrightarrow> i < length (px_srv (qs_px (bs_q st')))) \<and>
     (err \<noteq> SRV_STATUS_QUEUED \<longrightarrow> fresh_kept (bs_q st) (bs_q st'))"

lemma asked_refl:
  "(\<forall>i. strm_target (qs_strm (bs_q st) s) = Some i \<longrightarrow> i < length (px_srv (qs_px (bs_q st)))) \<Longrightarrow> asked s err st st"
  by (simp add: asked_def flags_kept_def ctx_kept_def fresh_kept_def)

lemma asked_trans: "asked s err st1 st2 \<Longrightarrow> err \<noteq> SRV_STATUS_QUEUED \<Longrightarrow> asked s err' st2 st3 \<Longrightarrow> asked s err' st1 st3"
  unfolding asked_def using weights_same_trans flags_kept_trans ctx_kept_trans by (auto simp: fresh_kept_def)

lemma slots_added:
  assumes sl: "slots_inv D q" and none: "srv_conn (qs_strm q s) = None" and add: "added key p s q pc q'"
  shows "slots_inv D q'"
proof -
  note a = add [unfolded added_def]
  have c: "srv_conn (qs_strm q' t) = srv_conn (qs_strm q t)" for t using a by simp
  then have h: "holders q' = holders q" "all_holders q' = all_holders q" by (simp_all add: holders_def all_holders_def fun_eq_iff)
  have "srv_conn (qs_strm q' (pc_strm y)) = None"
    if r: "r \<in> queue_refs (qs_px q)" "x \<in> set (eb_nodes (q_tree r q'))" "qs_pend q' x = Some y" for r x y
  proof (cases "x = p")
    case True
    then show ?thesis using a r(3) none by simp
  next
    case False
    then have "x \<in> set (eb_nodes (q_tree r q))" "qs_pend q x = Some y" using a r by (auto split: if_splits)
    then show ?thesis using sl r(1) c by (simp add: slots_inv_def)
  qed
  moreover have "queue_refs (qs_px q') = queue_refs (qs_px q)" using a by (simp add: queue_refs_def)
  ultimately show ?thesis using sl a h c unfolding slots_inv_def by simp
qed

definition fresh_alloc :: "be_env \<Rightarrow> qstate \<Rightarrow> bool" where
  "fresh_alloc env q \<longleftrightarrow> (\<forall>p. be_alloc env = Some p \<longrightarrow> qs_pend q p = None)"

context lb_conn begin

lemma try_queue_ok:
  assumes ok: "state_ok linv (bs_q st)" and x: "pend_pos (qs_strm (bs_q st) s) = None" "srv_conn (qs_strm (bs_q st) s) = None"
    and tgt: "\<forall>i. strm_target (qs_strm (bs_q st) s) = Some i \<longrightarrow> i < length (px_srv (qs_px (bs_q st)))"
    and fresh: "fresh_alloc env (bs_q st)"
  shows "\<exists>st' err. try_queue env s st = (st', err) \<and> state_ok linv (bs_q st') \<and> asked s err st st' \<and> outcome s err (bs_q st')"
proof (cases "be_alloc env")
  case None
  then show ?thesis using ok x asked_refl [OF tgt] by (simp add: try_queue_def pendconn_add_def outcome_def)
next
  case (Some p)
  let ?q = "bs_q st" and ?q' = "fst (pendconn_add (be_now_ms env) (Some p) s (bs_q st))"
  have refs: "add_queue (qs_strm ?q s) \<in> queue_refs (qs_px ?q)"
    using tgt by (cases "strm_target (qs_strm ?q s)") (auto simp: add_queue_def queue_refs_def)
  obtain key pc where add: "added key p s ?q pc ?q'" using pendconn_add_effect [OF refs] by blast
  note a = add [unfolded added_def]
  have p: "qs_pend ?q p = None" using fresh Some by (simp add: fresh_alloc_def)
  have "queue_ok ?q'" using pendconn_add_inv [OF _ p x(1) refs] ok by (simp add: state_ok_def)
  moreover have "slots_ok ?q'" using slots_added [OF _ x(2) add] ok by (simp add: state_ok_def)
  moreover have v: "lb_view (qs_px ?q') = lb_view (qs_px ?q)" by (rule lb_view_pendconn_add)
  ultimately have "state_ok linv ?q'" using ok inv_view [OF _ v] by (simp add: state_ok_def)
  moreover have "outcome s SRV_STATUS_QUEUED ?q'"
    using a x(2) refs by (auto simp: outcome_def Let_def add_queue_def eb32_in_tree_iff)
  moreover have "snd (pendconn_add (be_now_ms env) (Some p) s ?q) = Some p" by (simp add: pendconn_add_def Let_def)
  moreover have "asked s SRV_STATUS_QUEUED st (st\<lparr>bs_q := ?q'\<rparr>)"
    using weights_same_view [OF v] a tgt by (simp add: asked_def flags_kept_def ctx_kept_def weights_same_def)
  ultimately show ?thesis using Some
    by (cases "pendconn_add (be_now_ms env) (Some p) s ?q") (simp add: try_queue_def)
qed

lemma take_slot_ok:
  assumes ok: "state_ok linv (bs_q st)" and w: "weighted tcb dcb (qs_px (bs_q st))" and env: "be_take env = tcb" "be_drop env = dcb"
    and as: "assigned s SRV_STATUS_OK (bs_q st)" and fresh: "fresh_alloc env (bs_q st)"
  shows "\<exists>st' err. take_slot env s st = Inr (st', err) \<and> state_ok linv (bs_q st') \<and> asked s err st st' \<and> outcome s err (bs_q st')"
proof (cases "strm_target (qs_strm (bs_q st) s) = srv_conn (qs_strm (bs_q st) s)")
  case True
  then have "take_slot env s st = Inr (st, SRV_STATUS_OK)"
    by (cases "srv_conn (qs_strm (bs_q st) s)") (simp_all add: take_slot_def Let_def)
  moreover have "outcome s SRV_STATUS_OK (bs_q st)" using as True by (simp add: outcome_def assigned_def Let_def)
  moreover have "asked s SRV_STATUS_OK st st" using as by (simp add: asked_refl assigned_def Let_def)
  ultimately show ?thesis using ok by auto
next
  case False
  note a = as [unfolded assigned_def Let_def]
  obtain i where i: "strm_target (qs_strm (bs_q st) s) = Some i" "srv_conn (qs_strm (bs_q st) s) = None" "i < length (px_srv (qs_px (bs_q st)))"
    using a False by (cases "strm_target (qs_strm (bs_q st) s)") auto
  obtain q' where r: "sess_change_server env s (Some i) (bs_q st) = Inr q'" "state_ok linv q'" "placed s (Some i) (bs_q st) q'"
    using sess_change_server_ok [OF ok w env, of "Some i" s] a i by auto
  obtain st2 err where q: "try_queue env s st = (st2, err)" "state_ok linv (bs_q st2)" "asked s err st st2"
      "outcome s err (bs_q st2)"
    using try_queue_ok [OF ok _ i(2) _ fresh] a by auto
  have "outcome s SRV_STATUS_OK q'" using r(3) a i by (simp add: outcome_def Let_def placed_def)
  moreover have "outcome s SRV_STATUS_FULL (bs_q st)" using a i by (simp add: outcome_def Let_def)
  moreover have "asked s SRV_STATUS_OK st (st\<lparr>bs_q := q'\<rparr>)"
    using r(3) i by (auto simp: placed_def asked_def flags_kept_def fresh_kept_def ctx_kept_def weights_same_def)
  moreover have "asked s SRV_STATUS_FULL st st" using a by (simp add: asked_refl)
  ultimately show ?thesis using i r q ok by (simp add: take_slot_def Let_def)
qed

end

text \<open>The counters of redispatches and retries concern neither places nor slots.\<close>

lemma count_redispatch_ok:
  assumes ok: "state_ok linv (bs_q st)" and view: "\<And>p p'. linv p \<Longrightarrow> lb_view p' = lb_view p \<Longrightarrow> linv p'"
  shows "state_ok linv (bs_q (count_redispatch s prev st)) \<and> weights_same (qs_px (bs_q st)) (qs_px (bs_q (count_redispatch s prev st))) \<and>
    qs_pend (bs_q (count_redispatch s prev st)) = qs_pend (bs_q st) \<and> ctx_kept st (count_redispatch s prev st) \<and>
    flags_kept s (bs_q st) (bs_q (count_redispatch s prev st)) \<and>
    (assigned s err (bs_q st) \<longrightarrow> assigned s err (bs_q (count_redispatch s prev st)))"
proof -
  let ?c = "count_redispatch s prev st"
  have f1: "slot_frame p ((upd_srv prev (\<lambda>x. x\<lparr>srv_redispatches := srv_redispatches x + 1\<rparr>) p)\<lparr>px_redispatches := n\<rparr>)" for p n
    by (rule slot_frame_trans [OF slot_frame_upd_srv slot_frame_counters(2)]) simp_all
  have f2: "slot_frame p ((upd_srv prev (\<lambda>x. x\<lparr>srv_retries := srv_retries x + 1\<rparr>) p)\<lparr>px_retries := n\<rparr>)" for p n
    by (rule slot_frame_trans [OF slot_frame_upd_srv slot_frame_counters(3)]) simp_all
  have same: "same_place s st ?c"
    using f1 f2 by (auto simp: same_place_def count_redispatch_def Let_def upd_strm_strm)
  have v: "lb_view (qs_px (bs_q ?c)) = lb_view (qs_px (bs_q st))"
    by (simp add: count_redispatch_def Let_def lb_view_upd_srv srv_view_def)
  have fl: "(x OR SF_REDISP) AND SF_ASSIGNED = x AND (SF_ASSIGNED :: u32)" for x by (simp add: bit.conj_disj_distrib2)
  have "strm_target (qs_strm (bs_q ?c) s) = strm_target (qs_strm (bs_q st) s)"
      "strm_flags (qs_strm (bs_q ?c) s) AND SF_ASSIGNED = strm_flags (qs_strm (bs_q st) s) AND SF_ASSIGNED"
    by (simp_all add: count_redispatch_def Let_def upd_strm_strm fl)
  then have "assigned s err (bs_q st) \<longrightarrow> assigned s err (bs_q ?c)"
    using same weights_same_view [OF v] by (simp add: assigned_def Let_def same_place_def weights_same_def)
  moreover have "ctx_kept st ?c" "flags_kept s (bs_q st) (bs_q ?c)"
    by (auto simp: ctx_kept_def flags_kept_def bit.conj_disj_distrib2 count_redispatch_def Let_def upd_strm_strm split: option.splits)
  ultimately show ?thesis
    using same_place_inv [OF same] ok view [OF _ v] weights_same_view [OF v] same by (simp add: state_ok_def same_place_def)
qed

text \<open>A stream ready to ask for a server: it waits in no queue, its target is a server of the backend,
  and if the server is chosen already the stream holds no slot of another one. It may ask if moreover it has an
  HTTP transaction and the allocator has a spare byte for the write of \<^verbatim>\<open>fetchMethod\<close>.\<close>

definition ask_ready :: "be_env \<Rightarrow> strm_ref \<Rightarrow> bstate \<Rightarrow> bool" where
  "ask_ready env s st \<longleftrightarrow>
     (let q = bs_q st; x = qs_strm q s in
      pend_pos x = None \<and> (\<forall>i. strm_target x = Some i \<longrightarrow> i < length (px_srv (qs_px q))) \<and>
      (strm_flags x AND SF_ASSIGNED \<noteq> 0 \<longrightarrow> srv_conn x = None \<or> srv_conn x = strm_target x) \<and> fresh_alloc env q \<and>
      (\<forall>e \<in> set (sess_srv_list (bs_sess st)). \<forall>i. fst e = Some i \<longrightarrow> i < length (px_srv (qs_px q))))"

definition may_ask :: "be_env \<Rightarrow> strm_ref \<Rightarrow> bstate \<Rightarrow> bool" where
  "may_ask env s st \<longleftrightarrow> ask_ready env s st \<and> bs_txn st \<noteq> None \<and> spare_byte (be_malloc env)"

text \<open>The key of the request is found, if it is needed.\<close>

definition key_found :: "be_env \<Rightarrow> strm_ref \<Rightarrow> bstate \<Rightarrow> bool" where
  "key_found env s st \<longleftrightarrow> strm_flags (qs_strm (bs_q st) s) AND SF_ASSIGNED = 0 \<longrightarrow>
     (\<exists>tx key. bs_txn st = Some tx \<and> fetchKey (be_malloc env) (tx_meth tx) = Inr key)"

lemma may_ask_key: "may_ask env s st \<Longrightarrow> ask_ready env s st \<and> key_found env s st"
  using spare_byte_fetchKey by (auto simp: may_ask_def key_found_def)

context lb_backend begin

lemma ready_assign_ok:
  assumes ok: "state_ok linv (bs_q st)" and w: "weighted tcb dcb (qs_px (bs_q st))" and env: "be_take env = tcb" "be_drop env = dcb"
    and ask: "ask_ready env s st" and found: "key_found env s st"
  shows "\<exists>st' err. assign_server_and_queue env rq s st = Some (Inr (st', err)) \<and> state_ok linv (bs_q st') \<and>
    asked s err st st' \<and> outcome s err (bs_q st')"
proof -
  note a = ask [unfolded ask_ready_def Let_def]
  let ?x = "qs_strm (bs_q st) s"
  let ?first = "if strm_flags ?x AND SF_ASSIGNED = 0 then
      r_bind (assign_server env rq s st) (\<lambda>(st, err). Some (Inr (case strm_target ?x of Some p \<Rightarrow> count_redispatch s p st | None \<Rightarrow> st, err)))
    else Some (Inr (st, SRV_STATUS_OK))"
  obtain st1 err1 where f: "?first = Some (Inr (st1, err1))" and ok1: "state_ok linv (bs_q st1)"
    and ws: "asked s err1 st st1" and fresh: "fresh_alloc env (bs_q st1)" and as: "assigned s err1 (bs_q st1)"
  proof (cases "strm_flags ?x AND SF_ASSIGNED = 0")
    case True
    obtain tx key where "bs_txn st = Some tx" "fetchKey (be_malloc env) (tx_meth tx) = Inr key" using True found by (auto simp: key_found_def)
    with True a obtain st2 err where st2: "assign_server env rq s st = Some (Inr (st2, err))" "state_ok linv (bs_q st2)"
        "weights_same (qs_px (bs_q st)) (qs_px (bs_q st2))" "fresh_kept (bs_q st) (bs_q st2)" "assigned s err (bs_q st2)"
        "flags_kept s (bs_q st) (bs_q st2)" "ctx_kept st st2"
      using assign_server_ok [OF ok w env] by blast
    define st3 where "st3 = (case strm_target ?x of Some p \<Rightarrow> count_redispatch s p st2 | None \<Rightarrow> st2)"
    have "state_ok linv (bs_q st3) \<and> weights_same (qs_px (bs_q st2)) (qs_px (bs_q st3)) \<and> qs_pend (bs_q st3) = qs_pend (bs_q st2) \<and>
        assigned s err (bs_q st3) \<and> flags_kept s (bs_q st2) (bs_q st3) \<and> ctx_kept st2 st3"
      using count_redispatch_ok [OF st2(2) inv_view] st2 by (simp add: st3_def flags_kept_def ctx_kept_def split: option.splits)
    moreover from this have "asked s err st st3"
      using st2 weights_same_trans flags_kept_trans ctx_kept_trans unfolding asked_def by (auto simp: fresh_kept_def assigned_def Let_def)
    ultimately show ?thesis
      using that [of st3 err] True st2 a by (auto simp: st3_def fresh_kept_def fresh_alloc_def)
  next
    case False
    then show ?thesis using that [of st SRV_STATUS_OK] ok a asked_refl by (auto simp: assigned_def Let_def)
  qed
  have wsame: "weights_same (qs_px (bs_q st)) (qs_px (bs_q st1))" using ws by (simp add: asked_def)
  have eq: "assign_server_and_queue env rq s st = (case err1 of
      SRV_STATUS_OK \<Rightarrow> Some (take_slot env s st1) | SRV_STATUS_FULL \<Rightarrow> Some (Inr (try_queue env s st1))
    | SRV_STATUS_NOSRV \<Rightarrow> Some (Inr (st1, SRV_STATUS_NOSRV)) | _ \<Rightarrow> Some (Inr (st1, SRV_STATUS_INTERNAL)))"
    using a f by (simp add: assign_server_and_queue_def)
  show ?thesis
  proof (cases err1)
    case SRV_STATUS_OK
    obtain st' err where "take_slot env s st1 = Inr (st', err)" "state_ok linv (bs_q st')" "asked s err st1 st'" "outcome s err (bs_q st')"
      using take_slot_ok [OF ok1 weighted_same [OF wsame w] env _ fresh] as SRV_STATUS_OK by blast
    then show ?thesis using eq SRV_STATUS_OK asked_trans [OF ws] by auto
  next
    case SRV_STATUS_FULL
    obtain st' err where "try_queue env s st1 = (st', err)" "state_ok linv (bs_q st')" "asked s err st1 st'" "outcome s err (bs_q st')"
      using try_queue_ok [OF ok1 _ _ _ fresh, of s] as SRV_STATUS_FULL by (auto simp: assigned_def Let_def)
    then show ?thesis using eq SRV_STATUS_FULL asked_trans [OF ws] by auto
  qed (use eq ok1 ws as in \<open>auto simp: assigned_def outcome_def Let_def\<close>)
qed

lemma assign_server_and_queue_ok:
  assumes ok: "state_ok linv (bs_q st)" and w: "weighted tcb dcb (qs_px (bs_q st))" and env: "be_take env = tcb" "be_drop env = dcb"
    and ask: "may_ask env s st"
  shows "\<exists>st' err. assign_server_and_queue env rq s st = Some (Inr (st', err)) \<and> state_ok linv (bs_q st') \<and>
    asked s err st st' \<and> outcome s err (bs_q st')"
  using may_ask_key [OF ask] by (intro ready_assign_ok [OF ok w env]) simp_all

end

end
