(* ===== verification/Backend_Run.thy ===== *)
theory Backend_Run
  imports Backend_Outcome
begin

text \<open>
  Streams come and go: any number of streams ask for servers, wait, are served, release their slots
  and leave, in any order. First-available balancing, static round robin and hashing into the map keep the
  contract of a balancing algorithm, so the queues and the slots stay consistent and no operation faults.
  The callbacks of all algorithms keep the part of the contract that concerns slots.
\<close>

section \<open>First-available balancing\<close>

text \<open>The trees and the first backup server name servers of the backend.\<close>

definition fas_refs :: "proxy \<Rightarrow> bool" where
  "fas_refs p \<longleftrightarrow> algo p AND BE_LB_LKUP = BE_LB_LKUP_FSTREE \<and>
     (\<forall>n \<in> set (eb_nodes (fas_act p)) \<union> set (eb_nodes (fas_bck p)) \<union> set_option (fbck p). n < length (px_srv p))"

abbreviation fas_conn :: conn_cb where
  "fas_conn \<equiv> Some (\<lambda>s p. Inr (fas_srv_reposition s p))"

lemma lb_view_eqD:
  assumes "lb_view p' = lb_view p"
  shows "algo p' = algo p" "fas_act p' = fas_act p" "fas_bck p' = fas_bck p" "fbck p' = fbck p" "map_srv p' = map_srv p"
    "tot_weight p' = tot_weight p" "rr_idx p' = rr_idx p" "arg_opt2 p' = arg_opt2 p" "length (px_srv p') = length (px_srv p)"
  using arg_cong [OF assms, of algo] arg_cong [OF assms, of fas_act] arg_cong [OF assms, of fas_bck] arg_cong [OF assms, of fbck]
    arg_cong [OF assms, of map_srv] arg_cong [OF assms, of tot_weight] arg_cong [OF assms, of rr_idx] arg_cong [OF assms, of arg_opt2]
    weights_same_view [OF assms]
  by (simp_all add: lb_view_def weights_same_def)

lemma tree_scan_in: "tree_scan fit pick av nodes = Some i \<Longrightarrow> i \<in> set nodes \<or> av = Some i"
  by (induction nodes arbitrary: av) (auto split: if_splits)

lemma fas_get_next_server_in:
  "fas_get_next_server now_sec p av = Some i \<Longrightarrow> i \<in> set (eb_nodes (fas_act p)) \<union> set (eb_nodes (fas_bck p)) \<union> set_option (fbck p)"
  by (auto simp: fas_get_next_server_def Let_def dest!: tree_scan_in split: if_splits)

lemma fas_reposition_refs:
  assumes "fas_refs p" and "i < length (px_srv p)"
  shows "fas_refs (fas_srv_reposition i p)"
proof -
  have d: "fas_refs (fas_dequeue_srv i p)" "px_srv (fas_dequeue_srv i p) = px_srv p"
    using assms(1) by (auto simp: fas_refs_def fas_dequeue_srv_def set_nodes_delete)
  have "fas_refs (fas_queue_srv i q)" if "fas_refs q" "i < length (px_srv q)" for q
    using that by (auto simp: fas_refs_def fas_queue_srv_def Let_def upd_srv_def split: option.splits eb_root_ptr.splits)
  then show ?thesis using d assms by (simp add: fas_srv_reposition_def)
qed

interpretation fas_lb: lb_backend fas_conn fas_conn fas_refs
proof
  fix p env rq tx prev key sd assume refs: "fas_refs p"
  have "lb_lookup env p rq tx prev key sd = Some (Inr (p, sd, Some (fas_get_next_server (be_now_sec env) p prev)))"
    using refs by (simp add: fas_refs_def lb_lookup_def Let_def)
  moreover have "lookup_ok p p (Some (fas_get_next_server (be_now_sec env) p prev))"
    using refs fas_get_next_server_in [of "be_now_sec env" p prev] by (auto simp: lookup_ok_def fas_refs_def)
  ultimately show "\<exists>p' sd' found. lb_lookup env p rq tx prev key sd = Some (Inr (p', sd', found)) \<and> lookup_ok p p' found \<and> fas_refs p'"
    using refs by blast
next
  show "fas_refs p'" if "fas_refs p" "lb_view p' = lb_view p" for p p'
    using that(1) lb_view_eqD [OF that(2)] by (simp add: fas_refs_def)
next
  show "fas_refs p'" if "fas_refs p" "i < length (px_srv p)" "fas_conn = Some f \<or> fas_conn = Some f" "f i p = Inr p'" for p i f p'
    using fas_reposition_refs [OF that(1,2)] that(3,4) by auto
qed (simp add: weighted_def)

section \<open>Static round robin and hashing into the map\<close>

text \<open>Every slot of the map names a server of the backend, and the length limit of \<^verbatim>\<open>balance uri\<close> is
  not negative.\<close>

definition map_refs :: "proxy \<Rightarrow> bool" where
  "map_refs p \<longleftrightarrow> algo p AND BE_LB_LKUP = BE_LB_LKUP_MAP \<and>
     (algo p AND BE_LB_KIND = BE_LB_KIND_RR \<and> algo p AND BE_LB_PARM \<noteq> BE_LB_RR_RANDOM \<or>
      algo p AND BE_LB_KIND = BE_LB_KIND_HI \<and> 0 \<le>s arg_opt2 p) \<and> 0 <s tot_weight p \<and> map_filled (nat (sint (tot_weight p))) p \<and>
     (\<forall>i \<in> \<Union> (set_option ` set (map_srv p)). i < length (px_srv p))"

lemma slot_frame_rr_idx: "slot_frame p (p\<lparr>rr_idx := n\<rparr>)"
  by (auto simp: slot_frame_def queue_fields_same_def queue_refs_def queue_at_def split: option.splits)

lemma map_get_server_rr_in:
  assumes "map_refs p"
  shows "\<exists>n srv. map_get_server_rr now_sec p av = Some (Inr (p\<lparr>rr_idx := n\<rparr>, srv)) \<and> (\<forall>i. srv = Some i \<longrightarrow> i < length (px_srv p))"
proof -
  define T where "T = nat (sint (tot_weight p))"
  define q where "q = (if rr_idx p <s 0 \<or> tot_weight p \<le>s rr_idx p then p\<lparr>rr_idx := 0\<rparr> else p)"
  have T: "sint (tot_weight p) = int T" "0 < T" using assms by (auto simp: map_refs_def T_def word_sless_alt)
  define r where "r = nat (sint (rr_idx q))"
  have "0 \<le> sint (rr_idx q) \<and> sint (rr_idx q) < int T"
  proof (cases "rr_idx p <s 0 \<or> tot_weight p \<le>s rr_idx p")
    case True
    then show ?thesis using T(2) by (simp add: q_def)
  next
    case False
    then show ?thesis using T(1) by (simp add: q_def word_sless_alt word_sle_eq)
  qed
  then have r: "sint (rr_idx q) = int r" "r < T" by (simp_all add: r_def nat_less_iff)
  have same: "map_srv q = map_srv p" "px_srv q = px_srv p" "tot_weight q = tot_weight p" by (simp_all add: q_def)
  have fl: "map_filled T q" using assms by (simp add: map_refs_def T_def map_filled_def same)
  have tot: "sint (tot_weight q) = int T" using T(1) by (simp add: same)
  let ?nodes = "map (\<lambda>k. the (map_srv p ! k)) (rr_order T r)"
  obtain idx where loop: "rr_loop T now_sec q av (int r) None 0 =
      Some (Inr (tree_scan (\<lambda>s. srv_not_full now_sec q (srv_at q s)) (\<lambda>s. Some s \<noteq> av) None ?nodes, idx))"
    using rr_loop_scan [OF fl tot r(1) rr_order_facts(1) [OF r(2)], of now_sec av None 0] r(2) by (auto simp: rr_order_facts same)
  let ?srv = "tree_scan (\<lambda>s. srv_not_full now_sec q (srv_at q s)) (\<lambda>s. Some s \<noteq> av) None ?nodes"
  have "i < length (px_srv p)" if srv: "?srv = Some i" for i
  proof -
    obtain k where k: "k < T" "i = the (map_srv p ! k)" using tree_scan_in [OF srv] rr_order_facts(2) [OF r(2)] by auto
    then have "map_srv p ! k = Some i" "map_srv p ! k \<in> set (map_srv p)" using fl same by (auto simp: map_filled_def)
    then show ?thesis using assms unfolding map_refs_def by force
  qed
  moreover have "tot_weight p \<noteq> 0" using T by auto
  then have "map_get_server_rr now_sec p av = Some (Inr (q\<lparr>rr_idx := word_of_int idx\<rparr>, ?srv))"
    using loop r(1) tot unfolding map_get_server_rr_def Let_def q_def [symmetric] by simp
  moreover have "q\<lparr>rr_idx := word_of_int idx\<rparr> = p\<lparr>rr_idx := word_of_int idx\<rparr>" by (simp add: q_def)
  ultimately show ?thesis by auto
qed

text \<open>A hash leads to a slot of the map.\<close>

lemma map_refs_hash:
  assumes "map_refs p"
  shows "\<exists>srv. hash_done p h av = Inr srv \<and> (\<forall>i. srv = Some i \<longrightarrow> i < length (px_srv p))"
proof -
  define T where "T = nat (sint (tot_weight p))"
  have T: "sint (tot_weight p) = int T" "0 < T" using assms by (auto simp: map_refs_def T_def word_sless_alt)
  have "tot_weight p = of_int (sint (tot_weight p))" by simp
  then have "tot_weight p = of_nat T" using T(1) by (metis of_int_of_nat_eq)
  moreover have "T < 2 ^ 32" using T(1) sint_less [of "tot_weight p"] by simp
  ultimately have "unat (tot_weight p) = T" by (simp add: unat_of_nat take_bit_nat_eq_self)
  then have k: "unat (h mod tot_weight p) < T" using T(2) by (simp add: unat_mod_distrib)
  have "T \<le> length (map_srv p)" using assms by (simp add: map_refs_def map_filled_def T_def)
  moreover have "map_srv p ! unat (h mod tot_weight p) \<in> set (map_srv p)" using k calculation by simp
  then have "\<forall>i. map_srv p ! unat (h mod tot_weight p) = Some i \<longrightarrow> i < length (px_srv p)" using assms unfolding map_refs_def by force
  ultimately show ?thesis using assms k by (auto simp: hash_done_def map_get_server_hash_def map_refs_def Let_def)
qed

lemma map_refs_lb_hash:
  assumes "map_refs p" and "algo p AND BE_LB_KIND = BE_LB_KIND_HI"
  shows "\<exists>r. lb_hash p rq tx av = Inr r \<and> (\<forall>i. r = Some (Some i) \<longrightarrow> i < length (px_srv p))"
proof -
  let ?ok = "\<lambda>r. \<exists>srv. r = Inr srv \<and> (\<forall>i. srv = Some i \<longrightarrow> i < length (px_srv p))"
  have h: "?ok (hash_done p h av)" for h using map_refs_hash [OF assms(1)] .
  have len: "0 \<le> sint (arg_opt2 p)" using assms by (auto simp: map_refs_def word_sle_eq)
  have sh: "?ok (get_server_sh p addr av)" for addr using h by (simp add: get_server_sh_def)
  have uh: "?ok (get_server_uh p uri av)" for uri using h len by (auto simp: get_server_uh_def Let_def min_def)
  have ph: "?ok (get_server_ph p uri av)" for uri using h by (simp add: get_server_ph_def split: option.splits)
  have post: "?ok (get_server_ph_post p body av)" for body using h by (simp add: get_server_ph_post_def split: option.splits)
  have hh: "?ok (get_server_hh p hdr b av)" for hdr b using h by (simp add: get_server_hh_def Let_def split: option.splits)
  have rch: "?ok (get_server_rch p ck av)" for ck using h by (simp add: get_server_rch_def split: option.splits)
  have lift: "\<exists>r'. c_bind r (\<lambda>srv. Inr (Some srv)) = Inr r' \<and> (\<forall>i. r' = Some (Some i) \<longrightarrow> i < length (px_srv p))" if "?ok r"
    for r :: "srv_ref option c_result" using that by auto
  obtain srv where srv: "get_server_ph p (rq_uri rq) av = Inr srv" "\<forall>i. srv = Some i \<longrightarrow> i < length (px_srv p)" using ph by blast
  show ?thesis unfolding lb_hash_def Let_def
    using lift [OF sh] lift [OF uh] lift [OF post] lift [OF hh] lift [OF rch] srv by (simp split: option.splits)
qed

lemma map_refs_lookup_rr:
  assumes "map_refs p"
  shows "\<exists>p' found. lookup_rr env p prev sd = Some (Inr (p', sd, found)) \<and> lookup_ok p p' found \<and> map_refs p'"
proof -
  obtain n srv where m: "map_get_server_rr (be_now_sec env) p prev = Some (Inr (p\<lparr>rr_idx := n\<rparr>, srv))"
      "\<forall>i. srv = Some i \<longrightarrow> i < length (px_srv p)"
    using map_get_server_rr_in [OF assms] by blast
  have "map_refs (p\<lparr>rr_idx := n\<rparr>)" using assms by (simp add: map_refs_def map_filled_def)
  then show ?thesis using m slot_frame_rr_idx by (simp add: lookup_rr_def lookup_ok_def)
qed

interpretation map_lb: lb_backend None None map_refs
proof
  fix p and env :: be_env and rq tx prev key sd assume refs: "map_refs p"
  obtain p' found where rr: "lookup_rr env p prev sd = Some (Inr (p', sd, found))" "lookup_ok p p' found" "map_refs p'"
    using map_refs_lookup_rr [OF refs] by blast
  show "\<exists>p' sd' found. lb_lookup env p rq tx prev key sd = Some (Inr (p', sd', found)) \<and> lookup_ok p p' found \<and> map_refs p'"
  proof (cases "algo p AND BE_LB_KIND = BE_LB_KIND_HI")
    case True
    obtain r where "lb_hash p rq tx prev = Inr r" "\<forall>i. r = Some (Some i) \<longrightarrow> i < length (px_srv p)"
      using map_refs_lb_hash [OF refs True] by blast
    then show ?thesis using refs True rr
      by (auto simp: map_refs_def lb_lookup_def lookup_ok_def Let_def split: option.splits)
  next
    case False
    then show ?thesis using refs rr by (auto simp: map_refs_def lb_lookup_def Let_def)
  qed
next
  show "map_refs p'" if "map_refs p" "lb_view p' = lb_view p" for p p'
    using that(1) lb_view_eqD [OF that(2)] by (simp add: map_refs_def map_filled_def)
qed (auto simp: weighted_def)

section \<open>Runs\<close>

text \<open>One operation of one of the streams, of a server that serves its queue, or of the checks that move
  pending connections. \<open>bk_other\<close> stands for the rest of the program, which may change a stream except
  for its slot and its pending connection, and goes from one transaction and session to the next.\<close>

inductive bk_step :: "conn_cb \<Rightarrow> conn_cb \<Rightarrow> bstate \<Rightarrow> bstate c_result option \<Rightarrow> bool" for tcb dcb where
  bk_assign: "be_take env = tcb \<Longrightarrow> be_drop env = dcb \<Longrightarrow> may_ask env s st \<Longrightarrow>
    bk_step tcb dcb st (r_bind (assign_server_and_queue env rq s st) (\<lambda>(st, err). Some (Inr st)))"
| bk_change: "be_take env = tcb \<Longrightarrow> be_drop env = dcb \<Longrightarrow>
    c = None \<or> pend_pos (qs_strm (bs_q st) s) = None \<and> the c < length (px_srv (qs_px (bs_q st))) \<Longrightarrow>
    bk_step tcb dcb st (Some (c_bind (sess_change_server env s c (bs_q st)) (\<lambda>q. Inr (st\<lparr>bs_q := q\<rparr>))))"
| bk_serve: "i < length (px_srv (qs_px (bs_q st))) \<Longrightarrow>
    bk_step tcb dcb st (Some (c_bind (process_srv_queue tcb now_ms now_sec i (bs_q st)) (\<lambda>q. Inr (st\<lparr>bs_q := q\<rparr>))))"
| bk_dequeue: "pend_pos (qs_strm (bs_q st) s) \<noteq> None \<Longrightarrow>
    bk_step tcb dcb st (Some (c_bind (pendconn_dequeue s (bs_q st)) (\<lambda>(q, n). Inr (st\<lparr>bs_q := q\<rparr>))))"
| bk_free: "bk_step tcb dcb st (Some (c_bind (pendconn_free s (bs_q st)) (\<lambda>q. Inr (st\<lparr>bs_q := q\<rparr>))))"
| bk_redistribute: "i < length (px_srv (qs_px (bs_q st))) \<Longrightarrow>
    bk_step tcb dcb st (Some (c_bind (pendconn_redistribute i (bs_q st)) (\<lambda>(q, n). Inr (st\<lparr>bs_q := q\<rparr>))))"
| bk_grab: "i < length (px_srv (qs_px (bs_q st))) \<Longrightarrow>
    bk_step tcb dcb st (Some (c_bind (pendconn_grab_from_px now_ms now_sec i (bs_q st)) (\<lambda>(q, n). Inr (st\<lparr>bs_q := q\<rparr>))))"
| bk_other: "pend_pos (f (qs_strm (bs_q st) s)) = pend_pos (qs_strm (bs_q st) s) \<Longrightarrow>
    srv_conn (f (qs_strm (bs_q st) s)) = srv_conn (qs_strm (bs_q st) s) \<Longrightarrow>
    bk_step tcb dcb st (Some (Inr (st\<lparr>bs_q := upd_strm s f (bs_q st), bs_sd := sd, bs_txn := tx, bs_sess := sess\<rparr>)))"

text \<open>A change of the status or the weights of servers: anything of the proxy may change but the queues and
  the slots.\<close>

definition status_change :: "proxy \<Rightarrow> proxy \<Rightarrow> bool" where
  "status_change p p' \<longleftrightarrow> queue_fields_same p p' \<and> length (px_srv p') = length (px_srv p) \<and> px_served p' = px_served p \<and>
     (\<forall>j < length (px_srv p). served (srv_at p' j) = served (srv_at p j))"

lemma status_change_inv:
  assumes "status_change (qs_px st) p"
  shows "queue_ok st \<Longrightarrow> queue_ok (st\<lparr>qs_px := p\<rparr>)" "slots_ok st \<Longrightarrow> slots_ok (st\<lparr>qs_px := p\<rparr>)"
proof -
  have f: "queue_fields_same (qs_px st) p" using assms by (simp add: status_change_def)
  show "queue_ok st \<Longrightarrow> queue_ok (st\<lparr>qs_px := p\<rparr>)" by (rule queue_fields_same_inv(1) [OF f])
  have "holders (st\<lparr>qs_px := p\<rparr>) = holders st" "all_holders (st\<lparr>qs_px := p\<rparr>) = all_holders st"
    by (auto simp: holders_def all_holders_def)
  then show "slots_ok st \<Longrightarrow> slots_ok (st\<lparr>qs_px := p\<rparr>)"
    using assms by (simp add: slots_inv_def status_change_def queue_fields_same_def)
qed

text \<open>At the start there is no connection. Between the operations servers may change their status or weight, in
  ways that keep the data of the algorithm valid.\<close>

inductive bk_reachable :: "conn_cb \<Rightarrow> conn_cb \<Rightarrow> (proxy \<Rightarrow> bool) \<Rightarrow> bstate \<Rightarrow> bool" for tcb dcb linv where
  bk_start: "linv px \<Longrightarrow> px_served px = 0 \<Longrightarrow> \<forall>s \<in> set (px_srv px). served s = 0 \<Longrightarrow> \<forall>t. srv_conn (strm t) = None \<Longrightarrow>
    bk_reachable tcb dcb linv \<lparr>bs_q = queue_start px strm, bs_sd = sd, bs_txn = tx, bs_sess = sess\<rparr>"
| bk_next: "bk_reachable tcb dcb linv st \<Longrightarrow> bk_step tcb dcb st (Some (Inr st')) \<Longrightarrow> bk_reachable tcb dcb linv st'"
| bk_status: "bk_reachable tcb dcb linv st \<Longrightarrow> status_change (qs_px (bs_q st)) px \<Longrightarrow> linv px \<Longrightarrow>
    bk_reachable tcb dcb linv (st\<lparr>bs_q := (bs_q st)\<lparr>qs_px := px\<rparr>\<rparr>)"

lemma slots_start:
  assumes "px_served px = 0" and "\<forall>s \<in> set (px_srv px). served s = 0" and "\<forall>t. srv_conn (strm t) = None"
  shows "slots_ok (queue_start px strm)"
  using assms by (simp add: slots_inv_def queue_start_def holders_def all_holders_def)

lemma lb_view_start: "lb_view (qs_px (queue_start px strm)) = lb_view px"
  by (rule lb_view_q_view) (simp add: queue_start_def q_view_def comp_def)

context lb_conn begin

lemma leaves_state:
  assumes "state_ok linv (bs_q st)" and "queue_step None (bs_q st) r" and "\<And>q'. r = Inr q' \<Longrightarrow> only_leaves (bs_q st) q'"
  shows "\<exists>q'. r = Inr q' \<and> state_ok linv q'"
proof -
  obtain q' where q': "r = Inr q'" "queue_ok q'" using queue_step_ok [OF no_cb.conn_callback_axioms _ assms(2)] assms(1) by (auto simp: state_ok_def cb_fault_def)
  have l: "only_leaves (bs_q st) q'" using assms(3) q'(1) .
  then have "lb_view (qs_px q') = lb_view (qs_px (bs_q st))" by (intro lb_view_q_view) (simp add: only_leaves_def)
  from inv_view [OF _ this] have "linv (qs_px q')" using assms(1) by (simp add: state_ok_def)
  then show ?thesis using q' only_leaves_slots [OF l] assms(1) by (simp add: state_ok_def)
qed

end

context lb_backend begin

lemma bk_step_ok:
  assumes step: "bk_step tcb dcb st r" and ok: "state_ok linv (bs_q st)"
  shows "\<exists>st'. r = Some (Inr st') \<and> state_ok linv (bs_q st')"
  using step
proof cases
  case (bk_assign env s rq)
  then show ?thesis using assign_server_and_queue_ok [OF ok safe bk_assign(2-4), of rq] by auto
next
  case (bk_change env c s)
  then show ?thesis using sess_change_server_ok [OF ok safe bk_change(2-4)] by auto
next
  case (bk_serve i now_ms now_sec)
  then show ?thesis using process_srv_queue_state [OF ok safe bk_serve(2), of now_ms now_sec] by auto
next
  case (bk_dequeue s)
  then show ?thesis using leaves_state [OF ok step_dequeue [OF bk_dequeue(2)]]
    by (fastforce simp: c_bind_Inr_iff dest: pendconn_dequeue_leaves)
next
  case (bk_free s)
  have "\<exists>q'. pendconn_free s (bs_q st) = Inr q' \<and> state_ok linv q'"
    by (rule leaves_state [OF ok step_free]) (rule pendconn_free_leaves)
  then show ?thesis using bk_free by auto
next
  case (bk_redistribute i)
  then show ?thesis using leaves_state [OF ok step_redistribute [OF bk_redistribute(2)]]
    by (fastforce simp: c_bind_Inr_iff dest: pendconn_redistribute_leaves)
next
  case (bk_grab i now_ms now_sec)
  then show ?thesis using leaves_state [OF ok step_grab [OF bk_grab(2)]]
    by (fastforce simp: c_bind_Inr_iff dest: pendconn_grab_leaves)
next
  case (bk_other f s sd tx sess)
  then show ?thesis using ok upd_strm_inv [of f "bs_q st" s, OF bk_other(2,3)] by (simp add: state_ok_def)
qed

lemma bk_reachable_state: "bk_reachable tcb dcb linv st \<Longrightarrow> state_ok linv (bs_q st)"
proof (induction rule: bk_reachable.induct)
  case (bk_start px strm sd tx sess)
  then show ?case
    using queue_start_ok slots_start [of px strm] inv_view [OF _ lb_view_start] by (simp add: state_ok_def)
next
  case (bk_next st st')
  then show ?case using bk_step_ok by fastforce
next
  case (bk_status st px)
  then show ?case using status_change_inv [of "bs_q st" px] by (simp add: state_ok_def)
qed

end

section \<open>Properties\<close>

definition known_algorithm :: "conn_cb \<Rightarrow> conn_cb \<Rightarrow> (proxy \<Rightarrow> bool) \<Rightarrow> bool" where
  "known_algorithm tcb dcb linv \<longleftrightarrow>
     tcb = fas_conn \<and> dcb = fas_conn \<and> linv = fas_refs \<or> tcb = None \<and> dcb = None \<and> linv = map_refs"

lemma known_algorithm_ok: "known_algorithm tcb dcb linv \<Longrightarrow> lb_backend tcb dcb linv"
  using fas_lb.lb_backend_axioms map_lb.lb_backend_axioms by (auto simp: known_algorithm_def)

text \<open>What does not ask for a server depends on the callbacks only: those of every algorithm, least-connection
  balancing included, with nothing assumed of its data.\<close>

interpretation fwlc_conn: lb_conn "Some fwlc_srv_reposition" "Some fwlc_srv_reposition" "\<lambda>_. True"
  by unfold_locales auto

interpretation no_conn: lb_conn None None "\<lambda>_. True"
  by unfold_locales auto

interpretation fas_any: lb_conn fas_conn fas_conn "\<lambda>_. True"
  by unfold_locales auto

definition known_callbacks :: "conn_cb \<Rightarrow> conn_cb \<Rightarrow> (proxy \<Rightarrow> bool) \<Rightarrow> bool" where
  "known_callbacks tcb dcb linv \<longleftrightarrow> known_algorithm tcb dcb linv \<or> tcb \<in> take_conn_callbacks \<and> dcb = tcb \<and> linv = (\<lambda>_. True)"

lemma known_callbacks_ok: "known_callbacks tcb dcb linv \<Longrightarrow> lb_conn tcb dcb linv"
  using known_algorithm_ok lb_backend.axioms(1) fwlc_conn.lb_conn_axioms no_conn.lb_conn_axioms fas_any.lb_conn_axioms
  unfolding known_callbacks_def take_conn_callbacks_def by blast

definition sample_backend :: bstate where
  "sample_backend = \<lparr>bs_q = queue_start ((fas_init_server_tree sample_proxy)\<lparr>algo := 0x52001\<rparr>)
       (\<lambda>_. sample_stream\<lparr>strm_flags := 0, strm_target := None\<rparr>),
     bs_sd = sample_sd, bs_txn = Some \<lparr>tx_meth = 1, tx_flags = 0\<rparr>,
     bs_sess = \<lparr>sess_flags = 0, sess_srv_list = [], idle_conns = 0\<rparr>\<rparr>"

definition sample_be_env :: be_env where
  "sample_be_env = \<lparr>be_now_ms = 5, be_now_sec = 0, be_sd = sample_env, be_rng = (\<lambda>_. 0), be_fuel = 0, be_alloc = Some 7,
     be_malloc = (\<lambda>_. Some 24), be_take = fas_conn, be_drop = fas_conn\<rparr>"

definition sample_request :: request where
  "sample_request = \<lparr>rq_htx = True, rq_src = None, rq_uri = [], rq_path = None, rq_body = None, rq_hdr = None, rq_next = 0,
     rq_cookie = None\<rparr>"

lemma sample_backend_start:
  "bk_reachable fas_conn fas_conn fas_refs sample_backend"
  "may_ask sample_be_env 3 sample_backend"
proof -
  let ?px = "(fas_init_server_tree sample_proxy)\<lparr>algo := 0x52001\<rparr>"
  have px: "list_all (\<lambda>n. n < length (px_srv ?px)) (eb_nodes (fas_act ?px) @ eb_nodes (fas_bck ?px))" "fbck ?px = Some 3" "length (px_srv ?px) = 4"
    "px_served ?px = 0" "list_all (\<lambda>s. served s = 0) (px_srv ?px)" "algo ?px AND BE_LB_LKUP = BE_LB_LKUP_FSTREE" by code_simp+
  then have "fas_refs ?px" by (auto simp: fas_refs_def list_all_iff)
  then show "bk_reachable fas_conn fas_conn fas_refs sample_backend"
    unfolding sample_backend_def using px(4,5) by (intro bk_start) (auto simp: sample_stream_def list_all_iff)
  show "may_ask sample_be_env 3 sample_backend"
    by (simp add: may_ask_def ask_ready_def Let_def fresh_alloc_def spare_byte_def sample_be_env_def sample_backend_def queue_start_def sample_stream_def)
qed

text \<open>(C6) The scope is a backend balanced by first-available balancing (\<^verbatim>\<open>balance first\<close>), static
  round robin (\<^verbatim>\<open>balance static-rr\<close>) or a hash into the map (\<^verbatim>\<open>source\<close>, \<^verbatim>\<open>uri\<close>,
  \<^verbatim>\<open>url_param\<close>, \<^verbatim>\<open>hdr\<close>, \<^verbatim>\<open>rdp-cookie\<close>), with the map filled and a length limit
  that is not negative; \<^verbatim>\<open>roundrobin\<close>, \<^verbatim>\<open>leastconn\<close>, \<^verbatim>\<open>random\<close> and consistent
  hashing are outside it. The requests for a server come from streams with an HTTP transaction, and the allocator
  gives a spare byte for the write of \<^verbatim>\<open>fetchMethod\<close> past its block. In that scope streams, servers and checks may use the backend
  in any order, with changes of the status and the weights of servers in between that leave the data of the
  algorithm valid: no operation faults, and after every operation the queues are consistent, \<^verbatim>\<open>served\<close> of
  every server is the number of streams that hold one of its slots, \<^verbatim>\<open>served\<close> of the proxy is the number
  of streams that hold a slot, and no stream in a queue holds one.\<close>

theorem backend_reachable_ok:
  assumes "known_algorithm tcb dcb linv" and "bk_reachable tcb dcb linv st"
  shows "queue_ok (bs_q st) \<and> slots_ok (bs_q st) \<and>
    (\<forall>r. bk_step tcb dcb st r \<longrightarrow> (\<exists>st'. r = Some (Inr st') \<and> queue_ok (bs_q st') \<and> slots_ok (bs_q st')))"
proof -
  note alg = known_algorithm_ok [OF assms(1)]
  have "state_ok linv (bs_q st)" using lb_backend.bk_reachable_state [OF alg assms(2)] .
  then show ?thesis using lb_backend.bk_step_ok [OF alg] unfolding state_ok_def by blast
qed

theorem backend_reachable_ok_witness:
  "slots_ok (bs_q sample_backend) \<and>
   (\<exists>st'. r_bind (assign_server_and_queue sample_be_env sample_request 3 sample_backend) (\<lambda>(st, err). Some (Inr st)) = Some (Inr st') \<and>
     slots_ok (bs_q st'))"
proof -
  have "bk_step fas_conn fas_conn sample_backend
      (r_bind (assign_server_and_queue sample_be_env sample_request 3 sample_backend) (\<lambda>(st, err). Some (Inr st)))"
    by (rule bk_assign) (use sample_backend_start(2) in \<open>simp_all add: sample_be_env_def\<close>)
  moreover have "known_algorithm fas_conn fas_conn fas_refs" by (simp add: known_algorithm_def)
  ultimately show ?thesis using backend_reachable_ok [OF _ sample_backend_start(1)] by blast
qed

text \<open>(C25) Under first-available balancing, static round robin or a hash into the map, a stream with an HTTP transaction that asks
  for a server gets an answer, provided the allocator gives a spare byte for the write of \<^verbatim>\<open>fetchMethod\<close>
  past its block. The answer is what happened: with OK the stream is assigned and holds a slot of its server,
  with QUEUED it waits in the queue of the server it is assigned to, else in that of the proxy, and holds no
  slot, and with any other status it neither waits nor holds a slot. The algorithms that consult the whitelist
  (\<^verbatim>\<open>roundrobin\<close>, \<^verbatim>\<open>leastconn\<close>, \<^verbatim>\<open>random\<close>) and consistent hashing are outside this
  property.\<close>

theorem assign_server_and_queue_outcome:
  assumes "known_algorithm tcb dcb linv" and "bk_reachable tcb dcb linv st"
    and "be_take env = tcb" and "be_drop env = dcb" and "may_ask env s st"
  shows "\<exists>st' err. assign_server_and_queue env rq s st = Some (Inr (st', err)) \<and> outcome s err (bs_q st') \<and>
    bk_reachable tcb dcb linv st'"
proof -
  note alg = known_algorithm_ok [OF assms(1)]
  have "state_ok linv (bs_q st)" using lb_backend.bk_reachable_state [OF alg assms(2)] .
  from lb_backend.assign_server_and_queue_ok [OF alg this lb_backend.safe [OF alg] assms(3-5)] obtain st' err
    where r: "assign_server_and_queue env rq s st = Some (Inr (st', err))" "outcome s err (bs_q st')" by blast
  have "bk_step tcb dcb st (Some (Inr st'))" using bk_assign [OF assms(3-5), of rq] r(1) by simp
  then show ?thesis using r bk_next [OF assms(2)] by blast
qed

theorem assign_server_and_queue_outcome_witness:
  "\<exists>st' err. assign_server_and_queue sample_be_env sample_request 3 sample_backend = Some (Inr (st', err)) \<and>
     outcome 3 err (bs_q st') \<and> err = SRV_STATUS_OK \<and> srv_conn (qs_strm (bs_q st') 3) = Some 0"
proof -
  have "case assign_server_and_queue sample_be_env sample_request 3 sample_backend of
      Some (Inr (st', err)) \<Rightarrow> err = SRV_STATUS_OK \<and> srv_conn (qs_strm (bs_q st') 3) = Some 0 | _ \<Rightarrow> False" by code_simp
  then show ?thesis
    using assign_server_and_queue_outcome [OF _ sample_backend_start(1) _ _ sample_backend_start(2), of sample_request]
    by (auto simp: known_algorithm_def sample_be_env_def)
qed

text \<open>The fault of a request for a server: none of a stream that is assigned already; else the missing
  transaction of a TCP stream, or the copy of the method.\<close>

definition ask_fault :: "be_env \<Rightarrow> strm_ref \<Rightarrow> bstate \<Rightarrow> c_fault option" where
  "ask_fault env s st =
     (if strm_flags (qs_strm (bs_q st) s) AND SF_ASSIGNED \<noteq> 0 then None
      else case bs_txn st of
        None \<Rightarrow> Some NullDeref
      | Some tx \<Rightarrow>
          if tx_meth tx \<notin> {1, 3} then None
          else case be_malloc env (if tx_meth tx = 1 then 5 else 6) of
            None \<Rightarrow> Some NullDeref
          | Some len \<Rightarrow> if len \<le> (if tx_meth tx = 1 then 5 else 6) then Some BufferOverflow else None)"

text \<open>(C40) Exactly when asking for a server crashes the process, under first-available balancing, static
  round robin or a hash into the map: the stream has no server yet, and it has no HTTP transaction (as every stream of a TCP proxy), or
  its method is GET or POST and there is no memory for the copy of the method (both a null dereference), or the
  block is exactly of the size asked for, 5 or 6 bytes, and the terminator is written behind it. Every other
  request returns.\<close>

theorem assign_server_and_queue_crashes:
  assumes "known_algorithm tcb dcb linv" and "bk_reachable tcb dcb linv st" and "be_take env = tcb" and "be_drop env = dcb"
    and "ask_ready env s st"
  shows "case ask_fault env s st of
      Some e \<Rightarrow> assign_server_and_queue env rq s st = Some (Inl e)
    | None \<Rightarrow> \<exists>st' err. assign_server_and_queue env rq s st = Some (Inr (st', err)) \<and> outcome s err (bs_q st')"
proof (cases "ask_fault env s st")
  case None
  note alg = known_algorithm_ok [OF assms(1)]
  have "state_ok linv (bs_q st)" using lb_backend.bk_reachable_state [OF alg assms(2)] .
  moreover have "\<exists>key. fetchKey (be_malloc env) (tx_meth tx) = Inr key"
    if "strm_flags (qs_strm (bs_q st) s) AND SF_ASSIGNED = 0" "bs_txn st = Some tx" for tx
    using that None by (auto simp: ask_fault_def fetchKey_result split: option.splits if_splits)
  then have "key_found env s st" using None by (auto simp: key_found_def ask_fault_def split: option.splits)
  ultimately show ?thesis
    using lb_backend.ready_assign_ok [OF alg _ lb_backend.safe [OF alg] assms(3-5), of rq] None by auto
next
  case (Some e)
  then show ?thesis using assms(5)
    by (auto simp: ask_ready_def ask_fault_def assign_server_and_queue_def assign_server_def fetchKey_result Let_def
        split: option.splits if_splits)
qed

theorem assign_server_and_queue_crashes_witness:
  "assign_server_and_queue (sample_be_env\<lparr>be_malloc := Some\<rparr>) sample_request 3 sample_backend = Some (Inl BufferOverflow) \<and>
   assign_server_and_queue sample_be_env sample_request 3 (sample_backend\<lparr>bs_txn := None\<rparr>) = Some (Inl NullDeref) \<and>
   (\<exists>st' err. assign_server_and_queue sample_be_env sample_request 3 sample_backend = Some (Inr (st', err)) \<and> outcome 3 err (bs_q st'))"
proof -
  have alg: "known_algorithm fas_conn fas_conn fas_refs" by (simp add: known_algorithm_def)
  have "bk_step fas_conn fas_conn sample_backend (Some (Inr (sample_backend\<lparr>bs_q := upd_strm 3 (\<lambda>x. x) (bs_q sample_backend),
      bs_sd := bs_sd sample_backend, bs_txn := None, bs_sess := bs_sess sample_backend\<rparr>)))"
    by (rule bk_other) simp_all
  moreover have "upd_strm 3 (\<lambda>x. x) q = q" for q by (simp add: upd_strm_def)
  ultimately have tcp: "bk_reachable fas_conn fas_conn fas_refs (sample_backend\<lparr>bs_txn := None\<rparr>)"
    using bk_next [OF sample_backend_start(1)] by simp
  have ready: "ask_ready (sample_be_env\<lparr>be_malloc := m\<rparr>) 3 sample_backend" "ask_ready sample_be_env 3 (sample_backend\<lparr>bs_txn := None\<rparr>)" for m
    using sample_backend_start(2) by (simp_all add: may_ask_def ask_ready_def fresh_alloc_def Let_def)
  have e: "be_take sample_be_env = fas_conn" "be_drop sample_be_env = fas_conn" by (simp_all add: sample_be_env_def)
  have "ask_fault (sample_be_env\<lparr>be_malloc := Some\<rparr>) 3 sample_backend = Some BufferOverflow"
    "ask_fault sample_be_env 3 (sample_backend\<lparr>bs_txn := None\<rparr>) = Some NullDeref" "ask_fault sample_be_env 3 sample_backend = None"
    by code_simp+
  then show ?thesis
    using assign_server_and_queue_crashes [OF alg sample_backend_start(1) _ _ ready(1) [of Some], of sample_request]
      assign_server_and_queue_crashes [OF alg tcp e ready(2), of sample_request]
      assign_server_and_queue_crashes [OF alg sample_backend_start(1) e, of 3 sample_request] sample_backend_start(2) e
    by (simp add: may_ask_def)
qed

end
