(* ===== verification/Si_Conn.thy ===== *)
theory Si_Conn
  imports Backend_Assign
begin

text \<open>
  The server side of a stream from the request for a server to the established connection: the states
  of \<^verbatim>\<open>stream_interface-t.h\<close> and the handlers of \<^verbatim>\<open>src/haproxy/src/backend.c\<close>
  (\<^verbatim>\<open>srv_redispatch_connect\<close>, \<^verbatim>\<open>back_try_conn_req\<close>, \<^verbatim>\<open>back_handle_st_req\<close>,
  \<^verbatim>\<open>_con\<close>, \<^verbatim>\<open>_cer\<close>, \<^verbatim>\<open>_rdy\<close>), \<^verbatim>\<open>stream_choose_redispatch\<close> of \<^verbatim>\<open>stream.h\<close>, the
  shutdowns of \<^verbatim>\<open>stream_interface.c\<close> and \<^verbatim>\<open>default_srv_error\<close> of \<^verbatim>\<open>stream.c\<close>.
  \<^verbatim>\<open>connect_server\<close>, which opens the connection, is an argument, as is the effect of
  \<^verbatim>\<open>srv_error\<close> on the stream's flags. The target is a server or none, servers are not observed
  (\<^verbatim>\<open>health_adjust\<close> does nothing), and times kept for the logs and session counters of servers are
  left out.
\<close>

section \<open>Data\<close>

datatype si_state = SI_ST_INI | SI_ST_REQ | SI_ST_QUE | SI_ST_TAR | SI_ST_ASS | SI_ST_CON | SI_ST_CER | SI_ST_RDY
  | SI_ST_EST | SI_ST_DIS | SI_ST_CLO

abbreviation SI_ET_QUEUE_TO :: u32 where "SI_ET_QUEUE_TO \<equiv> 0x0001"
abbreviation SI_ET_QUEUE_ERR :: u32 where "SI_ET_QUEUE_ERR \<equiv> 0x0002"
abbreviation SI_ET_QUEUE_ABRT :: u32 where "SI_ET_QUEUE_ABRT \<equiv> 0x0004"
abbreviation SI_ET_CONN_TO :: u32 where "SI_ET_CONN_TO \<equiv> 0x0008"
abbreviation SI_ET_CONN_ERR :: u32 where "SI_ET_CONN_ERR \<equiv> 0x0010"
abbreviation SI_ET_CONN_ABRT :: u32 where "SI_ET_CONN_ABRT \<equiv> 0x0020"
abbreviation SI_ET_CONN_RES :: u32 where "SI_ET_CONN_RES \<equiv> 0x0040"
abbreviation SI_ET_CONN_OTHER :: u32 where "SI_ET_CONN_OTHER \<equiv> 0x0080"
abbreviation SI_FL_EXP :: u32 where "SI_FL_EXP \<equiv> 0x00000001"
abbreviation SI_FL_ERR :: u32 where "SI_FL_ERR \<equiv> 0x00000002"
abbreviation SI_FL_WAIT_DATA :: u32 where "SI_FL_WAIT_DATA \<equiv> 0x00000008"
abbreviation SI_FL_NOLINGER :: u32 where "SI_FL_NOLINGER \<equiv> 0x00000080"
abbreviation SI_FL_NOHALF :: u32 where "SI_FL_NOHALF \<equiv> 0x00000100"
abbreviation SI_FL_WANT_GET :: u32 where "SI_FL_WANT_GET \<equiv> 0x00004000"
abbreviation SI_FL_RXBLK_SHUT :: u32 where "SI_FL_RXBLK_SHUT \<equiv> 0x00080000"
abbreviation CF_READ_ERROR :: u32 where "CF_READ_ERROR \<equiv> 0x00000008"
abbreviation CF_SHUTR :: u32 where "CF_SHUTR \<equiv> 0x00000020"
abbreviation CF_WRITE_TIMEOUT :: u32 where "CF_WRITE_TIMEOUT \<equiv> 0x00000400"
abbreviation CF_WRITE_ERROR :: u32 where "CF_WRITE_ERROR \<equiv> 0x00000800"
abbreviation CF_SHUTW :: u32 where "CF_SHUTW \<equiv> 0x00002000"
abbreviation CF_SHUTW_NOW :: u32 where "CF_SHUTW_NOW \<equiv> 0x00004000"
abbreviation CF_WROTE_DATA :: u32 where "CF_WROTE_DATA \<equiv> 0x00040000"
abbreviation CF_DONT_READ :: u32 where "CF_DONT_READ \<equiv> 0x01000000"
abbreviation PR_O_ABRT_CLOSE :: u32 where "PR_O_ABRT_CLOSE \<equiv> 0x00800000"
abbreviation PR_RE_CONN_FAILED :: u32 where "PR_RE_CONN_FAILED \<equiv> 0x00000001"
abbreviation SF_CURR_SESS :: u32 where "SF_CURR_SESS \<equiv> 0x00000040"
abbreviation SF_SRV_REUSED :: u32 where "SF_SRV_REUSED \<equiv> 0x00100000"
abbreviation SF_SRV_REUSED_ANTICIPATED :: u32 where "SF_SRV_REUSED_ANTICIPATED \<equiv> 0x00200000"
abbreviation SF_ERR_NONE :: u32 where "SF_ERR_NONE \<equiv> 0x00000000"
abbreviation SF_ERR_CLICL :: u32 where "SF_ERR_CLICL \<equiv> 0x00003000"
abbreviation SF_ERR_SRVTO :: u32 where "SF_ERR_SRVTO \<equiv> 0x00004000"
abbreviation SF_ERR_SRVCL :: u32 where "SF_ERR_SRVCL \<equiv> 0x00005000"
abbreviation SF_ERR_RESOURCE :: u32 where "SF_ERR_RESOURCE \<equiv> 0x00007000"
abbreviation SF_ERR_INTERNAL :: u32 where "SF_ERR_INTERNAL \<equiv> 0x00008000"
abbreviation SF_ERR_MASK :: u32 where "SF_ERR_MASK \<equiv> 0x0000F000"
abbreviation SF_FINST_C :: u32 where "SF_FINST_C \<equiv> 0x00020000"
abbreviation SF_FINST_Q :: u32 where "SF_FINST_Q \<equiv> 0x00060000"
abbreviation SF_FINST_MASK :: u32 where "SF_FINST_MASK \<equiv> 0x00070000"
abbreviation TICK_ETERNITY :: u32 where "TICK_ETERNITY \<equiv> 0"

record stream_interface =
  si_st :: si_state
  si_flags :: u32
  si_exp :: u32
  err_type :: u32
  conn_retries :: c_int

text \<open>The stream at hand: the backend, its server-side interface, the flags of the request and response
  channels, whether the request channel is empty, whether the connection failed on the server name of its
  certificate, and the counters \<^verbatim>\<open>failed_conns\<close> of the servers and, at \<open>None\<close>, of the proxy.\<close>

record cstate =
  cn_b :: bstate
  cn_si :: stream_interface
  cn_req :: u32
  cn_res :: u32
  cn_req_empty :: bool
  cn_sni_mismatch :: bool
  failed_conns :: "srv_ref option \<Rightarrow> u64"

record conn_env =
  ce_be :: be_env
  be_conn_retries :: c_int
  redispatch_after :: c_int
  retry_type :: u32
  timeout_queue :: u32
  timeout_connect :: c_int
  srv_error :: "(u32 \<Rightarrow> u32 \<Rightarrow> u32) option"
  connect_server :: "cstate \<Rightarrow> cstate \<times> u32"

definition tick_add :: "u32 \<Rightarrow> u32 \<Rightarrow> u32" where
  "tick_add now timeout = (if now + timeout = 0 then 1 else now + timeout)"

definition tick_add_ifset :: "u32 \<Rightarrow> u32 \<Rightarrow> u32" where
  "tick_add_ifset now timeout = (if timeout = 0 then TICK_ETERNITY else tick_add now timeout)"

abbreviation cn_q :: "cstate \<Rightarrow> qstate" where
  "cn_q c \<equiv> bs_q (cn_b c)"

definition upd_si :: "(stream_interface \<Rightarrow> stream_interface) \<Rightarrow> cstate \<Rightarrow> cstate" where
  "upd_si f c = c\<lparr>cn_si := f (cn_si c)\<rparr>"

definition set_q :: "qstate \<Rightarrow> cstate \<Rightarrow> cstate" where
  "set_q q c = c\<lparr>cn_b := (cn_b c)\<lparr>bs_q := q\<rparr>\<rparr>"

definition set_err_type :: "u32 \<Rightarrow> cstate \<Rightarrow> cstate" where
  "set_err_type e = upd_si (\<lambda>si. if err_type si = 0 then si\<lparr>err_type := e\<rparr> else si)"

definition inc_failed :: "srv_ref option \<Rightarrow> cstate \<Rightarrow> cstate" where
  "inc_failed o' c = c\<lparr>failed_conns := (failed_conns c)(o' := failed_conns c o' + 1)\<rparr>"

text \<open>\<^verbatim>\<open>if (srv) inc(srv); inc(be);\<close>\<close>

definition count_failed :: "srv_ref option \<Rightarrow> cstate \<Rightarrow> cstate" where
  "count_failed srv c = inc_failed None (if srv \<noteq> None then inc_failed srv c else c)"

section \<open>Shutting the interface\<close>

text \<open>The three implementations, for connections, applets and neither, agree on what is modelled here.\<close>

definition si_shutw :: "cstate \<Rightarrow> cstate" where
  "si_shutw c =
     (let c = c\<lparr>cn_req := cn_req c AND NOT CF_SHUTW_NOW\<rparr> in
      if cn_req c AND CF_SHUTW \<noteq> 0 then c
      else
        let c = upd_si (\<lambda>si. si\<lparr>si_flags := si_flags si AND NOT (SI_FL_WANT_GET OR SI_FL_WAIT_DATA)\<rparr>) (c\<lparr>cn_req := cn_req c OR CF_SHUTW\<rparr>);
            si = cn_si c
        in if si_st si \<in> {SI_ST_RDY, SI_ST_EST} \<and> si_flags si AND (SI_FL_ERR OR SI_FL_NOLINGER) = 0 \<and>
              cn_res c AND (CF_SHUTR OR CF_DONT_READ) = 0
           then c
           else upd_si (\<lambda>si. si\<lparr>si_st := (if si_st si \<in> {SI_ST_RDY, SI_ST_EST, SI_ST_CON, SI_ST_CER, SI_ST_QUE, SI_ST_TAR}
                    then SI_ST_DIS else si_st si),
                  si_flags := (si_flags si AND NOT SI_FL_NOLINGER) OR SI_FL_RXBLK_SHUT, si_exp := TICK_ETERNITY\<rparr>)
                (c\<lparr>cn_res := cn_res c OR CF_SHUTR\<rparr>))"

definition si_shutr :: "cstate \<Rightarrow> cstate" where
  "si_shutr c =
     (let c = upd_si (\<lambda>si. si\<lparr>si_flags := si_flags si OR SI_FL_RXBLK_SHUT\<rparr>) c in
      if cn_res c AND CF_SHUTR \<noteq> 0 then c
      else
        let c = c\<lparr>cn_res := cn_res c OR CF_SHUTR\<rparr> in
        if si_st (cn_si c) \<notin> {SI_ST_CON, SI_ST_RDY, SI_ST_EST} then c
        else if cn_req c AND CF_SHUTW \<noteq> 0 then upd_si (\<lambda>si. si\<lparr>si_st := SI_ST_DIS, si_exp := TICK_ETERNITY\<rparr>) c
        else if si_flags (cn_si c) AND SI_FL_NOHALF \<noteq> 0 then si_shutw c
        else c)"

definition default_srv_error :: "u32 \<Rightarrow> u32 \<Rightarrow> u32" where
  "default_srv_error et flags =
     (let (err, fin) =
        (if et AND SI_ET_QUEUE_ABRT \<noteq> 0 then (SF_ERR_CLICL, SF_FINST_Q)
         else if et AND SI_ET_CONN_ABRT \<noteq> 0 then (SF_ERR_CLICL, SF_FINST_C)
         else if et AND SI_ET_QUEUE_TO \<noteq> 0 then (SF_ERR_SRVTO, SF_FINST_Q)
         else if et AND SI_ET_QUEUE_ERR \<noteq> 0 then (SF_ERR_SRVCL, SF_FINST_Q)
         else if et AND SI_ET_CONN_TO \<noteq> 0 then (SF_ERR_SRVTO, SF_FINST_C)
         else if et AND SI_ET_CONN_ERR \<noteq> 0 then (SF_ERR_SRVCL, SF_FINST_C)
         else if et AND SI_ET_CONN_RES \<noteq> 0 then (SF_ERR_RESOURCE, SF_FINST_C)
         else (SF_ERR_INTERNAL, SF_FINST_C));
        flags = (if flags AND SF_ERR_MASK = 0 then flags OR err else flags)
      in if flags AND SF_FINST_MASK = 0 then flags OR fin else flags)"

definition call_srv_error :: "conn_env \<Rightarrow> strm_ref \<Rightarrow> cstate \<Rightarrow> cstate" where
  "call_srv_error env s c = (case srv_error env of
     None \<Rightarrow> c
   | Some f \<Rightarrow> set_q (upd_strm s (\<lambda>x. x\<lparr>strm_flags := f (err_type (cn_si c)) (strm_flags x)\<rparr>) (cn_q c)) c)"

section \<open>Getting a server\<close>

text \<open>\<^verbatim>\<open>if (may_dequeue_tasks(srv, s->be)) process_srv_queue(srv);\<close>\<close>

definition offer_slot :: "be_env \<Rightarrow> srv_ref option \<Rightarrow> qstate \<Rightarrow> qstate c_result" where
  "offer_slot env srv q = (case srv of
     None \<Rightarrow> Inr q
   | Some i \<Rightarrow>
       if may_dequeue_tasks (be_now_sec env) (Some (srv_at (qs_px q) i)) (qs_px q)
       then process_srv_queue (be_take env) (be_now_ms env) (be_now_sec env) i q
       else Inr q)"

definition forget_server :: "strm_ref \<Rightarrow> cstate \<Rightarrow> cstate" where
  "forget_server s c = set_q (upd_strm s (\<lambda>x. x\<lparr>strm_flags := strm_flags x AND NOT (SF_DIRECT OR SF_ASSIGNED OR SF_ADDR_SET)\<rparr>) (cn_q c)) c"

text \<open>The first argument bounds the number of times the label \<^verbatim>\<open>redispatch\<close> is reached. The
  result is true where the C function returns 1.\<close>

fun srv_redispatch_connect :: "nat \<Rightarrow> conn_env \<Rightarrow> request \<Rightarrow> strm_ref \<Rightarrow> cstate \<Rightarrow> (cstate \<times> bool) c_result option" where
  "srv_redispatch_connect 0 env rq s c = None"
| "srv_redispatch_connect (Suc n) env rq s c =
     r_bind (assign_server_and_queue (ce_be env) rq s (cn_b c)) (\<lambda>(b, err).
       let c = c\<lparr>cn_b := b\<rparr>; strm = qs_strm (bs_q b) s; srv = strm_target strm
       in case err of
            SRV_STATUS_OK \<Rightarrow> Some (Inr (c, False))
          | SRV_STATUS_FULL \<Rightarrow>
              if strm_flags strm AND (SF_DIRECT OR SF_FORCE_PRST) = SF_DIRECT \<and> px_options (qs_px (bs_q b)) AND PR_O_REDISP \<noteq> 0
              then srv_redispatch_connect n env rq s (forget_server s c)
              else if srv = None then Some (Inl NullDeref)
              else Some (Inr (count_failed srv (set_err_type SI_ET_QUEUE_ERR c), True))
          | SRV_STATUS_NOSRV \<Rightarrow> Some (Inr (count_failed None (set_err_type SI_ET_CONN_ERR c), True))
          | SRV_STATUS_QUEUED \<Rightarrow>
              Some (Inr (upd_si (\<lambda>si. si\<lparr>si_exp := tick_add_ifset (be_now_ms (ce_be env)) (timeout_queue env), si_st := SI_ST_QUE\<rparr>) c, True))
          | SRV_STATUS_INTERNAL \<Rightarrow>
              let c = count_failed srv (set_err_type SI_ET_CONN_OTHER c)
              in Some (c_bind (offer_slot (ce_be env) srv (cn_q c)) (\<lambda>q. Inr (set_q q c, True))))"

definition back_may_abort_req :: "cstate \<Rightarrow> bool" where
  "back_may_abort_req c \<longleftrightarrow> cn_req c AND CF_READ_ERROR \<noteq> 0 \<or>
     cn_req c AND (CF_SHUTW_NOW OR CF_SHUTW) \<noteq> 0 \<and> (cn_req_empty c \<or> px_options (qs_px (cn_q c)) AND PR_O_ABRT_CLOSE \<noteq> 0)"

text \<open>Two rounds of the loop are enough.\<close>

definition back_handle_st_req :: "conn_env \<Rightarrow> request \<Rightarrow> strm_ref \<Rightarrow> cstate \<Rightarrow> cstate c_result option" where
  "back_handle_st_req env rq s c =
     (if si_st (cn_si c) \<noteq> SI_ST_REQ then Some (Inr c)
      else
        r_bind (srv_redispatch_connect 2 env rq s c) (\<lambda>(c, stop). Some (Inr (
          if \<not> stop then upd_si (\<lambda>si. si\<lparr>si_st := SI_ST_ASS\<rparr>) c
          else if si_st (cn_si c) = SI_ST_QUE then c
          else
            let c = si_shutw (si_shutr c);
                c = set_err_type SI_ET_CONN_OTHER (c\<lparr>cn_req := cn_req c OR CF_WRITE_ERROR\<rparr>)
            in call_srv_error env s (upd_si (\<lambda>si. si\<lparr>si_st := SI_ST_CLO\<rparr>) c)))))"

section \<open>Retrying\<close>

text \<open>\<^verbatim>\<open>a % b == 0\<close> on two \<^verbatim>\<open>int\<close>.\<close>

definition c_divides :: "c_int \<Rightarrow> c_int \<Rightarrow> bool c_result" where
  "c_divides b a = (if b = 0 then Inl DivideByZero else Inr (sint b dvd sint a))"

definition redispatch_interval :: "conn_env \<Rightarrow> c_int \<Rightarrow> bool c_result" where
  "redispatch_interval env left =
     (if 0 <s redispatch_after env then c_divides (redispatch_after env) (be_conn_retries env - left)
      else if redispatch_after env <s 0 then c_divides (be_conn_retries env + 1 + redispatch_after env) (be_conn_retries env - left)
      else Inr False)"

definition redispatch_due :: "conn_env \<Rightarrow> strm_ref \<Rightarrow> cstate \<Rightarrow> bool c_result" where
  "redispatch_due env s c =
     (let px = qs_px (cn_q c); strm = qs_strm (cn_q c) s in
      case strm_target strm of
        None \<Rightarrow> Inr False
      | Some i \<Rightarrow>
          if px_options px AND PR_O_REDISP = 0 \<or> strm_flags strm AND SF_FORCE_PRST \<noteq> 0 then Inr False
          else if cur_state (srv_at px i) \<in> {SRV_ST_STOPPED, SRV_ST_STARTING} then Inr True
          else c_bind (redispatch_interval env (conn_retries (cn_si c))) (\<lambda>due.
            Inr (due \<or> strm_flags strm AND SF_DIRECT = 0 \<and> 1 <s srv_act px \<and> algo px AND BE_LB_KIND = BE_LB_KIND_RR)))"

definition count_retry :: "strm_ref \<Rightarrow> cstate \<Rightarrow> cstate" where
  "count_retry s c =
     (let q = cn_q c; px = qs_px q;
          px = (case strm_target (qs_strm q s) of Some i \<Rightarrow> upd_srv i (\<lambda>x. x\<lparr>srv_retries := srv_retries x + 1\<rparr>) px | None \<Rightarrow> px)
      in set_q (q\<lparr>qs_px := px\<lparr>px_retries := px_retries px + 1\<rparr>\<rparr>) c)"

definition release_and_offer :: "be_env \<Rightarrow> strm_ref \<Rightarrow> cstate \<Rightarrow> cstate c_result" where
  "release_and_offer env s c =
     c_bind (sess_change_server env s None (cn_q c)) (\<lambda>q.
     c_bind (offer_slot env (strm_target (qs_strm q s)) q) (\<lambda>q. Inr (set_q q c)))"

definition stream_choose_redispatch :: "conn_env \<Rightarrow> strm_ref \<Rightarrow> cstate \<Rightarrow> cstate c_result" where
  "stream_choose_redispatch env s c =
     c_bind (redispatch_due env s c) (\<lambda>due.
       if due then
         c_bind (release_and_offer (ce_be env) s c) (\<lambda>c. Inr (upd_si (\<lambda>si. si\<lparr>si_st := SI_ST_REQ\<rparr>) (forget_server s c)))
       else Inr (upd_si (\<lambda>si. si\<lparr>si_st := SI_ST_ASS\<rparr>) (count_retry s c)))"

text \<open>A connection that is no longer counted in \<^verbatim>\<open>cur_sess\<close>.\<close>

definition drop_curr_sess :: "strm_ref \<Rightarrow> cstate \<Rightarrow> cstate" where
  "drop_curr_sess s c =
     (let q = cn_q c; strm = qs_strm q s in
      case strm_target strm of
        None \<Rightarrow> c
      | Some i \<Rightarrow>
          let c = (if strm_flags strm AND SF_CURR_SESS \<noteq> 0 then
                     let q = upd_strm s (\<lambda>x. x\<lparr>strm_flags := strm_flags x AND NOT SF_CURR_SESS\<rparr>) q
                     in set_q (q\<lparr>qs_px := upd_srv i (\<lambda>x. x\<lparr>cur_sess := cur_sess x - 1\<rparr>) (qs_px q)\<rparr>) c
                   else c)
          in if si_flags (cn_si c) AND SI_FL_ERR \<noteq> 0 \<and> cn_sni_mismatch c then upd_si (\<lambda>si. si\<lparr>conn_retries := 0\<rparr>) c else c)"

text \<open>The wait before a retry on the same server.\<close>

definition turn_around :: "conn_env \<Rightarrow> strm_ref \<Rightarrow> cstate \<Rightarrow> cstate" where
  "turn_around env s c =
     (let px = qs_px (cn_q c); flags = strm_flags (qs_strm (cn_q c) s);
          reused = (flags AND SF_SRV_REUSED \<noteq> 0 \<and> flags AND SF_SRV_REUSED_ANTICIPATED = 0);
          delay = (if timeout_connect env \<noteq> 0 \<and> timeout_connect env <s 1000 then timeout_connect env else 1000);
          c = set_err_type SI_ET_CONN_ERR c;
          c = (if (si_st (cn_si c) = SI_ST_ASS \<or> algo px AND BE_LB_KIND \<noteq> BE_LB_KIND_RR \<or> srv_act px \<le>s 1) \<and> \<not> reused
               then upd_si (\<lambda>si. si\<lparr>si_st := SI_ST_TAR, si_exp := tick_add (be_now_ms (ce_be env)) delay\<rparr>) c else c)
      in upd_si (\<lambda>si. si\<lparr>si_flags := si_flags si AND NOT SI_FL_ERR\<rparr>) c)"

definition back_handle_st_cer :: "conn_env \<Rightarrow> strm_ref \<Rightarrow> cstate \<Rightarrow> cstate c_result" where
  "back_handle_st_cer env s c =
     (let c = upd_si (\<lambda>si. si\<lparr>si_exp := TICK_ETERNITY, si_flags := si_flags si AND NOT SI_FL_EXP\<rparr>) c;
          c = drop_curr_sess s c;
          c = upd_si (\<lambda>si. si\<lparr>conn_retries := conn_retries si - 1\<rparr>) c
      in if conn_retries (cn_si c) <s 0 \<or> retry_type env AND PR_RE_CONN_FAILED = 0 then
           let c = count_failed (strm_target (qs_strm (cn_q c) s)) (set_err_type SI_ET_CONN_ERR c)
           in c_bind (release_and_offer (ce_be env) s c) (\<lambda>c.
              let c = si_shutw c;
                  c = c\<lparr>cn_req := cn_req c OR CF_WRITE_ERROR, cn_res := cn_res c OR CF_READ_ERROR\<rparr>
              in Inr (call_srv_error env s (upd_si (\<lambda>si. si\<lparr>si_st := SI_ST_CLO\<rparr>) c)))
         else
           c_bind (stream_choose_redispatch env s (c\<lparr>cn_sni_mismatch := False\<rparr>)) (\<lambda>c.
             Inr (if si_flags (cn_si c) AND SI_FL_ERR \<noteq> 0 then turn_around env s c else c)))"

section \<open>The other states\<close>

definition abort_connection :: "conn_env \<Rightarrow> strm_ref \<Rightarrow> cstate \<Rightarrow> cstate" where
  "abort_connection env s c =
     (let c = upd_si (\<lambda>si. si\<lparr>si_exp := TICK_ETERNITY, si_flags := si_flags si AND NOT SI_FL_EXP\<rparr>) c;
          c = si_shutw (si_shutr c)
      in call_srv_error env s (upd_si (\<lambda>si. si\<lparr>si_st := SI_ST_CLO\<rparr>) c))"

definition conn_failed_internal :: "conn_env \<Rightarrow> strm_ref \<Rightarrow> cstate \<Rightarrow> cstate c_result" where
  "conn_failed_internal env s c =
     (let srv = strm_target (qs_strm (cn_q c) s);
          c = count_failed srv (set_err_type SI_ET_CONN_OTHER c)
      in c_bind (release_and_offer (ce_be env) s c) (\<lambda>c.
         let c = si_shutw (si_shutr c);
             c = c\<lparr>cn_req := cn_req c OR CF_WRITE_ERROR\<rparr>
         in c_bind (pendconn_cond_unlink (pend_pos (qs_strm (cn_q c) s)) (cn_q c)) (\<lambda>q.
            Inr (call_srv_error env s (upd_si (\<lambda>si. si\<lparr>si_st := SI_ST_CLO\<rparr>) (set_q q c))))))"

definition try_assigned :: "conn_env \<Rightarrow> strm_ref \<Rightarrow> cstate \<Rightarrow> cstate c_result" where
  "try_assigned env s c =
     (if back_may_abort_req c then Inr (abort_connection env s (upd_si (\<lambda>si. si\<lparr>err_type := err_type si OR SI_ET_CONN_ABRT\<rparr>) c))
      else
        let (c, conn_err) = connect_server env c
        in if conn_err = SF_ERR_NONE then Inr c
           else if conn_err = SF_ERR_INTERNAL then conn_failed_internal env s c
           else back_handle_st_cer env s (upd_si (\<lambda>si. si\<lparr>si_st := SI_ST_CER, si_flags := si_flags si AND NOT SI_FL_ERR\<rparr>) c))"

definition try_queued :: "conn_env \<Rightarrow> strm_ref \<Rightarrow> cstate \<Rightarrow> cstate c_result" where
  "try_queued env s c =
     (let srv = strm_target (qs_strm (cn_q c) s) in
      c_bind (pendconn_dequeue s (cn_q c)) (\<lambda>(q, still).
      let c = set_q q c in
      if still = 0 then
        Inr (upd_si (\<lambda>si. si\<lparr>si_exp := TICK_ETERNITY,
               si_st := (if strm_flags (qs_strm q s) AND SF_ASSIGNED = 0 then SI_ST_REQ else SI_ST_ASS)\<rparr>) c)
      else if si_flags (cn_si c) AND SI_FL_EXP \<noteq> 0 then
        let c = upd_si (\<lambda>si. si\<lparr>si_exp := TICK_ETERNITY, si_flags := si_flags si AND NOT SI_FL_EXP\<rparr>) c
        in c_bind (pendconn_cond_unlink (pend_pos (qs_strm (cn_q c) s)) (cn_q c)) (\<lambda>q.
           let c = si_shutw (si_shutr (count_failed srv (set_q q c)));
               c = set_err_type SI_ET_QUEUE_TO (c\<lparr>cn_req := cn_req c OR CF_WRITE_TIMEOUT\<rparr>)
           in Inr (call_srv_error env s (upd_si (\<lambda>si. si\<lparr>si_st := SI_ST_CLO\<rparr>) c)))
      else if back_may_abort_req c then
        c_bind (pendconn_cond_unlink (pend_pos (qs_strm (cn_q c) s)) (cn_q c)) (\<lambda>q.
          Inr (abort_connection env s (upd_si (\<lambda>si. si\<lparr>err_type := err_type si OR SI_ET_QUEUE_ABRT\<rparr>) (set_q q c))))
      else Inr c))"

definition try_turn_around :: "conn_env \<Rightarrow> strm_ref \<Rightarrow> cstate \<Rightarrow> cstate" where
  "try_turn_around env s c =
     (if back_may_abort_req c then abort_connection env s (upd_si (\<lambda>si. si\<lparr>err_type := err_type si OR SI_ET_CONN_ABRT\<rparr>) c)
      else if si_flags (cn_si c) AND SI_FL_EXP = 0 then c
      else upd_si (\<lambda>si. si\<lparr>si_flags := si_flags si AND NOT SI_FL_EXP, si_exp := TICK_ETERNITY,
             si_st := (if strm_flags (qs_strm (cn_q c) s) AND SF_ASSIGNED \<noteq> 0 then SI_ST_ASS else SI_ST_REQ)\<rparr>) c)"

definition back_try_conn_req :: "conn_env \<Rightarrow> strm_ref \<Rightarrow> cstate \<Rightarrow> cstate c_result" where
  "back_try_conn_req env s c = (case si_st (cn_si c) of
     SI_ST_ASS \<Rightarrow> try_assigned env s c
   | SI_ST_QUE \<Rightarrow> try_queued env s c
   | SI_ST_TAR \<Rightarrow> Inr (try_turn_around env s c)
   | _ \<Rightarrow> Inr c)"

text \<open>Whether the client wants to abort while the connection is set up.\<close>

definition client_aborts :: "cstate \<Rightarrow> bool" where
  "client_aborts c \<longleftrightarrow> cn_res c AND CF_SHUTW \<noteq> 0 \<or>
     cn_req c AND CF_SHUTW_NOW \<noteq> 0 \<and> (cn_req_empty c \<or> px_options (qs_px (cn_q c)) AND PR_O_ABRT_CLOSE \<noteq> 0)"

definition give_up :: "conn_env \<Rightarrow> strm_ref \<Rightarrow> cstate \<Rightarrow> cstate" where
  "give_up env s c =
     (let c = si_shutw (upd_si (\<lambda>si. si\<lparr>si_flags := si_flags si OR SI_FL_NOLINGER\<rparr>) c)
      in call_srv_error env s (upd_si (\<lambda>si. si\<lparr>err_type := err_type si OR SI_ET_CONN_ABRT\<rparr>) c))"

definition back_handle_st_con :: "conn_env \<Rightarrow> strm_ref \<Rightarrow> cstate \<Rightarrow> cstate" where
  "back_handle_st_con env s c =
     (if client_aborts c then give_up env s c
      else if si_flags (cn_si c) AND (SI_FL_EXP OR SI_FL_ERR) \<noteq> 0 then
        upd_si (\<lambda>si. si\<lparr>si_st := SI_ST_CER\<rparr>)
          (set_err_type (if si_flags (cn_si c) AND SI_FL_ERR \<noteq> 0 then SI_ET_CONN_ERR else SI_ET_CONN_TO) c)
      else c)"

definition back_handle_st_rdy :: "conn_env \<Rightarrow> strm_ref \<Rightarrow> cstate \<Rightarrow> cstate" where
  "back_handle_st_rdy env s c =
     (if cn_req c AND CF_WROTE_DATA = 0 \<and> client_aborts c then give_up env s c
      else if cn_req c AND CF_WROTE_DATA = 0 \<and> si_flags (cn_si c) AND SI_FL_ERR \<noteq> 0 then
        upd_si (\<lambda>si. si\<lparr>si_st := SI_ST_CER\<rparr>) (set_err_type SI_ET_CONN_ERR c)
      else upd_si (\<lambda>si. si\<lparr>err_type := 0, si_st := SI_ST_EST\<rparr>) c)"

end
