(* ===== verification/Si_Run.thy ===== *)
theory Si_Run
  imports Si_Conn Backend_Run
begin

text \<open>
  The server side of a stream: getting a server ends, for an algorithm that keeps the contract, with a slot, a place in a queue or an
  error; failed connections are retried a bounded number of times; every handler leads to the states
  it documents.
\<close>

section \<open>Frames\<close>

lemma upd_si_fields [simp]:
  "cn_b (upd_si f c) = cn_b c" "cn_si (upd_si f c) = f (cn_si c)" "failed_conns (upd_si f c) = failed_conns c"
  "cn_req (upd_si f c) = cn_req c" "cn_res (upd_si f c) = cn_res c" "cn_sni_mismatch (upd_si f c) = cn_sni_mismatch c"
  by (simp_all add: upd_si_def)

lemma set_q_fields [simp]:
  "cn_q (set_q q c) = q" "cn_si (set_q q c) = cn_si c" "failed_conns (set_q q c) = failed_conns c" "bs_txn (cn_b (set_q q c)) = bs_txn (cn_b c)"
  "bs_sess (cn_b (set_q q c)) = bs_sess (cn_b c)" "cn_req (set_q q c) = cn_req c" "cn_res (set_q q c) = cn_res c"
  "cn_sni_mismatch (set_q q c) = cn_sni_mismatch c"
  by (simp_all add: set_q_def)

lemma set_err_type_fields [simp]:
  "cn_b (set_err_type e c) = cn_b c" "failed_conns (set_err_type e c) = failed_conns c" "si_st (cn_si (set_err_type e c)) = si_st (cn_si c)"
  "conn_retries (cn_si (set_err_type e c)) = conn_retries (cn_si c)" "si_flags (cn_si (set_err_type e c)) = si_flags (cn_si c)"
  "cn_req (set_err_type e c) = cn_req c" "cn_res (set_err_type e c) = cn_res c" "cn_sni_mismatch (set_err_type e c) = cn_sni_mismatch c"
  by (simp_all add: set_err_type_def)

lemma set_err_type_nonzero: "e \<noteq> 0 \<Longrightarrow> err_type (cn_si (set_err_type e c)) \<noteq> 0"
  by (simp add: set_err_type_def)

lemma count_failed_fields [simp]:
  "cn_b (count_failed srv c) = cn_b c" "cn_si (count_failed srv c) = cn_si c" "failed_conns (count_failed srv c) None = failed_conns c None + 1"
  "cn_req (count_failed srv c) = cn_req c" "cn_res (count_failed srv c) = cn_res c" "cn_sni_mismatch (count_failed srv c) = cn_sni_mismatch c"
  by (auto simp: count_failed_def inc_failed_def)

lemma shut_fields [simp]:
  "cn_b (si_shutw c) = cn_b c" "cn_b (si_shutr c) = cn_b c" "failed_conns (si_shutw c) = failed_conns c" "failed_conns (si_shutr c) = failed_conns c"
  "conn_retries (cn_si (si_shutw c)) = conn_retries (cn_si c)" "conn_retries (cn_si (si_shutr c)) = conn_retries (cn_si c)"
  "err_type (cn_si (si_shutw c)) = err_type (cn_si c)" "err_type (cn_si (si_shutr c)) = err_type (cn_si c)"
  by (simp_all add: si_shutw_def si_shutr_def Let_def)

lemma call_srv_error_fields [simp]:
  "cn_si (call_srv_error env s c) = cn_si c" "failed_conns (call_srv_error env s c) = failed_conns c"
  "pend_pos (qs_strm (cn_q (call_srv_error env s c)) t) = pend_pos (qs_strm (cn_q c) t)"
  "srv_conn (qs_strm (cn_q (call_srv_error env s c)) t) = srv_conn (qs_strm (cn_q c) t)"
  by (auto simp: call_srv_error_def upd_strm_strm split: option.splits)

text \<open>Changes of the flags and of the target of a stream keep the state.\<close>

lemma state_ok_upd_strm:
  assumes "pend_pos (f (qs_strm q s)) = pend_pos (qs_strm q s)" and "srv_conn (f (qs_strm q s)) = srv_conn (qs_strm q s)"
    and "state_ok linv q"
  shows "state_ok linv (upd_strm s f q)"
  using upd_strm_inv [of f q s, OF assms(1,2)] assms(3) by (simp add: state_ok_def)

lemma state_ok_call_srv_error: "state_ok linv (cn_q c) \<Longrightarrow> state_ok linv (cn_q (call_srv_error env s c))"
  by (auto simp: call_srv_error_def intro: state_ok_upd_strm split: option.splits)

section \<open>Getting a server\<close>

text \<open>What \<^verbatim>\<open>srv_redispatch_connect\<close> promises.\<close>

definition connect_outcome :: "strm_ref \<Rightarrow> bool \<Rightarrow> cstate \<Rightarrow> cstate \<Rightarrow> bool" where
  "connect_outcome s stop c c' \<longleftrightarrow>
     (let x = qs_strm (cn_q c') s in
      conn_retries (cn_si c') = conn_retries (cn_si c) \<and>
      (if \<not> stop then cn_si c' = cn_si c \<and> pend_pos x = None \<and> strm_flags x AND SF_ASSIGNED \<noteq> 0 \<and> srv_conn x = strm_target x
      else if si_st (cn_si c') = SI_ST_QUE then
        srv_conn x = None \<and> (\<exists>p pc. pend_pos x = Some p \<and> qs_pend (cn_q c') p = Some pc \<and> pc_target pc = None)
      else si_st (cn_si c') = si_st (cn_si c) \<and> err_type (cn_si c') \<noteq> 0 \<and> pend_pos x = None \<and> srv_conn x = None \<and>
        failed_conns c' None = failed_conns c None + 1))"

text \<open>What remains of the backend and of the session; new pending connections only appear for a stream that
  waits.\<close>

definition conn_kept :: "strm_ref \<Rightarrow> cstate \<Rightarrow> cstate \<Rightarrow> bool" where
  "conn_kept s c c' \<longleftrightarrow> weights_same (qs_px (cn_q c)) (qs_px (cn_q c')) \<and> ctx_kept (cn_b c) (cn_b c') \<and>
     (\<forall>i. strm_target (qs_strm (cn_q c') s) = Some i \<longrightarrow> i < length (px_srv (qs_px (cn_q c')))) \<and>
     (si_st (cn_si c') \<noteq> SI_ST_QUE \<longrightarrow> fresh_kept (cn_q c) (cn_q c'))"

lemma conn_kept_trans: "conn_kept s c1 c2 \<Longrightarrow> si_st (cn_si c2) \<noteq> SI_ST_QUE \<Longrightarrow> conn_kept s c2 c3 \<Longrightarrow> conn_kept s c1 c3"
  unfolding conn_kept_def using weights_same_trans ctx_kept_trans by (auto simp: fresh_kept_def)

lemma conn_kept_cong: "cn_b c2 = cn_b c1 \<Longrightarrow> cn_b c2' = cn_b c1' \<Longrightarrow> si_st (cn_si c1') \<noteq> SI_ST_QUE \<or> si_st (cn_si c2') = SI_ST_QUE \<Longrightarrow>
    conn_kept s c1 c1' \<Longrightarrow> conn_kept s c2 c2'"
  by (auto simp: conn_kept_def)

lemma conn_kept_asked: "asked s err (cn_b c) (cn_b c') \<Longrightarrow> err = SRV_STATUS_QUEUED \<longrightarrow> si_st (cn_si c') = SI_ST_QUE \<Longrightarrow> conn_kept s c c'"
  by (auto simp: conn_kept_def asked_def)

lemma SF_DIRECT_kept:
  assumes "flags_kept s q q'"
  shows "strm_flags (qs_strm q' s) AND SF_DIRECT = strm_flags (qs_strm q s) AND SF_DIRECT"
proof -
  have "x AND SF_DIRECT = (x AND SF_KEPT) AND (SF_DIRECT :: u32)" for x by (simp add: and.assoc)
  then show ?thesis using assms by (metis flags_kept_def)
qed

text \<open>After the server has been forgotten the stream may ask again.\<close>

lemma may_ask_again:
  assumes ask: "may_ask env s (cn_b c)" and a: "asked s err (cn_b c) b" and err: "err \<noteq> SRV_STATUS_QUEUED"
    and pos: "pend_pos (qs_strm (bs_q b) s) = None"
  shows "may_ask env s (cn_b (forget_server s (c\<lparr>cn_b := b\<rparr>)))"
proof -
  note k = ask [unfolded may_ask_def ask_ready_def Let_def fresh_alloc_def] and r = a [unfolded asked_def weights_same_def ctx_kept_def fresh_kept_def]
  have "(x AND NOT (SF_DIRECT OR SF_ASSIGNED OR SF_ADDR_SET)) AND SF_ASSIGNED = (0 :: u32)" for x by (simp add: and.assoc)
  moreover have "\<forall>e \<in> set (sess_srv_list (bs_sess b)). \<forall>i. fst e = Some i \<longrightarrow> i < length (px_srv (qs_px (bs_q b)))"
  proof (intro ballI allI impI)
    fix e i assume e: "e \<in> set (sess_srv_list (bs_sess b))" "fst e = Some i"
    then have "Some i \<in> fst ` set (sess_srv_list (bs_sess (cn_b c)))" using r by (metis imageI subsetD)
    then show "i < length (px_srv (qs_px (bs_q b)))" using k r by fastforce
  qed
  ultimately show ?thesis
    using k r err pos unfolding may_ask_def ask_ready_def Let_def fresh_alloc_def by (auto simp: forget_server_def upd_strm_strm set_q_def)
qed

declare srv_redispatch_connect.simps [simp del]

context lb_conn begin

lemma offer_slot_ok:
  assumes ok: "state_ok linv q" and w: "weighted tcb dcb (qs_px q)" and env: "be_take env = tcb"
    and i: "\<forall>i. srv = Some i \<longrightarrow> i < length (px_srv (qs_px q))"
  shows "\<exists>q'. offer_slot env srv q = Inr q' \<and> state_ok linv q' \<and> weights_same (qs_px q) (qs_px q') \<and>
    fresh_kept q q' \<and> (pend_pos (qs_strm q s) = None \<longrightarrow> qs_strm q' s = qs_strm q s)"
proof (cases srv)
  case (Some i)
  then obtain q' where "process_srv_queue tcb (be_now_ms env) (be_now_sec env) i q = Inr q'" "state_ok linv q'"
      "weights_same (qs_px q) (qs_px q')" "serves i q q'"
    using process_srv_queue_state [OF ok w, of i "be_now_ms env" "be_now_sec env"] assms(4) by blast
  then show ?thesis using Some ok env by (auto simp: offer_slot_def serves_def fresh_kept_def)
qed (use ok in \<open>simp add: offer_slot_def fresh_kept_def\<close>)

end

context lb_backend begin

text \<open>One round: it is the last one, or the stream asks again without its persistence.\<close>

lemma redispatch_round:
  assumes ok: "state_ok linv (cn_q c)" and w: "weighted tcb dcb (qs_px (cn_q c))" and env: "be_take (ce_be env) = tcb" "be_drop (ce_be env) = dcb"
    and ask: "may_ask (ce_be env) s (cn_b c)" and st: "si_st (cn_si c) \<noteq> SI_ST_QUE"
  shows "(\<exists>c' stop. srv_redispatch_connect (Suc n) env rq s c = Some (Inr (c', stop)) \<and> state_ok linv (cn_q c') \<and> connect_outcome s stop c c' \<and>
      conn_kept s c c') \<or>
    (strm_flags (qs_strm (cn_q c) s) AND SF_DIRECT \<noteq> 0 \<and>
     (\<exists>c2. srv_redispatch_connect (Suc n) env rq s c = srv_redispatch_connect n env rq s c2 \<and> state_ok linv (cn_q c2) \<and>
       weighted tcb dcb (qs_px (cn_q c2)) \<and> may_ask (ce_be env) s (cn_b c2) \<and> cn_si c2 = cn_si c \<and> failed_conns c2 = failed_conns c \<and>
       conn_kept s c c2 \<and> strm_flags (qs_strm (cn_q c2) s) AND SF_DIRECT = 0))"
proof -
  obtain b err where r: "assign_server_and_queue (ce_be env) rq s (cn_b c) = Some (Inr (b, err))" "state_ok linv (bs_q b)"
      "asked s err (cn_b c) b" "outcome s err (bs_q b)"
    using assign_server_and_queue_ok [OF ok w env ask] by blast
  have w': "weighted tcb dcb (qs_px (bs_q b))" using r(3) weighted_same [OF _ w] by (simp add: asked_def)
  let ?x = "qs_strm (bs_q b) s"
  note eq = srv_redispatch_connect.simps(2) [of n env rq s c, unfolded r(1) r_bind_simps Let_def prod.case]
  show ?thesis
  proof (cases err)
    case SRV_STATUS_OK
    then show ?thesis using r conn_kept_asked unfolding eq by (intro disjI1) (auto simp: connect_outcome_def outcome_def Let_def)
  next
    case SRV_STATUS_INTERNAL
    obtain q' where q': "offer_slot (ce_be env) (strm_target ?x) (bs_q b) = Inr q'" "state_ok linv q'" "qs_strm q' s = ?x"
        "weights_same (qs_px (bs_q b)) (qs_px q')" "fresh_kept (bs_q b) q'"
      using offer_slot_ok [OF r(2) w' env(1), of "strm_target ?x" s] r(3,4) SRV_STATUS_INTERNAL by (auto simp: asked_def outcome_def Let_def)
    have "conn_kept s c (set_q q' c')" if "cn_b c' = b" for c'
      using that r(3) q'(3-5) SRV_STATUS_INTERNAL weights_same_trans
      by (auto simp: conn_kept_def asked_def fresh_kept_def ctx_kept_def weights_same_def)
    then show ?thesis using q' r(4) SRV_STATUS_INTERNAL st set_err_type_nonzero unfolding eq by (intro disjI1) (auto simp: connect_outcome_def outcome_def Let_def)
  next
    case SRV_STATUS_NOSRV
    then show ?thesis using r st set_err_type_nonzero conn_kept_asked unfolding eq by (intro disjI1) (auto simp: connect_outcome_def outcome_def Let_def)
  next
    case SRV_STATUS_QUEUED
    then show ?thesis using r conn_kept_asked unfolding eq by (intro disjI1) (auto simp: connect_outcome_def outcome_def Let_def)
  next
    case SRV_STATUS_FULL
    have o: "pend_pos ?x = None" "srv_conn ?x = None" "strm_target ?x \<noteq> None" using r(4) SRV_STATUS_FULL by (auto simp: outcome_def Let_def)
    show ?thesis
    proof (cases "strm_flags ?x AND (SF_DIRECT OR SF_FORCE_PRST) = SF_DIRECT \<and> px_options (qs_px (bs_q b)) AND PR_O_REDISP \<noteq> 0")
      case False
      then show ?thesis using r(2,3) o SRV_STATUS_FULL st set_err_type_nonzero conn_kept_asked unfolding eq by (intro disjI1) (auto simp: connect_outcome_def Let_def)
    next
      case True
      let ?c2 = "forget_server s (c\<lparr>cn_b := b\<rparr>)"
      have "strm_flags ?x AND SF_DIRECT = SF_DIRECT" using True by (metis and.assoc and.idem and.left_commute bit.conj_disj_distrib2 word_bw_same(1) or.commute)
      then have "strm_flags (qs_strm (cn_q c) s) AND SF_DIRECT \<noteq> 0" using SF_DIRECT_kept [of s "cn_q c" "bs_q b"] r(3) by (auto simp: asked_def)
      moreover have "srv_redispatch_connect (Suc n) env rq s c = srv_redispatch_connect n env rq s ?c2"
        using True SRV_STATUS_FULL unfolding eq by simp
      moreover have "state_ok linv (cn_q ?c2)" using r(2) by (auto simp: forget_server_def intro: state_ok_upd_strm)
      moreover have "may_ask (ce_be env) s (cn_b ?c2)" using may_ask_again [OF ask r(3) _ o(1)] SRV_STATUS_FULL by simp
      moreover have "strm_flags (qs_strm (cn_q ?c2) s) AND SF_DIRECT = 0" by (simp add: forget_server_def upd_strm_strm and.assoc)
      moreover have "conn_kept s c ?c2"
        using r(3) SRV_STATUS_FULL by (auto simp: conn_kept_def asked_def forget_server_def upd_strm_strm fresh_kept_def ctx_kept_def)
      ultimately show ?thesis using w' by (auto simp: forget_server_def)
    qed
  qed
qed

lemma srv_redispatch_connect_ok:
  assumes ok: "state_ok linv (cn_q c)" and w: "weighted tcb dcb (qs_px (cn_q c))" and env: "be_take (ce_be env) = tcb" "be_drop (ce_be env) = dcb"
    and ask: "may_ask (ce_be env) s (cn_b c)" and st: "si_st (cn_si c) \<noteq> SI_ST_QUE"
  shows "\<exists>c' stop. srv_redispatch_connect 2 env rq s c = Some (Inr (c', stop)) \<and> state_ok linv (cn_q c') \<and> connect_outcome s stop c c' \<and>
    conn_kept s c c'"
  using redispatch_round [OF assms, of "Suc 0" rq]
proof (elim disjE conjE exE)
  fix c2 assume c2: "srv_redispatch_connect (Suc (Suc 0)) env rq s c = srv_redispatch_connect (Suc 0) env rq s c2" "state_ok linv (cn_q c2)"
      "weighted tcb dcb (qs_px (cn_q c2))" "may_ask (ce_be env) s (cn_b c2)" "cn_si c2 = cn_si c" "failed_conns c2 = failed_conns c"
      "conn_kept s c c2" "strm_flags (qs_strm (cn_q c2) s) AND SF_DIRECT = 0"
  then have "\<exists>c' stop. srv_redispatch_connect (Suc 0) env rq s c2 = Some (Inr (c', stop)) \<and> state_ok linv (cn_q c') \<and> connect_outcome s stop c2 c' \<and>
      conn_kept s c2 c'"
    using redispatch_round [OF c2(2,3) env c2(4), of 0 rq] st by auto
  moreover have "connect_outcome s stop c2 c' = connect_outcome s stop c c'" for stop c' by (simp add: connect_outcome_def c2(5,6))
  moreover have "conn_kept s c2 c' \<Longrightarrow> conn_kept s c c'" for c' using conn_kept_trans [OF c2(7)] st c2(5) by simp
  ultimately show ?thesis using c2(1) by (metis numeral_2_eq_2)
qed (auto simp: numeral_2_eq_2)

end

end
