(* ===== verification/Si_Retry.thy ===== *)
theory Si_Retry
  imports Si_Run
begin

text \<open>
  Failed connections: how often they are retried, when another server is tried, and the states the
  handlers lead to.
\<close>

section \<open>Releasing the slot\<close>

lemma conn_kept_call: "conn_kept s c c' \<Longrightarrow> conn_kept s c (call_srv_error env s c')"
  by (auto simp: call_srv_error_def conn_kept_def upd_strm_strm fresh_kept_def ctx_kept_def split: option.splits)

context lb_conn begin

lemma release_and_offer_ok:
  assumes ok: "state_ok linv (cn_q c)" and w: "weighted tcb dcb (qs_px (cn_q c))" and env: "be_take env = tcb" "be_drop env = dcb"
    and tgt: "\<forall>i. strm_target (qs_strm (cn_q c) s) = Some i \<longrightarrow> i < length (px_srv (qs_px (cn_q c)))"
    and pos: "pend_pos (qs_strm (cn_q c) s) = None"
  shows "\<exists>q'. release_and_offer env s c = Inr (set_q q' c) \<and> state_ok linv q' \<and> weights_same (qs_px (cn_q c)) (qs_px q') \<and>
    fresh_kept (cn_q c) q' \<and> qs_strm q' s = (qs_strm (cn_q c) s)\<lparr>srv_conn := None\<rparr>"
proof -
  obtain q1 where q1: "sess_change_server env s None (cn_q c) = Inr q1" "state_ok linv q1" "placed s None (cn_q c) q1"
    using sess_change_server_ok [OF ok w env, of None s] by auto
  have x: "qs_strm q1 s = (qs_strm (cn_q c) s)\<lparr>srv_conn := None\<rparr>" and ws: "weights_same (qs_px (cn_q c)) (qs_px q1)"
    and pend: "qs_pend q1 = qs_pend (cn_q c)" using q1(3) by (simp_all add: placed_def)
  have "\<forall>i. strm_target (qs_strm q1 s) = Some i \<longrightarrow> i < length (px_srv (qs_px q1))" using tgt x ws by (simp add: weights_same_def)
  then obtain q2 where "offer_slot env (strm_target (qs_strm q1 s)) q1 = Inr q2" "state_ok linv q2" "weights_same (qs_px q1) (qs_px q2)"
      "fresh_kept q1 q2" "qs_strm q2 s = qs_strm q1 s"
    using offer_slot_ok [OF q1(2) weighted_same [OF ws w] env(1), of "strm_target (qs_strm q1 s)" s] pos x by auto
  then show ?thesis using q1(1) x pend weights_same_trans [OF ws] by (auto simp: release_and_offer_def fresh_kept_def)
qed

lemma state_ok_frame: "state_ok linv q \<Longrightarrow> slot_frame (qs_px q) p \<Longrightarrow> lb_view p = lb_view (qs_px q) \<Longrightarrow> state_ok linv (q\<lparr>qs_px := p\<rparr>)"
  using slot_frame_inv [of q p] inv_view [of "qs_px q" p] by (simp add: state_ok_def)

lemma count_retry_ok:
  assumes "state_ok linv (cn_q c)"
  shows "state_ok linv (cn_q (count_retry s c)) \<and> qs_strm (cn_q (count_retry s c)) = qs_strm (cn_q c) \<and>
    qs_pend (cn_q (count_retry s c)) = qs_pend (cn_q c) \<and> weights_same (qs_px (cn_q c)) (qs_px (cn_q (count_retry s c)))"
proof -
  have "slot_frame p (upd_srv i (\<lambda>x. x\<lparr>srv_retries := srv_retries x + 1\<rparr>) p)" for p i by (rule slot_frame_upd_srv) simp_all
  then have "slot_frame p ((upd_srv i (\<lambda>x. x\<lparr>srv_retries := srv_retries x + 1\<rparr>) p)\<lparr>px_retries := n\<rparr>)" for p i n
    using slot_frame_trans slot_frame_counters(3) by blast
  moreover have "lb_view (upd_srv i (\<lambda>x. x\<lparr>srv_retries := srv_retries x + 1\<rparr>) p) = lb_view p" for p i
    by (rule lb_view_upd_srv) (simp add: srv_view_def)
  ultimately show ?thesis using state_ok_frame [OF assms] slot_frame_counters(3) weights_same_frame
    by (auto simp: count_retry_def Let_def split: option.splits)
qed

lemma drop_curr_sess_ok:
  assumes ok: "state_ok linv (cn_q c)"
  shows "state_ok linv (cn_q (drop_curr_sess s c)) \<and> weights_same (qs_px (cn_q c)) (qs_px (cn_q (drop_curr_sess s c))) \<and>
    qs_pend (cn_q (drop_curr_sess s c)) = qs_pend (cn_q c) \<and> (\<exists>fl. qs_strm (cn_q (drop_curr_sess s c)) s = (qs_strm (cn_q c) s)\<lparr>strm_flags := fl\<rparr>)"
proof (cases "strm_target (qs_strm (cn_q c) s)")
  case (Some i)
  let ?q = "upd_strm s (\<lambda>x. x\<lparr>strm_flags := strm_flags x AND NOT SF_CURR_SESS\<rparr>) (cn_q c)"
  let ?p = "upd_srv i (\<lambda>x. x\<lparr>cur_sess := cur_sess x - 1\<rparr>) (qs_px ?q)"
  have f: "slot_frame (qs_px ?q) ?p" by (rule slot_frame_upd_srv) simp_all
  moreover have "lb_view ?p = lb_view (qs_px ?q)" by (rule lb_view_upd_srv) (simp add: srv_view_def)
  moreover have "state_ok linv ?q" using ok by (intro state_ok_upd_strm) simp_all
  ultimately have "state_ok linv (?q\<lparr>qs_px := ?p\<rparr>)" by (intro state_ok_frame)
  moreover have "\<exists>fl. qs_strm (cn_q c) s = (qs_strm (cn_q c) s)\<lparr>strm_flags := fl\<rparr>"
    by (rule exI [of _ "strm_flags (qs_strm (cn_q c) s)"]) simp
  ultimately show ?thesis using ok Some weights_same_frame [OF f] by (auto simp: drop_curr_sess_def Let_def upd_strm_strm)
qed (use ok in \<open>auto simp: drop_curr_sess_def Let_def intro: exI [of _ "strm_flags (qs_strm (cn_q c) s)"]\<close>)

end

section \<open>When another server is tried\<close>

text \<open>The interval of \<^verbatim>\<open>option redispatch\<close> does not lead to a division by zero.\<close>

definition interval_ok :: "conn_env \<Rightarrow> bool" where
  "interval_ok env \<longleftrightarrow> redispatch_after env <s 0 \<longrightarrow> be_conn_retries env + 1 + redispatch_after env \<noteq> 0"

lemma redispatch_interval_total: "interval_ok env \<Longrightarrow> \<exists>b. redispatch_interval env left = Inr b"
  by (auto simp: interval_ok_def redispatch_interval_def c_divides_def word_sless_alt)

lemma redispatch_due_total: "interval_ok env \<Longrightarrow> \<exists>b. redispatch_due env s c = Inr b"
  using redispatch_interval_total [of env "conn_retries (cn_si c)"]
  by (auto simp: redispatch_due_def Let_def split: option.splits)

context lb_conn begin

text \<open>Either the stream is free to choose again, or it keeps its server and its slot.\<close>

lemma stream_choose_redispatch_ok:
  assumes ok: "state_ok linv (cn_q c)" and w: "weighted tcb dcb (qs_px (cn_q c))" and env: "be_take (ce_be env) = tcb" "be_drop (ce_be env) = dcb"
    and int: "interval_ok env" and pos: "pend_pos (qs_strm (cn_q c) s) = None"
    and tgt: "\<forall>i. strm_target (qs_strm (cn_q c) s) = Some i \<longrightarrow> i < length (px_srv (qs_px (cn_q c)))"
  shows "\<exists>c'. stream_choose_redispatch env s c = Inr c' \<and> state_ok linv (cn_q c') \<and> conn_kept s c c' \<and> pend_pos (qs_strm (cn_q c') s) = None \<and>
    conn_retries (cn_si c') = conn_retries (cn_si c) \<and> si_flags (cn_si c') = si_flags (cn_si c) \<and>
    (si_st (cn_si c') = SI_ST_REQ \<and> strm_flags (qs_strm (cn_q c') s) AND SF_ASSIGNED = 0 \<and> srv_conn (qs_strm (cn_q c') s) = None \<or>
     si_st (cn_si c') = SI_ST_ASS \<and> qs_strm (cn_q c') s = qs_strm (cn_q c) s)"
proof -
  obtain due where due: "redispatch_due env s c = Inr due" using redispatch_due_total [OF int] by blast
  show ?thesis
  proof (cases due)
    case True
    obtain q' where q': "release_and_offer (ce_be env) s c = Inr (set_q q' c)" "state_ok linv q'" "weights_same (qs_px (cn_q c)) (qs_px q')"
        "fresh_kept (cn_q c) q'" "qs_strm q' s = (qs_strm (cn_q c) s)\<lparr>srv_conn := None\<rparr>"
      using release_and_offer_ok [OF ok w env tgt pos] by blast
    have "state_ok linv (upd_strm s (\<lambda>x. x\<lparr>strm_flags := strm_flags x AND NOT (SF_DIRECT OR SF_ASSIGNED OR SF_ADDR_SET)\<rparr>) q')"
      using q'(2) by (intro state_ok_upd_strm) simp_all
    then show ?thesis using True due q' pos tgt
      by (simp add: stream_choose_redispatch_def forget_server_def upd_strm_strm and.assoc conn_kept_def ctx_kept_def fresh_kept_def weights_same_def)
  next
    case False
    have "bs_txn (cn_b (count_retry s c)) = bs_txn (cn_b c)" "bs_sess (cn_b (count_retry s c)) = bs_sess (cn_b c)"
        "cn_si (count_retry s c) = cn_si c" by (simp_all add: count_retry_def Let_def)
    then show ?thesis using False due count_retry_ok [OF ok, of s] pos tgt
      by (simp add: stream_choose_redispatch_def conn_kept_def ctx_kept_def fresh_kept_def weights_same_def)
  qed
qed

end

section \<open>The handler of failed connections\<close>

lemma sint_minus_int:
  fixes a b :: c_int
  assumes "- (2 ^ 31) \<le> sint a - sint b" and "sint a - sint b < 2 ^ 31"
  shows "sint (a - b) = sint a - sint b"
  using signed_take_bit_int_eq_self [of 31 "sint a - sint b"] assms by (simp add: sint_word_ariths)

lemma sint_plus_int:
  fixes a b :: c_int
  assumes "- (2 ^ 31) \<le> sint a + sint b" and "sint a + sint b < 2 ^ 31"
  shows "sint (a + b) = sint a + sint b"
  using signed_take_bit_int_eq_self [of 31 "sint a + sint b"] assms by (simp add: sint_word_ariths)

lemma conn_retries_less:
  fixes r :: c_int
  assumes "0 \<le>s r"
  shows "sint (r - 1) = sint r - 1"
proof -
  have "0 \<le> sint r" using assms by (simp add: word_sle_eq)
  then show ?thesis using sint_minus_int [of r 1] sint_less [of r] by simp
qed

lemma turn_around_fields:
  "cn_b (turn_around env s c) = cn_b c" "conn_retries (cn_si (turn_around env s c)) = conn_retries (cn_si c)"
  "si_st (cn_si (turn_around env s c)) \<in> {si_st (cn_si c), SI_ST_TAR}" "err_type (cn_si (turn_around env s c)) \<noteq> 0"
  "si_flags (cn_si (turn_around env s c)) AND SI_FL_ERR = 0"
  by (auto simp: turn_around_def Let_def set_err_type_def and.assoc)

text \<open>The connection is not tried again.\<close>

definition no_retry :: "conn_env \<Rightarrow> strm_ref \<Rightarrow> cstate \<Rightarrow> bool" where
  "no_retry env s c \<longleftrightarrow> conn_retries (cn_si c) = 0 \<or> retry_type env AND PR_RE_CONN_FAILED = 0 \<or>
     strm_target (qs_strm (cn_q c) s) \<noteq> None \<and> si_flags (cn_si c) AND SI_FL_ERR \<noteq> 0 \<and> cn_sni_mismatch c"

text \<open>What the handler of \<^verbatim>\<open>SI_ST_CER\<close> promises: the end, with the slot released, or another attempt.\<close>

definition cer_outcome :: "conn_env \<Rightarrow> strm_ref \<Rightarrow> cstate \<Rightarrow> cstate \<Rightarrow> bool" where
  "cer_outcome env s c c' \<longleftrightarrow>
     (let x = qs_strm (cn_q c') s in
      if no_retry env s c then si_st (cn_si c') = SI_ST_CLO \<and> err_type (cn_si c') \<noteq> 0 \<and> srv_conn x = None \<and>
        failed_conns c' None = failed_conns c None + 1
      else conn_retries (cn_si c') = conn_retries (cn_si c) - 1 \<and> 0 \<le>s conn_retries (cn_si c') \<and> si_flags (cn_si c') AND SI_FL_ERR = 0 \<and>
        si_st (cn_si c') \<in> {SI_ST_REQ, SI_ST_ASS, SI_ST_TAR} \<and>
        (srv_conn x = None \<and> strm_flags x AND SF_ASSIGNED = 0 \<or> srv_conn x = srv_conn (qs_strm (cn_q c) s)))"

lemma drop_curr_sess_si:
  "cn_si (drop_curr_sess s c) =
     (if strm_target (qs_strm (cn_q c) s) \<noteq> None \<and> si_flags (cn_si c) AND SI_FL_ERR \<noteq> 0 \<and> cn_sni_mismatch c
      then (cn_si c)\<lparr>conn_retries := 0\<rparr> else cn_si c)"
  "failed_conns (drop_curr_sess s c) = failed_conns c"
  by (auto simp: drop_curr_sess_def Let_def split: option.splits)

text \<open>The stream at the test of the retries that are left.\<close>

definition cer_start :: "strm_ref \<Rightarrow> cstate \<Rightarrow> cstate" where
  "cer_start s c = upd_si (\<lambda>si. si\<lparr>conn_retries := conn_retries si - 1\<rparr>) (drop_curr_sess s
     (upd_si (\<lambda>si. si\<lparr>si_exp := TICK_ETERNITY, si_flags := si_flags si AND NOT SI_FL_EXP\<rparr>) c))"

lemma cer_start_test:
  assumes "0 \<le>s conn_retries (cn_si c)"
  shows "conn_retries (cn_si (cer_start s c)) <s 0 \<or> retry_type env AND PR_RE_CONN_FAILED = 0 \<longleftrightarrow> no_retry env s c"
    and "\<not> no_retry env s c \<Longrightarrow> conn_retries (cn_si (cer_start s c)) = conn_retries (cn_si c) - 1"
    and "failed_conns (cer_start s c) = failed_conns c"
proof -
  have "sint (conn_retries (cn_si c)) = 0 \<longleftrightarrow> conn_retries (cn_si c) = 0" by (rule signed_eq_0_iff)
  then show "conn_retries (cn_si (cer_start s c)) <s 0 \<or> retry_type env AND PR_RE_CONN_FAILED = 0 \<longleftrightarrow> no_retry env s c"
    using conn_retries_less [OF assms] assms
    by (auto simp: cer_start_def no_retry_def drop_curr_sess_si and.assoc word_sless_alt word_sle_eq)
  show "\<not> no_retry env s c \<Longrightarrow> conn_retries (cn_si (cer_start s c)) = conn_retries (cn_si c) - 1"
    by (auto simp: cer_start_def no_retry_def drop_curr_sess_si and.assoc)
  show "failed_conns (cer_start s c) = failed_conns c" by (simp add: cer_start_def drop_curr_sess_si)
qed

context lb_conn begin

lemma back_handle_st_cer_ok:
  assumes ok: "state_ok linv (cn_q c)" and w: "weighted tcb dcb (qs_px (cn_q c))" and env: "be_take (ce_be env) = tcb" "be_drop (ce_be env) = dcb"
    and int: "interval_ok env" and pos: "pend_pos (qs_strm (cn_q c) s) = None"
    and tgt: "\<forall>i. strm_target (qs_strm (cn_q c) s) = Some i \<longrightarrow> i < length (px_srv (qs_px (cn_q c)))"
    and left: "0 \<le>s conn_retries (cn_si c)" and st: "si_st (cn_si c) = SI_ST_CER"
  shows "\<exists>c'. back_handle_st_cer env s c = Inr c' \<and> state_ok linv (cn_q c') \<and> conn_kept s c c' \<and>
    pend_pos (qs_strm (cn_q c') s) = None \<and> cer_outcome env s c c' \<and>
    (si_st (cn_si c') = SI_ST_REQ \<longrightarrow> strm_flags (qs_strm (cn_q c') s) AND SF_ASSIGNED = 0)"
proof -
  define c1 where "c1 = cer_start s c"
  obtain fl where c1: "state_ok linv (cn_q c1)" "weights_same (qs_px (cn_q c)) (qs_px (cn_q c1))" "qs_strm (cn_q c1) s = (qs_strm (cn_q c) s)\<lparr>strm_flags := fl\<rparr>"
      "qs_pend (cn_q c1) = qs_pend (cn_q c)"
    using drop_curr_sess_ok [of "upd_si (\<lambda>si. si\<lparr>si_exp := TICK_ETERNITY, si_flags := si_flags si AND NOT SI_FL_EXP\<rparr>) c" s] ok
    by (auto simp: c1_def cer_start_def)
  have w1: "weighted tcb dcb (qs_px (cn_q c1))" using weighted_same [OF c1(2) w] .
  have tgt1: "\<forall>i. strm_target (qs_strm (cn_q c1) s) = Some i \<longrightarrow> i < length (px_srv (qs_px (cn_q c1)))"
    using tgt c1(2,3) by (simp add: weights_same_def)
  have "bs_txn (cn_b c1) = bs_txn (cn_b c)" "bs_sess (cn_b c1) = bs_sess (cn_b c)"
    by (simp_all add: c1_def cer_start_def drop_curr_sess_def Let_def split: option.splits)
  then have kept1: "conn_kept s c c1" using c1(2,4) tgt1 by (simp add: conn_kept_def ctx_kept_def fresh_kept_def)
  have st1: "si_st (cn_si c1) \<noteq> SI_ST_QUE" using st by (simp add: c1_def cer_start_def drop_curr_sess_si)
  have pos1: "pend_pos (qs_strm (cn_q c1) s) = None" using pos c1(3) by simp
  note test = cer_start_test(1) [OF left, of s env, folded c1_def] cer_start_test(2) [OF left, of env s, folded c1_def] cer_start_test(3) [OF left, of s, folded c1_def]
  note eq = back_handle_st_cer_def [of env s c, unfolded Let_def, folded cer_start_def, folded c1_def, unfolded test(1)]
  show ?thesis
  proof (cases "no_retry env s c")
    case True
    let ?c2 = "count_failed (strm_target (qs_strm (cn_q c1) s)) (set_err_type SI_ET_CONN_ERR c1)"
    obtain q' where q': "release_and_offer (ce_be env) s ?c2 = Inr (set_q q' ?c2)" "state_ok linv q'" "qs_strm q' s = (qs_strm (cn_q c1) s)\<lparr>srv_conn := None\<rparr>"
        "weights_same (qs_px (cn_q c1)) (qs_px q')" "fresh_kept (cn_q c1) q'"
      using release_and_offer_ok [of ?c2 "ce_be env" s] c1(1) w1 env tgt1 pos1 by auto
    have "conn_kept s c c'" if "cn_q c' = q'" "bs_txn (cn_b c') = bs_txn (cn_b c1)" "bs_sess (cn_b c') = bs_sess (cn_b c1)" for c'
      using kept1 st1 q'(3-5) that tgt1 weights_same_trans
      by (auto simp: conn_kept_def ctx_kept_def fresh_kept_def weights_same_def)
    then have "conn_kept s c (call_srv_error env s c')" if "cn_q c' = q'" "bs_txn (cn_b c') = bs_txn (cn_b c1)" "bs_sess (cn_b c') = bs_sess (cn_b c1)" for c'
      using that by (intro conn_kept_call) simp_all
    then show ?thesis using True q'(1-3) pos1 test(3) set_err_type_nonzero [of SI_ET_CONN_ERR c1] unfolding eq
      by (auto simp: cer_outcome_def Let_def intro!: state_ok_call_srv_error)
  next
    case False
    obtain c2 where c2: "stream_choose_redispatch env s (c1\<lparr>cn_sni_mismatch := False\<rparr>) = Inr c2" "state_ok linv (cn_q c2)" "conn_kept s (c1\<lparr>cn_sni_mismatch := False\<rparr>) c2"
        "pend_pos (qs_strm (cn_q c2) s) = None" "conn_retries (cn_si c2) = conn_retries (cn_si c1)"
        "si_st (cn_si c2) = SI_ST_REQ \<and> strm_flags (qs_strm (cn_q c2) s) AND SF_ASSIGNED = 0 \<and> srv_conn (qs_strm (cn_q c2) s) = None \<or>
         si_st (cn_si c2) = SI_ST_ASS \<and> qs_strm (cn_q c2) s = qs_strm (cn_q c1) s"
      using stream_choose_redispatch_ok [of "c1\<lparr>cn_sni_mismatch := False\<rparr>" env s] c1(1) w1 env int pos1 tgt1 by auto
    have "\<not> conn_retries (cn_si c) - 1 <s 0" using False test(1,2) by simp
    then have "0 \<le>s conn_retries (cn_si c) - 1" by (simp add: word_sless_alt word_sle_eq)
    moreover have "conn_kept s c c2" "conn_kept s c (turn_around env s c2)"
      using conn_kept_trans [OF kept1 _ conn_kept_cong [OF _ _ _ c2(3)]] st1 c2(6) turn_around_fields(1,3) [of env s c2] by auto
    ultimately show ?thesis using False c2 test(2) [OF False] c1(3) turn_around_fields [of env s c2] unfolding eq
      by (auto simp: cer_outcome_def Let_def)
  qed
qed

end

section \<open>Properties\<close>

definition sample_conn :: "si_state \<Rightarrow> u32 \<Rightarrow> cstate" where
  "sample_conn st fl = \<lparr>cn_b = sample_backend, cn_si = \<lparr>si_st = st, si_flags = fl, si_exp = 0, err_type = 0, conn_retries = 3\<rparr>,
     cn_req = 0, cn_res = 0, cn_req_empty = False, cn_sni_mismatch = False, failed_conns = (\<lambda>_. 0)\<rparr>"

definition sample_conn_env :: conn_env where
  "sample_conn_env = \<lparr>ce_be = sample_be_env, be_conn_retries = 3, redispatch_after = - 1, retry_type = PR_RE_CONN_FAILED, timeout_queue = 0,
     timeout_connect = 500, srv_error = Some default_srv_error, connect_server = (\<lambda>c. (upd_si (\<lambda>si. si\<lparr>si_st := SI_ST_CON\<rparr>) c, SF_ERR_NONE))\<rparr>"

text \<open>The states after a request for a server, and what each of them means.\<close>

definition req_outcome :: "strm_ref \<Rightarrow> cstate \<Rightarrow> cstate \<Rightarrow> bool" where
  "req_outcome s c c' \<longleftrightarrow>
     (let x = qs_strm (cn_q c') s in
      case si_st (cn_si c') of
        SI_ST_ASS \<Rightarrow> pend_pos x = None \<and> strm_flags x AND SF_ASSIGNED \<noteq> 0 \<and> srv_conn x = strm_target x
      | SI_ST_QUE \<Rightarrow> srv_conn x = None \<and> (\<exists>p pc. pend_pos x = Some p \<and> qs_pend (cn_q c') p = Some pc \<and> pc_target pc = None)
      | SI_ST_CLO \<Rightarrow> pend_pos x = None \<and> srv_conn x = None \<and> err_type (cn_si c') \<noteq> 0 \<and> failed_conns c' None = failed_conns c None + 1
      | _ \<Rightarrow> False)"

lemma set_err_type_keeps: "err_type (cn_si c) \<noteq> 0 \<Longrightarrow> err_type (cn_si (set_err_type e c)) = err_type (cn_si c)"
  by (simp add: set_err_type_def)

context lb_backend begin

lemma back_handle_st_req_ok:
  assumes "state_ok linv (cn_q c)" and "weighted tcb dcb (qs_px (cn_q c))" and "be_take (ce_be env) = tcb" "be_drop (ce_be env) = dcb"
    and "may_ask (ce_be env) s (cn_b c)" and st: "si_st (cn_si c) = SI_ST_REQ"
  shows "\<exists>c'. back_handle_st_req env rq s c = Some (Inr c') \<and> state_ok linv (cn_q c') \<and> req_outcome s c c' \<and> conn_kept s c c' \<and>
    conn_retries (cn_si c') = conn_retries (cn_si c)"
proof -
  obtain c1 stop where c1: "srv_redispatch_connect 2 env rq s c = Some (Inr (c1, stop))" "state_ok linv (cn_q c1)" "connect_outcome s stop c c1" "conn_kept s c c1"
    using srv_redispatch_connect_ok [OF assms(1-5), of rq] st by auto
  consider "\<not> stop" | "stop" "si_st (cn_si c1) = SI_ST_QUE" | "stop" "si_st (cn_si c1) \<noteq> SI_ST_QUE" by blast
  then show ?thesis
  proof cases
    case 3
    have "conn_kept s c c'" if "cn_b c' = cn_b c1" "si_st (cn_si c') = SI_ST_CLO" for c' using conn_kept_cong [OF _ that(1) _ c1(4)] 3 by simp
    then have "conn_kept s c (call_srv_error env s c')" if "cn_b c' = cn_b c1" "si_st (cn_si c') = SI_ST_CLO" for c'
      using that by (intro conn_kept_call)
    then show ?thesis using 3 c1 st unfolding back_handle_st_req_def
      by (auto simp: Let_def req_outcome_def connect_outcome_def set_err_type_keeps intro!: state_ok_call_srv_error)
  qed (use c1 st in \<open>auto simp: back_handle_st_req_def req_outcome_def connect_outcome_def conn_kept_def Let_def\<close>)
qed

end

text \<open>(C16) Under first-available balancing, static round robin or a hash into the map (the algorithms that
  consult the whitelist and consistent hashing are outside this property), with an HTTP transaction and an
  allocator that gives a spare byte for the write of \<^verbatim>\<open>fetchMethod\<close> past its block: a stream that asks
  for a server gets one of three answers. It is assigned and holds a slot of its server, it waits in a queue
  without a slot, or it is closed with an error, without a slot and counted as a failed connection. The loop over
  \<^verbatim>\<open>redispatch\<close> ends after at most two rounds.\<close>

theorem back_handle_st_req_outcome:
  assumes "known_algorithm tcb dcb linv" and "bk_reachable tcb dcb linv (cn_b c)"
    and "be_take (ce_be env) = tcb" and "be_drop (ce_be env) = dcb" and "may_ask (ce_be env) s (cn_b c)" and "si_st (cn_si c) = SI_ST_REQ"
  shows "\<exists>c'. back_handle_st_req env rq s c = Some (Inr c') \<and> queue_ok (cn_q c') \<and> slots_ok (cn_q c') \<and> req_outcome s c c'"
proof -
  note alg = known_algorithm_ok [OF assms(1)]
  show ?thesis
    using lb_backend.back_handle_st_req_ok [OF alg lb_backend.bk_reachable_state [OF alg assms(2)] lb_backend.safe [OF alg] assms(3-6), of rq]
    unfolding state_ok_def by blast
qed

theorem back_handle_st_req_outcome_witness:
  "\<exists>c'. back_handle_st_req sample_conn_env sample_request 3 (sample_conn SI_ST_REQ 0) = Some (Inr c') \<and> slots_ok (cn_q c') \<and>
     req_outcome 3 (sample_conn SI_ST_REQ 0) c' \<and> si_st (cn_si c') = SI_ST_ASS"
proof -
  have "case back_handle_st_req sample_conn_env sample_request 3 (sample_conn SI_ST_REQ 0) of
      Some (Inr c') \<Rightarrow> si_st (cn_si c') = SI_ST_ASS | _ \<Rightarrow> False" by code_simp
  then show ?thesis
    using back_handle_st_req_outcome [of fas_conn fas_conn fas_refs "sample_conn SI_ST_REQ 0" sample_conn_env 3 sample_request] sample_backend_start
    by (auto simp: known_algorithm_def sample_conn_def sample_conn_env_def sample_be_env_def)
qed

text \<open>(C29) A failed connection is tried again only while retries are left. For the callbacks of every
  algorithm, in a state where queues and slots are consistent and for a stream that waits in no queue, the handler
  returns, provided no server has weight 0
  under least-connection balancing and the interval of \<^verbatim>\<open>option redispatch\<close> is not minus the number of
  retries minus one. Each further attempt takes one of the retries, and the last failure, one with retries disabled
  or one on the server's certificate name closes the stream with an error and gives its slot back. A stream that
  retries keeps its slot with its server or gives up both.\<close>

theorem back_handle_st_cer_outcome:
  assumes "known_callbacks tcb dcb linv" and "state_ok linv (cn_q c)" and "weighted tcb dcb (qs_px (cn_q c))"
    and "be_take (ce_be env) = tcb" and "be_drop (ce_be env) = dcb" and "interval_ok env" and "pend_pos (qs_strm (cn_q c) s) = None"
    and "\<forall>i. strm_target (qs_strm (cn_q c) s) = Some i \<longrightarrow> i < length (px_srv (qs_px (cn_q c)))" and "0 \<le>s conn_retries (cn_si c)"
    and "si_st (cn_si c) = SI_ST_CER"
  shows "\<exists>c'. back_handle_st_cer env s c = Inr c' \<and> state_ok linv (cn_q c') \<and> cer_outcome env s c c'"
  using lb_conn.back_handle_st_cer_ok [OF known_callbacks_ok [OF assms(1)] assms(2-10)] by blast

text \<open>The same stream under least-connection balancing.\<close>

definition sample_fwlc_env :: conn_env where
  "sample_fwlc_env = sample_conn_env\<lparr>ce_be := sample_be_env\<lparr>be_take := Some fwlc_srv_reposition, be_drop := Some fwlc_srv_reposition\<rparr>\<rparr>"

lemma sample_fwlc_ok:
  "known_callbacks (Some fwlc_srv_reposition) (Some fwlc_srv_reposition) (\<lambda>_. True)" "state_ok (\<lambda>_. True) (bs_q sample_backend)"
  "weighted (Some fwlc_srv_reposition) (Some fwlc_srv_reposition) (qs_px (bs_q sample_backend))" "interval_ok sample_fwlc_env"
  "be_take (ce_be sample_fwlc_env) = Some fwlc_srv_reposition" "be_drop (ce_be sample_fwlc_env) = Some fwlc_srv_reposition"
proof -
  show "known_callbacks (Some fwlc_srv_reposition) (Some fwlc_srv_reposition) (\<lambda>_. True)"
    by (simp add: known_callbacks_def take_conn_callbacks_def)
  have "state_ok fas_refs (bs_q sample_backend)"
    using lb_backend.bk_reachable_state [OF known_algorithm_ok sample_backend_start(1)] by (simp add: known_algorithm_def)
  then show "state_ok (\<lambda>_. True) (bs_q sample_backend)" by (simp add: state_ok_def)
  have "list_all (\<lambda>s. cur_eweight s \<noteq> 0) (px_srv (qs_px (bs_q sample_backend)))" by code_simp
  then show "weighted (Some fwlc_srv_reposition) (Some fwlc_srv_reposition) (qs_px (bs_q sample_backend))"
    by (simp add: weighted_def cb_safe_def list_all_length)
  show "interval_ok sample_fwlc_env" by code_simp
qed (simp_all add: sample_fwlc_env_def)

theorem back_handle_st_cer_outcome_witness:
  "\<exists>c'. back_handle_st_cer sample_fwlc_env 3 (sample_conn SI_ST_CER SI_FL_ERR) = Inr c' \<and> state_ok (\<lambda>_. True) (cn_q c') \<and>
     conn_retries (cn_si c') = 2 \<and> si_st (cn_si c') = SI_ST_TAR"
proof -
  have "case back_handle_st_cer sample_fwlc_env 3 (sample_conn SI_ST_CER SI_FL_ERR) of
      Inr c' \<Rightarrow> conn_retries (cn_si c') = 2 \<and> si_st (cn_si c') = SI_ST_TAR | _ \<Rightarrow> False" by code_simp
  moreover have "pend_pos (qs_strm (bs_q sample_backend) 3) = None" "strm_target (qs_strm (bs_q sample_backend) 3) = None"
    by (simp_all add: sample_backend_def queue_start_def sample_stream_def)
  moreover have "0 \<le>s conn_retries (cn_si (sample_conn SI_ST_CER SI_FL_ERR))" by code_simp
  ultimately show ?thesis
    using back_handle_st_cer_outcome [OF sample_fwlc_ok(1) _ _ sample_fwlc_ok(5,6,4), of "sample_conn SI_ST_CER SI_FL_ERR" 3] sample_fwlc_ok(2,3)
    by (auto simp: sample_conn_def)
qed

text \<open>The states after shutting the interface.\<close>

lemma si_shutw_states: "si_st (cn_si (si_shutw c)) \<in> {si_st (cn_si c), SI_ST_DIS}"
  by (simp add: si_shutw_def Let_def)

lemma si_shutw_nolinger:
  assumes "si_st (cn_si c) \<in> {SI_ST_CON, SI_ST_RDY}" and "si_flags (cn_si c) AND SI_FL_NOLINGER \<noteq> 0" and "cn_req c AND CF_SHUTW = 0"
  shows "si_st (cn_si (si_shutw c)) = SI_ST_DIS \<and> cn_req (si_shutw c) AND CF_SHUTW \<noteq> 0 \<and> cn_res (si_shutw c) AND CF_SHUTR \<noteq> 0"
proof -
  let ?x = "si_flags (cn_si c)"
  have "?x AND SI_FL_NOLINGER = (?x AND (SI_FL_ERR OR SI_FL_NOLINGER)) AND SI_FL_NOLINGER" by (simp add: and.assoc)
  then have "?x AND (SI_FL_ERR OR SI_FL_NOLINGER) \<noteq> 0" using assms(2) by auto
  then show ?thesis using assms by (auto simp: si_shutw_def Let_def and.assoc word_ao_dist)
qed

text \<open>(C35) As long as the request channel is not shut for writing (\<^verbatim>\<open>CF_SHUTW\<close> is clear), while a
  connection is set up the interface stays in the states its handlers document: with a pending
  connection it is still pending, failed or closed by the client, with an accepted one it is established,
  failed or closed by the client; a failure has its cause recorded and an established connection has none;
  and a wait before a retry ends in a new attempt or in an abort.\<close>

theorem connection_states:
  assumes "cn_req c AND CF_SHUTW = 0"
  shows "let con = back_handle_st_con env s c; rdy = back_handle_st_rdy env s c; tar = try_turn_around env s c in
    (si_st (cn_si c) = SI_ST_CON \<longrightarrow>
      si_st (cn_si con) = (if client_aborts c then SI_ST_DIS else if si_flags (cn_si c) AND (SI_FL_EXP OR SI_FL_ERR) \<noteq> 0 then SI_ST_CER else SI_ST_CON) \<and>
      (si_st (cn_si con) \<noteq> SI_ST_CON \<longrightarrow> err_type (cn_si con) \<noteq> 0)) \<and>
    (si_st (cn_si c) = SI_ST_RDY \<longrightarrow> si_st (cn_si rdy) \<in> {SI_ST_EST, SI_ST_CER, SI_ST_DIS} \<and>
      (si_st (cn_si rdy) = SI_ST_EST \<longleftrightarrow> err_type (cn_si rdy) = 0) \<and> (cn_req c AND CF_WROTE_DATA \<noteq> 0 \<longrightarrow> si_st (cn_si rdy) = SI_ST_EST)) \<and>
    (si_st (cn_si c) = SI_ST_TAR \<longrightarrow> si_st (cn_si tar) \<in> {SI_ST_TAR, SI_ST_ASS, SI_ST_REQ, SI_ST_CLO} \<and>
      (si_st (cn_si tar) = SI_ST_CLO \<longleftrightarrow> back_may_abort_req c) \<and>
      (si_st (cn_si tar) = SI_ST_ASS \<longrightarrow> strm_flags (qs_strm (cn_q tar) s) AND SF_ASSIGNED \<noteq> 0))"
proof -
  have "x OR SI_ET_CONN_ABRT \<noteq> (0 :: u32)" for x by (simp add: or_eq_0_iff)
  moreover have "(x OR SI_FL_NOLINGER) AND SI_FL_NOLINGER \<noteq> (0 :: u32)" for x by (simp add: word_ao_absorbs)
  ultimately show ?thesis
    using assms si_shutw_nolinger [of "upd_si (\<lambda>si. si\<lparr>si_flags := si_flags si OR SI_FL_NOLINGER\<rparr>) c"]
      set_err_type_nonzero [of SI_ET_CONN_ERR c] set_err_type_nonzero [of SI_ET_CONN_TO c]
    by (auto simp: back_handle_st_con_def back_handle_st_rdy_def give_up_def try_turn_around_def abort_connection_def Let_def)
qed

theorem connection_states_witness:
  "si_st (cn_si (back_handle_st_con sample_conn_env 3 (sample_conn SI_ST_CON SI_FL_ERR))) = SI_ST_CER \<and>
   si_st (cn_si (back_handle_st_rdy sample_conn_env 3 ((sample_conn SI_ST_RDY SI_FL_ERR)\<lparr>cn_req := CF_WROTE_DATA\<rparr>))) = SI_ST_EST"
  using connection_states [of "sample_conn SI_ST_CON SI_FL_ERR" sample_conn_env 3]
    connection_states [of "(sample_conn SI_ST_RDY SI_FL_ERR)\<lparr>cn_req := CF_WROTE_DATA\<rparr>" sample_conn_env 3]
  by (auto simp: sample_conn_def client_aborts_def Let_def)

text \<open>With \<^verbatim>\<open>option redispatch\<close> the attempts that may go to another server are the multiples of
  the configured interval; a negative interval \<open>-N\<close> means the multiples of \<open>retries + 1 - N\<close>, which is the
  last retry alone for the default of -1, and every retry when \<open>N\<close> is the number of retries.\<close>

theorem redispatch_interval_attempts:
  assumes "0 < sint (be_conn_retries env)" and "0 \<le> sint left" and "sint left < sint (be_conn_retries env)"
    and "redispatch_after env \<noteq> 0" and "- sint (be_conn_retries env) \<le> sint (redispatch_after env)"
  shows "redispatch_interval env left =
      Inr ((if 0 < sint (redispatch_after env) then sint (redispatch_after env) else sint (be_conn_retries env) + 1 + sint (redispatch_after env))
        dvd sint (be_conn_retries env) - sint left) \<and>
    (redispatch_after env = - 1 \<longrightarrow> redispatch_interval env left = Inr (left = 0)) \<and>
    (redispatch_after env = - be_conn_retries env \<longrightarrow> redispatch_interval env left = Inr True)"
proof -
  let ?R = "be_conn_retries env" and ?N = "redispatch_after env"
  have R: "sint ?R < 2 ^ 31" using sint_less [of ?R] by simp
  have k: "sint (?R - left) = sint ?R - sint left" using assms R by (intro sint_minus_int) simp_all
  have N0: "sint ?N \<noteq> 0" using assms(4) by (simp add: signed_eq_0_iff)
  have d: "sint (?R + 1 + ?N) = sint ?R + 1 + sint ?N" if "sint ?N < 0"
    using sint_plus_int [of ?R "?N + 1"] sint_plus_int [of ?N 1] that assms(1,5) R by (simp add: add.commute add.left_commute)
  have ne: "?R + 1 + ?N \<noteq> 0" if "sint ?N < 0" 
    using d [OF that] assms(5) signed_eq_0_iff [where 'a = int, of "?R + 1 + ?N"] by linarith
  have eq: "redispatch_interval env left = Inr ((if 0 < sint ?N then sint ?N else sint ?R + 1 + sint ?N) dvd sint ?R - sint left)"
    using N0 assms(4) ne by (auto simp: redispatch_interval_def c_divides_def word_sless_alt k d)
  have l: "sint left = 0 \<longleftrightarrow> left = 0" by (rule signed_eq_0_iff)
  have last: "sint ?R dvd sint ?R - sint left \<longleftrightarrow> left = 0"
    using assms(1-3) zdvd_not_zless [of "sint ?R - sint left" "sint ?R"] l by force
  have "sint (- ?R) = - sint ?R" using sint_minus_int [of 0 ?R] assms(1) R by simp
  then show ?thesis using eq last assms(1) by auto
qed

theorem redispatch_interval_attempts_witness:
  "redispatch_interval sample_conn_env 0 = Inr True \<and> redispatch_interval sample_conn_env 2 = Inr False \<and>
   redispatch_interval (sample_conn_env\<lparr>redispatch_after := - 3\<rparr>) 2 = Inr True"
  using redispatch_interval_attempts [of sample_conn_env 0] redispatch_interval_attempts [of sample_conn_env 2]
    redispatch_interval_attempts [of "sample_conn_env\<lparr>redispatch_after := - 3\<rparr>" 2] by (simp add: sample_conn_env_def)



end
