(* ===== verification/Si_Loop.thy ===== *)
theory Si_Loop
  imports Si_Retry
begin

text \<open>
  The part of \<^verbatim>\<open>process_stream\<close> (\<^verbatim>\<open>src/haproxy/src/stream.c\<close>) that drives the server side of a
  stream: the states of a connection being set up or closed are brought up to date, and the loop that
  asks for a server and connects to it runs until it waits or ends. For an algorithm whose lookup answers
  the loop ends, and whatever the servers answer the stream is left in a consistent state. \<^verbatim>\<open>http_perform_server_redirect\<close>,
  which answers in place of a server, is an argument like \<^verbatim>\<open>connect_server\<close>.
\<close>

section \<open>Operations\<close>

abbreviation SI_ET_DATA_ERR :: u32 where "SI_ET_DATA_ERR \<equiv> 0x0200"
abbreviation CF_READ_DONTWAIT :: u32 where "CF_READ_DONTWAIT \<equiv> 0x00400000"
abbreviation CF_READ_ATTACHED :: u32 where "CF_READ_ATTACHED \<equiv> 0x00100000"
abbreviation SF_REDIRECTABLE :: u32 where "SF_REDIRECTABLE \<equiv> 0x00000400"

text \<open>\<open>pe_write_error\<close>: there is a connection and it did not fail on early data.\<close>

record proc_env =
  pe_conn :: conn_env
  pe_htx :: bool
  pe_write_error :: bool
  server_redirect :: "cstate \<Rightarrow> cstate"

text \<open>The handing over to the analysers, the flags of the receive side and the timeouts of the channels are
  left out.\<close>

definition back_establish :: "proc_env \<Rightarrow> cstate \<Rightarrow> cstate" where
  "back_establish env c =
     (let c = upd_si (\<lambda>si. si\<lparr>si_exp := TICK_ETERNITY, si_flags := si_flags si AND NOT SI_FL_EXP\<rparr>) c;
          c = (if si_flags (cn_si c) AND SI_FL_ERR \<noteq> 0 \<and> cn_req c AND CF_WROTE_DATA \<noteq> 0
               then upd_si (\<lambda>si. si\<lparr>err_type := SI_ET_DATA_ERR\<rparr>)
                 (c\<lparr>cn_req := (if pe_write_error env then cn_req c OR CF_WRITE_ERROR else cn_req c), cn_res := cn_res c OR CF_READ_ERROR\<rparr>)
               else c);
          c = (if pe_htx env then c\<lparr>cn_res := cn_res c OR CF_READ_DONTWAIT\<rparr> else c);
          c = c\<lparr>cn_res := cn_res c OR CF_READ_ATTACHED\<rparr>
      in if cn_res c AND (CF_SHUTR OR CF_SHUTW) \<noteq> 0 then upd_si (\<lambda>si. si\<lparr>si_st := SI_ST_DIS\<rparr>) c else c)"

text \<open>A connection that is set up: it succeeded, failed, or is still pending.\<close>

definition update_connection :: "proc_env \<Rightarrow> strm_ref \<Rightarrow> cstate \<Rightarrow> cstate c_result" where
  "update_connection env s c =
     (if si_st (cn_si c) \<notin> {SI_ST_CON, SI_ST_RDY} then Inr c
      else
        let c = (if si_st (cn_si c) = SI_ST_RDY then back_handle_st_rdy (pe_conn env) s c else back_handle_st_con (pe_conn env) s c)
        in if si_st (cn_si c) = SI_ST_CER then back_handle_st_cer (pe_conn env) s c
           else if si_st (cn_si c) = SI_ST_EST then Inr (back_establish env c)
           else Inr c)"

definition end_curr_sess :: "strm_ref \<Rightarrow> srv_ref \<Rightarrow> cstate \<Rightarrow> cstate" where
  "end_curr_sess s i c =
     (let q = cn_q c in
      if strm_flags (qs_strm q s) AND SF_CURR_SESS = 0 then c
      else
        let q = upd_strm s (\<lambda>x. x\<lparr>strm_flags := strm_flags x AND NOT SF_CURR_SESS\<rparr>) q
        in set_q (q\<lparr>qs_px := upd_srv i (\<lambda>x. x\<lparr>cur_sess := cur_sess x - 1\<rparr>) (qs_px q)\<rparr>) c)"

text \<open>A closed connection gives its slot back.\<close>

definition close_connection :: "proc_env \<Rightarrow> strm_ref \<Rightarrow> cstate \<Rightarrow> cstate c_result" where
  "close_connection env s c =
     (if si_st (cn_si c) \<noteq> SI_ST_DIS then Inr c
      else
        let c = upd_si (\<lambda>si. si\<lparr>si_st := SI_ST_CLO\<rparr>) c
        in case strm_target (qs_strm (cn_q c) s) of
             None \<Rightarrow> Inr c
           | Some i \<Rightarrow> release_and_offer (ce_be (pe_conn env)) s (end_curr_sess s i c))"

definition resync_stream_interface :: "proc_env \<Rightarrow> strm_ref \<Rightarrow> cstate \<Rightarrow> cstate c_result" where
  "resync_stream_interface env s c = c_bind (update_connection env s c) (close_connection env s)"

text \<open>One round of the loop over the requests for a connection, and the loop, the number of rounds bounded
  by the first argument.\<close>

definition connect_round :: "proc_env \<Rightarrow> request \<Rightarrow> strm_ref \<Rightarrow> cstate \<Rightarrow> cstate c_result option" where
  "connect_round env rq s c =
     r_bind (if si_st (cn_si c) \<noteq> SI_ST_REQ then Some (back_try_conn_req (pe_conn env) s c) else Some (Inr c)) (\<lambda>c.
     r_bind (back_handle_st_req (pe_conn env) rq s c) (\<lambda>c.
       let c = (if si_st (cn_si c) = SI_ST_EST then back_establish env c else c); x = qs_strm (cn_q c) s
       in Some (Inr (
            if si_st (cn_si c) = SI_ST_ASS \<and> (case strm_target x of None \<Rightarrow> False | Some i \<Rightarrow> rdr_len (srv_at (qs_px (cn_q c)) i) \<noteq> 0) \<and>
               strm_flags x AND SF_REDIRECTABLE \<noteq> 0
            then server_redirect env c else c))))"

fun connect_loop :: "nat \<Rightarrow> proc_env \<Rightarrow> request \<Rightarrow> strm_ref \<Rightarrow> cstate \<Rightarrow> cstate c_result option" where
  "connect_loop 0 env rq s c = None"
| "connect_loop (Suc n) env rq s c =
     r_bind (connect_round env rq s c) (\<lambda>c. if si_st (cn_si c) = SI_ST_ASS then connect_loop n env rq s c else Some (Inr c))"

declare connect_loop.simps(2) [simp del]

section \<open>Consistent streams\<close>

text \<open>A stream that waits has a pending connection, any other one that is not closed has none; retries are
  left; and if it asks for a server that is chosen already it holds no slot of another one.\<close>

definition place_ok :: "strm_ref \<Rightarrow> cstate \<Rightarrow> bool" where
  "place_ok s c \<longleftrightarrow>
     (let q = cn_q c; x = qs_strm q s; st = si_st (cn_si c) in
      (st = SI_ST_QUE \<longrightarrow> (\<exists>p pc. pend_pos x = Some p \<and> qs_pend q p = Some pc \<and> (\<forall>i. pc_target pc = Some i \<longrightarrow> i < length (px_srv (qs_px q))))) \<and>
      (st \<notin> {SI_ST_QUE, SI_ST_CLO} \<longrightarrow> pend_pos x = None) \<and> (st \<noteq> SI_ST_CLO \<longrightarrow> 0 \<le>s conn_retries (cn_si c)) \<and>
      (st = SI_ST_REQ \<longrightarrow> strm_flags x AND SF_ASSIGNED \<noteq> 0 \<longrightarrow> srv_conn x = None \<or> srv_conn x = strm_target x))"

text \<open>The target of the stream and the servers of its session exist; with \<open>http\<close> the stream has an HTTP
  transaction.\<close>

definition si_ok :: "bool \<Rightarrow> conn_cb \<Rightarrow> conn_cb \<Rightarrow> (proxy \<Rightarrow> bool) \<Rightarrow> strm_ref \<Rightarrow> cstate \<Rightarrow> bool" where
  "si_ok http tcb dcb linv s c \<longleftrightarrow>
     (let n = length (px_srv (qs_px (cn_q c))) in
      state_ok linv (cn_q c) \<and> weighted tcb dcb (qs_px (cn_q c)) \<and> (http \<longrightarrow> bs_txn (cn_b c) \<noteq> None) \<and>
      (\<forall>i. strm_target (qs_strm (cn_q c) s) = Some i \<longrightarrow> i < n) \<and>
      (\<forall>e \<in> set (sess_srv_list (bs_sess (cn_b c))). \<forall>i. fst e = Some i \<longrightarrow> i < n)) \<and> place_ok s c"

text \<open>What the arguments owe to the loop: they keep the backend, the place of the stream and its retries; a
  connection that is opened is pending, ready or established, and an answer in place of a server closes the
  interface or leaves it.\<close>

definition steady :: "(proxy \<Rightarrow> bool) \<Rightarrow> strm_ref \<Rightarrow> cstate \<Rightarrow> cstate \<Rightarrow> bool" where
  "steady linv s c c' \<longleftrightarrow> state_ok linv (cn_q c') \<and> weights_same (qs_px (cn_q c)) (qs_px (cn_q c')) \<and> fresh_kept (cn_q c) (cn_q c') \<and>
     ctx_kept (cn_b c) (cn_b c') \<and> strm_target (qs_strm (cn_q c') s) = strm_target (qs_strm (cn_q c) s) \<and>
     pend_pos (qs_strm (cn_q c') s) = pend_pos (qs_strm (cn_q c) s) \<and> conn_retries (cn_si c') = conn_retries (cn_si c)"

definition proc_ok :: "(proxy \<Rightarrow> bool) \<Rightarrow> strm_ref \<Rightarrow> proc_env \<Rightarrow> bool" where
  "proc_ok linv s env \<longleftrightarrow> interval_ok (pe_conn env) \<and>
     (\<forall>c. state_ok linv (cn_q c) \<and> si_st (cn_si c) = SI_ST_ASS \<longrightarrow>
        (case connect_server (pe_conn env) c of (c', err) \<Rightarrow>
           steady linv s c c' \<and> si_st (cn_si c') \<in> {SI_ST_CON, SI_ST_RDY, SI_ST_EST} \<union> (if err = SF_ERR_NONE then {} else {SI_ST_ASS})) \<and>
        steady linv s c (server_redirect env c) \<and> si_st (cn_si (server_redirect env c)) \<in> {SI_ST_ASS, SI_ST_CLO})"

section \<open>The steps keep the stream consistent\<close>

lemma si_okD:
  assumes "si_ok http tcb dcb linv s c"
  shows "state_ok linv (cn_q c)" and "weighted tcb dcb (qs_px (cn_q c))" and "place_ok s c"
    and "\<forall>i. strm_target (qs_strm (cn_q c) s) = Some i \<longrightarrow> i < length (px_srv (qs_px (cn_q c)))"
    and "si_st (cn_si c) \<notin> {SI_ST_QUE, SI_ST_CLO} \<Longrightarrow> pend_pos (qs_strm (cn_q c) s) = None"
    and "si_st (cn_si c) \<noteq> SI_ST_CLO \<Longrightarrow> 0 \<le>s conn_retries (cn_si c)"
  using assms by (simp_all add: si_ok_def place_ok_def Let_def)

lemma si_ok_kept:
  assumes "si_ok http tcb dcb linv s c" and "state_ok linv (cn_q c')" and "conn_kept s c c'" and "place_ok s c'"
  shows "si_ok http tcb dcb linv s c'"
proof -
  note a = assms(1) [unfolded si_ok_def Let_def] and k = assms(3) [unfolded conn_kept_def ctx_kept_def]
  have n: "length (px_srv (qs_px (cn_q c'))) = length (px_srv (qs_px (cn_q c)))" using k by (simp add: weights_same_def)
  have "\<forall>e \<in> set (sess_srv_list (bs_sess (cn_b c'))). \<forall>i. fst e = Some i \<longrightarrow> i < length (px_srv (qs_px (cn_q c)))"
  proof (intro ballI allI impI)
    fix e i assume e: "e \<in> set (sess_srv_list (bs_sess (cn_b c')))" "fst e = Some i"
    then have "Some i \<in> fst ` set (sess_srv_list (bs_sess (cn_b c)))" using k by (metis imageI subsetD)
    then show "i < length (px_srv (qs_px (cn_q c)))" using a by fastforce
  qed
  then show ?thesis using a k assms(2,4) n weighted_same [of "qs_px (cn_q c)" "qs_px (cn_q c')"] by (simp add: si_ok_def)
qed

lemma may_ask_si_ok:
  assumes "si_ok True tcb dcb linv s c" and "si_st (cn_si c) = SI_ST_REQ" and "fresh_alloc env (cn_q c)" and "spare_byte (be_malloc env)"
  shows "may_ask env s (cn_b c)"
  using assms by (simp add: si_ok_def place_ok_def may_ask_def ask_ready_def Let_def)

lemma conn_kept_steady: "si_ok http tcb dcb linv s c \<Longrightarrow> steady linv s c c' \<Longrightarrow> conn_kept s c c'"
  by (simp add: conn_kept_def steady_def si_ok_def Let_def weights_same_def)

lemma conn_kept_same: "si_ok http tcb dcb linv s c \<Longrightarrow> cn_b c' = cn_b c \<Longrightarrow> conn_kept s c c'"
  by (simp add: conn_kept_def si_ok_def Let_def ctx_kept_def fresh_kept_def)

text \<open>Closing the interface without a change of the backend.\<close>

lemma si_ok_closed:
  assumes "si_ok http tcb dcb linv s c" and "cn_b c' = cn_b c" and "si_st (cn_si c') = SI_ST_CLO"
  shows "si_ok http tcb dcb linv s (call_srv_error env s c')"
proof (rule si_ok_kept [OF assms(1)])
  show "state_ok linv (cn_q (call_srv_error env s c'))" using si_okD(1) [OF assms(1)] assms(2) by (intro state_ok_call_srv_error) simp
  show "conn_kept s c (call_srv_error env s c')" by (intro conn_kept_call conn_kept_same [OF assms(1,2)])
  show "place_ok s (call_srv_error env s c')" using assms(3) by (simp add: place_ok_def Let_def)
qed

lemma abort_connection_ok:
  assumes "si_ok http tcb dcb linv s c" and "cn_b c' = cn_b c"
  shows "si_ok http tcb dcb linv s (abort_connection env s c') \<and> si_st (cn_si (abort_connection env s c')) = SI_ST_CLO"
  unfolding abort_connection_def Let_def using assms by (auto intro: si_ok_closed)

context lb_conn begin

lemma conn_failed_internal_ok:
  assumes ok: "si_ok http tcb dcb linv s c" and env: "be_take (ce_be env) = tcb" "be_drop (ce_be env) = dcb" and pos: "pend_pos (qs_strm (cn_q c) s) = None"
  shows "\<exists>c'. conn_failed_internal env s c = Inr c' \<and> si_ok http tcb dcb linv s c' \<and> si_st (cn_si c') = SI_ST_CLO \<and> srv_conn (qs_strm (cn_q c') s) = None"
proof -
  let ?c1 = "count_failed (strm_target (qs_strm (cn_q c) s)) (set_err_type SI_ET_CONN_OTHER c)"
  obtain q' where q': "release_and_offer (ce_be env) s ?c1 = Inr (set_q q' ?c1)" "state_ok linv q'" "weights_same (qs_px (cn_q c)) (qs_px q')"
      "fresh_kept (cn_q c) q'" "qs_strm q' s = (qs_strm (cn_q c) s)\<lparr>srv_conn := None\<rparr>"
    using release_and_offer_ok [of ?c1 "ce_be env" s] si_okD(1,2,4) [OF ok] env pos by auto
  define c2 where "c2 = si_shutw (si_shutr (set_q q' ?c1))"
  have b: "cn_b c2 = cn_b (set_q q' c)" by (simp add: c2_def set_q_def)
  have ok2: "si_ok http tcb dcb linv s (upd_si (\<lambda>si. si\<lparr>si_st := SI_ST_CLO\<rparr>) c2)"
  proof (rule si_ok_kept [OF ok])
    show "conn_kept s c (upd_si (\<lambda>si. si\<lparr>si_st := SI_ST_CLO\<rparr>) c2)"
      using q'(3-5) si_okD(4) [OF ok] by (simp add: b conn_kept_def ctx_kept_def weights_same_def)
  qed (use q'(2) in \<open>simp_all add: b place_ok_def Let_def\<close>)
  have eq: "conn_failed_internal env s c =
      Inr (call_srv_error env s (upd_si (\<lambda>si. si\<lparr>si_st := SI_ST_CLO\<rparr>) (set_q (cn_q c2) (c2\<lparr>cn_req := cn_req c2 OR CF_WRITE_ERROR\<rparr>))))"
    using q'(1,5) pos by (simp add: conn_failed_internal_def Let_def pendconn_cond_unlink_def b flip: c2_def)
  show ?thesis unfolding eq
    using si_ok_closed [OF ok2, of "upd_si (\<lambda>si. si\<lparr>si_st := SI_ST_CLO\<rparr>) (set_q (cn_q c2) (c2\<lparr>cn_req := cn_req c2 OR CF_WRITE_ERROR\<rparr>))" env] q'(5) b
    by (simp add: set_q_def)
qed

text \<open>The handler of failed connections, on consistent streams.\<close>

lemma handle_failed_ok:
  assumes ok: "si_ok http tcb dcb linv s c" and env: "be_take (ce_be env) = tcb" "be_drop (ce_be env) = dcb" and int: "interval_ok env"
    and st: "si_st (cn_si c) = SI_ST_CER"
  shows "\<exists>c'. back_handle_st_cer env s c = Inr c' \<and> si_ok http tcb dcb linv s c' \<and> fresh_kept (cn_q c) (cn_q c') \<and>
    (si_st (cn_si c') = SI_ST_CLO \<and> srv_conn (qs_strm (cn_q c') s) = None \<or>
     si_st (cn_si c') \<in> {SI_ST_REQ, SI_ST_ASS, SI_ST_TAR} \<and> sint (conn_retries (cn_si c')) = sint (conn_retries (cn_si c)) - 1)"
proof -
  have left: "0 \<le>s conn_retries (cn_si c)" using si_okD(6) [OF ok] st by simp
  obtain c' where c': "back_handle_st_cer env s c = Inr c'" "state_ok linv (cn_q c')" "conn_kept s c c'" "pend_pos (qs_strm (cn_q c') s) = None"
      "cer_outcome env s c c'" "si_st (cn_si c') = SI_ST_REQ \<longrightarrow> strm_flags (qs_strm (cn_q c') s) AND SF_ASSIGNED = 0"
    using back_handle_st_cer_ok [OF si_okD(1,2) [OF ok] env int si_okD(5) [OF ok] si_okD(4) [OF ok] left st] st by auto
  have st': "si_st (cn_si c') = SI_ST_CLO \<and> srv_conn (qs_strm (cn_q c') s) = None \<or>
      si_st (cn_si c') \<in> {SI_ST_REQ, SI_ST_ASS, SI_ST_TAR} \<and> conn_retries (cn_si c') = conn_retries (cn_si c) - 1 \<and> 0 \<le>s conn_retries (cn_si c')"
    using c'(5) by (auto simp: cer_outcome_def Let_def split: if_splits)
  then have "place_ok s c'" using c'(4,6) by (auto simp: place_ok_def Let_def)
  moreover have "fresh_kept (cn_q c) (cn_q c')" using c'(3) st' by (auto simp: conn_kept_def)
  ultimately show ?thesis using c'(1-3) st' si_ok_kept [OF ok] conn_retries_less [OF left] by auto
qed

lemma try_assigned_ok:
  assumes ok: "si_ok http tcb dcb linv s c" and env: "be_take (ce_be (pe_conn env)) = tcb" "be_drop (ce_be (pe_conn env)) = dcb"
    and args: "proc_ok linv s env" and st: "si_st (cn_si c) = SI_ST_ASS"
  shows "\<exists>c'. try_assigned (pe_conn env) s c = Inr c' \<and> si_ok http tcb dcb linv s c' \<and>
    (si_st (cn_si c') \<in> {SI_ST_CLO, SI_ST_CON, SI_ST_RDY, SI_ST_EST} \<or>
     si_st (cn_si c') \<in> {SI_ST_REQ, SI_ST_ASS, SI_ST_TAR} \<and> sint (conn_retries (cn_si c')) = sint (conn_retries (cn_si c)) - 1 \<and>
     fresh_kept (cn_q c) (cn_q c'))"
proof (cases "back_may_abort_req c")
  case True
  then show ?thesis using abort_connection_ok [OF ok, of "upd_si (\<lambda>si. si\<lparr>err_type := err_type si OR SI_ET_CONN_ABRT\<rparr>) c" "pe_conn env"]
    by (simp add: try_assigned_def)
next
  case False
  obtain c1 err where c1: "connect_server (pe_conn env) c = (c1, err)" by (cases "connect_server (pe_conn env) c")
  have sd: "steady linv s c c1" "si_st (cn_si c1) \<in> {SI_ST_CON, SI_ST_RDY, SI_ST_EST} \<union> (if err = SF_ERR_NONE then {} else {SI_ST_ASS})"
    using args si_okD(1) [OF ok] st c1 by (auto simp: proc_ok_def split: if_splits)
  have pos: "pend_pos (qs_strm (cn_q c1) s) = None" using sd(1) si_okD(5) [OF ok] st by (simp add: steady_def)
  have left: "conn_retries (cn_si c1) = conn_retries (cn_si c)" "0 \<le>s conn_retries (cn_si c1)" using sd(1) si_okD(6) [OF ok] st by (simp_all add: steady_def)
  have okc: "si_ok http tcb dcb linv s c2" if "cn_b c2 = cn_b c1" "si_st (cn_si c2) \<notin> {SI_ST_QUE, SI_ST_REQ}" "conn_retries (cn_si c2) = conn_retries (cn_si c1)" for c2
    using that sd(1) pos left conn_kept_steady [OF ok sd(1)]
    by (intro si_ok_kept [OF ok]) (auto simp: steady_def place_ok_def conn_kept_def Let_def)
  show ?thesis
  proof (cases "err = SF_ERR_NONE")
    case True
    then show ?thesis using False sd(2) c1 okc [of c1] by (auto simp: try_assigned_def)
  next
    case err: False
    have eq: "try_assigned (pe_conn env) s c = (if err = SF_ERR_INTERNAL then conn_failed_internal (pe_conn env) s c1
        else back_handle_st_cer (pe_conn env) s (upd_si (\<lambda>si. si\<lparr>si_st := SI_ST_CER, si_flags := si_flags si AND NOT SI_FL_ERR\<rparr>) c1))"
      using False err c1 by (simp add: try_assigned_def)
    have fr: "fresh_kept (cn_q c) (cn_q c1)" and int: "interval_ok (pe_conn env)" using sd(1) args by (simp_all add: steady_def proc_ok_def)
    have ok1: "si_ok http tcb dcb linv s c1" using sd(2) by (intro okc) (auto split: if_splits)
    let ?c2 = "upd_si (\<lambda>si. si\<lparr>si_st := SI_ST_CER, si_flags := si_flags si AND NOT SI_FL_ERR\<rparr>) c1"
    have ok2: "si_ok http tcb dcb linv s ?c2" by (intro okc) simp_all
    show ?thesis
    proof (cases "err = SF_ERR_INTERNAL")
      case True
      then show ?thesis using eq conn_failed_internal_ok [OF ok1 env pos] by auto
    next
      case False
      then show ?thesis using eq handle_failed_ok [OF ok2 env int] left(1) fr by (auto simp: fresh_kept_def)
    qed
  qed
qed

end

text \<open>Leaving the queue: what the stream keeps.\<close>

lemma pendconn_dequeue_frame:
  assumes "pendconn_dequeue s q = Inr (q', r)" and "pend_pos (qs_strm q s) = Some p" and "qs_pend q p = Some pc"
  shows "qs_px q' = qs_px q" and "fresh_kept q q'" and "r \<noteq> 0 \<Longrightarrow> q' = q"
    and "strm_target (qs_strm q' s) \<in> {pc_target pc, strm_target (qs_strm q s)}" and "r = 0 \<Longrightarrow> pend_pos (qs_strm q' s) = None"
  using assms by (auto simp: pendconn_dequeue_def with_pend_def Let_def fresh_kept_def upd_strm_strm split: if_splits option.splits)

lemma pendconn_unlink_target: "pendconn_unlink p q = Inr q' \<Longrightarrow> strm_target (qs_strm q' t) = strm_target (qs_strm q t)"
  by (auto simp: pendconn_unlink_def with_pend_Inr Let_def upd_strm_strm split: if_splits)

context lb_conn begin

text \<open>A stream that gives up waiting leaves its queue.\<close>

lemma leave_queue_ok:
  assumes ok: "si_ok http tcb dcb linv s c" and st: "si_st (cn_si c) = SI_ST_QUE"
  shows "\<exists>q. pendconn_cond_unlink (pend_pos (qs_strm (cn_q c) s)) (cn_q c) = Inr q \<and>
    (\<forall>c'. cn_b c' = cn_b (set_q q c) \<longrightarrow> si_st (cn_si c') = SI_ST_CLO \<longrightarrow> si_ok http tcb dcb linv s c')"
proof -
  obtain p pc where p: "pend_pos (qs_strm (cn_q c) s) = Some p" "qs_pend (cn_q c) p = Some pc"
    using si_okD(3) [OF ok] st by (auto simp: place_ok_def Let_def)
  have "queue_step None (bs_q (cn_b c)) (pendconn_cond_unlink (Some p) (cn_q c))" using p(2) by (intro step_unlink) simp
  then obtain q where q: "pendconn_cond_unlink (Some p) (cn_q c) = Inr q" "state_ok linv q"
    using leaves_state [of "cn_b c"] si_okD(1) [OF ok] pendconn_unlink_leaves by (fastforce simp: pendconn_cond_unlink_def)
  have l: "only_leaves (cn_q c) q" using q(1) pendconn_unlink_leaves by (simp add: pendconn_cond_unlink_def)
  have ws: "weights_same (qs_px (cn_q c)) (qs_px q)" using l by (intro weights_same_view lb_view_q_view) (simp add: only_leaves_def)
  have "fresh_kept (cn_q c) q" using l unfolding only_leaves_def fresh_kept_def by (metis not_None_eq)
  then have "si_ok http tcb dcb linv s c'" if "cn_b c' = cn_b (set_q q c)" "si_st (cn_si c') = SI_ST_CLO" for c'
    using that q ws si_okD(4) [OF ok] pendconn_unlink_target
    by (intro si_ok_kept [OF ok]) (auto simp: place_ok_def Let_def conn_kept_def ctx_kept_def weights_same_def pendconn_cond_unlink_def)
  then show ?thesis using q(1) p(1) by auto
qed

lemma try_queued_ok:
  assumes ok: "si_ok http tcb dcb linv s c" and st: "si_st (cn_si c) = SI_ST_QUE"
  shows "\<exists>c'. try_queued env s c = Inr c' \<and> si_ok http tcb dcb linv s c' \<and> si_st (cn_si c') \<in> {SI_ST_REQ, SI_ST_ASS, SI_ST_QUE, SI_ST_CLO} \<and>
    (si_st (cn_si c') \<noteq> SI_ST_CLO \<longrightarrow> fresh_kept (cn_q c) (cn_q c') \<and> conn_retries (cn_si c') = conn_retries (cn_si c))"
proof -
  obtain p pc where p: "pend_pos (qs_strm (cn_q c) s) = Some p" "qs_pend (cn_q c) p = Some pc" "\<forall>i. pc_target pc = Some i \<longrightarrow> i < length (px_srv (qs_px (cn_q c)))"
    using si_okD(3) [OF ok] st by (auto simp: place_ok_def Let_def)
  obtain q r where q: "pendconn_dequeue s (cn_q c) = Inr (q, r)" using pendconn_dequeue_inv [OF _ p(1)] si_okD(1) [OF ok] by (auto simp: state_ok_def)
  have okq: "state_ok linv q"
    using leaves_state [OF si_okD(1) [OF ok] step_dequeue, of s] p(1) q pendconn_dequeue_leaves [OF q] by auto
  note f = pendconn_dequeue_frame [OF q p(1,2)]
  show ?thesis
  proof (cases "r = 0")
    case True
    let ?c' = "upd_si (\<lambda>si. si\<lparr>si_exp := TICK_ETERNITY, si_st := (if strm_flags (qs_strm q s) AND SF_ASSIGNED = 0 then SI_ST_REQ else SI_ST_ASS)\<rparr>) (set_q q c)"
    have "si_ok http tcb dcb linv s ?c'"
    proof (rule si_ok_kept [OF ok])
      show "conn_kept s c ?c'" using f(1,2,4) p(3) si_okD(4) [OF ok] by (auto simp: conn_kept_def ctx_kept_def)
      show "place_ok s ?c'" using f(5) True si_okD(6) [OF ok] st by (simp add: place_ok_def Let_def)
    qed (use okq in simp)
    then show ?thesis using q True f(2) by (auto simp: try_queued_def Let_def)
  next
    case False
    have same: "set_q q c = c" using f(3) False by (simp add: set_q_def)
    obtain q2 where q2: "pendconn_cond_unlink (pend_pos (qs_strm (cn_q c) s)) (cn_q c) = Inr q2"
        "\<And>c'. cn_b c' = cn_b (set_q q2 c) \<Longrightarrow> si_st (cn_si c') = SI_ST_CLO \<Longrightarrow> si_ok http tcb dcb linv s c'"
      using leave_queue_ok [OF ok st] by blast
    have closed: "si_ok http tcb dcb linv s (call_srv_error env s c')" if "cn_b c' = cn_b (set_q q2 c)" "si_st (cn_si c') = SI_ST_CLO" for c'
      using q2(2) [OF that] that(2) by (intro si_ok_closed [of _ _ _ _ _ c']) simp_all
    have "si_ok http tcb dcb linv s (abort_connection env s c')" if "cn_b c' = cn_b (set_q q2 c)" for c'
      unfolding abort_connection_def Let_def using that by (intro closed) simp_all
    then show ?thesis using q False same q2(1) ok st closed
      by (auto simp: try_queued_def Let_def set_q_def fresh_kept_def abort_connection_def)
  qed
qed

lemma try_turn_around_ok:
  assumes ok: "si_ok http tcb dcb linv s c" and st: "si_st (cn_si c) = SI_ST_TAR"
  shows "si_ok http tcb dcb linv s (try_turn_around env s c) \<and> si_st (cn_si (try_turn_around env s c)) \<in> {SI_ST_REQ, SI_ST_ASS, SI_ST_TAR, SI_ST_CLO} \<and>
    (si_st (cn_si (try_turn_around env s c)) \<noteq> SI_ST_CLO \<longrightarrow>
      cn_b (try_turn_around env s c) = cn_b c \<and> conn_retries (cn_si (try_turn_around env s c)) = conn_retries (cn_si c))"
proof (cases "back_may_abort_req c")
  case True
  then show ?thesis using abort_connection_ok [OF ok, of "upd_si (\<lambda>si. si\<lparr>err_type := err_type si OR SI_ET_CONN_ABRT\<rparr>) c" env]
    by (simp add: try_turn_around_def)
next
  case False
  have "si_ok http tcb dcb linv s c'" if "cn_b c' = cn_b c" "conn_retries (cn_si c') = conn_retries (cn_si c)"
      "si_st (cn_si c') = (if strm_flags (qs_strm (cn_q c) s) AND SF_ASSIGNED \<noteq> 0 then SI_ST_ASS else SI_ST_REQ)" for c'
    using that si_okD(1) [OF ok] si_okD(5,6) [OF ok] st conn_kept_same [OF ok that(1)]
    by (intro si_ok_kept [OF ok]) (auto simp: place_ok_def Let_def)
  then show ?thesis using False ok st by (simp add: try_turn_around_def)
qed

end

section \<open>The loop ends\<close>

lemma back_establish_fields:
  "cn_b (back_establish env c) = cn_b c" "conn_retries (cn_si (back_establish env c)) = conn_retries (cn_si c)"
  "si_st (cn_si (back_establish env c)) \<in> {si_st (cn_si c), SI_ST_DIS}"
  by (simp_all add: back_establish_def Let_def)

lemma back_establish_ok:
  assumes ok: "si_ok http tcb dcb linv s c" and st: "si_st (cn_si c) = SI_ST_EST"
  shows "si_ok http tcb dcb linv s (back_establish env c)"
  using back_establish_fields [of env c] st si_okD(1) [OF ok] si_okD(5,6) [OF ok] conn_kept_same [OF ok]
  by (intro si_ok_kept [OF ok]) (auto simp: place_ok_def Let_def)

context lb_conn begin

lemma back_try_conn_req_ok:
  assumes ok: "si_ok http tcb dcb linv s c" and env: "be_take (ce_be (pe_conn env)) = tcb" "be_drop (ce_be (pe_conn env)) = dcb"
    and args: "proc_ok linv s env" and st: "si_st (cn_si c) \<in> {SI_ST_ASS, SI_ST_QUE, SI_ST_TAR}"
  shows "\<exists>c'. back_try_conn_req (pe_conn env) s c = Inr c' \<and> si_ok http tcb dcb linv s c' \<and>
    si_st (cn_si c') \<in> {SI_ST_REQ, SI_ST_ASS, SI_ST_QUE, SI_ST_TAR, SI_ST_CON, SI_ST_RDY, SI_ST_EST, SI_ST_CLO} \<and>
    (si_st (cn_si c') \<in> {SI_ST_REQ, SI_ST_ASS} \<longrightarrow> fresh_kept (cn_q c) (cn_q c') \<and>
      sint (conn_retries (cn_si c')) = sint (conn_retries (cn_si c)) - (if si_st (cn_si c) = SI_ST_ASS then 1 else 0))"
proof -
  consider "si_st (cn_si c) = SI_ST_ASS" | "si_st (cn_si c) = SI_ST_QUE" | "si_st (cn_si c) = SI_ST_TAR" using st by blast
  then show ?thesis
  proof cases
    case 1
    then show ?thesis using try_assigned_ok [OF ok env args] by (auto simp: back_try_conn_req_def)
  next
    case 2
    then show ?thesis using try_queued_ok [OF ok, of "pe_conn env"] by (auto simp: back_try_conn_req_def)
  next
    case 3
    then show ?thesis using try_turn_around_ok [OF ok, of "pe_conn env"] by (auto simp: back_try_conn_req_def fresh_kept_def)
  qed
qed

end

context lb_backend begin

lemma handle_request_ok:
  assumes ok: "si_ok True tcb dcb linv s c" and env: "be_take (ce_be env) = tcb" "be_drop (ce_be env) = dcb"
    and fresh: "fresh_alloc (ce_be env) (cn_q c)" and spare: "spare_byte (be_malloc (ce_be env))" and st: "si_st (cn_si c) = SI_ST_REQ"
  shows "\<exists>c'. back_handle_st_req env rq s c = Some (Inr c') \<and> si_ok True tcb dcb linv s c' \<and> si_st (cn_si c') \<in> {SI_ST_ASS, SI_ST_QUE, SI_ST_CLO} \<and>
    (si_st (cn_si c') = SI_ST_ASS \<longrightarrow> fresh_kept (cn_q c) (cn_q c') \<and> conn_retries (cn_si c') = conn_retries (cn_si c))"
proof -
  obtain c' where c': "back_handle_st_req env rq s c = Some (Inr c')" "state_ok linv (cn_q c')" "req_outcome s c c'" "conn_kept s c c'"
      "conn_retries (cn_si c') = conn_retries (cn_si c)"
    using back_handle_st_req_ok [OF si_okD(1,2) [OF ok] env may_ask_si_ok [OF ok st fresh spare] st] by blast
  have st': "si_st (cn_si c') \<in> {SI_ST_ASS, SI_ST_QUE, SI_ST_CLO}" using c'(3) by (auto simp: req_outcome_def Let_def split: si_state.splits)
  then have "place_ok s c'" using c'(3,5) si_okD(6) [OF ok] st by (auto simp: req_outcome_def place_ok_def Let_def)
  then show ?thesis using c' st' si_ok_kept [OF ok c'(2,4)] by (auto simp: conn_kept_def)
qed

lemma server_redirect_ok:
  assumes ok: "si_ok http tcb dcb linv s c" and args: "proc_ok linv s env" and st: "si_st (cn_si c) = SI_ST_ASS"
  shows "si_ok http tcb dcb linv s (server_redirect env c) \<and> si_st (cn_si (server_redirect env c)) \<in> {SI_ST_ASS, SI_ST_CLO} \<and>
    fresh_kept (cn_q c) (cn_q (server_redirect env c)) \<and> conn_retries (cn_si (server_redirect env c)) = conn_retries (cn_si c)"
proof -
  have r: "steady linv s c (server_redirect env c)" "si_st (cn_si (server_redirect env c)) \<in> {SI_ST_ASS, SI_ST_CLO}"
    using args si_okD(1) [OF ok] st by (auto simp: proc_ok_def)
  have "place_ok s (server_redirect env c)" using r si_okD(5,6) [OF ok] st by (auto simp: place_ok_def steady_def Let_def)
  then show ?thesis using r si_ok_kept [OF ok _ conn_kept_steady [OF ok r(1)]] by (auto simp: steady_def)
qed

text \<open>One round: the loop goes on only after an attempt that took one of the retries, or after the stream
  got its first server.\<close>

lemma connect_round_ok:
  assumes ok: "si_ok True tcb dcb linv s c" and env: "be_take (ce_be (pe_conn env)) = tcb" "be_drop (ce_be (pe_conn env)) = dcb"
    and args: "proc_ok linv s env" and spare: "spare_byte (be_malloc (ce_be (pe_conn env)))" and fresh: "fresh_alloc (ce_be (pe_conn env)) (cn_q c)"
    and st: "si_st (cn_si c) \<in> {SI_ST_REQ, SI_ST_ASS, SI_ST_QUE, SI_ST_TAR}"
  shows "\<exists>c'. connect_round env rq s c = Some (Inr c') \<and> si_ok True tcb dcb linv s c' \<and>
    si_st (cn_si c') \<in> {SI_ST_ASS, SI_ST_QUE, SI_ST_TAR, SI_ST_CON, SI_ST_RDY, SI_ST_EST, SI_ST_DIS, SI_ST_CLO} \<and>
    (si_st (cn_si c') = SI_ST_ASS \<longrightarrow> fresh_alloc (ce_be (pe_conn env)) (cn_q c') \<and>
      sint (conn_retries (cn_si c')) = sint (conn_retries (cn_si c)) - (if si_st (cn_si c) = SI_ST_ASS then 1 else 0))"
proof -
  let ?left = "\<lambda>c'. sint (conn_retries (cn_si c')) = sint (conn_retries (cn_si c)) - (if si_st (cn_si c) = SI_ST_ASS then 1 else 0)"
  obtain c1 where c1: "(if si_st (cn_si c) \<noteq> SI_ST_REQ then Some (back_try_conn_req (pe_conn env) s c) else Some (Inr c)) = Some (Inr c1)"
      "si_ok True tcb dcb linv s c1"
      "si_st (cn_si c1) \<in> {SI_ST_REQ, SI_ST_ASS, SI_ST_QUE, SI_ST_TAR, SI_ST_CON, SI_ST_RDY, SI_ST_EST, SI_ST_CLO}"
      "si_st (cn_si c1) \<in> {SI_ST_REQ, SI_ST_ASS} \<longrightarrow> fresh_kept (cn_q c) (cn_q c1) \<and> ?left c1"
    using back_try_conn_req_ok [OF ok env args] ok st by (cases "si_st (cn_si c) = SI_ST_REQ") (auto simp: fresh_kept_def)
  have fr: "fresh_alloc (ce_be (pe_conn env)) (cn_q c')" if "fresh_kept (cn_q c) (cn_q c')" for c'
    using that fresh by (auto simp: fresh_kept_def fresh_alloc_def)
  obtain c2 where c2: "back_handle_st_req (pe_conn env) rq s c1 = Some (Inr c2)" "si_ok True tcb dcb linv s c2"
      "si_st (cn_si c2) \<in> {SI_ST_ASS, SI_ST_QUE, SI_ST_TAR, SI_ST_CON, SI_ST_RDY, SI_ST_EST, SI_ST_CLO}"
      "si_st (cn_si c2) = SI_ST_ASS \<longrightarrow> fresh_kept (cn_q c) (cn_q c2) \<and> ?left c2"
  proof (cases "si_st (cn_si c1) = SI_ST_REQ")
    case True
    obtain c2 where "back_handle_st_req (pe_conn env) rq s c1 = Some (Inr c2)" "si_ok True tcb dcb linv s c2" "si_st (cn_si c2) \<in> {SI_ST_ASS, SI_ST_QUE, SI_ST_CLO}"
        "si_st (cn_si c2) = SI_ST_ASS \<longrightarrow> fresh_kept (cn_q c1) (cn_q c2) \<and> conn_retries (cn_si c2) = conn_retries (cn_si c1)"
      using handle_request_ok [OF c1(2) env fr spare True] c1(4) True by blast
    then show ?thesis using that [of c2] c1(4) True by (auto simp: fresh_kept_def)
  next
    case False
    then show ?thesis using that [of c1] c1(2-4) by (simp add: back_handle_st_req_def)
  qed
  define c3 where "c3 = (if si_st (cn_si c2) = SI_ST_EST then back_establish env c2 else c2)"
  have c3: "si_ok True tcb dcb linv s c3" "si_st (cn_si c3) \<in> {SI_ST_ASS, SI_ST_QUE, SI_ST_TAR, SI_ST_CON, SI_ST_RDY, SI_ST_EST, SI_ST_DIS, SI_ST_CLO}"
      "si_st (cn_si c3) = SI_ST_ASS \<longrightarrow> fresh_kept (cn_q c) (cn_q c3) \<and> ?left c3"
    using c2(2-4) back_establish_ok [OF c2(2), of env] back_establish_fields(3) [of env c2] by (auto simp: c3_def)
  note redirect = server_redirect_ok [OF c3(1) args]
  have "connect_round env rq s c = Some (Inr (if si_st (cn_si c3) = SI_ST_ASS \<and>
        (case strm_target (qs_strm (cn_q c3) s) of None \<Rightarrow> False | Some i \<Rightarrow> rdr_len (srv_at (qs_px (cn_q c3)) i) \<noteq> 0) \<and>
        strm_flags (qs_strm (cn_q c3) s) AND SF_REDIRECTABLE \<noteq> 0 then server_redirect env c3 else c3))"
    unfolding connect_round_def c1(1) r_bind_simps c2(1) Let_def c3_def ..
  then show ?thesis using c3 redirect fr by (auto simp: fresh_kept_def split: if_splits)
qed

lemma connect_loop_ok:
  assumes "si_ok True tcb dcb linv s c" and env: "be_take (ce_be (pe_conn env)) = tcb" "be_drop (ce_be (pe_conn env)) = dcb"
    and args: "proc_ok linv s env" and spare: "spare_byte (be_malloc (ce_be (pe_conn env)))" and "fresh_alloc (ce_be (pe_conn env)) (cn_q c)"
    and "si_st (cn_si c) \<in> {SI_ST_REQ, SI_ST_ASS, SI_ST_QUE, SI_ST_TAR}"
    and "nat (sint (conn_retries (cn_si c))) + (if si_st (cn_si c) = SI_ST_ASS then 0 else 1) < n"
  shows "\<exists>c'. connect_loop n env rq s c = Some (Inr c') \<and> si_ok True tcb dcb linv s c' \<and>
    si_st (cn_si c') \<in> {SI_ST_QUE, SI_ST_TAR, SI_ST_CON, SI_ST_RDY, SI_ST_EST, SI_ST_DIS, SI_ST_CLO}"
  using assms(1,6-)
proof (induction n arbitrary: c)
  case (Suc n)
  obtain c1 where c1: "connect_round env rq s c = Some (Inr c1)" "si_ok True tcb dcb linv s c1"
      "si_st (cn_si c1) \<in> {SI_ST_ASS, SI_ST_QUE, SI_ST_TAR, SI_ST_CON, SI_ST_RDY, SI_ST_EST, SI_ST_DIS, SI_ST_CLO}"
      "si_st (cn_si c1) = SI_ST_ASS \<longrightarrow> fresh_alloc (ce_be (pe_conn env)) (cn_q c1) \<and>
        sint (conn_retries (cn_si c1)) = sint (conn_retries (cn_si c)) - (if si_st (cn_si c) = SI_ST_ASS then 1 else 0)"
    using connect_round_ok [OF Suc.prems(1) env args spare Suc.prems(2,3)] by blast
  show ?case
  proof (cases "si_st (cn_si c1) = SI_ST_ASS")
    case True
    then have "0 \<le> sint (conn_retries (cn_si c1))" using si_okD(6) [OF c1(2)] by (simp add: word_sle_eq)
    then have "nat (sint (conn_retries (cn_si c1))) < n" using c1(4) True Suc.prems(4) by (auto split: if_splits)
    then show ?thesis using Suc.IH [OF c1(2)] c1(1,4) True by (simp add: connect_loop.simps(2))
  next
    case False
    then show ?thesis using c1 by (simp add: connect_loop.simps(2))
  qed
qed simp

end

section \<open>Connections set up and closed\<close>

text \<open>Steps that concern the interface only.\<close>

lemma si_ok_local:
  assumes ok: "si_ok http tcb dcb linv s c" and st: "si_st (cn_si c) \<notin> {SI_ST_QUE, SI_ST_CLO}"
    and c': "cn_b c' = cn_b c" "conn_retries (cn_si c') = conn_retries (cn_si c)" "si_st (cn_si c') \<notin> {SI_ST_QUE, SI_ST_REQ}"
  shows "si_ok http tcb dcb linv s c' \<and> si_ok http tcb dcb linv s (call_srv_error env s c')"
  using si_okD(1) [OF ok] si_okD(5,6) [OF ok] st c' conn_kept_same [OF ok c'(1)] conn_kept_call [OF conn_kept_same [OF ok c'(1)]]
    state_ok_call_srv_error [of linv c' env s]
  by (intro conjI si_ok_kept [OF ok]) (auto simp: place_ok_def Let_def)

lemma connecting_ok:
  assumes ok: "si_ok http tcb dcb linv s c" and st: "si_st (cn_si c) \<in> {SI_ST_CON, SI_ST_RDY}"
  shows "si_ok http tcb dcb linv s (give_up env s c)" and "si_ok http tcb dcb linv s (back_handle_st_con env s c)"
    and "si_ok http tcb dcb linv s (back_handle_st_rdy env s c)"
proof -
  show g: "si_ok http tcb dcb linv s (give_up env s c)"
    using st si_shutw_states [of "upd_si (\<lambda>si. si\<lparr>si_flags := si_flags si OR SI_FL_NOLINGER\<rparr>) c"]
    unfolding give_up_def Let_def by (intro si_ok_local [THEN conjunct2, OF ok]) auto
  have l: "si_ok http tcb dcb linv s c'" if "cn_b c' = cn_b c" "conn_retries (cn_si c') = conn_retries (cn_si c)" "si_st (cn_si c') \<notin> {SI_ST_QUE, SI_ST_REQ}" for c'
    using si_ok_local [OF ok _ that] st by auto
  show "si_ok http tcb dcb linv s (back_handle_st_con env s c)" "si_ok http tcb dcb linv s (back_handle_st_rdy env s c)"
    using g ok by (auto simp: back_handle_st_con_def back_handle_st_rdy_def intro: l)
qed

lemma connecting_states:
  assumes "cn_req c AND CF_SHUTW = 0"
  shows "si_st (cn_si c) = SI_ST_CON \<Longrightarrow> si_st (cn_si (back_handle_st_con env s c)) \<in> {SI_ST_CON, SI_ST_CER, SI_ST_DIS}"
    and "si_st (cn_si c) = SI_ST_RDY \<Longrightarrow> si_st (cn_si (back_handle_st_rdy env s c)) \<in> {SI_ST_EST, SI_ST_CER, SI_ST_DIS}"
proof -
  have "si_st (cn_si (give_up env s c)) = SI_ST_DIS" if "si_st (cn_si c) \<in> {SI_ST_CON, SI_ST_RDY}"
    using si_shutw_nolinger [of "upd_si (\<lambda>si. si\<lparr>si_flags := si_flags si OR SI_FL_NOLINGER\<rparr>) c"] that assms
    by (simp add: give_up_def Let_def)
  then show "si_st (cn_si c) = SI_ST_CON \<Longrightarrow> si_st (cn_si (back_handle_st_con env s c)) \<in> {SI_ST_CON, SI_ST_CER, SI_ST_DIS}"
    and "si_st (cn_si c) = SI_ST_RDY \<Longrightarrow> si_st (cn_si (back_handle_st_rdy env s c)) \<in> {SI_ST_EST, SI_ST_CER, SI_ST_DIS}"
    by (auto simp: back_handle_st_con_def back_handle_st_rdy_def)
qed

text \<open>The target of the stream stays.\<close>

lemma connecting_target:
  "strm_target (qs_strm (cn_q (call_srv_error env s c)) s) = strm_target (qs_strm (cn_q c) s)"
  "strm_target (qs_strm (cn_q (back_handle_st_con env s c)) s) = strm_target (qs_strm (cn_q c) s)"
  "strm_target (qs_strm (cn_q (back_handle_st_rdy env s c)) s) = strm_target (qs_strm (cn_q c) s)"
proof -
  show call: "strm_target (qs_strm (cn_q (call_srv_error env s c)) s) = strm_target (qs_strm (cn_q c) s)" for c
    by (simp add: call_srv_error_def upd_strm_strm split: option.splits)
  show "strm_target (qs_strm (cn_q (back_handle_st_con env s c)) s) = strm_target (qs_strm (cn_q c) s)"
    "strm_target (qs_strm (cn_q (back_handle_st_rdy env s c)) s) = strm_target (qs_strm (cn_q c) s)"
    by (simp_all add: back_handle_st_con_def back_handle_st_rdy_def give_up_def Let_def call)
qed

lemma end_curr_sess_drop:
  "strm_target (qs_strm (cn_q c) s) = Some i \<Longrightarrow> cn_b (end_curr_sess s i c) = cn_b (drop_curr_sess s c)"
  "cn_si (end_curr_sess s i c) = cn_si c"
  by (simp_all add: end_curr_sess_def drop_curr_sess_def Let_def set_q_def)

context lb_conn begin

lemma update_connection_ok:
  assumes ok: "si_ok http tcb dcb linv s c" and env: "be_take (ce_be (pe_conn env)) = tcb" "be_drop (ce_be (pe_conn env)) = dcb"
    and int: "interval_ok (pe_conn env)" and st: "si_st (cn_si c) \<noteq> SI_ST_CER" and shut: "cn_req c AND CF_SHUTW = 0"
  shows "\<exists>c'. update_connection env s c = Inr c' \<and> si_ok http tcb dcb linv s c' \<and>
    (if si_st (cn_si c) \<in> {SI_ST_CON, SI_ST_RDY} then si_st (cn_si c') \<notin> {SI_ST_CER, SI_ST_RDY} \<and>
       (si_st (cn_si c') = SI_ST_CLO \<longrightarrow> srv_conn (qs_strm (cn_q c') s) = None) \<and>
       (si_st (cn_si c') = SI_ST_DIS \<longrightarrow> strm_target (qs_strm (cn_q c') s) = strm_target (qs_strm (cn_q c) s))
     else c' = c)"
proof (cases "si_st (cn_si c) \<in> {SI_ST_CON, SI_ST_RDY}")
  case True
  define c1 where "c1 = (if si_st (cn_si c) = SI_ST_RDY then back_handle_st_rdy (pe_conn env) s c else back_handle_st_con (pe_conn env) s c)"
  have ok1: "si_ok http tcb dcb linv s c1" using connecting_ok [OF ok True, of "pe_conn env"] by (simp add: c1_def)
  have st1: "si_st (cn_si c1) \<in> {SI_ST_CON, SI_ST_EST, SI_ST_CER, SI_ST_DIS}"
    using connecting_states [OF shut, of "pe_conn env" s] True by (auto simp: c1_def)
  have tgt1: "strm_target (qs_strm (cn_q c1) s) = strm_target (qs_strm (cn_q c) s)" by (simp add: c1_def connecting_target)
  have eq: "update_connection env s c = (if si_st (cn_si c1) = SI_ST_CER then back_handle_st_cer (pe_conn env) s c1
      else if si_st (cn_si c1) = SI_ST_EST then Inr (back_establish env c1) else Inr c1)"
    using True unfolding update_connection_def Let_def c1_def by simp
  consider "si_st (cn_si c1) = SI_ST_CER" | "si_st (cn_si c1) = SI_ST_EST" | "si_st (cn_si c1) \<in> {SI_ST_CON, SI_ST_DIS}" using st1 by blast
  then show ?thesis
  proof cases
    case 1
    then show ?thesis using eq handle_failed_ok [OF ok1 env int] True by auto
  next
    case 2
    then show ?thesis using eq back_establish_ok [OF ok1, of env] back_establish_fields(1,3) [of env c1] tgt1 True by auto
  qed (use eq ok1 tgt1 True in auto)
qed (use ok in \<open>simp add: update_connection_def\<close>)

lemma close_connection_ok:
  assumes ok: "si_ok http tcb dcb linv s c" and env: "be_take (ce_be (pe_conn env)) = tcb" "be_drop (ce_be (pe_conn env)) = dcb"
    and st: "si_st (cn_si c) = SI_ST_DIS"
  shows "\<exists>c'. close_connection env s c = Inr c' \<and> si_ok http tcb dcb linv s c' \<and> si_st (cn_si c') = SI_ST_CLO \<and>
    (strm_target (qs_strm (cn_q c) s) \<noteq> None \<longrightarrow> srv_conn (qs_strm (cn_q c') s) = None)"
proof (cases "strm_target (qs_strm (cn_q c) s)")
  case None
  have "si_ok http tcb dcb linv s (upd_si (\<lambda>si. si\<lparr>si_st := SI_ST_CLO\<rparr>) c)" using si_ok_local [OF ok] st by simp
  then show ?thesis using None st by (simp add: close_connection_def)
next
  case (Some i)
  let ?c1 = "upd_si (\<lambda>si. si\<lparr>si_st := SI_ST_CLO\<rparr>) c"
  define c2 where "c2 = end_curr_sess s i ?c1"
  obtain fl where c2: "state_ok linv (cn_q c2)" "weights_same (qs_px (cn_q c)) (qs_px (cn_q c2))" "qs_pend (cn_q c2) = qs_pend (cn_q c)"
      "qs_strm (cn_q c2) s = (qs_strm (cn_q c) s)\<lparr>strm_flags := fl\<rparr>" "si_st (cn_si c2) = SI_ST_CLO"
    using drop_curr_sess_ok [of ?c1 s] si_okD(1) [OF ok] end_curr_sess_drop(1) [of ?c1 s i] end_curr_sess_drop(2) [of s i ?c1] Some by (auto simp: c2_def)
  have ctx: "bs_txn (cn_b c2) = bs_txn (cn_b c)" "bs_sess (cn_b c2) = bs_sess (cn_b c)"
    by (simp_all add: c2_def end_curr_sess_def Let_def set_q_def)
  obtain q' where q': "release_and_offer (ce_be (pe_conn env)) s c2 = Inr (set_q q' c2)" "state_ok linv q'" "weights_same (qs_px (cn_q c2)) (qs_px q')"
      "fresh_kept (cn_q c2) q'" "qs_strm q' s = (qs_strm (cn_q c2) s)\<lparr>srv_conn := None\<rparr>"
    using release_and_offer_ok [OF c2(1) weighted_same [OF c2(2) si_okD(2) [OF ok]] env, of s] si_okD(4,5) [OF ok] st c2(2,4)
    by (auto simp: weights_same_def)
  have "conn_kept s c (set_q q' c2)"
    using c2(2-4) q'(3-5) ctx si_okD(4) [OF ok] by (auto simp: conn_kept_def ctx_kept_def fresh_kept_def weights_same_def)
  then have "si_ok http tcb dcb linv s (set_q q' c2)" using q'(2) c2(5) by (intro si_ok_kept [OF ok]) (simp_all add: place_ok_def Let_def)
  then show ?thesis using Some st q'(1,5) c2(5) by (simp add: close_connection_def flip: c2_def)
qed

end

section \<open>Properties\<close>

definition sample_proc_env :: proc_env where
  "sample_proc_env = \<lparr>pe_conn = sample_conn_env, pe_htx = True, pe_write_error = False, server_redirect = (\<lambda>c. c)\<rparr>"

definition sample_waiting :: qstate where
  "sample_waiting = fst (pendconn_add 5 (Some 7) 3 (bs_q sample_backend))"

lemma steady_local:
  "state_ok linv (cn_q c) \<Longrightarrow> cn_b c' = cn_b c \<Longrightarrow> conn_retries (cn_si c') = conn_retries (cn_si c) \<Longrightarrow> steady linv s c c'"
  by (simp add: steady_def fresh_kept_def ctx_kept_def)

lemma sample_proc_ok:
  "proc_ok linv s sample_proc_env" "be_take (ce_be (pe_conn sample_proc_env)) = fas_conn" "be_drop (ce_be (pe_conn sample_proc_env)) = fas_conn"
  "fresh_alloc (ce_be (pe_conn sample_proc_env)) (cn_q (sample_conn st fl))"
  "st \<in> {SI_ST_REQ, SI_ST_CON} \<Longrightarrow> si_ok http fas_conn fas_conn fas_refs 3 (sample_conn st fl)"
proof -
  have "interval_ok sample_conn_env" by code_simp
  then show "proc_ok linv s sample_proc_env" by (auto simp: proc_ok_def sample_proc_env_def sample_conn_env_def intro: steady_local)
  show "be_take (ce_be (pe_conn sample_proc_env)) = fas_conn" "be_drop (ce_be (pe_conn sample_proc_env)) = fas_conn"
    by (simp_all add: sample_proc_env_def sample_conn_env_def sample_be_env_def)
  show "fresh_alloc (ce_be (pe_conn sample_proc_env)) (cn_q (sample_conn st fl))"
    using sample_backend_start(2) by (simp add: may_ask_def ask_ready_def sample_proc_env_def sample_conn_env_def sample_conn_def Let_def)
  have ok: "state_ok fas_refs (bs_q sample_backend)"
    using lb_backend.bk_reachable_state [OF known_algorithm_ok sample_backend_start(1)] by (simp add: known_algorithm_def)
  have "0 \<le>s (3 :: c_int)" by (simp add: word_sle_eq)
  then show "si_ok http fas_conn fas_conn fas_refs 3 (sample_conn st fl)" if "st \<in> {SI_ST_REQ, SI_ST_CON}"
    using that ok sample_backend_start(2) fas_lb.safe by (auto simp: si_ok_def place_ok_def may_ask_def ask_ready_def sample_conn_def Let_def)
qed

text \<open>(C13) The scope is a backend under first-available balancing, static round robin or a hash into the map
  (the algorithms that consult the whitelist and consistent hashing are outside it), a stream with an HTTP
  transaction, an allocator that gives a spare byte for the write of \<^verbatim>\<open>fetchMethod\<close> past its block, an
  interval of \<^verbatim>\<open>option redispatch\<close> that is not minus the number of retries minus one, and
  \<^verbatim>\<open>connect_server\<close> and \<^verbatim>\<open>http_perform_server_redirect\<close> that keep the backend, the place of the
  stream and its retries. In that scope the loop of \<^verbatim>\<open>process_stream\<close> that asks for a server and connects to
  it ends, after at most two rounds more than there are retries, whatever the servers answer: the stream then waits
  in a queue or for its next retry, has a pending or established connection, or is closed, and queues, slots and
  stream are consistent.\<close>

theorem connect_loop_ends:
  assumes "known_algorithm tcb dcb linv" and "si_ok True tcb dcb linv s c" and "be_take (ce_be (pe_conn env)) = tcb"
    and "be_drop (ce_be (pe_conn env)) = dcb" and "proc_ok linv s env" and "spare_byte (be_malloc (ce_be (pe_conn env)))"
    and "fresh_alloc (ce_be (pe_conn env)) (cn_q c)"
    and "si_st (cn_si c) \<in> {SI_ST_REQ, SI_ST_ASS, SI_ST_QUE, SI_ST_TAR}" and "nat (sint (conn_retries (cn_si c))) + 2 \<le> n"
  shows "\<exists>c'. connect_loop n env rq s c = Some (Inr c') \<and> si_ok True tcb dcb linv s c' \<and>
    si_st (cn_si c') \<in> {SI_ST_QUE, SI_ST_TAR, SI_ST_CON, SI_ST_RDY, SI_ST_EST, SI_ST_DIS, SI_ST_CLO}"
  by (rule lb_backend.connect_loop_ok [OF known_algorithm_ok [OF assms(1)] assms(2-8)]) (use assms(9) in simp)

theorem connect_loop_ends_witness:
  "\<exists>c'. connect_loop 5 sample_proc_env sample_request 3 (sample_conn SI_ST_REQ 0) = Some (Inr c') \<and> si_ok True fas_conn fas_conn fas_refs 3 c' \<and>
     si_st (cn_si c') \<in> {SI_ST_QUE, SI_ST_TAR, SI_ST_CON, SI_ST_RDY, SI_ST_EST, SI_ST_DIS, SI_ST_CLO}"
  by (rule connect_loop_ends [OF _ sample_proc_ok(5,2,3,1) _ sample_proc_ok(4)])
     (simp_all add: known_algorithm_def sample_conn_def spare_byte_def sample_proc_env_def sample_conn_env_def sample_be_env_def)

text \<open>(C7) Bringing the server side of a consistent stream up to date, in any state but the transient
  \<^verbatim>\<open>SI_ST_CER\<close>, for the callbacks of every algorithm and for HTTP and TCP streams, leaves a consistent stream and returns, provided no server has weight 0 under least-connection balancing, the
  interval of \<^verbatim>\<open>option redispatch\<close> is not minus the number of retries minus one, and the request channel is
  not shut for writing yet (\<^verbatim>\<open>CF_SHUTW\<close> is clear). Of the transient states none but a request for a server
  remains: a failed connection is retried or closed, and a stream with a server that ends up closed, after a
  pending, a ready or a broken connection, has given its slot back.\<close>

theorem resync_stream_interface_ok:
  assumes "known_callbacks tcb dcb linv" and "si_ok http tcb dcb linv s c" and "be_take (ce_be (pe_conn env)) = tcb"
    and "be_drop (ce_be (pe_conn env)) = dcb" and "interval_ok (pe_conn env)" and "si_st (cn_si c) \<noteq> SI_ST_CER" and "cn_req c AND CF_SHUTW = 0"
  shows "\<exists>c'. resync_stream_interface env s c = Inr c' \<and> si_ok http tcb dcb linv s c' \<and> si_st (cn_si c') \<notin> {SI_ST_CER, SI_ST_RDY, SI_ST_DIS} \<and>
    (si_st (cn_si c) \<in> {SI_ST_CON, SI_ST_RDY, SI_ST_DIS} \<and> strm_target (qs_strm (cn_q c) s) \<noteq> None \<and> si_st (cn_si c') = SI_ST_CLO \<longrightarrow>
      srv_conn (qs_strm (cn_q c') s) = None) \<and>
    (si_st (cn_si c) = SI_ST_DIS \<longrightarrow> si_st (cn_si c') = SI_ST_CLO)"
proof -
  note alg = known_callbacks_ok [OF assms(1)]
  obtain c1 where c1: "update_connection env s c = Inr c1" "si_ok http tcb dcb linv s c1"
      "if si_st (cn_si c) \<in> {SI_ST_CON, SI_ST_RDY} then si_st (cn_si c1) \<notin> {SI_ST_CER, SI_ST_RDY} \<and>
         (si_st (cn_si c1) = SI_ST_CLO \<longrightarrow> srv_conn (qs_strm (cn_q c1) s) = None) \<and>
         (si_st (cn_si c1) = SI_ST_DIS \<longrightarrow> strm_target (qs_strm (cn_q c1) s) = strm_target (qs_strm (cn_q c) s))
       else c1 = c"
    using lb_conn.update_connection_ok [OF alg assms(2-7)] by blast
  show ?thesis
  proof (cases "si_st (cn_si c1) = SI_ST_DIS")
    case True
    then show ?thesis using lb_conn.close_connection_ok [OF alg c1(2) assms(3,4)] c1 by (auto simp: resync_stream_interface_def split: if_splits)
  next
    case False
    then show ?thesis using c1 assms(6) by (auto simp: resync_stream_interface_def close_connection_def split: if_splits)
  qed
qed

text \<open>A stream with a pending connection to its server, under least-connection balancing: it holds the one slot in
  use, and the client gives up.\<close>

definition sample_pending :: cstate where
  "sample_pending = (sample_conn SI_ST_CON 0)\<lparr>cn_b := sample_backend\<lparr>bs_q :=
     projr (sess_change_server (ce_be sample_fwlc_env) 3 (Some 1)
       (upd_strm 3 (\<lambda>x. x\<lparr>strm_target := Some 1, strm_flags := SF_ASSIGNED\<rparr>) (bs_q sample_backend)))\<rparr>,
     cn_res := CF_SHUTW\<rparr>"

theorem resync_stream_interface_ok_witness:
  "\<exists>c'. resync_stream_interface (sample_proc_env\<lparr>pe_conn := sample_fwlc_env\<rparr>) 3 sample_pending = Inr c' \<and>
     si_ok False (Some fwlc_srv_reposition) (Some fwlc_srv_reposition) (\<lambda>_. True) 3 c' \<and>
     srv_conn (qs_strm (cn_q sample_pending) 3) = Some 1 \<and> si_st (cn_si c') = SI_ST_CLO \<and> srv_conn (qs_strm (cn_q c') 3) = None"
proof -
  let ?env = "sample_proc_env\<lparr>pe_conn := sample_fwlc_env\<rparr>"
  let ?q = "upd_strm 3 (\<lambda>x. x\<lparr>strm_target := Some 1, strm_flags := SF_ASSIGNED\<rparr>) (bs_q sample_backend)"
  have ev: "case resync_stream_interface ?env 3 sample_pending of Inr c' \<Rightarrow> si_st (cn_si c') = SI_ST_CLO | _ \<Rightarrow> False"
    by code_simp
  have q0: "length (px_srv (qs_px (bs_q sample_backend))) = 4" "pend_pos (qs_strm (bs_q sample_backend) 3) = None" by code_simp+
  have si: "si_st (cn_si sample_pending) = SI_ST_CON" "conn_retries (cn_si sample_pending) = 3" "cn_req sample_pending = 0"
    "sess_srv_list (bs_sess (cn_b sample_pending)) = []"
    by (simp_all add: sample_pending_def sample_conn_def sample_backend_def)
  note conn = known_callbacks_ok [OF sample_fwlc_ok(1)]
  have "state_ok (\<lambda>_. True) ?q" using sample_fwlc_ok(2) by (intro state_ok_upd_strm) simp_all
  moreover have "weighted (Some fwlc_srv_reposition) (Some fwlc_srv_reposition) (qs_px ?q)" using sample_fwlc_ok(3) by simp
  ultimately obtain q where q: "sess_change_server (ce_be sample_fwlc_env) 3 (Some 1) ?q = Inr q" "state_ok (\<lambda>_. True) q"
      "placed 3 (Some 1) ?q q"
    using lb_conn.sess_change_server_ok [OF conn _ _ sample_fwlc_ok(5,6), of ?q "Some 1" 3] q0 by (auto simp: upd_strm_strm)
  then have p: "cn_q sample_pending = q" by (simp add: sample_pending_def)
  have s: "srv_conn (qs_strm q 3) = Some 1" "strm_target (qs_strm q 3) = Some 1" "pend_pos (qs_strm q 3) = None"
      "length (px_srv (qs_px q)) = 4"
    using q(3) q0 by (auto simp: placed_def upd_strm_strm weights_same_def)
  have "(0 :: c_int) \<le>s 3" by (simp add: word_sle_eq)
  moreover have "weighted (Some fwlc_srv_reposition) (Some fwlc_srv_reposition) (qs_px q)"
    by (rule weighted_same [OF _ sample_fwlc_ok(3)]) (use q(3) in \<open>simp add: placed_def\<close>)
  ultimately have "si_ok False (Some fwlc_srv_reposition) (Some fwlc_srv_reposition) (\<lambda>_. True) 3 sample_pending"
    using q(2) s si p by (simp add: si_ok_def place_ok_def Let_def)
  from resync_stream_interface_ok [OF sample_fwlc_ok(1) this, of ?env] show ?thesis
    using ev si s p sample_fwlc_ok(4-6) by (auto split: sum.splits)
qed

text \<open>Closing a connection to a server of weight 0 that has others.\<close>

lemma close_drained:
  assumes "srv_conn (qs_strm q s) = Some i" and "strm_target (qs_strm q s) = Some i" and "i < length (px_srv (qs_px q))"
    and "cur_eweight (srv_at (qs_px q) i) = 0" and "srv_inflight (srv_at (qs_px q) i) \<noteq> 1" and "si_st (cn_si c) = SI_ST_DIS"
    and "be_drop (ce_be (pe_conn env)) = Some fwlc_srv_reposition"
  shows "resync_stream_interface env s (set_q q c) = Inl DivideByZero"
proof -
  let ?c = "end_curr_sess s i (upd_si (\<lambda>si. si\<lparr>si_st := SI_ST_CLO\<rparr>) (set_q q c))"
  have x: "srv_conn (qs_strm (cn_q ?c) s) = Some i" using assms(1) by (simp add: end_curr_sess_def Let_def upd_strm_strm)
  have y: "srv_inflight (srv_at (qs_px (cn_q ?c)) i) = srv_inflight (srv_at (qs_px q) i)" "cur_eweight (srv_at (qs_px (cn_q ?c)) i) = 0"
      "i < length (px_srv (qs_px (cn_q ?c)))"
    using assms(3,4) by (simp_all add: end_curr_sess_def Let_def srv_inflight_def)
  have "cur_eweight (srv_at (qs_px (add_served (-1) i (cn_q ?c))) i) = 0" using y(2,3) by (simp add: add_served_def Let_def)
  moreover have "srv_inflight (srv_at (qs_px (add_served (-1) i (cn_q ?c))) i) = srv_inflight (srv_at (qs_px (cn_q ?c)) i) - 1"
    using y(3) by (simp add: add_served_def Let_def srv_inflight_def)
  ultimately have "release_and_offer (ce_be (pe_conn env)) s ?c = Inl DivideByZero"
    using x y assms(5,7) by (simp add: release_and_offer_def sess_change_server_def run_cb_def fwlc_srv_reposition_def Let_def)
  then show ?thesis using assms(2,6) by (simp add: resync_stream_interface_def update_connection_def close_connection_def)
qed

text \<open>(C39) Under least-connection balancing, setting the weight of a server to 0 while it has more than one
  connection in flight stops the process: the next stream that closes its connection to the server gives its slot
  back, and \<^verbatim>\<open>fwlc_srv_reposition\<close> divides by the weight before it looks whether the server is in a tree.
  Here \<open>e\<close> is the change of the weight as the balancing code handles it.\<close>

theorem drained_server_crash:
  assumes "ev_call e = Update_server_eweight" and "ev_eweight e = 0" and "ev_srv e < length (px_srv (qs_px (cn_q c)))"
    and "srv_conn (qs_strm (cn_q c) s) = Some (ev_srv e)" and "strm_target (qs_strm (cn_q c) s) = Some (ev_srv e)"
    and "srv_inflight (srv_at (qs_px (cn_q c)) (ev_srv e)) \<noteq> 1" and "si_st (cn_si c) = SI_ST_DIS"
    and "be_drop (ce_be (pe_conn env)) = Some fwlc_srv_reposition"
  shows "resync_stream_interface env s (set_q ((cn_q c)\<lparr>qs_px := run_event fwlc_cb e (qs_px (cn_q c))\<rparr>) c) = Inl DivideByZero"
  by (rule close_drained [where i = "ev_srv e"]) (use fwlc_drained [OF assms(3,1,2)] assms in simp_all)

theorem drained_server_crash_witness:
  "let e = \<lparr>ev_call = Update_server_eweight, ev_srv = 1, ev_state = SRV_ST_RUNNING, ev_admin = 0, ev_eweight = 0\<rparr>;
       c = (sample_conn SI_ST_DIS 0)\<lparr>cn_b := sample_backend\<lparr>bs_q :=
             (bs_q sample_backend)\<lparr>qs_px := upd_srv 1 (\<lambda>s. s\<lparr>served := 2\<rparr>) (qs_px (bs_q sample_backend)),
               qs_strm := (\<lambda>t. sample_stream\<lparr>strm_target := Some 1, srv_conn := if t \<in> {3, 4} then Some 1 else None\<rparr>)\<rparr>\<rparr>\<rparr>
   in resync_stream_interface (sample_proc_env\<lparr>pe_conn := sample_fwlc_env\<rparr>) 3
        (set_q ((cn_q c)\<lparr>qs_px := run_event fwlc_cb e (qs_px (cn_q c))\<rparr>) c) = Inl DivideByZero"
proof -
  have "1 < length (px_srv (qs_px (bs_q sample_backend)))" "q_length (srv_queue (srv_at (qs_px (bs_q sample_backend)) 1)) = 0" by code_simp+
  then show ?thesis unfolding Let_def
    by (intro drained_server_crash) (simp_all add: sample_conn_def sample_stream_def sample_fwlc_ok(6) srv_inflight_def)
qed

text \<open>(C38) A stream that a server takes from the queue of the proxy when it comes up (the step
  \<^verbatim>\<open>pendconn_grab_from_px\<close> makes for each stream) goes on to connect to that server without a slot:
  \<^verbatim>\<open>served\<close> does not count it, neither when it is taken nor when it leaves the queue, so that the limit
  \<^verbatim>\<open>maxconn\<close> of the server does not see it.\<close>

theorem grabbed_stream_without_slot:
  assumes "pend_pos (qs_strm q s) = Some p" and "qs_pend q p = Some pc" and "pc_strm pc = s" and "pc_queue pc = None"
    and "srv_conn (qs_strm q s) = None" and "cn_q c = grab_one (k, p) pc i q"
  shows "\<exists>c'. try_queued env s c = Inr c' \<and> si_st (cn_si c') = SI_ST_ASS \<and> strm_target (qs_strm (cn_q c') s) = Some i \<and>
    srv_conn (qs_strm (cn_q c') s) = None \<and> (\<forall>j. served (srv_at (qs_px (cn_q c')) j) = served (srv_at (qs_px q) j))"
proof -
  have "(x OR SF_ASSIGNED) AND SF_ASSIGNED \<noteq> (0 :: u32)" for x by (simp add: word_ao_absorbs)
  moreover have "\<not> eb32_in_tree p (eb32_delete p t)" for t by (auto simp: eb32_in_tree_iff eb32_delete_def eb_nodes_def)
  ultimately show ?thesis using assms
    by (auto simp: try_queued_def pendconn_dequeue_def with_pend_def Let_def grab_one_def pendconn_unlink_prx_def upd_strm_strm task_wakeup_def
        upd_queue_def upd_pend_def queue_at_def)
qed

theorem grabbed_stream_without_slot_witness:
  "\<exists>c'. try_queued sample_conn_env 3 (set_q (grab_one (0, 7) (the (qs_pend sample_waiting 7)) 1 sample_waiting) (sample_conn SI_ST_QUE 0)) = Inr c' \<and>
     si_st (cn_si c') = SI_ST_ASS \<and> strm_target (qs_strm (cn_q c') 3) = Some 1 \<and> srv_conn (qs_strm (cn_q c') 3) = None"
proof -
  have "pend_pos (qs_strm sample_waiting 3) = Some 7" "srv_conn (qs_strm sample_waiting 3) = None" by code_simp+
  moreover have "case qs_pend sample_waiting 7 of Some pc \<Rightarrow> pc_strm pc = 3 \<and> pc_queue pc = None | None \<Rightarrow> False" by code_simp
  then obtain pc where "qs_pend sample_waiting 7 = Some pc" "pc_strm pc = 3" "pc_queue pc = None" by (auto split: option.splits)
  ultimately show ?thesis
    using grabbed_stream_without_slot [of sample_waiting 3 7 pc "set_q (grab_one (0, 7) pc 1 sample_waiting) (sample_conn SI_ST_QUE 0)" 0 1 sample_conn_env]
    by auto
qed

end
