(* ===== verification/Chash_Lookup.thy ===== *)
theory Chash_Lookup
  imports Lb_Chash
begin

text \<open>
  The lookups of consistent hashing: which server a hash is mapped to, that the mapping is stable
  when other servers leave, that bounded loads always leave an eligible server, and the round robin
  over the occurrences.
\<close>

section \<open>The ring\<close>

text \<open>The nodes of a tree in clockwise order from a hash.\<close>

definition ring :: "u32 \<Rightarrow> tree_occ eb_root \<Rightarrow> tree_occ eb_root" where
  "ring h t = dropWhile (\<lambda>e. fst e < h) t @ takeWhile (\<lambda>e. fst e < h) t"

definition ring_dist :: "u32 \<Rightarrow> u32 \<Rightarrow> u32" where
  "ring_dist h k = min (h - k) (k - h)"

lemma set_ring [simp]: "set (ring h t) = set t"
proof -
  have "set t = set (takeWhile (\<lambda>e. fst e < h) t @ dropWhile (\<lambda>e. fst e < h) t)" by simp
  then show ?thesis unfolding ring_def set_append by blast
qed

lemma ring_Nil_iff [simp]: "ring h t = [] \<longleftrightarrow> t = []"
  by (metis set_empty set_ring)

lemma lookup_ge_dropWhile: "eb32_lookup_ge h t = eb32_first (dropWhile (\<lambda>e. fst e < h) t)"
  by (induction t) (auto simp: eb32_lookup_ge_def eb32_first_def not_le)

lemma eb32_prev_split:
  assumes "distinct (eb_nodes (a @ e # b))"
  shows "eb32_prev (snd e) (a @ e # b) = eb32_last a"
proof -
  have "\<forall>x \<in> set a. snd x \<noteq> snd e"
    using assms unfolding eb_nodes_def by (simp add: image_iff) metis
  then have "takeWhile (\<lambda>x. snd x \<noteq> snd e) (a @ e # b) = a"
    by (simp add: takeWhile_append2)
  then show ?thesis by (simp add: eb32_prev_def)
qed

text \<open>The start node is the first or the last one of the ring.\<close>

lemma ch_locate_ring:
  assumes "eb_ordered t"
  shows "ch_locate h t =
    (if t = [] then None
     else Some (if h - fst (last (ring h t)) \<le> fst (hd (ring h t)) - h then last (ring h t) else hd (ring h t)))"
proof (cases "t = []")
  case True
  then show ?thesis by (simp add: ch_locate_def eb32_lookup_ge_def eb32_first_def)
next
  case False
  define a b where "a = takeWhile (\<lambda>e. fst e < h) t" and "b = dropWhile (\<lambda>e. fst e < h) t"
  have t: "t = a @ b" and r: "ring h t = b @ a" by (simp_all add: a_def b_def ring_def)
  have d: "distinct (eb_nodes (a @ b))" using assms t by (simp add: eb_ordered_def)
  have lk: "eb32_lookup_ge h t = eb32_first b" by (simp add: lookup_ge_dropWhile b_def)
  have nx: "(case eb32_lookup_ge h t of None \<Rightarrow> eb32_first t | Some e \<Rightarrow> Some e) = Some (hd (ring h t))"
    unfolding lk r using False t by (cases b; cases a) (simp_all add: eb32_first_def)
  have "eb32_prev (snd (hd (ring h t))) t = (if b = [] then None else eb32_last a)"
  proof (cases b)
    case Nil
    with t False obtain e a' where "a = e # a'" by (cases a) auto
    then show ?thesis using eb32_prev_split [of "[]" e a'] d t r Nil by (simp add: eb32_last_def)
  next
    case (Cons e b')
    then show ?thesis using eb32_prev_split [of a e b'] d t r by simp
  qed
  then have pv: "(case eb32_prev (snd (hd (ring h t))) t of None \<Rightarrow> the (eb32_last t) | Some e \<Rightarrow> e) = last (ring h t)"
    using False t r by (auto simp: eb32_last_def)
  show ?thesis using False unfolding ch_locate_def nx option.case pv Let_def by simp
qed

lemma clockwise_order:
  "x \<le> y \<Longrightarrow> y < h \<Longrightarrow> x - h \<le> y - h" "h \<le> x \<Longrightarrow> x \<le> y \<Longrightarrow> x - h \<le> y - h"
  "h \<le> x \<Longrightarrow> y < h \<Longrightarrow> x - h \<le> y - h" for x y h :: u32
  by uint_arith+

lemma ring_sorted:
  assumes "eb_ordered t"
  shows "sorted (map (\<lambda>e. fst e - h) (ring h t))"
proof -
  have "sorted_wrt (\<lambda>x y. fst x - h \<le> fst y - h) (ring h t)"
  proof -
    have s: "sorted_wrt (\<lambda>x y. fst x \<le> fst y) t"
      using assms by (simp add: eb_ordered_def sorted_map)
    have lt: "\<forall>e \<in> set (takeWhile (\<lambda>e. fst e < h) t). fst e < h" by (auto dest: set_takeWhileD)
    have ge: "\<forall>e \<in> set (dropWhile (\<lambda>e. fst e < h) t). h \<le> fst e"
      using s
    proof (induction t)
      case (Cons a t)
      then have "\<forall>e \<in> set t. fst a \<le> fst e" by simp
      with Cons show ?case by (cases "fst a < h") (simp_all add: not_less, meson order_trans)
    qed simp
    have "sorted_wrt (\<lambda>x y. fst x \<le> fst y) (takeWhile (\<lambda>e. fst e < h) t @ dropWhile (\<lambda>e. fst e < h) t)"
      using s by (simp only: takeWhile_dropWhile_id)
    then have sw: "sorted_wrt (\<lambda>x y. fst x \<le> fst y) (takeWhile (\<lambda>e. fst e < h) t)"
      "sorted_wrt (\<lambda>x y. fst x \<le> fst y) (dropWhile (\<lambda>e. fst e < h) t)"
      unfolding sorted_wrt_append by blast+
    have "sorted_wrt (\<lambda>x y. fst x - h \<le> fst y - h) (takeWhile (\<lambda>e. fst e < h) t)"
      by (rule sorted_wrt_mono_rel [OF _ sw(1)]) (use lt clockwise_order(1) in blast)
    moreover have "sorted_wrt (\<lambda>x y. fst x - h \<le> fst y - h) (dropWhile (\<lambda>e. fst e < h) t)"
      by (rule sorted_wrt_mono_rel [OF _ sw(2)]) (use ge clockwise_order(2) in blast)
    moreover have "\<forall>x \<in> set (dropWhile (\<lambda>e. fst e < h) t). \<forall>y \<in> set (takeWhile (\<lambda>e. fst e < h) t). fst x - h \<le> fst y - h"
      using lt ge clockwise_order(3) by blast
    ultimately show ?thesis unfolding ring_def sorted_wrt_append by blast
  qed
  then show ?thesis by (simp add: sorted_map)
qed

lemma ring_filter:
  assumes "eb_ordered t"
  shows "ring h (filter P t) = filter P (ring h t)"
proof -
  have "sorted (map fst t)" using assms by (simp add: eb_ordered_def)
  then have "takeWhile (\<lambda>e. fst e < h) (filter P t) = filter P (takeWhile (\<lambda>e. fst e < h) t) \<and>
      dropWhile (\<lambda>e. fst e < h) (filter P t) = filter P (dropWhile (\<lambda>e. fst e < h) t)"
  proof (induction t)
    case (Cons a t)
    then have gt: "\<forall>e \<in> set t. fst a \<le> fst e" by simp
    show ?case
    proof (cases "fst a < h")
      case False
      then have "\<forall>e \<in> set t. \<not> fst e < h" using gt by (meson not_less order_trans)
      then have "takeWhile (\<lambda>e. fst e < h) (filter P t) = []" "dropWhile (\<lambda>e. fst e < h) (filter P t) = filter P t"
        by (cases "filter P t"; force dest: arg_cong [where f = set])+
      with False show ?thesis by simp
    qed (use Cons in simp)
  qed simp
  then show ?thesis by (simp add: ring_def)
qed

section \<open>The nearest node\<close>

text \<open>The start node is at least distance from the hash, going either way.\<close>

lemma ch_locate_nearest:
  assumes ord: "eb_ordered t" and loc: "ch_locate h t = Some n" and e: "e \<in> set t"
  shows "n \<in> set t" and "ring_dist h (fst n) \<le> ring_dist h (fst e)"
proof -
  define f l where "f = hd (ring h t)" and "l = last (ring h t)"
  have ne: "ring h t \<noteq> []" using e by auto
  have n: "n = (if h - fst l \<le> fst f - h then l else f)"
    using loc e by (auto simp: ch_locate_ring [OF ord] f_def l_def split: if_splits)
  show "n \<in> set t" using ne hd_in_set [of "ring h t"] last_in_set [of "ring h t"] by (auto simp: n f_def l_def)
  have "fst f - h \<le> fst x - h" if "x \<in> set t" for x
    using ring_sorted [OF ord, of h] that ne by (cases "ring h t") (auto simp: f_def simp flip: set_ring [of h t])
  moreover have "fst x - h \<le> fst l - h" if "x \<in> set t" for x
  proof -
    have "x \<in> set (butlast (ring h t) @ [l])" using that ne by (simp add: l_def)
    moreover have "sorted (map (\<lambda>e. fst e - h) (butlast (ring h t) @ [l]))"
      using ring_sorted [OF ord, of h] ne by (simp add: l_def)
    ultimately show ?thesis unfolding map_append sorted_append by auto
  qed
  ultimately have b: "fst f - h \<le> fst e - h" "fst e - h \<le> fst l - h" using e by blast+
  show "ring_dist h (fst n) \<le> ring_dist h (fst e)"
    using b unfolding n ring_dist_def min_def by (auto split: if_splits) uint_arith+
qed

text \<open>Taking away nodes other than the start node does not change it, as long as no two nodes share
  a key.\<close>

lemma filter_hd_last:
  "P (hd xs) \<Longrightarrow> xs \<noteq> [] \<Longrightarrow> hd (filter P xs) = hd xs" "P (last xs) \<Longrightarrow> xs \<noteq> [] \<Longrightarrow> last (filter P xs) = last xs"
  by (cases xs; simp) (cases xs rule: rev_cases; simp)

lemma ch_locate_filter:
  assumes ord: "eb_ordered t" and d: "distinct (map fst t)" and loc: "ch_locate h t = Some n" and P: "P n"
  shows "ch_locate h (filter P t) = Some n"
proof -
  define r r' where "r = ring h t" and "r' = filter P (ring h t)"
  have r': "ring h (filter P t) = r'" by (simp add: r'_def ring_filter [OF ord])
  have ne: "r \<noteq> []" using loc by (auto simp: ch_locate_ring [OF ord] r_def)
  have nt: "n \<in> set t"
    using ch_locate_nearest(1) [OF ord loc, of "hd r"] ne hd_in_set [OF ne] by (simp add: r_def)
  then have ne': "r' \<noteq> []" using P by (auto simp: r'_def filter_empty_conv)
  have n: "n = (if h - fst (last r) \<le> fst (hd r) - h then last r else hd r)"
    using loc ne by (auto simp: ch_locate_ring [OF ord] r_def split: if_splits)
  have sr: "sorted (map (\<lambda>e. fst e - h) r)" using ring_sorted [OF ord] by (simp add: r_def)
  have mem: "hd r' \<in> set r" "last r' \<in> set r" "set r = set t"
    using hd_in_set [OF ne'] last_in_set [OF ne'] by (auto simp: r'_def r_def)
  have lo: "fst (hd r) - h \<le> fst e - h" if "e \<in> set r" for e
    using sr ne that by (cases r) auto
  have hi: "fst e - h \<le> fst (last r) - h" if "e \<in> set r" for e
    using sr ne that by (cases r rule: rev_cases) (auto simp: sorted_append)
  have inj: "e = e'" if "e \<in> set t" "e' \<in> set t" "fst e = fst e'" for e e'
    using d that by (auto simp: distinct_map inj_on_def)
  have "ch_locate h (filter P t) = Some (if h - fst (last r') \<le> fst (hd r') - h then last r' else hd r')"
    using ne' nt P unfolding ch_locate_ring [OF eb_ordered_filter [OF ord]] r' by (auto simp: filter_empty_conv)
  moreover have "(if h - fst (last r') \<le> fst (hd r') - h then last r' else hd r') = n"
  proof (cases "h - fst (last r) \<le> fst (hd r) - h")
    case True
    then have "last r' = last r" using n P ne by (simp add: r'_def r_def [symmetric] filter_hd_last)
    moreover have "fst (hd r) - h \<le> fst (hd r') - h" using lo mem by blast
    ultimately show ?thesis using True n by (simp add: order_trans)
  next
    case False
    then have hd: "hd r' = hd r" using n P ne by (simp add: r'_def r_def [symmetric] filter_hd_last)
    show ?thesis
    proof (cases "last r' = hd r")
      case True
      then show ?thesis using hd False n by simp
    next
      case ne2: False
      have "fst (last r') \<noteq> fst (hd r)" using inj ne2 mem hd_in_set [OF ne] by metis
      moreover have "fst (hd r) - h \<le> fst (last r') - h" "fst (last r') - h \<le> fst (last r) - h"
        using lo hi mem by blast+
      ultimately have "\<not> h - fst (last r') \<le> fst (hd r) - h" using False by uint_arith
      then show ?thesis using hd False n by simp
    qed
  qed
  ultimately show ?thesis by simp
qed

section \<open>Skipping servers\<close>

lemma ch_hash_loop_find:
  assumes skip: "\<And>s. s \<in> set (nsrv # ss @ all) \<Longrightarrow> skip s = Inr (\<not> ok s)"
  shows "ch_hash_loop skip nsrv ss (Some all) =
    Inr (case find ok (nsrv # ss @ all) of Some s \<Rightarrow> s | None \<Rightarrow> last (nsrv # ss @ all))"
proof -
  have once: "ch_hash_loop skip n xs None = Inr (case find ok (n # xs) of Some s \<Rightarrow> s | None \<Rightarrow> last (n # xs))"
    if "\<And>s. s \<in> set (n # xs) \<Longrightarrow> skip s = Inr (\<not> ok s)" for n xs
    using that by (induction xs arbitrary: n) (auto split: option.splits)
  show ?thesis
    using skip
  proof (induction ss arbitrary: nsrv)
    case Nil
    then show ?case using once [of "hd all" "tl all"] by (cases all) (auto split: option.splits)
  next
    case (Cons s ss)
    then show ?case by (auto split: option.splits)
  qed
qed

text \<open>A server is accepted if the whitelist names it, or if it is not the one to avoid and, with
  bounded loads, has not reached its share.\<close>

definition ch_accept :: "proxy \<Rightarrow> srv_ref option \<Rightarrow> string \<Rightarrow> srv_ref \<Rightarrow> bool" where
  "ch_accept p avoid wl j \<longleftrightarrow>
     last (the (srv_id (srv_at p j))) \<in> set wl \<or>
     (Some j \<noteq> avoid \<and> (hash_balance_factor p = 0 \<or> chash_server_is_eligible p (srv_at p j) = Inr True))"

lemma ch_skip_accept:
  assumes "srv_id (srv_at p j) = Some sid" and "sid \<noteq> []" and "hash_balance_factor p = 0 \<or> tot_weight p \<noteq> 0"
  shows "ch_skip p avoid (Some wl) j = Inr (\<not> ch_accept p avoid wl j)"
  using assms by (auto simp: ch_skip_def ch_accept_def onWhitelist_def strchr_def chash_server_is_eligible_def ch_slots_def Let_def)

section \<open>Round robin over the ring\<close>

text \<open>\<open>eb32_after n t\<close> follows \<open>n\<close>; walking on from \<open>n\<close> and around visits every node, \<open>n\<close> last.\<close>

definition ring_after :: "'n \<Rightarrow> 'n eb_root \<Rightarrow> 'n list" where
  "ring_after n t = eb_nodes (eb32_after n t) @ takeWhile (\<lambda>m. m \<noteq> n) (eb_nodes t) @ [n]"

lemma eb_nodes_split:
  assumes "n \<in> set (eb_nodes t)"
  shows "eb_nodes t = takeWhile (\<lambda>m. m \<noteq> n) (eb_nodes t) @ n # eb_nodes (eb32_after n t)"
  using assms
proof (induction t)
  case (Cons e t)
  then show ?case by (cases "snd e = n") (auto simp: eb_nodes_def eb32_after_def)
qed (simp add: eb_nodes_def)

lemma eb32_after_split:
  assumes "distinct (eb_nodes t)" and "eb_nodes t = a @ n # b"
  shows "eb_nodes (eb32_after n t) = b" "takeWhile (\<lambda>m. m \<noteq> n) (eb_nodes t) = a"
proof -
  have "n \<notin> set a" using assms by auto
  then show tw: "takeWhile (\<lambda>m. m \<noteq> n) (eb_nodes t) = a" unfolding assms(2) by (subst takeWhile_append2) auto
  show "eb_nodes (eb32_after n t) = b"
    using eb_nodes_split [of n t] assms(2) tw by simp
qed

lemma eb32_next_nodes: "map_option snd (eb32_next n t) = (case eb_nodes (eb32_after n t) of [] \<Rightarrow> None | m # _ \<Rightarrow> Some m)"
  by (cases "eb32_after n t") (simp_all add: eb32_next_def eb32_first_def eb_nodes_def)

text \<open>The node reached by one round of the loop.\<close>

definition ch_succ :: "proxy \<Rightarrow> tree_occ eb_root \<Rightarrow> tree_occ \<Rightarrow> tree_occ option" where
  "ch_succ p root n = (case ch_next p n of None \<Rightarrow> map_option snd (eb32_first root) | Some m \<Rightarrow> Some m)"

lemma first_node: "map_option snd (eb32_first t) = (case eb_nodes t of [] \<Rightarrow> None | m # _ \<Rightarrow> Some m)"
  by (cases t) (simp_all add: eb32_first_def eb_nodes_def)

lemma ch_succ_in_tree:
  assumes "distinct (eb_nodes root)" and "eb_nodes root = a @ n # b"
    and "root = (if eb32_in_tree n (chash_act p) then chash_act p else chash_bck p)"
  shows "ch_succ p root n = Some (hd (b @ a @ [n]))"
proof -
  have "ch_next p n = (case b of [] \<Rightarrow> None | m # _ \<Rightarrow> Some m)"
    unfolding ch_next_def assms(3) [symmetric] eb32_next_nodes eb32_after_split(1) [OF assms(1,2)] ..
  then show ?thesis
    using assms(2) unfolding ch_succ_def first_node by (cases b; cases a) simp_all
qed

text \<open>A walk of the loop along nodes that follow one another up to the stop node.\<close>

fun ch_chain :: "proxy \<Rightarrow> tree_occ eb_root \<Rightarrow> tree_occ \<Rightarrow> tree_occ list \<Rightarrow> bool" where
  "ch_chain p root n [] = True"
| "ch_chain p root n (m # ms) = (ch_succ p root n = Some m \<and> ch_chain p root m ms)"

declare ch_rr_loop.simps [simp del]

lemma ch_rr_loop_walk:
  assumes "ch_chain p root n ms" and "ms \<noteq> []" and "last ms = stop" and "stop \<notin> set (butlast ms)" and "length ms \<le> fuel"
  shows "\<exists>last. ch_rr_loop fuel now_sec p root av (Some n) (Some stop) avd =
    Some (tree_scan (\<lambda>s. srv_not_full now_sec p (srv_at p s)) (\<lambda>s. Some s \<noteq> av) (map_option fst avd) (map fst ms), last)"
  using assms
proof (induction ms arbitrary: fuel n avd)
  case (Cons m ms)
  then obtain f where fuel: "fuel = Suc f" by (cases fuel) auto
  have m: "ch_succ p root n = Some m" using Cons.prems(1) by simp
  let ?fit = "srv_not_full now_sec p (srv_at p (fst m))"
  have step: "ch_rr_loop (Suc f) now_sec p root av (Some n) (Some stop) avd =
      (if ?fit \<and> Some (fst m) \<noteq> av then Some (Some (fst m), Some m)
       else if m \<noteq> stop then ch_rr_loop f now_sec p root av (Some m) (Some stop) (if ?fit then Some m else avd)
       else Some (map_option fst (if ?fit then Some m else avd), if ?fit then Some m else avd))"
    using m by (simp add: ch_rr_loop.simps ch_succ_def Let_def)
  show ?case
  proof (cases ms)
    case Nil
    then show ?thesis using Cons.prems fuel by (auto simp: step)
  next
    case (Cons m' ms')
    then have ne: "m \<noteq> stop" and rest: "ch_chain p root m ms" "ms \<noteq> []" "last ms = stop" "stop \<notin> set (butlast ms)" "length ms \<le> f"
      using Cons.prems fuel by auto
    from Cons.IH [OF rest, of avd] Cons.IH [OF rest, of "Some m"] ne show ?thesis
      by (auto simp: fuel step)
  qed
qed simp

lemma ch_chain_append:
  "ch_chain p root n (xs @ ys) \<longleftrightarrow> ch_chain p root n xs \<and> ch_chain p root (if xs = [] then n else last xs) ys"
  by (induction xs arbitrary: n) auto

definition own_tree :: "proxy \<Rightarrow> tree_occ eb_root \<Rightarrow> bool" where
  "own_tree p root \<longleftrightarrow> distinct (eb_nodes root) \<and>
     (\<forall>n \<in> set (eb_nodes root). root = (if eb32_in_tree n (chash_act p) then chash_act p else chash_bck p))"

lemma ch_chain_forward:
  assumes "own_tree p root" and "eb_nodes root = a @ n # b"
  shows "ch_chain p root n b"
  using assms(2)
proof (induction b arbitrary: a n)
  case (Cons m b)
  have "ch_succ p root n = Some m"
    using ch_succ_in_tree [of root a n "m # b" p] assms(1) Cons.prems by (simp add: own_tree_def)
  with Cons.IH [of "a @ [n]" m] Cons.prems show ?case by simp
qed simp

lemma ch_chain_ring_after:
  assumes own: "own_tree p root" and n: "n \<in> set (eb_nodes root)"
  shows "ch_chain p root n (ring_after n root)"
proof -
  define a b where "a = takeWhile (\<lambda>m. m \<noteq> n) (eb_nodes root)" and "b = eb_nodes (eb32_after n root)"
  have L: "eb_nodes root = a @ n # b" using eb_nodes_split [OF n] by (simp add: a_def b_def)
  obtain h rest where h: "a @ [n] = h # rest" by (cases a) auto
  have Lh: "eb_nodes root = [] @ h # (rest @ b)" using L h by (metis append_Cons append_Nil append_assoc)
  obtain c z where z: "n # b = c @ [z]" by (cases "n # b" rule: rev_cases) auto
  then have Lz: "eb_nodes root = (a @ c) @ z # []" using L by simp
  have "ch_succ p root z = Some h"
    using ch_succ_in_tree [of root "a @ c" z "[]" p] own Lz Lh by (simp add: own_tree_def)
  moreover have "ch_chain p root h rest"
    using ch_chain_forward [OF own Lh] by (simp add: ch_chain_append)
  moreover have "z = (if b = [] then n else last b)"
    using z by (metis last_ConsL last_ConsR last_snoc)
  ultimately show ?thesis
    using ch_chain_forward [OF own L] unfolding ring_after_def a_def [symmetric] b_def [symmetric] h ch_chain_append
    by simp
qed

lemma chash_own_tree:
  assumes "chash_inv p"
  shows "own_tree p (chash_act p)" "own_tree p (chash_bck p)"
proof -
  have core: "ch_core (length (px_srv p)) p" using assms by (simp add: chash_inv_def ch_tinv_def)
  then show "own_tree p (chash_act p)" "own_tree p (chash_bck p)"
    using ch_core_nodes [OF core] by (auto simp: own_tree_def ch_core_def eb_ordered_def eb32_in_tree_iff)
qed

lemma ch_rr_full_turn:
  assumes own: "own_tree p root" and n: "n \<in> set (eb_nodes root)" and fuel: "length root \<le> fuel"
  shows "\<exists>last. ch_rr_loop fuel now_sec p root av (Some n) (Some n) None =
    Some (tree_scan (\<lambda>s. srv_not_full now_sec p (srv_at p s)) (\<lambda>s. Some s \<noteq> av) None (map fst (ring_after n root)), last)"
proof -
  have L: "eb_nodes root = takeWhile (\<lambda>m. m \<noteq> n) (eb_nodes root) @ n # eb_nodes (eb32_after n root)"
    by (rule eb_nodes_split [OF n])
  have "length root = length (eb_nodes root)" by (simp add: eb_nodes_def)
  also have "\<dots> = length (ring_after n root)"
    by (subst L) (simp add: ring_after_def)
  finally have len: "length (ring_after n root) \<le> fuel" using fuel by simp
  have "distinct (takeWhile (\<lambda>m. m \<noteq> n) (eb_nodes root) @ n # eb_nodes (eb32_after n root))"
    using own unfolding L [symmetric] by (simp add: own_tree_def)
  then have "n \<notin> set (butlast (ring_after n root))" by (auto simp: ring_after_def butlast_append)
  then show ?thesis
    using ch_rr_loop_walk [OF ch_chain_ring_after [OF own n] _ _ _ len, of n now_sec av None] by (simp add: ring_after_def)
qed

text \<open>If the last node is in the other tree, the loop leaves that tree and never comes back.\<close>

lemma ch_rr_other_tree:
  assumes inv: "chash_inv p" and n: "n \<in> set (eb_nodes (chash_bck p))" and ne: "chash_act p \<noteq> []"
    and full: "\<forall>m \<in> set (eb_nodes (chash_act p)) \<union> set (eb_nodes (chash_bck p)). \<not> srv_not_full now_sec p (srv_at p (fst m))"
    and m: "m = n \<or> m \<in> set (eb_nodes (chash_act p)) \<union> set (eb_nodes (eb32_after n (chash_bck p)))"
  shows "ch_rr_loop fuel now_sec p (chash_act p) av (Some m) (Some n) avd = None"
  using m
proof (induction fuel arbitrary: m avd)
  case 0
  then show ?case by (simp add: ch_rr_loop.simps)
next
  case (Suc fuel)
  let ?A = "set (eb_nodes (chash_act p))" and ?B = "set (eb_nodes (eb32_after n (chash_bck p)))"
  note own = chash_own_tree [OF inv]
  have L: "eb_nodes (chash_bck p) = takeWhile (\<lambda>m. m \<noteq> n) (eb_nodes (chash_bck p)) @ n # eb_nodes (eb32_after n (chash_bck p))"
    by (rule eb_nodes_split [OF n])
  have "distinct (takeWhile (\<lambda>m. m \<noteq> n) (eb_nodes (chash_bck p)) @ n # eb_nodes (eb32_after n (chash_bck p)))"
    using own(2) unfolding L [symmetric] by (simp add: own_tree_def)
  then have nB: "n \<notin> ?B" by simp
  have core: "ch_core (length (px_srv p)) p" using inv by (simp add: chash_inv_def ch_tinv_def)
  have nA: "n \<notin> ?A" using n ch_core_nodes [OF core, of n] by auto
  have sub: "?B \<subseteq> set (eb_nodes (chash_bck p))"
    by (subst L) auto
  have after: "m' \<in> ?A \<union> ?B" if "ch_next p m = Some m'" for m'
  proof (cases "m \<in> ?A")
    case True
    then have "m' \<in> ?A"
      using that eb32_next_in [of m "chash_act p"] by (force simp: ch_next_def eb32_in_tree_iff set_eb_nodes)
    then show ?thesis by blast
  next
    case False
    have B: "m = n \<or> m \<in> ?B" using Suc.prems False by blast
    have "m' \<in> set (eb_nodes (eb32_after m (chash_bck p)))"
      using that False eb32_next_nodes [of m "chash_bck p"] by (auto simp: ch_next_def eb32_in_tree_iff split: list.splits)
    moreover have "set (eb_nodes (eb32_after m (chash_bck p))) \<subseteq> ?B"
    proof (cases "m = n")
      case False
      with B obtain c d where cd: "eb_nodes (eb32_after n (chash_bck p)) = c @ m # d" by (meson split_list)
      have "eb_nodes (eb32_after m (chash_bck p)) = d"
        using own(2) L cd by (intro eb32_after_split(1) [of _ "takeWhile (\<lambda>m. m \<noteq> n) (eb_nodes (chash_bck p)) @ n # c"])
          (simp_all add: own_tree_def)
      with cd show ?thesis by auto
    qed simp
    ultimately show ?thesis by blast
  qed
  have "map_option snd (eb32_first (chash_act p)) = Some (hd (eb_nodes (chash_act p)))" "hd (eb_nodes (chash_act p)) \<in> ?A"
    using ne by (cases "chash_act p"; simp add: first_node eb_nodes_def)+
  with after obtain m' where m': "ch_succ p (chash_act p) m = Some m'" "m' \<in> ?A \<union> ?B"
    by (cases "ch_next p m") (auto simp: ch_succ_def)
  have "m' \<noteq> n" using m'(2) nA nB by blast
  moreover have "\<not> srv_not_full now_sec p (srv_at p (fst m'))"
    using full m'(2) sub by blast
  ultimately show ?case
    using m' Suc.IH [of m' avd] by (simp add: ch_rr_loop.simps ch_succ_def Let_def)
qed

section \<open>Bounded loads\<close>

text \<open>The share of a server of weight \<open>e\<close> before which the servers weigh \<open>c\<close>, of \<open>T\<close> slots for a
  total weight \<open>W\<close>.\<close>

definition share :: "nat \<Rightarrow> nat \<Rightarrow> nat \<Rightarrow> nat \<Rightarrow> nat" where
  "share T W c e = e * (T div W) + ((c + e) * (T mod W) div W - c * (T mod W) div W)"

lemma ch_slots_share:
  assumes "tot_weight p = of_nat W" "0 < W" "W * W \<le> 2 ^ 32" "unat (cumulative_weight s) + unat (cur_eweight s) \<le> W"
    and T: "word_of_int (sint ((px_served p + 1) * hash_balance_factor p + 99) sdiv 100) = (of_nat T :: u32)" "T < 2 ^ 32"
  shows "\<exists>sl. ch_slots p s = Inr sl \<and> share T W (unat (cumulative_weight s)) (unat (cur_eweight s)) \<le> unat sl"
proof -
  define c e where "c = cumulative_weight s" and "e = cur_eweight s"
  have W32: "W < 2 ^ 32"
  proof (rule ccontr)
    assume "\<not> W < 2 ^ 32"
    then have "2 ^ 32 * 2 ^ 32 \<le> W * W" by (intro mult_le_mono) simp_all
    with assms(3) show False by simp
  qed
  have uW: "unat (tot_weight p) = W" "tot_weight p \<noteq> 0"
    using assms(1,2) W32 by (auto simp: unat_of_nat simp flip: unat_eq_0)
  have uT: "unat (of_nat T :: u32) = T" using T(2) by (simp add: unat_of_nat)
  define q r where "q = (of_nat T :: u32) div tot_weight p" and "r = (of_nat T :: u32) mod tot_weight p"
  have qr: "unat q = T div W" "unat r = T mod W"
    by (simp_all add: q_def r_def unat_div_distrib unat_mod_distrib uW uT)
  have "unat e \<le> W" using assms(4) by (simp add: e_def)
  then have eq: "unat e * (T div W) \<le> T"
    by (meson mult_le_mono1 order_trans times_div_less_eq_dividend)
  then have u1: "unat (e * q) = unat e * (T div W)"
    using T(2) by (subst unat_mult_lem [THEN iffD1]) (simp_all add: qr)
  have ce: "unat (c + e) = unat c + unat e"
    using assms(4) W32 by (subst unat_add_lem [THEN iffD1]) (simp_all add: c_def e_def)
  have rW: "T mod W < W" using assms(2) by simp
  have lt: "x * (T mod W) < 2 ^ 32" if "x \<le> W" for x
  proof -
    have "x * (T mod W) \<le> W * (T mod W)" by (rule mult_le_mono1 [OF that])
    also have "\<dots> < W * W" using rW assms(2) by simp
    finally show ?thesis using assms(3) by simp
  qed
  have um: "unat (x * r) = unat x * (T mod W)" if "unat x \<le> W" for x
    using lt [OF that] by (subst unat_mult_lem [THEN iffD1]) (simp_all add: qr)
  have u2: "unat ((c + e) * r) = (unat c + unat e) * (T mod W)" "unat (c * r) = unat c * (T mod W)"
    using um [of "c + e"] um [of c] assms(4) unfolding ce by (simp_all add: c_def e_def)
  have mono: "unat c * (T mod W) div W \<le> (unat c + unat e) * (T mod W) div W"
    by (intro div_le_mono mult_le_mono1) simp
  have u3: "unat ((c + e) * r div tot_weight p - c * r div tot_weight p) =
      (unat c + unat e) * (T mod W) div W - unat c * (T mod W) div W"
    using mono by (subst unat_sub) (simp_all add: word_le_nat_alt unat_div_distrib u2 uW)
  define d where "d = (unat c + unat e) * (T mod W) div W - unat c * (T mod W) div W"
  have "d \<le> T mod W"
  proof -
    have "(unat c + unat e) * (T mod W) div W \<le> W * (T mod W) div W"
      using assms(4) by (intro div_le_mono mult_le_mono1) (simp add: c_def e_def)
    then show ?thesis using assms(2) by (simp add: d_def)
  qed
  moreover have "unat e * (T div W) \<le> W * (T div W)"
    using assms(4) by (intro mult_le_mono1) (simp add: c_def e_def)
  ultimately have "unat e * (T div W) + d \<le> T"
    using mult_div_mod_eq [of W T] by linarith
  then have "unat (e * q + ((c + e) * r div tot_weight p - c * r div tot_weight p)) = unat e * (T div W) + d"
    using T(2) by (subst unat_add_lem [THEN iffD1]) (simp_all add: u1 u3 d_def)
  then show ?thesis
    using uW(2) unfolding ch_slots_def T(1) Let_def q_def r_def c_def e_def d_def share_def
    by (auto simp: word_of_nat_eq_0_iff)
qed

lemma share_sum:
  fixes e :: "nat \<Rightarrow> nat"
  assumes "finite S" and W: "(\<Sum>j \<in> S. e j) = W" "0 < W" and S: "S \<subseteq> {..<n}"
  shows "(\<Sum>j \<in> S. share T W (\<Sum>i \<in> S \<inter> {..<j}. e i) (e j)) = T"
proof -
  define cum where "cum k = (\<Sum>i \<in> S \<inter> {..<k}. e i)" for k
  define F where "F k = cum k * (T mod W) div W" for k
  have cum_Suc: "cum (Suc j) = cum j + (if j \<in> S then e j else 0)" for j
    using assms(1) by (simp add: cum_def lessThan_Suc Int_insert_right)
  have mono: "F j \<le> F (Suc j)" for j
    unfolding F_def by (intro div_le_mono mult_le_mono1) (simp add: cum_Suc)
  have "(\<Sum>j \<in> S. int (F (Suc j)) - int (F j)) = (\<Sum>j < n. int (F (Suc j)) - int (F j))"
    using S by (intro sum.mono_neutral_left) (auto simp: F_def cum_Suc)
  also have "\<dots> = int (F n) - int (F 0)" by (rule sum_lessThan_telescope)
  also have "\<dots> = int (T mod W)"
  proof -
    have "S \<inter> {..<n} = S" using S by blast
    then show ?thesis using W by (simp add: F_def cum_def)
  qed
  finally have "int (\<Sum>j \<in> S. F (Suc j) - F j) = int (T mod W)"
    by (simp add: of_nat_diff mono)
  then have tel: "(\<Sum>j \<in> S. F (Suc j) - F j) = T mod W" by (simp only: of_nat_eq_iff)
  have "(\<Sum>j \<in> S. share T W (cum j) (e j)) = (\<Sum>j \<in> S. e j * (T div W)) + (\<Sum>j \<in> S. F (Suc j) - F j)"
    by (simp add: sum.distrib [symmetric] share_def F_def cum_Suc)
  also have "\<dots> = W * (T div W) + T mod W" using tel W(1) by (simp add: sum_distrib_right [symmetric])
  finally show ?thesis by (simp add: cum_def)
qed

section \<open>Status changes and lookups over time\<close>

text \<open>The callbacks as \<^verbatim>\<open>server.c\<close> calls them; a fault is a result.\<close>

definition chash_call :: "(u32 \<Rightarrow> bool) \<Rightarrow> lb_callback \<Rightarrow> srv_ref \<Rightarrow> proxy \<Rightarrow> proxy c_result" where
  "chash_call alloc c i p = (case c of
     Set_server_status_up \<Rightarrow> chash_set_server_status_up alloc i p
   | Set_server_status_down \<Rightarrow> chash_set_server_status_down i p
   | Update_server_eweight \<Rightarrow> chash_update_server_weight alloc i p)"

text \<open>A step of the backend: a valid change of a server, during which allocations may fail, a round-robin
  lookup, which moves \<^verbatim>\<open>chash.last\<close> (\<open>None\<close> if it does not end within the fuel), or a change of
  the load of a server.\<close>

inductive chash_step :: "proxy \<Rightarrow> proxy c_result option \<Rightarrow> bool" where
  ch_change: "ev_valid e p \<Longrightarrow> chash_step p (Some (chash_call alloc (ev_call e) (ev_srv e) (upd_srv (ev_srv e) (set_pending e) p)))"
| ch_lookup: "chash_step p (map_option (\<lambda>(p, srv). Inr p) (chash_get_next_server fuel now_sec p srvtoavoid))"
| ch_load: "chash_step p (Some (Inr (upd_srv i (\<lambda>s. s\<lparr>served := n, srv_queue := q\<rparr>) p)))"

inductive chash_reachable :: "proxy \<Rightarrow> bool" where
  ch_start: "length (px_srv p) < 2 ^ 32 \<Longrightarrow> chash_init_server_tree alloc p = Inr (r, 0) \<Longrightarrow> chash_reachable r"
| ch_next_state: "chash_reachable p \<Longrightarrow> chash_step p (Some (Inr q)) \<Longrightarrow> chash_reachable q"

text \<open>What holds between two steps.\<close>

definition chash_ok :: "proxy \<Rightarrow> bool" where
  "chash_ok p \<longleftrightarrow> chash_inv p \<and> lb_acct p \<and> all_committed p"

lemma chash_inv_last:
  assumes "chash_inv p" and "set_option l \<subseteq> set (eb_nodes (chash_act p)) \<union> set (eb_nodes (chash_bck p))"
  shows "chash_inv (p\<lparr>chash_last := l\<rparr>)"
proof -
  have "lb_weights (p\<lparr>chash_last := l\<rparr>) = lb_weights p" by (intro lb_weights_px_srv) simp
  then show ?thesis
    using assms by (auto simp: chash_inv_def ch_tinv_def ch_core_def ch_occs_def)
qed

lemma ch_rr_loop_last:
  assumes "ch_rr_loop fuel now_sec p root av node stop avoided = Some (srv, l)"
    and "set (eb_nodes root) \<subseteq> set (eb_nodes (chash_act p)) \<union> set (eb_nodes (chash_bck p))"
    and "set_option avoided \<subseteq> set (eb_nodes (chash_act p)) \<union> set (eb_nodes (chash_bck p))"
  shows "set_option l \<subseteq> set (eb_nodes (chash_act p)) \<union> set (eb_nodes (chash_bck p))"
  using assms
proof (induction fuel arbitrary: node stop avoided)
  case (Suc fuel)
  let ?A = "set (eb_nodes (chash_act p)) \<union> set (eb_nodes (chash_bck p))"
  define m where "m = (case node of None \<Rightarrow> None | Some m \<Rightarrow> ch_next p m)"
  define m' where "m' = (case m of None \<Rightarrow> map_option snd (eb32_first root) | Some m \<Rightarrow> Some m)"
  have "set_option m \<subseteq> ?A"
    by (auto simp: m_def ch_next_def eb_nodes_def dest!: eb32_next_in split: option.splits if_splits) (force simp: image_iff)+
  moreover have "set_option (map_option snd (eb32_first root)) \<subseteq> set (eb_nodes root)"
    by (force simp: eb_nodes_def image_iff dest!: eb32_first_in)
  ultimately have m': "set_option m' \<subseteq> ?A" using Suc.prems(2) by (auto simp: m'_def split: option.splits)
  note eq = ch_rr_loop.simps(2) [of fuel now_sec p root av node stop avoided, unfolded Let_def, folded m_def, folded m'_def]
  show ?case
  proof (cases m')
    case (Some x)
    have x: "x \<in> ?A" using m' Some by simp
    define avd where "avd = (if srv_not_full now_sec p (srv_at p (fst x)) then Some x else avoided)"
    have "set_option avd \<subseteq> ?A" using x Suc.prems(3) by (simp add: avd_def)
    then show ?thesis using Suc.prems(1) Suc.IH [OF _ Suc.prems(2), of _ _ avd] x Some
      unfolding eq by (auto simp flip: avd_def split: if_splits)
  qed (use Suc.prems(1) eq in simp)
qed (simp add: ch_rr_loop.simps)

lemma chash_get_next_server_ok:
  assumes "chash_ok p" and "chash_get_next_server fuel now_sec p av = Some (q, srv)"
  shows "chash_ok q"
proof -
  have "q = p \<or> (\<exists>l. q = p\<lparr>chash_last := l\<rparr> \<and> set_option l \<subseteq> set (eb_nodes (chash_act p)) \<union> set (eb_nodes (chash_bck p)))"
    using assms(2) ch_rr_loop_last [of fuel now_sec p _ av]
    by (auto simp: chash_get_next_server_def Let_def split: if_splits) (metis Un_upper1 Un_upper2 empty_subsetI option.set(1))+
  moreover have "same_acct p (p\<lparr>chash_last := l\<rparr>)" for l by (rule same_acctI) (simp_all add: acct_fields_def)
  ultimately show ?thesis
    using assms(1) chash_inv_last [of p] same_acct_lb_acct same_acct_all_committed unfolding chash_ok_def by blast
qed

lemma chash_load_ok:
  assumes "chash_ok p"
  shows "chash_ok (upd_srv i (\<lambda>s. s\<lparr>served := n, srv_queue := q\<rparr>) p)"
proof -
  let ?p = "upd_srv i (\<lambda>s. s\<lparr>served := n, srv_queue := q\<rparr>) p"
  have sa: "same_acct p ?p" by (rule upd_srv_same_acct) (simp add: acct_key_def is_backup_def srv_currently_usable_def srv_willbe_usable_def committed_def srv_lb_status_changed_def)
  have "ch_tinv W ?p = ch_tinv W p" for W by (rule ch_core_cong) (simp_all add: is_backup_def)
  then show ?thesis
    using assms same_acct_lb_acct [OF sa] same_acct_all_committed [OF sa] same_acct_weights(1) [OF sa]
    by (simp add: chash_ok_def chash_inv_def)
qed

text \<open>A valid change does not fault, and it is the event of the common interface.\<close>

lemma chash_call_ok:
  assumes "chash_ok p" and v: "ev_valid e p"
  shows "chash_call alloc (ev_call e) (ev_srv e) (upd_srv (ev_srv e) (set_pending e) p) = Inr (run_event (chash_cb alloc) e p) \<and>
    chash_ok (run_event (chash_cb alloc) e p)"
proof -
  let ?q = "upd_srv (ev_srv e) (set_pending e) p"
  have p: "chash_inv p" "lb_acct p" "all_committed p" using assms(1) by (simp_all add: chash_ok_def)
  have "chash_inv ?q" using chash.lb.inv_pending [of p "ev_srv e" e] p(1) by (simp add: chash_inv_def)
  moreover have "ev_srv e < length (px_srv ?q)" using v by (simp add: ev_valid_def)
  ultimately have "chash_call alloc (ev_call e) (ev_srv e) ?q = Inr (chash_cb alloc (ev_call e) (ev_srv e) ?q)"
    using chash_no_fault(1) [of ?q "ev_srv e"] chash_no_fault(2,3) [of ?q "ev_srv e" alloc] by (auto simp: chash_call_def chash_cb_def shape_cb_def c_total_def split: lb_callback.splits)
  moreover have "chash_ok (run_event (chash_cb alloc) e p)"
    using chash_events_invariant [OF p, of alloc "[e]"] v by (simp add: chash_ok_def)
  ultimately show ?thesis by (simp add: run_event_def)
qed

lemma chash_reachable_inv: "chash_reachable p \<Longrightarrow> chash_ok p"
proof (induction rule: chash_reachable.induct)
  case (ch_start p alloc r)
  then show ?case using chash_init_ok [of p alloc] by (auto simp: chash_ok_def)
next
  case (ch_next_state p q)
  from ch_next_state.hyps(2) show ?case
  proof cases
    case (ch_change e alloc)
    then show ?thesis using chash_call_ok [OF ch_next_state.IH, of e alloc] by simp
  next
    case (ch_lookup fuel now_sec av)
    then obtain srv where "chash_get_next_server fuel now_sec p av = Some (q, srv)"
      by (cases "chash_get_next_server fuel now_sec p av") auto
    then show ?thesis by (rule chash_get_next_server_ok [OF ch_next_state.IH])
  next
    case (ch_load i n l)
    then show ?thesis using chash_load_ok [OF ch_next_state.IH] by simp
  qed
qed

section \<open>Properties\<close>

text \<open>(C3) Consistent hashing. The initialisation does not fault: it succeeds, or returns -1 after a failed
  allocation. From there on servers may change status or weight by valid events, with allocations that may fail,
  lookups may move \<^verbatim>\<open>chash.last\<close> and loads may change, in any order. In every state reached the trees
  hold the first occurrences of every usable server, as many as its weight (or as many as could be allocated), at
  the keys derived from its id; \<^verbatim>\<open>chash.last\<close>, if set, is in one of the trees; the counters are those of
  the chain; and the callback of any valid change returns, to such a state.\<close>

theorem chash_reachable_ok:
  assumes "length (px_srv p) < 2 ^ 32" and "chash_reachable q"
  shows "(\<exists>r rc. chash_init_server_tree alloc p = Inr (r, rc) \<and> (rc = 0 \<and> chash_reachable r \<or> rc = -1 \<and> (\<exists>n. \<not> alloc n))) \<and>
    chash_inv q \<and> lb_acct q \<and> all_committed q \<and>
    set_option (chash_last q) \<subseteq> set (eb_nodes (chash_act q)) \<union> set (eb_nodes (chash_bck q)) \<and>
    (\<forall>e alloc. ev_valid e q \<longrightarrow>
      (\<exists>q'. chash_call alloc (ev_call e) (ev_srv e) (upd_srv (ev_srv e) (set_pending e) q) = Inr q' \<and> chash_reachable q'))"
proof -
  have ok: "chash_ok q" by (rule chash_reachable_inv [OF assms(2)])
  have "\<exists>r rc. chash_init_server_tree alloc p = Inr (r, rc) \<and> (rc = 0 \<and> chash_reachable r \<or> rc = -1 \<and> (\<exists>n. \<not> alloc n))"
    using chash_init_ok [OF assms(1), of alloc] ch_start [OF assms(1), of alloc] by (metis (full_types))
  moreover have "set_option (chash_last q) \<subseteq> set (eb_nodes (chash_act q)) \<union> set (eb_nodes (chash_bck q))"
    using ok by (auto simp: chash_ok_def chash_inv_def ch_tinv_def ch_core_def)
  moreover have "\<exists>q'. chash_call al (ev_call e) (ev_srv e) (upd_srv (ev_srv e) (set_pending e) q) = Inr q' \<and> chash_reachable q'"
    if v: "ev_valid e q" for e al
    using chash_call_ok [OF ok v, of al] ch_next_state [OF assms(2)] ch_change [OF v, of al] by auto
  ultimately show ?thesis using ok by (simp add: chash_ok_def)
qed

definition sample_chash :: proxy where
  "sample_chash = sample_proxy\<lparr>px_srv := [sample_server ''web1'' 0 1 1, sample_server ''spare2'' SRV_F_BACKUP 1 2],
     px_options := PR_O_USE_ALL_BK, wmult := 16\<rparr>"

definition sample_chash_events :: "lb_event list" where
  "sample_chash_events =
     [\<lparr>ev_call = Set_server_status_down, ev_srv = 0, ev_state = SRV_ST_STOPPED, ev_admin = 0, ev_eweight = 1\<rparr>,
      \<lparr>ev_call = Update_server_eweight, ev_srv = 1, ev_state = SRV_ST_RUNNING, ev_admin = 0, ev_eweight = 3\<rparr>,
      \<lparr>ev_call = Set_server_status_up, ev_srv = 0, ev_state = SRV_ST_RUNNING, ev_admin = 0, ev_eweight = 2\<rparr>]"

definition sample_chash_up :: proxy where
  "sample_chash_up = fst (projr (chash_init_server_tree (\<lambda>_. True) sample_chash))"

definition sample_chash_end :: proxy where
  "sample_chash_end = the (run_events (chash_cb (\<lambda>_. True)) sample_chash_events sample_chash_up)"

lemma sample_chash_eval:
  "case chash_init_server_tree (\<lambda>_. True) sample_chash of
     Inl _ \<Rightarrow> False
   | Inr (u, rc) \<Rightarrow> rc = 0 \<and>
       (case run_events (chash_cb (\<lambda>_. True)) sample_chash_events u of
          None \<Rightarrow> False
        | Some q \<Rightarrow> eb_nodes (chash_act q) = [(0, 0), (0, 1)] \<and> eb_nodes (chash_bck q) = [(1, 1), (1, 0), (1, 2)] \<and>
            srv_act q = 1 \<and> map srv_id (px_srv q) = [Some ''web1'', Some ''spare2''] \<and> hash_balance_factor q = 0 \<and>
            map maxconn (px_srv q) = [10, 10] \<and> chash_last q = None \<and> srv_not_full 0 q (srv_at q 0))"
  by code_simp

lemma sample_chash_runs:
  "chash_init_server_tree (\<lambda>_. True) sample_chash = Inr (sample_chash_up, 0)"
  "run_events (chash_cb (\<lambda>_. True)) sample_chash_events sample_chash_up = Some sample_chash_end"
  "eb_nodes (chash_act sample_chash_end) = [(0, 0), (0, 1)]"
  "eb_nodes (chash_bck sample_chash_end) = [(1, 1), (1, 0), (1, 2)]" "srv_act sample_chash_end = 1"
  "map srv_id (px_srv sample_chash_end) = [Some ''web1'', Some ''spare2'']" "hash_balance_factor sample_chash_end = 0"
  "map maxconn (px_srv sample_chash_end) = [10, 10]" "chash_last sample_chash_end = None"
  "srv_not_full 0 sample_chash_end (srv_at sample_chash_end 0)"
  using sample_chash_eval
  by (auto simp: sample_chash_up_def sample_chash_end_def split: sum.splits prod.splits option.splits)

lemma sample_chash_inv: "chash_inv sample_chash_end"
proof -
  have "length (px_srv sample_chash) < 2 ^ 32" by (simp add: sample_chash_def)
  from chash_init_ok [OF this, of "\<lambda>_. True"] sample_chash_runs(1)
  have "chash_inv sample_chash_up \<and> lb_acct sample_chash_up \<and> all_committed sample_chash_up" by auto
  with chash_events_invariant [OF _ _ _ sample_chash_runs(2)] show ?thesis by blast
qed

text \<open>A lookup leaves \<^verbatim>\<open>chash.last\<close> at the first occurrence; then the server stops.\<close>

lemma chash_reachable_events:
  "run_events (chash_cb alloc) es p = Some q \<Longrightarrow> chash_reachable p \<Longrightarrow> chash_reachable q"
proof (induction es arbitrary: p)
  case (Cons e es)
  then have v: "ev_valid e p" and r: "run_events (chash_cb alloc) es (run_event (chash_cb alloc) e p) = Some q" by (simp_all split: if_splits)
  have "chash_reachable (run_event (chash_cb alloc) e p)"
    using chash_call_ok [OF chash_reachable_inv [OF Cons.prems(2)] v, of alloc] ch_change [OF v, of alloc] by (auto intro: ch_next_state [OF Cons.prems(2)])
  then show ?case by (rule Cons.IH [OF r])
qed simp

definition sample_chash_used :: proxy where
  "sample_chash_used = fst (the (chash_get_next_server 3 0 sample_chash_end None))"

definition sample_chash_stop :: lb_event where
  "sample_chash_stop = \<lparr>ev_call = Set_server_status_down, ev_srv = 0, ev_state = SRV_ST_STOPPED, ev_admin = 0, ev_eweight = 2\<rparr>"

theorem chash_reachable_ok_witness:
  "chash_reachable sample_chash_used \<and> chash_inv sample_chash_used \<and> chash_last sample_chash_used = Some (0, 0) \<and>
   (\<exists>q. chash_call (\<lambda>_. True) Set_server_status_down 0 (upd_srv 0 (set_pending sample_chash_stop) sample_chash_used) = Inr q \<and>
     chash_reachable q \<and> chash_act q = [] \<and> chash_last q = None)"
proof -
  have len: "length (px_srv sample_chash) < 2 ^ 32" by (simp add: sample_chash_def)
  have "case chash_get_next_server 3 0 sample_chash_end None of None \<Rightarrow> False | Some (q, srv) \<Rightarrow> chash_last q = Some (0, 0)"
    by code_simp
  then obtain srv where l: "chash_get_next_server 3 0 sample_chash_end None = Some (sample_chash_used, srv)"
      "chash_last sample_chash_used = Some (0, 0)"
    by (auto simp: sample_chash_used_def split: option.splits)
  have "chash_reachable sample_chash_end"
    by (rule chash_reachable_events [OF sample_chash_runs(2) ch_start [OF len sample_chash_runs(1)]])
  moreover have "chash_step sample_chash_end (Some (Inr sample_chash_used))"
    using ch_lookup [of sample_chash_end 3 0 None] unfolding l(1) by simp
  ultimately have r: "chash_reachable sample_chash_used" by (rule ch_next_state)
  have v: "ev_valid sample_chash_stop sample_chash_used" by code_simp
  have ev: "case chash_call (\<lambda>_. True) Set_server_status_down 0 (upd_srv 0 (set_pending sample_chash_stop) sample_chash_used) of
      Inl _ \<Rightarrow> False | Inr q \<Rightarrow> chash_act q = [] \<and> chash_last q = None" by code_simp
  have e: "ev_call sample_chash_stop = Set_server_status_down" "ev_srv sample_chash_stop = 0" by (simp_all add: sample_chash_stop_def)
  note ok = chash_reachable_ok [OF len r, of "\<lambda>_. True"]
  then have "\<exists>q. chash_call (\<lambda>_. True) Set_server_status_down 0 (upd_srv 0 (set_pending sample_chash_stop) sample_chash_used) = Inr q \<and>
      chash_reachable q"
    using v e by metis
  then show ?thesis using r ok l(2) ev by (auto split: sum.splits)
qed

text \<open>(C22) Where a hash is mapped to: the search starts at an occurrence whose distance from the
  hash, either way around, is least, and returns the first server from there on, at most twice around
  the ring, that the whitelist names or that is neither the one to avoid nor over its share of the
  load; when there is none it returns the last server it saw. The whitelist never rules a server
  out.\<close>

theorem chash_get_server_hash_nearest:
  assumes "chash_inv p" and "srv_act p \<noteq> 0" and "chash_act p \<noteq> []"
    and "\<forall>j < length (px_srv p). \<exists>sid. srv_id (srv_at p j) = Some sid \<and> sid \<noteq> []"
    and "hash_balance_factor p = 0 \<or> tot_weight p \<noteq> 0"
  shows "\<exists>n \<in> set (chash_act p). (\<forall>e \<in> set (chash_act p). ring_dist hash (fst n) \<le> ring_dist hash (fst e)) \<and>
    (let ss = fst (snd n) # map fst (eb_nodes (eb32_after (snd n) (chash_act p))) @ map fst (eb_nodes (chash_act p))
     in chash_get_server_hash p hash avoid (Some wl) =
          Inr (Some (case find (ch_accept p avoid wl) ss of Some s \<Rightarrow> s | None \<Rightarrow> last ss)))"
proof -
  have core: "ch_core (length (px_srv p)) p" using assms(1) by (simp add: chash_inv_def ch_tinv_def)
  then have ord: "eb_ordered (chash_act p)" by (simp add: ch_core_def)
  obtain n where n: "ch_locate hash (chash_act p) = Some n"
    using assms(3) by (simp add: ch_locate_ring [OF ord])
  obtain e0 where "e0 \<in> set (chash_act p)" using assms(3) by (cases "chash_act p") auto
  then have nt: "n \<in> set (chash_act p)" by (rule ch_locate_nearest(1) [OF ord n])
  have mem: "fst m < length (px_srv p)" if "m \<in> set (eb_nodes (chash_act p))" for m
    using ch_core_nodes(1) [OF core, of m] that by simp
  have sub: "set (eb_nodes (eb32_after (snd n) (chash_act p))) \<subseteq> set (eb_nodes (chash_act p))"
    using set_eb32_after [of "snd n" "chash_act p"] by (auto simp: set_eb_nodes)
  have "snd n \<in> set (eb_nodes (chash_act p))" using nt by (simp add: set_eb_nodes)
  then have ok: "ch_skip p avoid (Some wl) s = Inr (\<not> ch_accept p avoid wl s)"
    if "s \<in> set (fst (snd n) # map fst (eb_nodes (eb32_after (snd n) (chash_act p))) @ map fst (eb_nodes (chash_act p)))" for s
  proof -
    have "s < length (px_srv p)" using that mem [OF \<open>snd n \<in> _\<close>] mem sub by auto
    then obtain sid where "srv_id (srv_at p s) = Some sid" "sid \<noteq> []" using assms(4) by blast
    then show ?thesis by (rule ch_skip_accept [OF _ _ assms(5)])
  qed
  define ss where "ss = map fst (eb_nodes (eb32_after (snd n) (chash_act p)))"
  define all where "all = map fst (eb_nodes (chash_act p))"
  have "ch_hash_loop (ch_skip p avoid (Some wl)) (fst (snd n)) ss (Some all) =
      Inr (case find (ch_accept p avoid wl) (fst (snd n) # ss @ all) of Some s \<Rightarrow> s | None \<Rightarrow> last (fst (snd n) # ss @ all))"
    by (rule ch_hash_loop_find) (use ok in \<open>simp add: ss_def all_def\<close>)
  then have "chash_get_server_hash p hash avoid (Some wl) = Inr (Some
      (case find (ch_accept p avoid wl) (fst (snd n) # ss @ all) of Some s \<Rightarrow> s | None \<Rightarrow> last (fst (snd n) # ss @ all)))"
    using assms(2) n by (simp add: chash_get_server_hash_def Let_def ss_def all_def)
  then show ?thesis
    using nt ch_locate_nearest(2) [OF ord n] unfolding Let_def ss_def all_def by (intro bexI [of _ n] conjI ballI)
qed

theorem chash_get_server_hash_nearest_witness:
  "chash_get_server_hash sample_chash_end 7 (Some 0) (Some ''1'') = Inr (Some 0)"
proof -
  let ?p = sample_chash_end
  have two: "px_srv ?p = [srv_at ?p 0, srv_at ?p 1]"
    using sample_chash_runs(6) by (auto simp: map_eq_Cons_conv)
  have ids: "\<forall>j < length (px_srv ?p). \<exists>sid. srv_id (srv_at ?p j) = Some sid \<and> sid \<noteq> []"
    using sample_chash_runs(6) by (subst (asm) two, subst two) (auto simp: less_Suc_eq nth_Cons')
  have "chash_act ?p \<noteq> []" using sample_chash_runs(3) by (auto simp: eb_nodes_def)
  from chash_get_server_hash_nearest [OF sample_chash_inv _ this ids, of 7 "Some 0" "''1''"] sample_chash_runs(5,7)
  obtain n where n: "n \<in> set (chash_act ?p)" and
    eq: "let ss = fst (snd n) # map fst (eb_nodes (eb32_after (snd n) (chash_act ?p))) @ map fst (eb_nodes (chash_act ?p))
     in chash_get_server_hash ?p 7 (Some 0) (Some ''1'') =
          Inr (Some (case find (ch_accept ?p (Some 0) ''1'') ss of Some s \<Rightarrow> s | None \<Rightarrow> last ss))"
    by auto
  define ss where "ss = fst (snd n) # map fst (eb_nodes (eb32_after (snd n) (chash_act ?p))) @ map fst (eb_nodes (chash_act ?p))"
  have "fst ` set (eb_nodes (chash_act ?p)) \<subseteq> {0}" by (simp add: sample_chash_runs(3))
  then have "set ss \<subseteq> {0}"
    using n set_eb32_after [of "snd n" "chash_act ?p"] by (auto simp: ss_def set_eb_nodes image_iff subset_iff) force+
  moreover have "last ss \<in> set ss" by (rule last_in_set) (simp add: ss_def)
  ultimately have "(case find (ch_accept ?p (Some 0) ''1'') ss of Some s \<Rightarrow> s | None \<Rightarrow> last ss) = 0"
    by (auto split: option.splits simp: find_Some_iff) (metis nth_mem singletonD subsetD)
  with eq show ?thesis by (simp add: ss_def [symmetric] Let_def)
qed

text \<open>(C23) Consistency: when servers leave the tree, a hash that was mapped to an occurrence of a
  server that stays keeps its occurrence, as long as no two occurrences share a key.\<close>

theorem chash_locate_stable:
  assumes "eb_ordered root" and "distinct (map fst root)" and "ch_locate hash root = Some n" and "fst (snd n) \<notin> gone"
  shows "ch_locate hash (filter (\<lambda>e. fst (snd e) \<notin> gone) root) = Some n"
  using assms by (intro ch_locate_filter)

theorem chash_locate_stable_witness:
  "ch_locate 5 (filter (\<lambda>e. fst (snd e) \<notin> {2}) [(3, (0, 0)), (9, (1, 0)), (4000000000, (2, 0))]) = Some (3, (0, 0))"
proof -
  have "eb_ordered [(3 :: u32, (0 :: nat, 0 :: nat)), (9, (1, 0)), (4000000000, (2, 0))]"
    "distinct (map fst [(3 :: u32, (0 :: nat, 0 :: nat)), (9, (1, 0)), (4000000000, (2, 0))])"
    "ch_locate 5 [(3, (0, 0)), (9, (1, 0)), (4000000000, (2, 0))] = Some (3, (0, 0))" by code_simp+
  from chash_locate_stable [OF this, of "{2}"] show ?thesis by simp
qed

text \<open>Bounded loads: if the total weight and the cumulative weights are those of the active
  servers and no more connections are counted on them than on the backend, at least one active server
  is still below its share, so that the search for an eligible server can succeed. The bounds keep
  the code's products within 32 bits.\<close>

theorem chash_bounded_load_eligible:
  fixes p :: proxy
  defines "S \<equiv> {j. j < length (px_srv p) \<and> cur_act (srv_at p j)}"
  assumes "tot_weight p = of_nat W" and "0 < W" and "W * W \<le> 2 ^ 32"
    and "(\<Sum>j \<in> S. unat (cur_eweight (srv_at p j))) = W"
    and "\<forall>j \<in> S. unat (cumulative_weight (srv_at p j)) = (\<Sum>i \<in> S \<inter> {..<j}. unat (cur_eweight (srv_at p i)))"
    and "px_served p = of_nat v" and "hash_balance_factor p = of_nat f" and "100 \<le> f" and "(v + 1) * f + 99 < 2 ^ 31"
    and "(\<Sum>j \<in> S. unat (served (srv_at p j))) \<le> v"
  shows "\<exists>j \<in> S. chash_server_is_eligible p (srv_at p j) = Inr True"
proof (rule ccontr)
  assume none: "\<not> ?thesis"
  define N T where "N = (v + 1) * f + 99" and "T = N div 100"
  define e where "e j = unat (cur_eweight (srv_at p j))" for j
  have fin: "finite S" by (simp add: S_def)
  have "(px_served p + 1) * hash_balance_factor p + 99 = of_nat N"
    using assms(7,8) by (simp add: N_def algebra_simps)
  moreover have N31: "N < 2 ^ 31" using assms(10) by (simp only: N_def)
  then have "sint (of_nat N :: c_int) = int N"
    by (simp add: signed_of_nat signed_take_bit_int_eq_self)
  moreover have "int N sdiv 100 = int T" by (cases "N = 0") (simp_all add: T_def signed_divide_int_def zdiv_int)
  ultimately have T: "word_of_int (sint ((px_served p + 1) * hash_balance_factor p + 99) sdiv 100) = (of_nat T :: u32)"
    by simp
  have T32: "T < 2 ^ 32" using N31 by (simp add: T_def)
  have vT: "v < T"
  proof -
    have "(v + 1) * 100 \<le> (v + 1) * f" using assms(9) by (intro mult_le_mono) simp_all
    then have "(v + 1) * 100 div 100 \<le> T" unfolding T_def N_def by (intro div_le_mono) linarith
    then show ?thesis by simp
  qed
  have "share T W (\<Sum>i \<in> S \<inter> {..<j}. e i) (e j) \<le> unat (served (srv_at p j))" if j: "j \<in> S" for j
  proof -
    have "(\<Sum>i \<in> S \<inter> {..<j}. e i) + e j = sum e (insert j (S \<inter> {..<j}))" using fin by simp
    also have "\<dots> \<le> sum e S" using fin j by (intro sum_mono2) auto
    finally have "unat (cumulative_weight (srv_at p j)) + unat (cur_eweight (srv_at p j)) \<le> W"
      using assms(5,6) j by (simp add: e_def)
    from ch_slots_share [OF assms(2-4) this T T32] obtain sl where
      "ch_slots p (srv_at p j) = Inr sl" "share T W (\<Sum>i \<in> S \<inter> {..<j}. e i) (e j) \<le> unat sl"
      using assms(6) j by (auto simp: e_def)
    moreover have "\<not> served (srv_at p j) < sl"
      using none j calculation(1) by (auto simp: chash_server_is_eligible_def)
    ultimately show ?thesis by (simp add: word_less_nat_alt)
  qed
  then have "T \<le> (\<Sum>j \<in> S. unat (served (srv_at p j)))"
    using share_sum [of S e W "length (px_srv p)" T] fin assms(3,5) sum_mono [of S _ "\<lambda>j. unat (served (srv_at p j))"]
    by (metis (no_types, lifting) S_def e_def lessThan_iff mem_Collect_eq subsetI sum.cong)
  with assms(11) vT show False by simp
qed

definition sample_bounded :: proxy where
  "sample_bounded = (update_backend_weight (recount_servers
     (sample_proxy\<lparr>hash_balance_factor := 150, px_served := 3\<rparr>)))"

theorem chash_bounded_load_eligible_witness:
  "\<exists>j \<in> {j. j < length (px_srv sample_bounded) \<and> cur_act (srv_at sample_bounded j)}.
     chash_server_is_eligible sample_bounded (srv_at sample_bounded j) = Inr True"
proof -
  have S: "{j. j < length (px_srv sample_bounded) \<and> cur_act (srv_at sample_bounded j)} =
      set (filter (\<lambda>j. cur_act (srv_at sample_bounded j)) [0..<length (px_srv sample_bounded)])" by auto
  have flt: "filter (\<lambda>j. cur_act (srv_at sample_bounded j)) [0..<length (px_srv sample_bounded)] = [0, 1, 2]"
    by code_simp
  have vals: "map (\<lambda>j. unat (cur_eweight (srv_at sample_bounded j))) [0, 1, 2] = [1, 2, 3]"
    "map (\<lambda>j. unat (cumulative_weight (srv_at sample_bounded j))) [0, 1, 2] = [0, 1, 3]"
    "map (\<lambda>j. unat (served (srv_at sample_bounded j))) [0, 1, 2] = [0, 0, 0]"
    "tot_weight sample_bounded = of_nat 6" "px_served sample_bounded = of_nat 3" "hash_balance_factor sample_bounded = of_nat 150"
    by code_simp+
  have int: "{0, 1, 2 :: nat} \<inter> {..<0} = {}" "{0, 1, 2 :: nat} \<inter> {..<1} = {0}" "{0, 1, 2 :: nat} \<inter> {..<2} = {0, 1}" by auto
  show ?thesis
    using vals by (intro chash_bounded_load_eligible [of sample_bounded 6 3 150]) (simp_all add: S flt int)
qed

text \<open>(C28) Round robin over the ring: if \<^verbatim>\<open>chash.last\<close> is in the tree of the active servers, the
  loop ends after at most one turn and returns the first server after it that is not full and is not
  the one to avoid, else the one to avoid if it is not full, else NULL.\<close>

theorem chash_get_next_server_turn:
  assumes "chash_inv p" and "srv_act p \<noteq> 0" and "chash_last p = Some n" and "n \<in> set (eb_nodes (chash_act p))"
    and "length (chash_act p) \<le> fuel"
  shows "\<exists>last. chash_get_next_server fuel now_sec p av = Some (p\<lparr>chash_last := last\<rparr>,
    (let nodes = map fst (ring_after n (chash_act p));
         fit = (\<lambda>s. srv_not_full now_sec p (srv_at p s))
     in case find (\<lambda>s. fit s \<and> Some s \<noteq> av) nodes of
          Some s \<Rightarrow> Some s
        | None \<Rightarrow> (case av of Some a \<Rightarrow> if a \<in> set nodes \<and> fit a then Some a else None | None \<Rightarrow> None)))"
  using ch_rr_full_turn [OF chash_own_tree(1) [OF assms(1)] assms(4,5), of now_sec av] assms(2,3)
  by (auto simp: chash_get_next_server_def tree_scan_avoid Let_def)

lemma srv_not_full_last: "srv_not_full now_sec (p\<lparr>chash_last := x\<rparr>) s = srv_not_full now_sec p s"
  by (simp add: srv_not_full_def srv_dynamic_maxconn_def)

theorem chash_get_next_server_turn_witness:
  "\<exists>last. chash_get_next_server 2 0 (sample_chash_end\<lparr>chash_last := Some (0, 1)\<rparr>) None =
     Some (sample_chash_end\<lparr>chash_last := last\<rparr>, Some 0)"
proof -
  let ?p = "sample_chash_end\<lparr>chash_last := Some (0, 1)\<rparr>"
  have inv: "chash_inv ?p" using sample_chash_runs(3) by (intro chash_inv_last sample_chash_inv) simp
  have len: "length (chash_act ?p) \<le> 2"
    using arg_cong [OF sample_chash_runs(3), of length] by (simp add: eb_nodes_def)
  have split: "eb_nodes (chash_act ?p) = [(0, 0)] @ (0, 1) # []" using sample_chash_runs(3) by simp
  have "distinct (eb_nodes (chash_act ?p))" by (simp add: sample_chash_runs(3))
  from eb32_after_split [OF this split] have ra: "ring_after (0, 1) (chash_act ?p) = [(0, 0), (0, 1)]"
    by (simp add: ring_after_def)
  have fit: "srv_not_full 0 ?p (srv_at ?p 0)"
    using sample_chash_runs(10) by (simp add: srv_not_full_last)
  from chash_get_next_server_turn [OF inv _ _ _ len, of "(0, 1)" 0 None] show ?thesis
    using fit sample_chash_runs(5) ra split by simp
qed

text \<open>With no last node (as after the initialisation) the loop looks at one node only: when
  the server of the first node of the ring is full, NULL is returned although others may be free, and
  the next call starts from the same place.\<close>

theorem chash_get_next_server_null_last:
  assumes "chash_last p = None" and "srv_act p \<noteq> 0" and "chash_act p = (k, n) # t"
  shows "chash_get_next_server (Suc fuel) now_sec p av =
    (if srv_not_full now_sec p (srv_at p (fst n)) then Some (p\<lparr>chash_last := Some n\<rparr>, Some (fst n)) else Some (p\<lparr>chash_last := None\<rparr>, None))"
  using assms by (auto simp: chash_get_next_server_def ch_rr_loop.simps eb32_first_def Let_def)

theorem chash_get_next_server_null_last_witness:
  "chash_get_next_server 1 0 sample_chash_end None = Some (sample_chash_end\<lparr>chash_last := Some (0, 0)\<rparr>, Some 0)"
proof -
  obtain k t where "chash_act sample_chash_end = (k, (0, 0)) # t"
    using sample_chash_runs(3) by (auto simp: eb_nodes_def map_eq_Cons_conv)
  with chash_get_next_server_null_last [of sample_chash_end k "(0, 0)" t 0 0 None] show ?thesis
    using sample_chash_runs(5,9,10) by simp
qed

text \<open>(C36) The loop may never end: when \<^verbatim>\<open>chash.last\<close> is an occurrence of a backup server (which
  served while no active server was up) and all servers are full, the walk leaves the tree of the
  backup servers, turns around the tree of the active servers and never meets the stop node again.\<close>

theorem chash_get_next_server_endless:
  assumes "chash_inv p" and "srv_act p \<noteq> 0" and "chash_act p \<noteq> []"
    and "chash_last p = Some n" and "n \<in> set (eb_nodes (chash_bck p))"
    and "\<forall>j < length (px_srv p). \<not> srv_not_full now_sec p (srv_at p j)"
  shows "chash_get_next_server fuel now_sec p av = None"
proof -
  have core: "ch_core (length (px_srv p)) p" using assms(1) by (simp add: chash_inv_def ch_tinv_def)
  have "\<forall>m \<in> set (eb_nodes (chash_act p)) \<union> set (eb_nodes (chash_bck p)). \<not> srv_not_full now_sec p (srv_at p (fst m))"
    using ch_core_nodes [OF core] assms(6) by blast
  from ch_rr_other_tree [OF assms(1,5,3) this, of n fuel av None] show ?thesis
    using assms(2,4) by (simp add: chash_get_next_server_def Let_def)
qed

definition sample_chash_full :: proxy where
  "sample_chash_full = sample_chash_end\<lparr>px_srv := map (\<lambda>s. s\<lparr>srv_queue := (srv_queue s)\<lparr>q_length := 1\<rparr>\<rparr>) (px_srv sample_chash_end),
     chash_last := Some (1, 0)\<rparr>"

lemma sample_chash_full_inv: "chash_inv sample_chash_full"
proof -
  let ?p = "sample_chash_end\<lparr>chash_last := Some (1, 0)\<rparr>"
  have "chash_inv ?p" by (intro chash_inv_last sample_chash_inv) (simp add: sample_chash_runs(4))
  moreover have "lb_weights sample_chash_full = lb_weights ?p"
    by (intro ext) (auto simp: lb_weights_def sample_chash_full_def srv_currently_usable_def)
  ultimately show ?thesis
    using ch_core_cong [of sample_chash_full ?p "lb_weights ?p"]
    by (simp add: chash_inv_def sample_chash_full_def is_backup_def)
qed

theorem chash_get_next_server_endless_witness: "chash_get_next_server 1000000 0 sample_chash_full None = None"
proof (rule chash_get_next_server_endless [OF sample_chash_full_inv])
  have "\<forall>s \<in> set (px_srv sample_chash_end). maxconn s = 10"
    using arg_cong [OF sample_chash_runs(8), of set] by auto
  then show "\<forall>j < length (px_srv sample_chash_full). \<not> srv_not_full 0 sample_chash_full (srv_at sample_chash_full j)"
    by (auto simp: sample_chash_full_def srv_not_full_def)
  show "chash_act sample_chash_full \<noteq> []" "(1, 0) \<in> set (eb_nodes (chash_bck sample_chash_full))"
    "srv_act sample_chash_full \<noteq> 0" "chash_last sample_chash_full = Some (1, 0)"
    using sample_chash_runs by (auto simp: sample_chash_full_def eb_nodes_def)
qed

end
