(* ===== verification/Fwrr_Inv.thy ===== *)
theory Fwrr_Inv
  imports Lb_Fwrr
begin

text \<open>
  The trees of weighted round robin hold exactly the usable servers: an invariant of the status
  callbacks and of the lookup. While a lookup or a callback is under way the servers of a set \<open>X\<close> are
  out of the trees.
\<close>

lemma status_pos [simp]:
  "is_backup (s\<lparr>npos := x\<rparr>) = is_backup s" "is_backup (s\<lparr>lpos := x\<rparr>) = is_backup s" "is_backup (s\<lparr>rweight := x\<rparr>) = is_backup s"
  "srv_willbe_usable (s\<lparr>npos := x\<rparr>) = srv_willbe_usable s" "srv_willbe_usable (s\<lparr>lpos := x\<rparr>) = srv_willbe_usable s"
  "srv_willbe_usable (s\<lparr>rweight := x\<rparr>) = srv_willbe_usable s"
  "acct_key (s\<lparr>npos := x\<rparr>) = acct_key s" "acct_key (s\<lparr>lpos := x\<rparr>) = acct_key s" "acct_key (s\<lparr>rweight := x\<rparr>) = acct_key s"
  "srv_not_full now_sec p (s\<lparr>npos := x\<rparr>) = srv_not_full now_sec p s" "srv_not_full now_sec p (s\<lparr>lpos := x\<rparr>) = srv_not_full now_sec p s"
  "srv_not_full now_sec p (s\<lparr>rweight := x\<rparr>) = srv_not_full now_sec p s"
  by (simp_all add: is_backup_def srv_willbe_usable_def srv_currently_usable_def acct_key_def committed_def
      srv_lb_status_changed_def srv_not_full_def srv_dynamic_maxconn_def Let_def)

section \<open>The invariant\<close>

definition fwrr_roots :: "eb_root_ptr set" where
  "fwrr_roots = {Root_curr, Root_t0, Root_t1}"

definition fwrr_members :: "srv_ref set \<Rightarrow> bool \<Rightarrow> eb_root_ptr \<Rightarrow> proxy \<Rightarrow> srv_ref set" where
  "fwrr_members X b r p =
     {j. j < length (px_srv p) \<and> j \<notin> X \<and> is_backup (srv_at p j) = b \<and> lb_tree (srv_at p j) = Some r}"

definition grp_ptrs_ok :: "fwrr_group \<Rightarrow> bool" where
  "grp_ptrs_ok g \<longleftrightarrow> (grp_init g, grp_next g) \<in> {(Root_t0, Root_t1), (Root_t1, Root_t0)}"

definition grp_weight :: "(srv_ref \<Rightarrow> u32) \<Rightarrow> bool \<Rightarrow> proxy \<Rightarrow> u32" where
  "grp_weight W b p = (\<Sum>j | j < length (px_srv p) \<and> is_backup (srv_at p j) = b. W j)"

definition fwrr_grp_ok :: "srv_ref set \<Rightarrow> bool \<Rightarrow> proxy \<Rightarrow> bool" where
  "fwrr_grp_ok X b p \<longleftrightarrow> grp_ptrs_ok (fwrr_grp b p) \<and>
     (\<forall>r \<in> fwrr_roots. eb_ordered (grp_tree r (fwrr_grp b p)) \<and>
        set (grp_tree r (fwrr_grp b p)) = (\<lambda>j. (lb_key (srv_at p j), j)) ` fwrr_members X b r p)"

definition fwrr_linked :: "srv_ref set \<Rightarrow> (srv_ref \<Rightarrow> u32) \<Rightarrow> proxy \<Rightarrow> bool" where
  "fwrr_linked X W p \<longleftrightarrow> (\<forall>j < length (px_srv p). j \<notin> X \<longrightarrow>
     (if W j = 0 then lb_tree (srv_at p j) = None else lb_tree (srv_at p j) \<in> Some ` fwrr_roots))"

definition fwrr_ok :: "srv_ref set \<Rightarrow> (srv_ref \<Rightarrow> u32) \<Rightarrow> proxy \<Rightarrow> bool" where
  "fwrr_ok X W p \<longleftrightarrow> (\<forall>b. fwrr_grp_ok X b p \<and> next_weight (fwrr_grp b p) = grp_weight W b p) \<and> fwrr_linked X W p"

text \<open>Only the trees, the group weights and pointers, and three fields of the servers matter.\<close>

definition fwrr_same :: "proxy \<Rightarrow> proxy \<Rightarrow> bool" where
  "fwrr_same p q \<longleftrightarrow> length (px_srv q) = length (px_srv p) \<and>
     (\<forall>j < length (px_srv p). lb_key (srv_at q j) = lb_key (srv_at p j) \<and> lb_tree (srv_at q j) = lb_tree (srv_at p j) \<and>
        is_backup (srv_at q j) = is_backup (srv_at p j)) \<and>
     (\<forall>b. grp_ptrs_ok (fwrr_grp b q) = grp_ptrs_ok (fwrr_grp b p) \<and> next_weight (fwrr_grp b q) = next_weight (fwrr_grp b p) \<and>
        (\<forall>r. grp_tree r (fwrr_grp b q) = grp_tree r (fwrr_grp b p)))"

lemma fwrr_same_ok:
  assumes "fwrr_same p q"
  shows "fwrr_ok X W q = fwrr_ok X W p"
proof -
  note len = assms [unfolded fwrr_same_def, THEN conjunct1]
  have nth: "j < length (px_srv p) \<Longrightarrow> lb_key (srv_at q j) = lb_key (srv_at p j) \<and> lb_tree (srv_at q j) = lb_tree (srv_at p j) \<and>
      is_backup (srv_at q j) = is_backup (srv_at p j)" for j
    using assms by (simp add: fwrr_same_def)
  have mem: "fwrr_members X b r q = fwrr_members X b r p" for b r
    using len nth by (auto simp: fwrr_members_def)
  have img: "(\<lambda>j. (lb_key (srv_at q j), j)) ` fwrr_members X b r q = (\<lambda>j. (lb_key (srv_at p j), j)) ` fwrr_members X b r p" for b r
    unfolding mem using nth by (intro image_cong refl) (simp add: fwrr_members_def)
  have "fwrr_grp_ok X b q = fwrr_grp_ok X b p" for b
    unfolding fwrr_grp_ok_def img using assms by (simp add: fwrr_same_def)
  moreover have "grp_weight W b q = grp_weight W b p" for b
    unfolding grp_weight_def using len nth by (intro sum.cong) auto
  moreover have "fwrr_linked X W q = fwrr_linked X W p"
    unfolding fwrr_linked_def using len nth by simp
  ultimately show ?thesis using assms by (simp add: fwrr_ok_def fwrr_same_def)
qed

lemma fwrr_same_trans: "fwrr_same p q \<Longrightarrow> fwrr_same q r \<Longrightarrow> fwrr_same p r"
  by (auto simp: fwrr_same_def)

lemma fwrr_same_refl [simp]: "fwrr_same p p"
  by (simp add: fwrr_same_def)

text \<open>What an operation on the queue position of server \<open>i\<close> leaves alone.\<close>

lemma fwrr_same_upd_srv:
  assumes "\<And>s. lb_key (f s) = lb_key s" "\<And>s. lb_tree (f s) = lb_tree s" "\<And>s. srv_flags (f s) = srv_flags s"
  shows "fwrr_same p (upd_srv i f p)"
  using assms by (auto simp: fwrr_same_def is_backup_def)

lemma fwrr_same_upd_grp:
  assumes "\<And>g. next_weight (f g) = next_weight g" "\<And>g r. grp_tree r (f g) = grp_tree r g" "\<And>g. grp_ptrs_ok (f g) = grp_ptrs_ok g"
  shows "fwrr_same p (upd_grp b f p)"
  using assms by (auto simp: fwrr_same_def)

section \<open>Taking a server out and putting it back\<close>

lemma grp_delete_simps [simp]:
  "grp_tree r (grp_delete i g) = eb32_delete i (grp_tree r g)" "next_weight (grp_delete i g) = next_weight g"
  "grp_init (grp_delete i g) = grp_init g" "grp_next (grp_delete i g) = grp_next g"
  by (simp_all add: grp_delete_def grp_tree_def split: eb_root_ptr.splits)

lemma fwrr_dequeue_simps [simp]:
  "fwrr_grp b (fwrr_dequeue_srv i p) = grp_delete i (fwrr_grp b p)" "px_srv (fwrr_dequeue_srv i p) = px_srv p"
  by (simp_all add: fwrr_dequeue_srv_def fwrr_grp_def)

lemma fwrr_ok_dequeue:
  assumes "fwrr_ok X W p"
  shows "fwrr_ok (insert i X) W (fwrr_dequeue_srv i p)"
proof -
  have del: "set (eb32_delete i t) = {e \<in> set t. snd e \<noteq> i}" for t :: "srv_ref eb_root"
    by (auto simp: eb32_delete_def)
  have "fwrr_grp_ok (insert i X) b (fwrr_dequeue_srv i p)" for b
    using assms unfolding fwrr_ok_def fwrr_grp_ok_def fwrr_members_def grp_ptrs_ok_def
    by (fastforce simp: del eb_ordered_delete)
  moreover have "next_weight (fwrr_grp b (fwrr_dequeue_srv i p)) = grp_weight W b (fwrr_dequeue_srv i p)" for b
    using assms by (simp add: fwrr_ok_def grp_weight_def)
  moreover have "fwrr_linked (insert i X) W (fwrr_dequeue_srv i p)"
    using assms by (simp add: fwrr_ok_def fwrr_linked_def)
  ultimately show ?thesis by (simp add: fwrr_ok_def)
qed

lemma upd_tree_simps [simp]:
  "next_weight (upd_tree r f g) = next_weight g" "grp_init (upd_tree r f g) = grp_init g"
  "grp_next (upd_tree r f g) = grp_next g"
  by (simp_all add: upd_tree_def split: eb_root_ptr.splits)

lemma grp_tree_upd_tree:
  "r \<in> fwrr_roots \<Longrightarrow> r' \<in> fwrr_roots \<Longrightarrow> grp_tree r (upd_tree r' f g) = (if r = r' then f (grp_tree r g) else grp_tree r g)"
  by (auto simp: fwrr_roots_def upd_tree_def grp_tree_def)

lemma fwrr_ok_link:
  assumes ok: "fwrr_ok X W p" and i: "i \<in> X" "i < length (px_srv p)" "W i \<noteq> 0" and r: "r \<in> fwrr_roots"
    and srv: "px_srv q = (px_srv p)[i := s]" "lb_key s = k" "lb_tree s = Some r" "is_backup s = is_backup (srv_at p i)"
    and grp: "\<And>b. fwrr_grp b q = (if b = is_backup s then upd_tree r (eb32_insert k i) (fwrr_grp b p) else fwrr_grp b p)"
  shows "fwrr_ok (X - {i}) W q"
proof -
  have len: "length (px_srv q) = length (px_srv p)" by (simp add: srv)
  have nth: "j < length (px_srv p) \<Longrightarrow> srv_at q j = (if j = i then s else srv_at p j)" for j
    using srv(1) i(2) by (simp add: nth_list_update)
  have mem: "fwrr_members (X - {i}) b t q = (if b = is_backup s \<and> t = r then insert i (fwrr_members X b t p) else fwrr_members X b t p)" for b t
    using i srv(3,4) by (auto simp: fwrr_members_def len nth split: if_splits)
  have notin: "i \<notin> fwrr_members X b t p" for b t using i(1) by (simp add: fwrr_members_def)
  have img: "(\<lambda>j. (lb_key (srv_at q j), j)) ` fwrr_members X b t p = (\<lambda>j. (lb_key (srv_at p j), j)) ` fwrr_members X b t p" for b t
    using notin by (intro image_cong refl) (auto simp: fwrr_members_def nth)
  have qi: "lb_key (srv_at q i) = k" using nth i(2) srv(2) by simp
  have "fwrr_grp_ok (X - {i}) b q" for b
  proof -
    have okb: "fwrr_grp_ok X b p" using ok by (simp add: fwrr_ok_def)
    have "grp_ptrs_ok (fwrr_grp b q)" using okb by (cases "b = is_backup s") (simp_all add: grp fwrr_grp_ok_def grp_ptrs_ok_def)
    moreover have "eb_ordered (grp_tree t (fwrr_grp b q)) \<and>
        set (grp_tree t (fwrr_grp b q)) = (\<lambda>j. (lb_key (srv_at q j), j)) ` fwrr_members (X - {i}) b t q" if t: "t \<in> fwrr_roots" for t
    proof -
      have p: "eb_ordered (grp_tree t (fwrr_grp b p))"
        "set (grp_tree t (fwrr_grp b p)) = (\<lambda>j. (lb_key (srv_at p j), j)) ` fwrr_members X b t p"
        using okb t by (simp_all add: fwrr_grp_ok_def)
      have "i \<notin> set (eb_nodes (grp_tree t (fwrr_grp b p)))"
        using p(2) notin by (auto simp: set_eb_nodes)
      moreover have "grp_tree t (fwrr_grp b q) = (if b = is_backup s \<and> t = r then eb32_insert k i (grp_tree t (fwrr_grp b p))
          else grp_tree t (fwrr_grp b p))"
        using grp_tree_upd_tree [OF t r] by (cases "t = r") (simp_all add: grp)
      ultimately show ?thesis
        using p img [of b t] qi by (cases "b = is_backup s \<and> t = r") (simp_all add: mem eb_ordered_insert, blast)
    qed
    ultimately show ?thesis by (simp add: fwrr_grp_ok_def)
  qed
  moreover have "grp_weight W b q = grp_weight W b p" for b
    unfolding grp_weight_def using len nth srv(4) by (intro sum.cong) (auto split: if_splits)
  then have "next_weight (fwrr_grp b q) = grp_weight W b q" for b
    using ok by (simp add: fwrr_ok_def grp)
  moreover have "fwrr_linked (X - {i}) W q"
    using ok i(3) srv(3) r by (auto simp: fwrr_ok_def fwrr_linked_def len nth)
  ultimately show ?thesis by (simp add: fwrr_ok_def)
qed

lemma fwrr_queue_by_weight_ok:
  assumes "fwrr_ok X W p" and "i \<in> X" "i < length (px_srv p)" "W i \<noteq> 0" and "b = is_backup (srv_at p i)" and "r \<in> fwrr_roots"
  shows "fwrr_ok (X - {i}) W (fwrr_queue_by_weight b r i p)"
  using assms
  by (intro fwrr_ok_link [where p = p and k = "SRV_EWGHT_MAX - next_eweight (srv_at p i)" and r = r and
        s = "(srv_at p i)\<lparr>lb_key := SRV_EWGHT_MAX - next_eweight (srv_at p i), lb_tree := Some r\<rparr>"])
     (simp_all add: fwrr_queue_by_weight_def Let_def px_srv_upd_srv)

lemma grp_ptrs_roots:
  assumes "fwrr_ok X W p"
  shows "grp_init (fwrr_grp b p) \<in> fwrr_roots" "grp_next (fwrr_grp b p) \<in> fwrr_roots"
    "grp_init (fwrr_grp b p) \<noteq> grp_next (fwrr_grp b p)" "grp_init (fwrr_grp b p) \<noteq> Root_curr" "grp_next (fwrr_grp b p) \<noteq> Root_curr"
proof -
  have "grp_ptrs_ok (fwrr_grp b p)" using assms by (simp add: fwrr_ok_def fwrr_grp_ok_def)
  then show "grp_init (fwrr_grp b p) \<in> fwrr_roots" "grp_next (fwrr_grp b p) \<in> fwrr_roots"
    "grp_init (fwrr_grp b p) \<noteq> grp_next (fwrr_grp b p)" "grp_init (fwrr_grp b p) \<noteq> Root_curr" "grp_next (fwrr_grp b p) \<noteq> Root_curr"
    by (auto simp: grp_ptrs_ok_def fwrr_roots_def)
qed

lemma fwrr_queue_srv_ok:
  assumes ok: "fwrr_ok X W p" and i: "i \<in> X" "i < length (px_srv p)" "W i \<noteq> 0" and u: "srv_willbe_usable (srv_at p i)"
  shows "fwrr_ok (X - {i}) W (fwrr_queue_srv i p)"
proof -
  define s b g where "s = srv_at p i" and "b = is_backup (srv_at p i)" and "g = fwrr_grp (is_backup (srv_at p i)) p"
  show ?thesis
  proof (cases "next_eweight s = 0 \<or> 2 * curr_weight g \<le> npos s \<or> curr_weight g + next_weight g \<le> npos s")
    case True
    let ?p = "upd_srv i (\<lambda>s. s\<lparr>npos := npos s - curr_weight g\<rparr>) p"
    have "fwrr_ok X W ?p" using ok fwrr_same_ok [OF fwrr_same_upd_srv] by simp
    then have "fwrr_ok (X - {i}) W (fwrr_queue_by_weight b (grp_next g) i ?p)"
      using i grp_ptrs_roots(2) [OF ok]
      by (intro fwrr_queue_by_weight_ok) (simp_all add: b_def g_def is_backup_def)
    then show ?thesis using True u by (simp add: fwrr_queue_srv_def Let_def s_def b_def g_def)
  next
    case False
    define k where "k = SRV_UWGHT_RANGE * npos s + (SRV_EWGHT_MAX + rweight s - next_eweight s) div BE_WEIGHT_SCALE"
    have eq: "fwrr_queue_srv i p = upd_srv i (\<lambda>s. s\<lparr>lb_tree := Some Root_curr\<rparr>)
        (upd_grp b (upd_tree Root_curr (eb32_insert k i)) (upd_srv i (\<lambda>t. t\<lparr>lb_key := SRV_UWGHT_RANGE * npos t +
          (SRV_EWGHT_MAX + rweight t - next_eweight t) div BE_WEIGHT_SCALE\<rparr>) p))"
      using False u i(2) by (simp add: fwrr_queue_srv_def Let_def s_def b_def g_def k_def)
    show ?thesis
      unfolding eq using ok i
      by (intro fwrr_ok_link [where p = p and k = k and r = Root_curr and s = "s\<lparr>lb_key := k, lb_tree := Some Root_curr\<rparr>"])
         (simp_all add: px_srv_upd_srv s_def b_def k_def fwrr_roots_def)
  qed
qed

section \<open>Changing weights\<close>

lemma grp_weight_upd:
  assumes "i < length (px_srv p)"
  shows "grp_weight (W(i := w)) b p = (if is_backup (srv_at p i) = b then grp_weight W b p - W i + w else grp_weight W b p)"
proof -
  let ?J = "{j. j < length (px_srv p) \<and> is_backup (srv_at p j) = b}"
  have fin: "finite ?J" by simp
  show ?thesis
  proof (cases "i \<in> ?J")
    case True
    then have "sum (W(i := w)) ?J = w + sum W (?J - {i})" "sum W ?J = W i + sum W (?J - {i})"
      using fin by (simp_all add: sum.remove)
    then show ?thesis using True by (simp add: grp_weight_def)
  next
    case False
    then have "sum (W(i := w)) ?J = sum W ?J" by (intro sum.cong) auto
    then show ?thesis using False assms by (simp add: grp_weight_def)
  qed
qed

text \<open>The weight of the group of server \<open>i\<close> changes with that of the server.\<close>

definition fwrr_reweigh :: "srv_ref \<Rightarrow> u32 \<Rightarrow> proxy \<Rightarrow> proxy" where
  "fwrr_reweigh i d p = upd_grp (is_backup (srv_at p i)) (\<lambda>g. g\<lparr>next_weight := next_weight g + d\<rparr>) p"

lemma fwrr_reweigh_simps [simp]:
  "px_srv (fwrr_reweigh i d p) = px_srv p"
  "fwrr_grp b (fwrr_reweigh i d p) = (if b = is_backup (srv_at p i) then (fwrr_grp b p)\<lparr>next_weight := next_weight (fwrr_grp b p) + d\<rparr> else fwrr_grp b p)"
  by (simp_all add: fwrr_reweigh_def)

lemma fwrr_ok_reweigh:
  assumes ok: "fwrr_ok X W p" and i: "i < length (px_srv p)" and w: "i \<in> X \<or> (W i = 0 \<longleftrightarrow> w = 0)"
  shows "fwrr_ok X (W(i := w)) (fwrr_reweigh i (w - W i) p)"
proof -
  have "fwrr_grp_ok X b (fwrr_reweigh i (w - W i) p)" for b
    using ok by (cases "b = is_backup (srv_at p i)") (simp_all add: fwrr_ok_def fwrr_grp_ok_def grp_ptrs_ok_def fwrr_members_def)
  moreover have "next_weight (fwrr_grp b (fwrr_reweigh i (w - W i) p)) = grp_weight (W(i := w)) b (fwrr_reweigh i (w - W i) p)" for b
    using ok grp_weight_upd [OF i, of W w b]
    by (cases "b = is_backup (srv_at p i)") (simp_all add: fwrr_ok_def grp_weight_def algebra_simps)
  moreover have "fwrr_linked X (W(i := w)) (fwrr_reweigh i (w - W i) p)"
    using ok w by (auto simp: fwrr_ok_def fwrr_linked_def)
  ultimately show ?thesis by (simp add: fwrr_ok_def)
qed

text \<open>A server that is in no tree counts as taken out.\<close>

lemma fwrr_ok_open:
  assumes "fwrr_ok X W p" and "W i = 0"
  shows "fwrr_ok (insert i X) W p"
proof -
  have "j < length (px_srv p) \<Longrightarrow> j \<notin> X \<Longrightarrow> lb_tree (srv_at p j) = Some r \<Longrightarrow> j \<noteq> i" for j r
    using assms by (auto simp: fwrr_ok_def fwrr_linked_def split: if_splits)
  then have "fwrr_members (insert i X) b r p = fwrr_members X b r p" for b r
    by (auto simp: fwrr_members_def)
  then show ?thesis using assms by (simp add: fwrr_ok_def fwrr_grp_ok_def fwrr_linked_def)
qed

lemma fwrr_ok_unlink:
  assumes ok: "fwrr_ok X W p" and i: "i \<in> X" "W i = 0"
  shows "fwrr_ok (X - {i}) W (fwrr_remove_from_tree i p)"
proof -
  let ?q = "upd_srv i (\<lambda>s. s\<lparr>lb_tree := None\<rparr>) p"
  have mem: "fwrr_members (X - {i}) b r ?q = fwrr_members X b r p" for b r
    using i by (auto simp: fwrr_members_def split: if_splits)
  have img: "(\<lambda>j. (lb_key (srv_at ?q j), j)) ` fwrr_members X b r p = (\<lambda>j. (lb_key (srv_at p j), j)) ` fwrr_members X b r p" for b r
    by (intro image_cong refl) (auto simp: fwrr_members_def)
  have "fwrr_grp_ok (X - {i}) b ?q" for b
    using ok unfolding fwrr_ok_def fwrr_grp_ok_def mem img by simp
  moreover have "grp_weight W b ?q = grp_weight W b p" for b
    unfolding grp_weight_def by (intro sum.cong) (auto split: if_splits)
  moreover have "fwrr_linked (X - {i}) W ?q"
    using ok i by (auto simp: fwrr_ok_def fwrr_linked_def)
  ultimately show ?thesis using ok by (simp add: fwrr_ok_def fwrr_remove_from_tree_def)
qed

section \<open>The callbacks\<close>

lemma fwrr_get_srv_same: "fwrr_same p (fwrr_get_srv i p)"
  by (auto simp: fwrr_get_srv_def fwrr_get_srv_init_def fwrr_get_srv_next_def fwrr_get_srv_down_def Let_def intro!: fwrr_same_upd_srv)

lemma fwrr_get_srv_fields:
  assumes "i < length (px_srv p)"
  shows "is_backup (srv_at (fwrr_get_srv i p) i) = is_backup (srv_at p i)"
    "srv_willbe_usable (srv_at (fwrr_get_srv i p) i) = srv_willbe_usable (srv_at p i)"
    "length (px_srv (fwrr_get_srv i p)) = length (px_srv p)"
  using assms by (auto simp: fwrr_get_srv_def fwrr_get_srv_init_def fwrr_get_srv_next_def fwrr_get_srv_down_def Let_def)

lemma fwrr_place_up_ok:
  assumes ok: "fwrr_ok X W p" and i: "i \<in> X" "i < length (px_srv p)" "W i \<noteq> 0" and u: "srv_willbe_usable (srv_at p i)"
  shows "fwrr_ok (X - {i}) W (fwrr_place_up i p)"
proof -
  define q where "q = upd_srv i (\<lambda>s. s\<lparr>npos := curr_pos (srv_grp i (fwrr_get_srv i p)) +
      (next_weight (srv_grp i (fwrr_get_srv i p)) + curr_weight (srv_grp i (fwrr_get_srv i p)) -
       curr_pos (srv_grp i (fwrr_get_srv i p))) div next_eweight s\<rparr>) (fwrr_get_srv i p)"
  have "fwrr_same (fwrr_get_srv i p) q" unfolding q_def by (intro fwrr_same_upd_srv) simp_all
  then have "fwrr_same p q" using fwrr_same_trans [OF fwrr_get_srv_same] by blast
  then have "fwrr_ok X W q" using ok fwrr_same_ok by blast
  then have "fwrr_ok (X - {i}) W (fwrr_queue_srv i q)"
    using i u fwrr_get_srv_fields [OF i(2)]
    by (intro fwrr_queue_srv_ok) (simp_all add: q_def)
  then show ?thesis by (simp add: fwrr_place_up_def q_def Let_def)
qed

lemma fwrr_adjust_npos_same: "fwrr_same p (fwrr_adjust_npos i p)"
  by (auto simp: fwrr_adjust_npos_def Let_def intro!: fwrr_same_upd_srv)

lemma fwrr_replace_ok:
  assumes ok: "fwrr_ok {} W p" and i: "i < length (px_srv p)" "W i \<noteq> 0" and u: "srv_willbe_usable (srv_at p i)"
  shows "fwrr_ok {} W (fwrr_replace i p)"
proof -
  define b g where "b = is_backup (srv_at p i)" and "g = fwrr_grp (is_backup (srv_at p i)) p"
  have deq: "fwrr_ok {i} W (fwrr_dequeue_srv i q)" if "fwrr_same p q" for q
    using fwrr_ok_dequeue [of "{}" W q i] fwrr_same_ok [OF that] ok by simp
  have "lb_tree (srv_at p i) \<in> Some ` fwrr_roots" using ok i by (simp add: fwrr_ok_def fwrr_linked_def)
  then have "lb_tree (srv_at p i) \<noteq> None" by auto
  moreover have "fwrr_ok ({i} - {i}) W (fwrr_queue_by_weight b (grp_init g) i (fwrr_dequeue_srv i p))"
    using deq [of p] i grp_ptrs_roots(1) [OF ok, of b]
    by (intro fwrr_queue_by_weight_ok) (simp_all add: b_def g_def)
  moreover have "fwrr_ok ({i} - {i}) W (fwrr_queue_srv i (fwrr_dequeue_srv i (fwrr_adjust_npos i (fwrr_get_srv i p))))"
  proof (rule fwrr_queue_srv_ok)
    have "fwrr_same p (fwrr_adjust_npos i (fwrr_get_srv i p))"
      using fwrr_same_trans [OF fwrr_get_srv_same fwrr_adjust_npos_same] .
    then show "fwrr_ok {i} W (fwrr_dequeue_srv i (fwrr_adjust_npos i (fwrr_get_srv i p)))" by (rule deq)
    show "srv_willbe_usable (srv_at (fwrr_dequeue_srv i (fwrr_adjust_npos i (fwrr_get_srv i p))) i)"
      "i < length (px_srv (fwrr_dequeue_srv i (fwrr_adjust_npos i (fwrr_get_srv i p))))"
      using i u fwrr_get_srv_fields [OF i(1)] by (simp_all add: fwrr_adjust_npos_def Let_def)
  qed (use i in simp_all)
  ultimately show ?thesis by (auto simp: fwrr_replace_def Let_def b_def g_def)
qed

text \<open>The steps of the callbacks in the form of the interface: the group weight, then the trees.\<close>

definition fwrr_in :: "srv_ref \<Rightarrow> proxy \<Rightarrow> proxy" where
  "fwrr_in i p = fwrr_place_up i (fwrr_reweigh i (next_eweight (srv_at p i)) p)"

definition fwrr_out :: "srv_ref \<Rightarrow> proxy \<Rightarrow> proxy" where
  "fwrr_out i p = fwrr_remove_from_tree i (fwrr_dequeue_srv i (fwrr_reweigh i (- cur_eweight (srv_at p i)) p))"

definition fwrr_move :: "srv_ref \<Rightarrow> proxy \<Rightarrow> proxy" where
  "fwrr_move i p = fwrr_replace i (fwrr_reweigh i (next_eweight (srv_at p i) - cur_eweight (srv_at p i)) p)"

lemma fwrr_in_ok:
  assumes "fwrr_ok {} W p" and "i < length (px_srv p)" and "W i = 0" and "srv_willbe_usable (srv_at p i)"
  shows "fwrr_ok {} (W(i := next_eweight (srv_at p i))) (fwrr_in i p)"
proof -
  let ?w = "next_eweight (srv_at p i)"
  have "fwrr_ok {i} W p" using fwrr_ok_open [OF assms(1,3)] by simp
  from fwrr_ok_reweigh [OF this assms(2), of ?w] have "fwrr_ok {i} (W(i := ?w)) (fwrr_reweigh i ?w p)"
    using assms(3) by simp
  from fwrr_place_up_ok [OF this, of i] assms(2,4) show ?thesis
    by (simp add: fwrr_in_def willbe_usable_weight)
qed

lemma fwrr_out_ok:
  assumes "fwrr_ok {} W p" and "i < length (px_srv p)" and "W i = cur_eweight (srv_at p i)"
  shows "fwrr_ok {} (W(i := 0)) (fwrr_out i p)"
proof -
  have comm: "fwrr_reweigh i d (fwrr_dequeue_srv i p) = fwrr_dequeue_srv i (fwrr_reweigh i d p)" for d
    by (simp add: fwrr_reweigh_def fwrr_dequeue_srv_def upd_grp_def grp_delete_def)
  have "fwrr_ok {i} W (fwrr_dequeue_srv i p)" using fwrr_ok_dequeue [OF assms(1)] by simp
  from fwrr_ok_reweigh [OF this, of i 0] assms(2,3)
  have "fwrr_ok {i} (W(i := 0)) (fwrr_dequeue_srv i (fwrr_reweigh i (- cur_eweight (srv_at p i)) p))"
    by (simp add: comm)
  from fwrr_ok_unlink [OF this, of i] show ?thesis by (simp add: fwrr_out_def)
qed

lemma fwrr_move_ok:
  assumes "fwrr_ok {} W p" and "i < length (px_srv p)" and "W i \<noteq> 0" and "W i = cur_eweight (srv_at p i)"
    and "srv_willbe_usable (srv_at p i)"
  shows "fwrr_ok {} (W(i := next_eweight (srv_at p i))) (fwrr_move i p)"
proof -
  let ?w = "next_eweight (srv_at p i)"
  have w: "?w \<noteq> 0" using assms(5) by (rule willbe_usable_weight)
  have "fwrr_ok {} (W(i := ?w)) (fwrr_reweigh i (?w - W i) p)"
    by (rule fwrr_ok_reweigh) (use assms w in simp_all)
  from fwrr_replace_ok [OF this, of i] assms w show ?thesis by (simp add: fwrr_move_def)
qed

lemma fwrr_acct_frame:
  "fwrr_grp b (acct_srv_down i p) = fwrr_grp b p" "fwrr_grp b (acct_srv_up i p) = fwrr_grp b p"
  "fwrr_grp b (acct_srv_reweight i p) = fwrr_grp b p" "fwrr_grp b (update_backend_weight p) = fwrr_grp b p"
  by (simp_all add: fwrr_grp_def acct_srv_down_def acct_srv_up_def acct_srv_reweight_def elect_fbck_def Let_def
      update_backend_weight_def split: option.splits)

lemma fwrr_ok_acct:
  "fwrr_ok X W (acct_srv_down i p) = fwrr_ok X W p" "fwrr_ok X W (acct_srv_up i p) = fwrr_ok X W p"
  "fwrr_ok X W (acct_srv_reweight i p) = fwrr_ok X W p" "fwrr_ok X W (update_backend_weight p) = fwrr_ok X W p"
  "fwrr_ok X W (upd_srv i srv_lb_commit_status p) = fwrr_ok X W p" "fwrr_ok X W (upd_srv i (set_pending e) p) = fwrr_ok X W p"
  by (rule fwrr_same_ok; auto simp: fwrr_same_def fwrr_acct_frame srv_lb_commit_status_def set_pending_def is_backup_def)+

text \<open>The totals of the proxy are the weights of the groups.\<close>

lemma w_srv_sum: "w_srv Q w xs = (\<Sum>j | j < length xs \<and> Q (xs ! j). w (xs ! j))"
proof (induction xs rule: rev_induct)
  case (snoc x xs)
  have "{j. j < length (xs @ [x]) \<and> Q ((xs @ [x]) ! j)} =
      {j. j < length xs \<and> Q (xs ! j)} \<union> (if Q x then {length xs} else {})"
    by (auto simp: nth_append less_Suc_eq)
  moreover have "(\<Sum>j | j < length xs \<and> Q (xs ! j). w ((xs @ [x]) ! j)) = (\<Sum>j | j < length xs \<and> Q (xs ! j). w (xs ! j))"
    by (intro sum.cong) (auto simp: nth_append)
  ultimately show ?case using snoc by (simp add: w_srv_def)
qed (simp add: w_srv_def)

lemma grp_weight_lb:
  "grp_weight (lb_weights p) False p = w_srv cur_act cur_eweight (px_srv p)"
  "grp_weight (lb_weights p) True p = w_srv cur_bck cur_eweight (px_srv p)"
  unfolding grp_weight_def w_srv_sum
  by (rule sum.mono_neutral_cong_right; auto simp: lb_weights_def cur_act_def cur_bck_def)+

lemma fwrr_totals:
  assumes "fwrr_ok X (lb_weights p) p" and "lb_acct p"
  shows "tot_wact p = next_weight (fwrr_act p)" "tot_wbck p = next_weight (fwrr_bck p)"
proof -
  have "next_weight (fwrr_grp b p) = grp_weight (lb_weights p) b p" for b using assms(1) by (simp add: fwrr_ok_def)
  from this [of False] this [of True] show "tot_wact p = next_weight (fwrr_act p)" "tot_wbck p = next_weight (fwrr_bck p)"
    using assms(2) by (simp_all add: lb_acct_def grp_weight_lb fwrr_grp_def)
qed

text \<open>The counters of the source are those of the interface.\<close>

lemma fwrr_count_eq:
  assumes "tot_wact p = next_weight (fwrr_act p)" and "tot_wbck p = next_weight (fwrr_bck p)"
  shows "fwrr_count_down i p = fwrr_reweigh i (- cur_eweight (srv_at p i)) (acct_srv_down i p)"
    and "fwrr_count_up i p = fwrr_reweigh i (next_eweight (srv_at p i)) (acct_srv_up i p)"
    and "fwrr_count_weight i p = fwrr_reweigh i (next_eweight (srv_at p i) - cur_eweight (srv_at p i)) (acct_srv_reweight i p)"
  using assms
  by (auto simp: fwrr_count_down_def fwrr_count_up_def fwrr_count_weight_def fwrr_reweigh_def acct_srv_down_def acct_srv_up_def
      acct_srv_reweight_def upd_grp_def elect_fbck_def next_usable_backup_def srv_reaches_def use_all_bk_def Let_def
      split: option.splits)

section \<open>Status changes\<close>

definition fwrr_cb :: "lb_callback \<Rightarrow> srv_ref \<Rightarrow> proxy \<Rightarrow> proxy" where
  "fwrr_cb = shape_cb fwrr_set_server_status_up fwrr_set_server_status_down fwrr_update_server_weight"

definition fwrr_inv :: "proxy \<Rightarrow> bool" where
  "fwrr_inv p \<longleftrightarrow> fwrr_ok {} (lb_weights p) p"

text \<open>Tree operations change nothing the accounting depends on.\<close>

lemma upd_srv_keeps_acct:
  assumes "\<And>s. acct_key (f s) = acct_key s"
  shows "same_acct p (upd_srv i f p)"
  using assms by (intro same_acctI) auto

lemma fields_keep_acct: "px_srv q = px_srv p \<Longrightarrow> acct_fields q = acct_fields p \<Longrightarrow> same_acct p q"
  by (intro same_acctI) auto

lemma grp_keeps_acct: "same_acct p (upd_grp b f p)" "same_acct p (fwrr_dequeue_srv i p)" "same_acct p (fwrr_reweigh i d p)"
  by (auto simp: fwrr_reweigh_def upd_grp_def fwrr_dequeue_srv_def acct_fields_def intro!: fields_keep_acct)

lemma fwrr_queue_keeps_acct:
  "same_acct p (fwrr_queue_by_weight b r i p)" "same_acct p (fwrr_queue_srv i p)"
proof -
  show w: "same_acct p (fwrr_queue_by_weight b r i p)" for p b r
    unfolding fwrr_queue_by_weight_def Let_def
    by (intro same_acct_trans [OF upd_srv_keeps_acct same_acct_trans [OF grp_keeps_acct(1) upd_srv_keeps_acct]]) simp_all
  show "same_acct p (fwrr_queue_srv i p)"
    unfolding fwrr_queue_srv_def Let_def fwrr_remove_from_tree_def
    by (auto intro!: upd_srv_keeps_acct same_acct_trans [OF upd_srv_keeps_acct w]
        same_acct_trans [OF upd_srv_keeps_acct same_acct_trans [OF grp_keeps_acct(1) upd_srv_keeps_acct]])
qed

lemma fwrr_get_srv_keeps_acct: "same_acct p (fwrr_get_srv i p)" "same_acct p (fwrr_adjust_npos i p)"
  by (auto simp: fwrr_get_srv_def fwrr_get_srv_init_def fwrr_get_srv_next_def fwrr_get_srv_down_def fwrr_adjust_npos_def Let_def
      intro!: upd_srv_keeps_acct same_acct_refl)

lemma fwrr_steps_keep_acct: "same_acct p (fwrr_in i p)" "same_acct p (fwrr_out i p)" "same_acct p (fwrr_move i p)"
proof -
  have pu: "same_acct p (fwrr_place_up i p)" for p
    unfolding fwrr_place_up_def Let_def
    by (intro same_acct_trans [OF fwrr_get_srv_keeps_acct(1) same_acct_trans [OF upd_srv_keeps_acct fwrr_queue_keeps_acct(2)]]) simp_all
  show "same_acct p (fwrr_in i p)"
    unfolding fwrr_in_def by (rule same_acct_trans [OF grp_keeps_acct(3) pu])
  show "same_acct p (fwrr_out i p)"
    unfolding fwrr_out_def fwrr_remove_from_tree_def
    by (intro same_acct_trans [OF grp_keeps_acct(3) same_acct_trans [OF grp_keeps_acct(2) upd_srv_keeps_acct]]) simp_all
  have rp: "same_acct p (fwrr_replace i p)" for p
    unfolding fwrr_replace_def Let_def
    using pu same_acct_trans [OF grp_keeps_acct(2) fwrr_queue_keeps_acct(1)] same_acct_trans [OF grp_keeps_acct(2) pu]
      same_acct_trans [OF fwrr_get_srv_keeps_acct(1) same_acct_trans [OF fwrr_get_srv_keeps_acct(2)
        same_acct_trans [OF grp_keeps_acct(2) fwrr_queue_keeps_acct(2)]]]
    by simp
  show "same_acct p (fwrr_move i p)"
    unfolding fwrr_move_def by (rule same_acct_trans [OF grp_keeps_acct(3) rp])
qed

interpretation fwrr: tree_callbacks "fwrr_ok {}" fwrr_in fwrr_out fwrr_move
  fwrr_set_server_status_up fwrr_set_server_status_down fwrr_update_server_weight
proof
  fix i and p :: proxy
  assume ti: "fwrr_ok {} (lb_weights p) p" and rdy: "lb_ready i p"
  have "lb_acct p" using rdy by (simp add: lb_ready_def)
  note count = fwrr_count_eq [OF fwrr_totals [OF ti this]]
  show "fwrr_set_server_status_down i p = status_down_shape fwrr_out i p"
    by (simp add: fwrr_set_server_status_down_def status_down_shape_def fwrr_out_def count(1) acct_commit_def Let_def)
  show "fwrr_set_server_status_up i p = status_up_shape fwrr_in i p"
    by (simp add: fwrr_set_server_status_up_def status_up_shape_def fwrr_in_def count(2) acct_commit_def Let_def)
  show "fwrr_update_server_weight i p =
      update_weight_shape fwrr_set_server_status_up fwrr_set_server_status_down fwrr_move i p"
    by (simp add: fwrr_update_server_weight_def update_weight_shape_def fwrr_move_def count(3) acct_commit_def Let_def)
qed (simp_all add: fwrr_steps_keep_acct fwrr_in_ok fwrr_out_ok fwrr_move_ok fwrr_ok_acct)

lemma fwrr_events_invariant:
  assumes "fwrr_inv p" "lb_acct p" "all_committed p" "run_events fwrr_cb es p = Some q"
  shows "fwrr_inv q \<and> lb_acct q \<and> all_committed q"
  using fwrr.lb.events_ok [of p es q] assms by (simp add: fwrr_inv_def fwrr_cb_def)

end
