(* ===== verification/Fwrr_Lookup.thy ===== *)
theory Fwrr_Lookup
  imports Fwrr_Inv
begin

text \<open>
  Initialisation and lookup of weighted round robin: the lookup ends, keeps the invariant, changes
  nothing but positions, and returns a server that is not full whenever there is one.
\<close>

section \<open>Initialisation\<close>

lemma fwrr_init_ok:
  assumes len: "length (px_srv p) < 2 ^ 32" and lt: "\<forall>s \<in> set (px_srv p). lb_tree s = None"
  shows "fwrr_inv (fwrr_init_server_groups p) \<and> lb_acct (fwrr_init_server_groups p) \<and>
    all_committed (fwrr_init_server_groups p)"
proof -
  define p1 where "p1 = init_weights_and_count p"
  define r where "r = p1\<lparr>fwrr_act := fwrr_fresh_group (tot_wact p1) (fwrr_act p1), fwrr_bck := fwrr_fresh_group (tot_wbck p1) (fwrr_bck p1)\<rparr>"
  have sa: "same_acct p1 r" by (rule same_acctI) (simp_all add: r_def acct_fields_def)
  have ac: "all_committed r" and la: "lb_acct r"
    using same_acct_all_committed [OF sa] same_acct_lb_acct [OF sa] init_weights_and_count_ok [OF len] by (auto simp: p1_def)
  define W where "W = lb_weights r"
  define X where "X k = {j. k \<le> j \<and> W j \<noteq> 0}" for k
  have W: "W j \<noteq> 0 \<longleftrightarrow> j < length (px_srv r) \<and> srv_currently_usable (srv_at r j)" for j
    by (auto simp: W_def lb_weights_def srv_currently_usable_def split: if_splits)
  have ltr: "\<forall>s \<in> set (px_srv r). lb_tree s = None"
    using init_weights_lb_tree [OF assms] by (simp add: r_def p1_def)
  have "fwrr_ok (X 0) W r"
  proof -
    have "fwrr_members (X 0) b t r = {}" for b t
      using ltr by (auto simp: fwrr_members_def)
    then have "fwrr_grp_ok (X 0) b r" for b
      by (auto simp: fwrr_grp_ok_def grp_ptrs_ok_def r_def fwrr_grp_def fwrr_fresh_group_def fwrr_roots_def grp_tree_def)
    moreover have "next_weight (fwrr_grp b r) = grp_weight W b r" for b
      using la by (cases b) (simp_all add: W_def grp_weight_lb lb_acct_def fwrr_grp_def, simp_all add: r_def fwrr_fresh_group_def)
    moreover have "fwrr_linked (X 0) W r" using ltr by (auto simp: fwrr_linked_def X_def)
    ultimately show ?thesis by (simp add: fwrr_ok_def)
  qed
  then have start: "fwrr_ok (X 0) W r \<and> same_acct r r" by (simp add: same_acct_refl)
  define f where "f i q = (if \<not> srv_currently_usable (srv_at q i) then q
      else fwrr_queue_by_weight (is_backup (srv_at q i)) (grp_init (fwrr_grp (is_backup (srv_at q i)) q)) i q)" for i q
  have step: "fwrr_ok (X (Suc k)) W (f k q) \<and> same_acct r (f k q)"
    if k: "k < length (px_srv r)" and q: "fwrr_ok (X k) W q \<and> same_acct r q" for k q
  proof -
    have kq: "k < length (px_srv q)" using q k same_acct_length by metis
    have "lb_weights q = W" using same_acct_weights(1) q by (simp add: W_def)
    then have Wk: "W k \<noteq> 0 \<longleftrightarrow> srv_currently_usable (srv_at q k)"
      using kq by (auto simp: lb_weights_def srv_currently_usable_def split: if_splits)
    show ?thesis
    proof (cases "srv_currently_usable (srv_at q k)")
      case False
      then have "X (Suc k) = X k" using Wk by (auto simp: X_def Suc_le_eq le_less)
      with False q show ?thesis by (simp add: f_def)
    next
      case True
      then have "X (Suc k) = X k - {k}" "k \<in> X k" using Wk by (auto simp: X_def Suc_le_eq)
      with True q Wk kq show ?thesis
        using fwrr_queue_by_weight_ok [of "X k" W q k _ "grp_init (fwrr_grp (is_backup (srv_at q k)) q)"] grp_ptrs_roots(1) [of "X k" W q]
          same_acct_trans [OF _ fwrr_queue_keeps_acct(1)]
        by (simp add: f_def)
    qed
  qed
  have eq: "fwrr_init_server_groups p = fold f [0..<length (px_srv r)] r"
    by (simp add: fwrr_init_server_groups_def Let_def r_def p1_def f_def [abs_def] cong: if_cong)
  have "fwrr_ok (X (length (px_srv r))) W (fwrr_init_server_groups p) \<and> same_acct r (fwrr_init_server_groups p)"
    unfolding eq by (rule fold_upt_rule [where P = "\<lambda>k q. fwrr_ok (X k) W q \<and> same_acct r q", OF start step])
  moreover have "X (length (px_srv r)) = {}" using W by (auto simp: X_def)
  ultimately show ?thesis
    using same_acct_lb_acct [OF _ la] same_acct_all_committed [OF _ ac] same_acct_weights(1)
    by (auto simp: fwrr_inv_def W_def)
qed

section \<open>What the lookup leaves alone\<close>

definition fwrr_view :: "server \<Rightarrow> server" where
  "fwrr_view s = s\<lparr>npos := 0, lpos := 0, rweight := 0, lb_key := 0, lb_tree := None\<rparr>"

definition fwrr_frame :: "proxy \<Rightarrow> proxy \<Rightarrow> bool" where
  "fwrr_frame p q \<longleftrightarrow> map fwrr_view (px_srv q) = map fwrr_view (px_srv p) \<and>
     q\<lparr>px_srv := [], fwrr_act := sample_group, fwrr_bck := sample_group\<rparr> =
     p\<lparr>px_srv := [], fwrr_act := sample_group, fwrr_bck := sample_group\<rparr>"

lemma fwrr_frame_refl [simp]: "fwrr_frame p p"
  by (simp add: fwrr_frame_def)

lemma fwrr_frame_trans [trans]: "fwrr_frame p q \<Longrightarrow> fwrr_frame q r \<Longrightarrow> fwrr_frame p r"
  by (simp add: fwrr_frame_def)

lemma fwrr_frame_upd_srv: "(\<And>s. fwrr_view (f s) = fwrr_view s) \<Longrightarrow> fwrr_frame p (upd_srv i f p)"
  by (cases "i < length (px_srv p)")
     (simp_all add: fwrr_frame_def upd_srv_def map_update list_update_beyond list_update_same_conv)

lemma fwrr_frame_grp: "fwrr_frame p (upd_grp b f p)" "fwrr_frame p (fwrr_dequeue_srv i p)"
  by (simp_all add: fwrr_frame_def upd_grp_def fwrr_dequeue_srv_def)

lemma fwrr_frame_nth: "fwrr_frame p q \<Longrightarrow> j < length (px_srv p) \<Longrightarrow> fwrr_view (srv_at q j) = fwrr_view (srv_at p j)"
  unfolding fwrr_frame_def by (metis length_map nth_map)

lemma fwrr_frame_length: "fwrr_frame p q \<Longrightarrow> length (px_srv q) = length (px_srv p)"
  unfolding fwrr_frame_def by (metis length_map)

lemma fwrr_view_eq:
  assumes "fwrr_view s = fwrr_view t"
  shows "srv_id s = srv_id t" "acct_key s = acct_key t" "srv_num s = srv_num t"
    "srv_dynamic_maxconn now_sec p s = srv_dynamic_maxconn now_sec p t" "maxconn s = maxconn t"
    "q_length (srv_queue s) = q_length (srv_queue t)" "served s = served t"
proof -
  have v: "srv_id (fwrr_view u) = srv_id u" "acct_key (fwrr_view u) = acct_key u" "srv_num (fwrr_view u) = srv_num u"
    "srv_dynamic_maxconn now_sec p (fwrr_view u) = srv_dynamic_maxconn now_sec p u" "maxconn (fwrr_view u) = maxconn u"
    "q_length (srv_queue (fwrr_view u)) = q_length (srv_queue u)" "served (fwrr_view u) = served u" for u
    by (simp_all add: fwrr_view_def srv_num_def srv_dynamic_maxconn_def Let_def)
  show "srv_id s = srv_id t" "acct_key s = acct_key t" "srv_num s = srv_num t"
    "srv_dynamic_maxconn now_sec p s = srv_dynamic_maxconn now_sec p t" "maxconn s = maxconn t"
    "q_length (srv_queue s) = q_length (srv_queue t)" "served s = served t"
    using assms v by metis+
qed

lemma fwrr_frame_fields:
  assumes "fwrr_frame p q"
  shows "acct_fields q = acct_fields p" "fullconn q = fullconn p" "beconn q = beconn p"
proof -
  let ?e = "\<lambda>r. r\<lparr>px_srv := [], fwrr_act := sample_group, fwrr_bck := sample_group\<rparr>"
  have e: "?e q = ?e p" using assms by (simp add: fwrr_frame_def)
  have "acct_fields (?e r) = acct_fields r" for r by (simp add: acct_fields_def)
  from this [of p] this [of q] show "acct_fields q = acct_fields p" unfolding e by simp
  from arg_cong [OF e, of fullconn] arg_cong [OF e, of beconn]
  show "fullconn q = fullconn p" "beconn q = beconn p" by simp_all
qed

lemma fwrr_frame_same_acct: "fwrr_frame p q \<Longrightarrow> same_acct p q"
  by (rule same_acctI [OF fwrr_frame_fields(1) fwrr_frame_length fwrr_view_eq(2) [OF fwrr_frame_nth]])

lemma fwrr_frame_not_full:
  assumes "fwrr_frame p q" and "j < length (px_srv p)"
  shows "srv_not_full now_sec q (srv_at q j) = srv_not_full now_sec p (srv_at p j)"
proof -
  have "srv_dynamic_maxconn now_sec q s = srv_dynamic_maxconn now_sec p s" for s
    by (simp add: srv_dynamic_maxconn_def fwrr_frame_fields [OF assms(1)])
  then show ?thesis
    using fwrr_view_eq [OF fwrr_frame_nth [OF assms]] by (simp add: srv_not_full_def)
qed

section \<open>Steps of the lookup\<close>

lemma fwrr_step_same:
  "fwrr_same p (upd_grp b fwrr_collect_weight p)" "fwrr_same p (upd_grp b fwrr_switch_trees p)"
  "fwrr_same p (fwrr_update_position b s p)" "fwrr_same p (upd_grp b (\<lambda>g. g\<lparr>curr_pos := curr_pos g + 1\<rparr>) p)"
  "fwrr_same p (fwrr_get_srv_init s p)"
proof -
  show "fwrr_same p (upd_grp b fwrr_collect_weight p)" "fwrr_same p (upd_grp b fwrr_switch_trees p)"
    "fwrr_same p (upd_grp b (\<lambda>g. g\<lparr>curr_pos := curr_pos g + 1\<rparr>) p)"
    by (rule fwrr_same_upd_grp; auto simp: fwrr_collect_weight_def fwrr_switch_trees_def grp_ptrs_ok_def Let_def)+
  show "fwrr_same p (fwrr_update_position b s p)" "fwrr_same p (fwrr_get_srv_init s p)"
    by (simp_all add: fwrr_update_position_def fwrr_get_srv_init_def Let_def fwrr_same_upd_srv)
qed

lemma fwrr_step_frame:
  "fwrr_frame p (fwrr_update_position b s p)" "fwrr_frame p (fwrr_get_srv_init s p)"
  "fwrr_frame p (fwrr_queue_by_weight b r s p)" "fwrr_frame p (fwrr_queue_srv s p)"
proof -
  note upd = fwrr_frame_upd_srv fwrr_frame_grp(1)
  show "fwrr_frame p (fwrr_update_position b s p)" "fwrr_frame p (fwrr_get_srv_init s p)"
    by (auto simp: fwrr_update_position_def fwrr_get_srv_init_def Let_def fwrr_view_def intro!: fwrr_frame_upd_srv)
  have link: "fwrr_frame p (upd_srv s (\<lambda>s. s\<lparr>lb_tree := x\<rparr>) (upd_grp b f (upd_srv s (\<lambda>s. s\<lparr>lb_key := k s\<rparr>) p)))" for p b f k x
    by (rule fwrr_frame_trans [OF fwrr_frame_upd_srv fwrr_frame_trans [OF fwrr_frame_grp(1) fwrr_frame_upd_srv]])
       (simp_all add: fwrr_view_def)
  show w: "fwrr_frame p (fwrr_queue_by_weight b r s p)" for p b r
    by (simp add: fwrr_queue_by_weight_def Let_def link)
  have pos: "fwrr_frame p (upd_srv s (\<lambda>s. s\<lparr>npos := n s\<rparr>) p)" "fwrr_frame p (upd_srv s (\<lambda>s. s\<lparr>lb_tree := x\<rparr>) p)" for p n x
    by (simp_all add: fwrr_frame_upd_srv fwrr_view_def)
  show "fwrr_frame p (fwrr_queue_srv s p)"
    by (simp add: fwrr_queue_srv_def fwrr_remove_from_tree_def Let_def link pos fwrr_frame_trans [OF pos(1) w])
qed

lemma fwrr_first_member:
  assumes "fwrr_ok X W p" and "r \<in> fwrr_roots" and "eb32_first (grp_tree r (fwrr_grp b p)) = Some (k, s)"
  shows "s < length (px_srv p)" "s \<notin> X" "is_backup (srv_at p s) = b" "W s \<noteq> 0"
proof -
  have "(k, s) \<in> set (grp_tree r (fwrr_grp b p))" using assms(3) by (rule eb32_first_in)
  then have "s \<in> fwrr_members X b r p" using assms(1,2) by (auto simp: fwrr_ok_def fwrr_grp_ok_def)
  then show s: "s < length (px_srv p)" "s \<notin> X" "is_backup (srv_at p s) = b" and "W s \<noteq> 0"
    using assms(1) by (auto simp: fwrr_members_def fwrr_ok_def fwrr_linked_def split: if_splits)
qed

text \<open>When the three trees of a group are empty, its usable servers are all in \<open>X\<close>.\<close>

lemma fwrr_empty_group:
  assumes "fwrr_ok X W p" and "\<forall>r \<in> fwrr_roots. grp_tree r (fwrr_grp b p) = []"
    and "j < length (px_srv p)" "is_backup (srv_at p j) = b" "W j \<noteq> 0"
  shows "j \<in> X"
proof (rule ccontr)
  assume "j \<notin> X"
  then have "lb_tree (srv_at p j) \<in> Some ` fwrr_roots" using assms by (simp add: fwrr_ok_def fwrr_linked_def)
  then obtain r where "r \<in> fwrr_roots" "lb_tree (srv_at p j) = Some r" by auto
  then have "j \<in> fwrr_members X b r p" using assms \<open>j \<notin> X\<close> by (simp add: fwrr_members_def)
  moreover have "set (grp_tree r (fwrr_grp b p)) = (\<lambda>j. (lb_key (srv_at p j), j)) ` fwrr_members X b r p"
    using assms(1) \<open>r \<in> fwrr_roots\<close> by (simp add: fwrr_ok_def fwrr_grp_ok_def)
  ultimately show False using assms(2) \<open>r \<in> fwrr_roots\<close> by auto
qed

text \<open>A server of the group that may be returned.\<close>

definition fwrr_usable :: "bool \<Rightarrow> proxy \<Rightarrow> srv_ref \<Rightarrow> bool" where
  "fwrr_usable b p j \<longleftrightarrow> j < length (px_srv p) \<and> is_backup (srv_at p j) = b \<and> srv_currently_usable (srv_at p j)"

lemma fwrr_usable_frame:
  assumes "fwrr_frame p0 p"
  shows "fwrr_usable b p0 j \<longleftrightarrow> j < length (px_srv p) \<and> is_backup (srv_at p j) = b \<and> lb_weights p0 j \<noteq> 0"
  using assms fwrr_frame_length [OF assms] fwrr_view_eq(2) [OF fwrr_frame_nth [OF assms], of j]
  by (auto simp: fwrr_usable_def lb_weights_def acct_key_def srv_currently_usable_def split: if_splits)

lemma fwrr_get_server_ok:
  assumes ok: "fwrr_ok X (lb_weights p0) p" and fr: "fwrr_frame p0 p" and get: "fwrr_get_server_from_group b p = (q, r)"
  shows "fwrr_ok X (lb_weights p0) q" "fwrr_frame p0 q" "fwrr_grp b q = fwrr_grp b p"
    "r = Some s \<Longrightarrow> s \<notin> X \<and> fwrr_usable b p0 s"
    "r = None \<Longrightarrow> grp_tree Root_curr (fwrr_grp b p) = [] \<and> grp_tree (grp_init (fwrr_grp b p)) (fwrr_grp b p) = []"
proof -
  have cur: "Root_curr \<in> fwrr_roots" "grp_tree Root_curr g = grp_curr g" for g
    by (simp_all add: fwrr_roots_def grp_tree_def)
  note first = fwrr_first_member [OF ok]
  show "fwrr_ok X (lb_weights p0) q" "fwrr_frame p0 q" "fwrr_grp b q = fwrr_grp b p"
    using get ok fr fwrr_same_ok [OF fwrr_step_same(5)] fwrr_frame_trans [OF fr fwrr_step_frame(2)]
    by (cases rule: fwrr_get_server_cases; simp)+
  show "r = Some s \<Longrightarrow> s \<notin> X \<and> fwrr_usable b p0 s"
    using get first [OF cur(1)] first [OF grp_ptrs_roots(1) [OF ok]]
    by (cases rule: fwrr_get_server_cases) (auto simp: cur(2) fwrr_usable_frame [OF fr])
  show "grp_tree Root_curr (fwrr_grp b p) = [] \<and> grp_tree (grp_init (fwrr_grp b p)) (fwrr_grp b p) = []" if "r = None"
    using get
  proof (cases rule: fwrr_get_server_cases)
    case none
    have "eb32_first (grp_tree (grp_init (fwrr_grp b p)) (fwrr_grp b p)) \<noteq> Some (k, s)" for k s
    proof
      assume e: "eb32_first (grp_tree (grp_init (fwrr_grp b p)) (fwrr_grp b p)) = Some (k, s)"
      then have "fwrr_usable b p0 s" using first [OF grp_ptrs_roots(1) [OF ok] e] by (simp add: fwrr_usable_frame [OF fr])
      then have "cur_eweight (srv_at p s) \<noteq> 0"
        using fwrr_view_eq(2) [OF fwrr_frame_nth [OF fr], of s]
        by (auto simp: fwrr_usable_def acct_key_def srv_currently_usable_def split: if_splits)
      with none(4) [OF e] show False by simp
    qed
    then have "eb32_first (grp_tree (grp_init (fwrr_grp b p)) (fwrr_grp b p)) = None" by (metis option.exhaust surj_pair)
    with none show ?thesis by (simp add: cur)
  qed (use that in simp_all)
qed

definition grp_next_empty :: "bool \<Rightarrow> proxy \<Rightarrow> bool" where
  "grp_next_empty b p \<longleftrightarrow> grp_tree (grp_next (fwrr_grp b p)) (fwrr_grp b p) = []"

lemma fwrr_pick_ok:
  assumes ok: "fwrr_ok X (lb_weights p0) p" and fr: "fwrr_frame p0 p" and sw: "switched \<longrightarrow> grp_next_empty b p"
    and pick: "fwrr_pick b switched p = (q, r, sw')"
  shows "fwrr_ok X (lb_weights p0) q" "fwrr_frame p0 q" "sw' \<longrightarrow> grp_next_empty b q"
    "r = Some s \<Longrightarrow> s \<notin> X \<and> fwrr_usable b p0 s"
    "r = None \<Longrightarrow> fwrr_usable b p0 j \<Longrightarrow> j \<in> X"
proof -
  obtain q1 r1 where g1: "fwrr_get_server_from_group b p = (q1, r1)" by fastforce
  let ?p2 = "upd_grp b fwrr_switch_trees p"
  obtain q2 r2 where g2: "fwrr_get_server_from_group b ?p2 = (q2, r2)" by fastforce
  note a = fwrr_get_server_ok [OF ok fr g1]
  have ok2: "fwrr_ok X (lb_weights p0) ?p2" using ok fwrr_same_ok [OF fwrr_step_same(2)] by simp
  note c = fwrr_get_server_ok [OF ok2 fwrr_frame_trans [OF fr fwrr_frame_grp(1)] g2]
  have sn: "grp_next_empty b ?p2" if "r1 = None"
    using a(5) [OF that] by (simp add: grp_next_empty_def fwrr_switch_trees_def Let_def)
  have q1: "q1 = p" if "r1 = None" using g1 that by (auto elim: fwrr_get_server_cases)
  from pick consider (first) "r1 = r" "q = q1" "sw' = switched" "r \<noteq> None \<or> switched"
    | (second) "r1 = None" "\<not> switched" "q = q2" "r = r2" "sw'"
    using q1 by (cases r1) (auto simp: fwrr_pick_def g1 g2 split: if_splits)
  note cs = this
  show "fwrr_ok X (lb_weights p0) q" "fwrr_frame p0 q" "r = Some s \<Longrightarrow> s \<notin> X \<and> fwrr_usable b p0 s"
    using cs by (cases, use a c in simp_all)+
  show nx: "sw' \<longrightarrow> grp_next_empty b q"
    using cs a(3) c(3) sn sw by cases (auto simp: grp_next_empty_def)
  show "j \<in> X" if r: "r = None" and j: "fwrr_usable b p0 j"
  proof -
    have grp: "grp_tree Root_curr (fwrr_grp b q) = [] \<and> grp_tree (grp_init (fwrr_grp b q)) (fwrr_grp b q) = [] \<and> sw'"
      using cs a(3,5) c(3,5) r by cases simp_all
    have okq: "fwrr_ok X (lb_weights p0) q" and frq: "fwrr_frame p0 q" using cs by (cases, use a c in simp_all)+
    have "grp_ptrs_ok (fwrr_grp b q)" using okq by (simp add: fwrr_ok_def fwrr_grp_ok_def)
    then have "\<forall>t \<in> fwrr_roots. grp_tree t (fwrr_grp b q) = []"
      using grp nx by (auto simp: grp_next_empty_def fwrr_roots_def grp_ptrs_ok_def)
    from fwrr_empty_group [OF okq this] j show ?thesis by (simp add: fwrr_usable_frame [OF frq])
  qed
qed

lemma fwrr_extract_ok:
  assumes ok: "fwrr_ok X W p" and fr: "fwrr_frame p0 p"
  shows "fwrr_ok (insert s X) W (fwrr_extract b s p)" "fwrr_frame p0 (fwrr_extract b s p)"
    "grp_next_empty c p \<Longrightarrow> grp_next_empty c (fwrr_extract b s p)"
proof -
  have "fwrr_ok X W (fwrr_update_position b s p)" using ok fwrr_same_ok [OF fwrr_step_same(3)] by simp
  from fwrr_ok_dequeue [OF this] show "fwrr_ok (insert s X) W (fwrr_extract b s p)"
    by (simp add: fwrr_extract_def Let_def fwrr_same_ok [OF fwrr_step_same(4)])
  show "fwrr_frame p0 (fwrr_extract b s p)"
    unfolding fwrr_extract_def Let_def
    by (rule fwrr_frame_trans [OF fr fwrr_frame_trans [OF fwrr_step_frame(1) fwrr_frame_trans [OF fwrr_frame_grp(2,1)]]])
  show "grp_next_empty c p \<Longrightarrow> grp_next_empty c (fwrr_extract b s p)"
    by (auto simp: grp_next_empty_def fwrr_extract_def fwrr_update_position_def Let_def eb32_delete_def)
qed

section \<open>The loop\<close>

text \<open>\<open>fit\<close> is the test for room, \<open>A\<close> the server to avoid unless the whitelist lets it through.
  While the loop runs, the servers it took out are full, except for the avoided one.\<close>

definition fwrr_run ::
    "bool \<Rightarrow> (srv_ref \<Rightarrow> bool) \<Rightarrow> srv_ref option \<Rightarrow> proxy \<Rightarrow> proxy \<Rightarrow> bool \<Rightarrow> srv_ref option \<Rightarrow> srv_ref list \<Rightarrow> bool" where
  "fwrr_run b fit A p0 p switched avoided full \<longleftrightarrow>
     fwrr_frame p0 p \<and> fwrr_ok (set full) (lb_weights p0) p \<and> distinct full \<and> (switched \<longrightarrow> grp_next_empty b p) \<and>
     (\<forall>f \<in> set full. fwrr_usable b p0 f \<and> (fit f \<longrightarrow> avoided = Some f)) \<and>
     (avoided \<noteq> None \<longrightarrow> avoided = A \<and> the avoided \<in> set full \<and> fit (the avoided))"

definition fwrr_choice :: "bool \<Rightarrow> (srv_ref \<Rightarrow> bool) \<Rightarrow> srv_ref option \<Rightarrow> proxy \<Rightarrow> srv_ref option \<Rightarrow> bool" where
  "fwrr_choice b fit A p r =
     (case r of
        None \<Rightarrow> \<forall>j. fwrr_usable b p j \<longrightarrow> \<not> fit j
      | Some s \<Rightarrow> fwrr_usable b p s \<and> fit s \<and> (A = Some s \<longrightarrow> (\<forall>j. fwrr_usable b p j \<and> fit j \<longrightarrow> j = s)))"

text \<open>One round: nothing is left, or a server is taken out.\<close>

lemma fwrr_round_ok:
  assumes run: "fwrr_run b fit A p0 p switched avoided full"
    and pick: "fwrr_pick b switched (upd_grp b fwrr_collect_weight p) = (q, r, sw)"
  shows "r = None \<Longrightarrow> fwrr_frame p0 q \<and> fwrr_ok (set full) (lb_weights p0) q \<and> fwrr_choice b fit A p0 avoided"
    "r = Some s \<Longrightarrow> s \<notin> set full \<and> fwrr_usable b p0 s \<and> fwrr_frame p0 (fwrr_extract b s q) \<and>
       fwrr_ok (insert s (set full)) (lb_weights p0) (fwrr_extract b s q) \<and> (sw \<longrightarrow> grp_next_empty b (fwrr_extract b s q))"
proof -
  let ?c = "upd_grp b fwrr_collect_weight p"
  have c: "fwrr_ok (set full) (lb_weights p0) ?c" "fwrr_frame p0 ?c" "switched \<longrightarrow> grp_next_empty b ?c"
    using run fwrr_same_ok [OF fwrr_step_same(1)] fwrr_frame_trans [OF _ fwrr_frame_grp(1)]
    by (auto simp: fwrr_run_def grp_next_empty_def fwrr_collect_weight_def)
  note q = fwrr_pick_ok [OF c pick]
  show "fwrr_frame p0 q \<and> fwrr_ok (set full) (lb_weights p0) q \<and> fwrr_choice b fit A p0 avoided" if "r = None"
    using q(1,2) q(5) [OF that] run unfolding fwrr_choice_def fwrr_run_def by (auto split: option.splits)
  show "s \<notin> set full \<and> fwrr_usable b p0 s \<and> fwrr_frame p0 (fwrr_extract b s q) \<and>
       fwrr_ok (insert s (set full)) (lb_weights p0) (fwrr_extract b s q) \<and> (sw \<longrightarrow> grp_next_empty b (fwrr_extract b s q))"
    if "r = Some s"
    using q(4) [OF that] q(3) fwrr_extract_ok [OF q(1,2)] by blast
qed

lemma fwrr_loop_ok:
  assumes ids: "ids_ok p0"
    and run: "fwrr_run b (\<lambda>j. srv_not_full now_sec p0 (srv_at p0 j)) (sd_avoids p0 av servers) p0 p switched avoided full"
  shows "\<exists>q r full' sw. fwrr_loop now_sec b av servers p switched avoided full = Inr (q, r, full', sw) \<and>
    fwrr_frame p0 q \<and> fwrr_ok (set_option r \<union> set full') (lb_weights p0) q \<and> distinct full' \<and>
    (\<forall>f \<in> set full'. fwrr_usable b p0 f) \<and>
    fwrr_choice b (\<lambda>j. srv_not_full now_sec p0 (srv_at p0 j)) (sd_avoids p0 av servers) p0 r"
  using run
proof (induction now_sec b av servers p switched avoided full rule: fwrr_loop.induct)
  case (1 now_sec b av servers p switched avoided full)
  let ?fit = "\<lambda>j. srv_not_full now_sec p0 (srv_at p0 j)" and ?A = "sd_avoids p0 av servers"
  obtain q r sw where pick: "fwrr_pick b switched (upd_grp b fwrr_collect_weight p) = (q, r, sw)" by (metis prod_cases3)
  note rnd = fwrr_round_ok [OF 1(3) pick]
  have old: "distinct full" "\<forall>f \<in> set full. fwrr_usable b p0 f \<and> (?fit f \<longrightarrow> avoided = Some f)"
    "avoided \<noteq> None \<longrightarrow> avoided = ?A \<and> the avoided \<in> set full \<and> ?fit (the avoided)"
    using 1(3) by (simp_all add: fwrr_run_def)
  show ?case
  proof (cases r)
    case None
    have "set_option avoided \<union> set full = set full" using old(3) by (cases avoided) auto
    then show ?thesis
      using rnd(1) [OF None] old(1,2) pick None by (simp add: fwrr_loop.simps [of now_sec b av servers p])
  next
    case (Some s)
    let ?q = "fwrr_extract b s q"
    note t = rnd(2) [OF Some]
    have len: "s < length (px_srv p0)" using t by (simp add: fwrr_usable_def)
    obtain num where num: "srv_num (srv_at p0 s) = Inr num" using srv_num_ok [OF ids len] by blast
    have numq: "srv_num (srv_at ?q s) = Inr num" using num fwrr_view_eq(3) [OF fwrr_frame_nth [OF _ len]] t by metis
    have full: "srv_not_full now_sec ?q (srv_at ?q s) = ?fit s" using fwrr_frame_not_full [OF _ len] t by blast
    have Av: "?A = Some s \<longleftrightarrow> av = Some s \<and> num \<notin> set servers"
      using num len by (auto simp: sd_avoids_def split: option.splits)
    note eq = fwrr_loop.simps [of now_sec b av servers p] pick Some
    show ?thesis
    proof (cases "?fit s")
      case False
      have "fwrr_run b ?fit ?A p0 ?q sw avoided (s # full)"
        using t old False by (auto simp: fwrr_run_def)
      from 1(2) [OF pick [symmetric] refl _ refl] this False full show ?thesis
        by (simp add: eq Let_def)
    next
      case fit: True
      show ?thesis
      proof (cases "Some s \<noteq> av \<or> avoided \<noteq> None \<or> num \<in> set servers")
        case True
        then have "?A \<noteq> Some s" using Av old(3) t by force
        then show ?thesis using t old fit True full numq by (simp add: eq Let_def fwrr_choice_def)
      next
        case False
        then have "fwrr_run b ?fit ?A p0 ?q sw (Some s) (s # full)"
          using t old fit Av by (auto simp: fwrr_run_def)
        moreover have "fwrr_loop now_sec b av servers p switched avoided full =
            fwrr_loop now_sec b av servers ?q sw (Some s) (s # full)"
          using False full fit numq by (auto simp: eq Let_def)
        ultimately show ?thesis
          using 1(1) [OF pick [symmetric] refl Some refl, of num] False full fit by auto
      qed
    qed
  qed
qed

section \<open>Putting the servers back\<close>

lemma fwrr_usable_back:
  assumes "all_committed p0" and "fwrr_frame p0 p" and "fwrr_usable b p0 f"
  shows "f < length (px_srv p)" "lb_weights p0 f \<noteq> 0" "is_backup (srv_at p f) = b" "srv_willbe_usable (srv_at p f)"
proof -
  show f: "f < length (px_srv p)" "lb_weights p0 f \<noteq> 0" "is_backup (srv_at p f) = b"
    using assms(3) by (simp_all add: fwrr_usable_frame [OF assms(2)])
  have "srv_willbe_usable (srv_at p0 f)"
    using assms(1,3) by (auto simp: fwrr_usable_def all_committed_nth committed_usable)
  then show "srv_willbe_usable (srv_at p f)"
    using fwrr_view_eq(2) [OF fwrr_frame_nth [OF assms(2)], of f] assms(3) by (simp add: fwrr_usable_def acct_key_def)
qed

lemma fwrr_requeue_ok:
  assumes com: "all_committed p0" and fr: "fwrr_frame p0 p" and ok: "fwrr_ok X (lb_weights p0) p"
    and f: "f \<in> X \<or> srv = Some f" "fwrr_usable b p0 f"
  shows "fwrr_frame p0 (fwrr_requeue b sw srv f p)"
    "fwrr_ok (if srv = Some f then X else X - {f}) (lb_weights p0) (fwrr_requeue b sw srv f p)"
proof -
  note u = fwrr_usable_back [OF com fr f(2)]
  show "fwrr_frame p0 (fwrr_requeue b sw srv f p)"
    using fr fwrr_frame_trans [OF fr fwrr_step_frame(3)] fwrr_frame_trans [OF fr fwrr_step_frame(4)]
    by (simp add: fwrr_requeue_def)
  show "fwrr_ok (if srv = Some f then X else X - {f}) (lb_weights p0) (fwrr_requeue b sw srv f p)"
    using ok f u fwrr_queue_srv_ok [OF ok _ u(1,2,4)] fwrr_queue_by_weight_ok [OF ok _ u(1,2) u(3) [symmetric] grp_ptrs_roots(1) [OF ok]]
    by (auto simp: fwrr_requeue_def)
qed

lemma fwrr_requeue_all_ok:
  assumes "all_committed p0" and "fwrr_frame p0 p" and "fwrr_ok (set full - set_option srv) (lb_weights p0) p" and "distinct full"
    and "\<forall>f \<in> set full. fwrr_usable b p0 f"
  shows "fwrr_frame p0 (fold (fwrr_requeue b sw srv) full p) \<and>
    fwrr_ok {} (lb_weights p0) (fold (fwrr_requeue b sw srv) full p)"
  using assms(2-)
proof (induction full arbitrary: p)
  case (Cons f full)
  have X: "(if srv = Some f then set (f # full) - set_option srv else set (f # full) - set_option srv - {f}) = set full - set_option srv"
    using Cons.prems(3) by (cases srv) auto
  have "f \<in> set (f # full) - set_option srv \<or> srv = Some f" by (cases srv) auto
  note rq = fwrr_requeue_ok [OF assms(1) Cons.prems(1,2) this, of b sw, unfolded X]
  from Cons.IH [OF rq] Cons.prems show ?case by simp
qed simp

lemma fwrr_search_ok:
  assumes inv: "fwrr_inv p" and com: "all_committed p" and ids: "ids_ok p"
  shows "\<exists>q r. fwrr_search now_sec b av servers p = Inr (q, r) \<and> fwrr_frame p q \<and> fwrr_inv q \<and>
    fwrr_choice b (\<lambda>j. srv_not_full now_sec p (srv_at p j)) (sd_avoids p av servers) p r"
proof -
  let ?W = "lb_weights p" and ?ch = "fwrr_choice b (\<lambda>j. srv_not_full now_sec p (srv_at p j)) (sd_avoids p av servers) p"
  have "fwrr_run b (\<lambda>j. srv_not_full now_sec p (srv_at p j)) (sd_avoids p av servers) p p False None []"
    using inv by (simp add: fwrr_run_def fwrr_inv_def)
  from fwrr_loop_ok [OF ids this] obtain q r full sw where
    loop: "fwrr_loop now_sec b av servers p False None [] = Inr (q, r, full, sw)" and
    q: "fwrr_frame p q" "fwrr_ok (set_option r \<union> set full) ?W q" "distinct full" "\<forall>f \<in> set full. fwrr_usable b p f" and ch: "?ch r"
    by blast
  define q' where "q' = (case r of Some s \<Rightarrow> fwrr_queue_srv s q | None \<Rightarrow> q)"
  have q': "fwrr_frame p q' \<and> fwrr_ok (set full - set_option r) ?W q'"
  proof (cases r)
    case None
    then show ?thesis using q by (simp add: q'_def)
  next
    case (Some s)
    then have "fwrr_usable b p s" using ch by (simp add: fwrr_choice_def)
    note u = fwrr_usable_back [OF com q(1) this]
    from Some fwrr_queue_srv_ok [OF q(2) _ u(1,2,4)] fwrr_frame_trans [OF q(1) fwrr_step_frame(4)]
    show ?thesis by (simp add: q'_def insert_Diff_if)
  qed
  let ?e = "fold (fwrr_requeue b sw r) full q'"
  have e: "fwrr_frame p ?e" "fwrr_ok {} ?W ?e"
    using fwrr_requeue_all_ok [OF com _ _ q(3,4), of q' r sw] q' by blast+
  have "fwrr_inv ?e" using e same_acct_weights(1) [OF fwrr_frame_same_acct [OF e(1)]] by (simp add: fwrr_inv_def)
  moreover have "fwrr_search now_sec b av servers p = Inr (?e, r)" by (simp add: fwrr_search_def loop q'_def)
  ultimately show ?thesis using e(1) ch by blast
qed

section \<open>Properties\<close>

text \<open>(C4) Weighted round robin: starting from \<^verbatim>\<open>fwrr_init_server_groups\<close>, after any sequence of status
  and weight changes every usable server is in exactly one of the three trees of its group, the tree
  its \<^verbatim>\<open>lb_tree\<close> names, under the key it recorded; unusable servers are in none; \<^verbatim>\<open>init\<close> and
  \<^verbatim>\<open>next\<close> are the two weight trees; and the weight of each group and the counters and totals of the
  proxy are those of the server chain.\<close>

theorem fwrr_reachable_ok:
  assumes "length (px_srv p) < 2 ^ 32" and "\<forall>s \<in> set (px_srv p). lb_tree s = None"
    and "run_events fwrr_cb es (fwrr_init_server_groups p) = Some q"
  shows "fwrr_inv q \<and> lb_acct q \<and> all_committed q"
  using fwrr_init_ok [OF assms(1,2)] assms(3) by (intro fwrr_events_invariant) auto

theorem fwrr_reachable_ok_witness:
  "run_events fwrr_cb sample_events (fwrr_init_server_groups sample_proxy) \<noteq> None \<and>
   (let q = the (run_events fwrr_cb sample_events (fwrr_init_server_groups sample_proxy))
    in fwrr_inv q \<and> lb_acct q \<and> all_committed q)"
proof -
  have "run_events fwrr_cb sample_events (fwrr_init_server_groups sample_proxy) \<noteq> None"
    by code_simp
  then show ?thesis
    using fwrr_reachable_ok [of sample_proxy sample_events]
    by (auto simp: sample_proxy_def sample_server_def)
qed

text \<open>(C11) The weighted round robin lookup for a request that passes the whitelist gate, unless the
  first backup server alone serves (\<^verbatim>\<open>fbck\<close>, which is then returned as it is), always ends, with the trees, group weights and totals intact and nothing of the proxy or its servers changed but
  positions and keys. It returns a usable server with room whenever the group has one, and the server
  to avoid only if it is the sole such server or the whitelist names it. As with least connections,
  the whitelist does not restrict the choice.\<close>

theorem fwrr_get_next_server_ok:
  assumes "fwrr_inv p" and "lb_acct p" and "all_committed p" and "ids_ok p"
    and "srv_act p \<noteq> 0 \<or> (fbck p = None \<and> srv_bck p \<noteq> 0)"
    and "wl_gate 10000 2 env key st = Inr (st', Some servers)"
  shows "\<exists>q r. fwrr_get_next_server env now_sec p srvtoavoid key st = Inr (st', q, r) \<and>
    fwrr_frame p q \<and> fwrr_inv q \<and> lb_acct q \<and> all_committed q \<and>
    fwrr_choice (srv_act p = 0) (\<lambda>j. srv_not_full now_sec p (srv_at p j)) (sd_avoids p srvtoavoid servers) p r"
proof -
  obtain q r where s: "fwrr_search now_sec (srv_act p = 0) srvtoavoid servers p = Inr (q, r)" and
    q: "fwrr_frame p q" "fwrr_inv q" and
    "fwrr_choice (srv_act p = 0) (\<lambda>j. srv_not_full now_sec p (srv_at p j)) (sd_avoids p srvtoavoid servers) p r"
    using fwrr_search_ok [OF assms(1,3,4)] by blast
  moreover have "fwrr_get_next_server env now_sec p srvtoavoid key st = Inr (st', q, r)"
    using assms(5,6) s by (cases "srv_act p = 0") (simp_all add: fwrr_get_next_server_def)
  moreover note same_acct_lb_acct [OF fwrr_frame_same_acct [OF q(1)] assms(2)]
    same_acct_all_committed [OF fwrr_frame_same_acct [OF q(1)] assms(3)]
  ultimately show ?thesis by blast
qed

theorem fwrr_get_next_server_ok_witness:
  "\<exists>q r. fwrr_get_next_server sample_env 0 (fwrr_init_server_groups sample_proxy) (Some 2) (Some ''GET'') sample_sd =
     Inr (sample_sd\<lparr>sd_count := 1\<rparr>, q, r) \<and> fwrr_inv q \<and> lb_acct q \<and>
   fwrr_choice False (\<lambda>j. srv_not_full 0 (fwrr_init_server_groups sample_proxy) (srv_at (fwrr_init_server_groups sample_proxy) j))
     (sd_avoids (fwrr_init_server_groups sample_proxy) (Some 2) (''13'' @ [nl])) (fwrr_init_server_groups sample_proxy) r"
proof -
  let ?p = "fwrr_init_server_groups sample_proxy"
  have "fwrr_inv ?p \<and> lb_acct ?p \<and> all_committed ?p"
    by (rule fwrr_init_ok) (simp_all add: sample_proxy_def sample_server_def)
  moreover have "ids_ok ?p" "srv_act ?p \<noteq> 0" by code_simp+
  ultimately show ?thesis
    using fwrr_get_next_server_ok [OF _ _ _ _ _ sample_gate, of ?p 0 "Some 2"] by auto
qed

end
