(* ===== verification/Sdsock.thy ===== *)
theory Sdsock
  imports Ha_Prelude
begin

text \<open>
  The remote lock between HAProxy (\<^verbatim>\<open>SDSock_Set\<close> and \<^verbatim>\<open>SDSock_Release\<close> of
  \<^verbatim>\<open>src/haproxy/src/sdsock.c\<close>, called by \<^verbatim>\<open>updateWhitelist\<close>) and SmartDrop
  (\<^verbatim>\<open>comms\<close> of \<^verbatim>\<open>src/smartdrop/smartdrop.py\<close>), which share the whitelist file. Each side is
  a program counter; the TCP connection is one byte queue per direction.

  Two things the C code does not exclude are parameters of the step relation: \<open>faulty\<close> allows the
  socket calls to fail, upon which both functions print a message and return to their caller as if
  they had succeeded; \<open>extra\<close> are the bytes that \<^verbatim>\<open>send (sock, message, strlen (message), 0)\<close>
  sends after the first one, \<^verbatim>\<open>message\<close> being a one-byte array without a terminator.
\<close>

datatype ha_pc =
    Ha_idle      \<comment> \<open>outside of \<^verbatim>\<open>updateWhitelist\<close>\<close>
  | Ha_set_recv  \<comment> \<open>in \<^verbatim>\<open>SDSock_Set\<close>, before \<^verbatim>\<open>recv\<close>\<close>
  | Ha_reading   \<comment> \<open>reading \<^verbatim>\<open>whitelist.csv\<close>\<close>
  | Ha_rel_recv  \<comment> \<open>in \<^verbatim>\<open>SDSock_Release\<close>, before \<^verbatim>\<open>recv\<close>\<close>

datatype sd_pc =
    Sd_recv1     \<comment> \<open>\<^verbatim>\<open>receiveMessage\<close>, for 1\<close>
  | Sd_writing   \<comment> \<open>\<^verbatim>\<open>whiteAlg\<close> and \<^verbatim>\<open>fileWrite\<close>\<close>
  | Sd_recv2     \<comment> \<open>\<^verbatim>\<open>receiveMessage\<close>, for 2\<close>
  | Sd_send2     \<comment> \<open>\<^verbatim>\<open>sendMessage\<close> of 2\<close>

record sdsock_state =
  ha :: ha_pc
  sd :: sd_pc
  to_sd :: string
  to_ha :: string

definition sdsock_init :: sdsock_state where
  "sdsock_init = \<lparr>ha = Ha_idle, sd = Sd_recv1, to_sd = [], to_ha = []\<rparr>"

text \<open>The sends and receives of \<^verbatim>\<open>SDSock_Set\<close> and \<^verbatim>\<open>SDSock_Release\<close>.\<close>

inductive SDSock_Set :: "bool \<Rightarrow> string \<Rightarrow> sdsock_state \<Rightarrow> sdsock_state \<Rightarrow> bool"
  for faulty :: bool and extra :: string where
  set_send: "ha s = Ha_idle \<Longrightarrow>
    SDSock_Set faulty extra s (s\<lparr>ha := Ha_set_recv, to_sd := to_sd s @ CHR ''1'' # extra\<rparr>)"
| set_send_failed: "faulty \<Longrightarrow> ha s = Ha_idle \<Longrightarrow> SDSock_Set faulty extra s (s\<lparr>ha := Ha_reading\<rparr>)"
| set_recv: "ha s = Ha_set_recv \<Longrightarrow> to_ha s = c # cs \<Longrightarrow>
    SDSock_Set faulty extra s (s\<lparr>ha := Ha_reading, to_ha := cs\<rparr>)"
| set_recv_failed: "faulty \<Longrightarrow> ha s = Ha_set_recv \<Longrightarrow> SDSock_Set faulty extra s (s\<lparr>ha := Ha_reading\<rparr>)"

inductive SDSock_Release :: "bool \<Rightarrow> string \<Rightarrow> sdsock_state \<Rightarrow> sdsock_state \<Rightarrow> bool"
  for faulty :: bool and extra :: string where
  release_send: "ha s = Ha_reading \<Longrightarrow>
    SDSock_Release faulty extra s (s\<lparr>ha := Ha_rel_recv, to_sd := to_sd s @ CHR ''2'' # extra\<rparr>)"
| release_send_failed: "faulty \<Longrightarrow> ha s = Ha_reading \<Longrightarrow> SDSock_Release faulty extra s (s\<lparr>ha := Ha_idle\<rparr>)"
| release_recv: "ha s = Ha_rel_recv \<Longrightarrow> to_ha s = c # cs \<Longrightarrow>
    SDSock_Release faulty extra s (s\<lparr>ha := Ha_idle, to_ha := cs\<rparr>)"
| release_recv_failed: "faulty \<Longrightarrow> ha s = Ha_rel_recv \<Longrightarrow> SDSock_Release faulty extra s (s\<lparr>ha := Ha_idle\<rparr>)"

text \<open>The main loop of \<^verbatim>\<open>comms\<close>.\<close>

inductive comms :: "sdsock_state \<Rightarrow> sdsock_state \<Rightarrow> bool" where
  recv1: "sd s = Sd_recv1 \<Longrightarrow> to_sd s = c # cs \<Longrightarrow> comms s (s\<lparr>sd := Sd_writing, to_sd := cs\<rparr>)"
| send1: "sd s = Sd_writing \<Longrightarrow> comms s (s\<lparr>sd := Sd_recv2, to_ha := to_ha s @ [CHR ''1'']\<rparr>)"
| recv2: "sd s = Sd_recv2 \<Longrightarrow> to_sd s = c # cs \<Longrightarrow> comms s (s\<lparr>sd := Sd_send2, to_sd := cs\<rparr>)"
| send2: "sd s = Sd_send2 \<Longrightarrow> comms s (s\<lparr>sd := Sd_recv1, to_ha := to_ha s @ [CHR ''2'']\<rparr>)"

inductive sdsock_step :: "bool \<Rightarrow> string \<Rightarrow> sdsock_state \<Rightarrow> sdsock_state \<Rightarrow> bool"
  for faulty :: bool and extra :: string where
  step_set: "SDSock_Set faulty extra s t \<Longrightarrow> sdsock_step faulty extra s t"
| step_release: "SDSock_Release faulty extra s t \<Longrightarrow> sdsock_step faulty extra s t"
| step_comms: "comms s t \<Longrightarrow> sdsock_step faulty extra s t"

inductive sdsock_reachable :: "bool \<Rightarrow> string \<Rightarrow> sdsock_state \<Rightarrow> bool"
  for faulty :: bool and extra :: string where
  start: "sdsock_reachable faulty extra sdsock_init"
| more: "sdsock_reachable faulty extra s \<Longrightarrow> sdsock_step faulty extra s t \<Longrightarrow> sdsock_reachable faulty extra t"

inductive_cases SDSock_SetE: "SDSock_Set faulty extra s t"
inductive_cases SDSock_ReleaseE: "SDSock_Release faulty extra s t"
inductive_cases commsE: "comms s t"
inductive_cases sdsock_stepE: "sdsock_step faulty extra s t"

section \<open>The protocol without faults\<close>

text \<open>One round has eight phases.\<close>

definition sdsock_phase :: "sdsock_state \<Rightarrow> bool" where
  "sdsock_phase s \<longleftrightarrow>
     (ha s, sd s, to_sd s, to_ha s) \<in>
       {(Ha_idle, Sd_recv1, '''', ''''), (Ha_set_recv, Sd_recv1, ''1'', ''''),
        (Ha_set_recv, Sd_writing, '''', ''''), (Ha_set_recv, Sd_recv2, '''', ''1''),
        (Ha_reading, Sd_recv2, '''', ''''), (Ha_rel_recv, Sd_recv2, ''2'', ''''),
        (Ha_rel_recv, Sd_send2, '''', ''''), (Ha_rel_recv, Sd_recv1, '''', ''2'')}"

lemma sdsock_phase_init: "sdsock_phase sdsock_init"
  by (simp add: sdsock_phase_def sdsock_init_def)

lemma sdsock_phase_step:
  assumes "sdsock_step False [] s t" and "sdsock_phase s"
  shows "sdsock_phase t"
  using assms(1)
proof (rule sdsock_stepE)
  assume "SDSock_Set False [] s t"
  then show ?thesis by (rule SDSock_SetE) (use assms(2) in \<open>auto simp: sdsock_phase_def\<close>)
next
  assume "SDSock_Release False [] s t"
  then show ?thesis by (rule SDSock_ReleaseE) (use assms(2) in \<open>auto simp: sdsock_phase_def\<close>)
next
  assume "comms s t"
  then show ?thesis by (rule commsE) (use assms(2) in \<open>auto simp: sdsock_phase_def\<close>)
qed

lemma sdsock_reachable_phase: "sdsock_reachable False [] s \<Longrightarrow> sdsock_phase s"
  by (induction rule: sdsock_reachable.induct) (auto intro: sdsock_phase_init sdsock_phase_step)

lemma sdsock_phase_progress: "sdsock_phase s \<Longrightarrow> \<exists>t. sdsock_step False [] s t"
  unfolding sdsock_phase_def
  by (auto intro: step_set step_release step_comms SDSock_Set.intros SDSock_Release.intros comms.intros)

section \<open>How the lock is lost\<close>

abbreviation sdsock_race :: "bool \<Rightarrow> string \<Rightarrow> bool" where
  "sdsock_race faulty extra \<equiv> \<exists>s. sdsock_reachable faulty extra s \<and> ha s = Ha_reading \<and> sd s = Sd_writing"

text \<open>One receive of the lock request fails: \<^verbatim>\<open>SDSock_Set\<close> returns to its caller in that case too.\<close>

lemma sdsock_faulty_race: "sdsock_race True extra"
proof -
  define s1 where "s1 = sdsock_init\<lparr>ha := Ha_set_recv, to_sd := CHR ''1'' # extra\<rparr>"
  define s2 where "s2 = s1\<lparr>sd := Sd_writing, to_sd := extra\<rparr>"
  have "sdsock_step True extra sdsock_init s1"
    using set_send [of sdsock_init True extra] by (auto simp: s1_def sdsock_init_def intro: step_set)
  moreover have "sdsock_step True extra s1 s2"
    using recv1 [of s1] by (auto simp: s2_def s1_def sdsock_init_def intro: step_comms)
  moreover have "sdsock_step True extra s2 (s2\<lparr>ha := Ha_reading\<rparr>)"
    using set_recv_failed [of True s2 extra] by (auto simp: s2_def s1_def sdsock_init_def intro: step_set)
  ultimately have "sdsock_reachable True extra (s2\<lparr>ha := Ha_reading\<rparr>)"
    by (meson start more)
  then show ?thesis by (intro exI conjI) (auto simp: s2_def)
qed

text \<open>One extra byte sent by \<^verbatim>\<open>strlen\<close> of the unterminated message breaks the lock without
  any failure: SmartDrop takes it for the release, so that the answers run ahead of the requests and
  HAProxy comes to read the file while SmartDrop writes it.\<close>

lemma sdsock_extra_byte_race: "sdsock_race False [x]"
proof -
  let ?s = "\<lambda>h d ts th. \<lparr>ha = h, sd = d, to_sd = ts, to_ha = th\<rparr>"
  let ?R = "\<lambda>h d ts th. sdsock_reachable False [x] (?s h d ts th)"
  note r = more [OF _ step_set] more [OF _ step_release] more [OF _ step_comms]
  have "?R Ha_idle Sd_recv1 [] []" using start [of False "[x]"] by (simp add: sdsock_init_def)
  then have "?R Ha_set_recv Sd_recv1 ([CHR ''1'', x]) ([])" by (rule r(1)) (simp add: SDSock_Set.simps)
  then have "?R Ha_set_recv Sd_writing ([x]) ([])" by (rule r(3)) (simp add: comms.simps)
  then have "?R Ha_set_recv Sd_recv2 ([x]) (''1'')" by (rule r(3)) (simp add: comms.simps)
  then have "?R Ha_set_recv Sd_send2 ([]) (''1'')" by (rule r(3)) (simp add: comms.simps)
  then have "?R Ha_set_recv Sd_recv1 ([]) (''12'')" by (rule r(3)) (simp add: comms.simps)
  then have "?R Ha_reading Sd_recv1 ([]) (''2'')" by (rule r(1)) (simp add: SDSock_Set.simps)
  then have "?R Ha_rel_recv Sd_recv1 ([CHR ''2'', x]) (''2'')" by (rule r(2)) (simp add: SDSock_Release.simps)
  then have "?R Ha_idle Sd_recv1 ([CHR ''2'', x]) ([])" by (rule r(2)) (simp add: SDSock_Release.simps)
  then have "?R Ha_set_recv Sd_recv1 ([CHR ''2'', x, CHR ''1'', x]) ([])" by (rule r(1)) (simp add: SDSock_Set.simps)
  then have "?R Ha_set_recv Sd_writing ([x, CHR ''1'', x]) ([])" by (rule r(3)) (simp add: comms.simps)
  then have "?R Ha_set_recv Sd_recv2 ([x, CHR ''1'', x]) (''1'')" by (rule r(3)) (simp add: comms.simps)
  then have "?R Ha_set_recv Sd_send2 ([CHR ''1'', x]) (''1'')" by (rule r(3)) (simp add: comms.simps)
  then have "?R Ha_set_recv Sd_recv1 ([CHR ''1'', x]) (''12'')" by (rule r(3)) (simp add: comms.simps)
  then have "?R Ha_set_recv Sd_writing ([x]) (''12'')" by (rule r(3)) (simp add: comms.simps)
  then have "?R Ha_reading Sd_writing ([x]) (''2'')" by (rule r(1)) (simp add: SDSock_Set.simps)
  then show ?thesis by (intro exI conjI) auto
qed

text \<open>With two or more extra bytes the second one is taken for the next request at once.\<close>

lemma sdsock_extra_bytes_race: "sdsock_race False (x # y # zs)"
proof -
  let ?R = "\<lambda>h d ts th. sdsock_reachable False (x # y # zs) \<lparr>ha = h, sd = d, to_sd = ts, to_ha = th\<rparr>"
  note r = more [OF _ step_set] more [OF _ step_comms]
  have "?R Ha_idle Sd_recv1 [] []" using start [of False "x # y # zs"] by (simp add: sdsock_init_def)
  then have "?R Ha_set_recv Sd_recv1 (CHR ''1'' # x # y # zs) []" by (rule r(1)) (simp add: SDSock_Set.simps)
  then have "?R Ha_set_recv Sd_writing (x # y # zs) []" by (rule r(2)) (simp add: comms.simps)
  then have "?R Ha_set_recv Sd_recv2 (x # y # zs) ''1''" by (rule r(2)) (simp add: comms.simps)
  then have "?R Ha_set_recv Sd_send2 (y # zs) ''1''" by (rule r(2)) (simp add: comms.simps)
  then have "?R Ha_set_recv Sd_recv1 (y # zs) ''12''" by (rule r(2)) (simp add: comms.simps)
  then have "?R Ha_set_recv Sd_writing zs ''12''" by (rule r(2)) (simp add: comms.simps)
  then have "?R Ha_reading Sd_writing zs ''2''" by (rule r(1)) (simp add: SDSock_Set.simps)
  then show ?thesis by (intro exI conjI) auto
qed

lemma sdsock_race_iff: "sdsock_race faulty extra \<longleftrightarrow> faulty \<or> extra \<noteq> []"
proof
  assume race: "sdsock_race faulty extra"
  show "faulty \<or> extra \<noteq> []"
  proof (rule ccontr)
    assume "\<not> (faulty \<or> extra \<noteq> [])"
    then show False using race sdsock_reachable_phase by (force simp: sdsock_phase_def)
  qed
next
  assume "faulty \<or> extra \<noteq> []"
  then show "sdsock_race faulty extra"
    using sdsock_faulty_race sdsock_extra_byte_race sdsock_extra_bytes_race
    by (cases faulty; cases extra rule: remdups_adj.cases) auto
qed

section \<open>Properties\<close>

text \<open>(C15) When the lock works. HAProxy never reads the whitelist file while SmartDrop computes and writes it,
  if and only if no socket call fails and every message HAProxy sends is exactly one byte, which
  \<^verbatim>\<open>strlen\<close> of the one-byte array \<^verbatim>\<open>message\<close> does not ensure. In that case, moreover, at most one
  byte is in flight and some side can always go on.\<close>

theorem sdsock_mutual_exclusion:
  shows "((\<forall>s. sdsock_reachable faulty extra s \<longrightarrow> \<not> (ha s = Ha_reading \<and> sd s = Sd_writing)) \<longleftrightarrow> \<not> faulty \<and> extra = []) \<and>
    (\<forall>s. sdsock_reachable False [] s \<longrightarrow> length (to_sd s) + length (to_ha s) \<le> 1 \<and> (\<exists>t. sdsock_step False [] s t))"
proof -
  have "length (to_sd s) + length (to_ha s) \<le> 1 \<and> (\<exists>t. sdsock_step False [] s t)" if "sdsock_reachable False [] s" for s
    using sdsock_reachable_phase [OF that] sdsock_phase_progress [of s] by (auto simp: sdsock_phase_def)
  then show ?thesis using sdsock_race_iff [of faulty extra] by blast
qed

definition sdsock_locked :: sdsock_state where
  "sdsock_locked = \<lparr>ha = Ha_reading, sd = Sd_recv2, to_sd = [], to_ha = []\<rparr>"

lemma sdsock_locked_reachable: "sdsock_reachable False [] sdsock_locked"
proof -
  let ?R = "\<lambda>h d ts th. sdsock_reachable False [] \<lparr>ha = h, sd = d, to_sd = ts, to_ha = th\<rparr>"
  note r = more [OF _ step_set] more [OF _ step_comms]
  have "?R Ha_idle Sd_recv1 [] []" using start [of False "[]"] by (simp add: sdsock_init_def)
  then have "?R Ha_set_recv Sd_recv1 ''1'' []" by (rule r(1)) (simp add: SDSock_Set.simps)
  then have "?R Ha_set_recv Sd_writing [] []" by (rule r(2)) (simp add: comms.simps)
  then have "?R Ha_set_recv Sd_recv2 [] ''1''" by (rule r(2)) (simp add: comms.simps)
  then have "?R Ha_reading Sd_recv2 [] []" by (rule r(1)) (simp add: SDSock_Set.simps)
  then show ?thesis by (simp add: sdsock_locked_def)
qed

theorem sdsock_mutual_exclusion_witness:
  "sdsock_reachable False [] sdsock_locked \<and> ha sdsock_locked = Ha_reading \<and> sd sdsock_locked \<noteq> Sd_writing \<and>
   (\<exists>t. sdsock_step False [] sdsock_locked t) \<and>
   \<not> (\<forall>s. sdsock_reachable False ''x'' s \<longrightarrow> \<not> (ha s = Ha_reading \<and> sd s = Sd_writing))"
proof -
  have h: "ha sdsock_locked = Ha_reading" by (simp add: sdsock_locked_def)
  show ?thesis
    using sdsock_mutual_exclusion [of False "[]"] sdsock_mutual_exclusion [of False "''x''"] sdsock_locked_reachable h by blast
qed

end
