(* ===== verification/Freq_Ctr.thy ===== *)
theory Freq_Ctr
  imports Ha_Prelude
begin

text \<open>
  Frequency counters and sliding averages (\<^verbatim>\<open>freq_ctr.c\<close>, \<^verbatim>\<open>freq_ctr.h\<close>, \<^verbatim>\<open>div64_32\<close> of
  \<^verbatim>\<open>intops.h\<close>), with which rates are measured and limited and times are averaged. The functions
  are lock-free: each is one step here, so that the compare-and-swap loops run once; a counter whose rotation
  another thread has begun (an odd \<^verbatim>\<open>curr_tick\<close>) makes the code spin, which is \<open>None\<close>. The
  readings as floating-point numbers are left out.
\<close>

section \<open>Data and operations\<close>

record freq_ctr =
  curr_tick :: u32
  curr_ctr :: u32
  prev_ctr :: u32

definition div64_32 :: "u64 \<Rightarrow> u32 \<Rightarrow> u32 c_result" where
  "div64_32 o1 o2 = (if o2 = 0 then Inl DivideByZero else Inr (ucast (o1 div ucast o2)))"

definition update_freq_ctr_period :: "u32 \<Rightarrow> freq_ctr \<Rightarrow> u32 \<Rightarrow> u32 \<Rightarrow> (freq_ctr \<times> u32) option" where
  "update_freq_ctr_period now ctr period inc =
     (if now - curr_tick ctr < period then Some (ctr\<lparr>curr_ctr := curr_ctr ctr + inc\<rparr>, curr_ctr ctr + inc)
      else if curr_tick ctr AND 1 \<noteq> 0 then None
      else
        let tick = curr_tick ctr + period;
            (prev, tick) = (if period \<le> now - tick then (0, now) else (curr_ctr ctr, tick))
        in Some (\<lparr>curr_tick = tick AND NOT 1, curr_ctr = inc, prev_ctr = prev\<rparr>, inc))"

definition update_freq_ctr :: "u32 \<Rightarrow> freq_ctr \<Rightarrow> u32 \<Rightarrow> (freq_ctr \<times> u32) option" where
  "update_freq_ctr now ctr inc = update_freq_ctr_period now ctr 1000 inc"

definition freq_ctr_total :: "u32 \<Rightarrow> freq_ctr \<Rightarrow> u32 \<Rightarrow> c_int \<Rightarrow> u64 option" where
  "freq_ctr_total now ctr period pend =
     (if curr_tick ctr AND 1 \<noteq> 0 then None
      else
        let remain = curr_tick ctr + period - now :: c_int; curr = ucast (curr_ctr ctr) :: u64; past = ucast (prev_ctr ctr) :: u64;
            (remain, past, curr) =
              (if remain <s 0 then (remain + period, if 0 \<le>s remain + period then curr else 0, 0) else (remain, past, curr))
        in Some (
             if pend <s 0 \<and> curr = 0 \<and> past \<le> 1 then past * ucast period
             else past * scast remain + (curr + scast (if pend <s 0 then 0 else pend)) * ucast period))"

definition read_freq_ctr_period :: "u32 \<Rightarrow> freq_ctr \<Rightarrow> u32 \<Rightarrow> u32 c_result option" where
  "read_freq_ctr_period now ctr period = map_option (\<lambda>total. div64_32 total period) (freq_ctr_total now ctr period (- 1))"

definition read_freq_ctr :: "u32 \<Rightarrow> freq_ctr \<Rightarrow> u32 c_result option" where
  "read_freq_ctr now ctr = read_freq_ctr_period now ctr 1000"

definition freq_ctr_remain_period :: "u32 \<Rightarrow> freq_ctr \<Rightarrow> u32 \<Rightarrow> u32 \<Rightarrow> u32 \<Rightarrow> u32 c_result option" where
  "freq_ctr_remain_period now ctr period freq pend = map_option (\<lambda>total.
     c_bind (div64_32 total period) (\<lambda>avg. Inr (freq - (if freq < avg then freq else avg)))) (freq_ctr_total now ctr period pend)"

definition freq_ctr_remain :: "u32 \<Rightarrow> freq_ctr \<Rightarrow> u32 \<Rightarrow> u32 \<Rightarrow> u32 c_result option" where
  "freq_ctr_remain now ctr freq pend = freq_ctr_remain_period now ctr 1000 freq pend"

definition next_event_delay_period :: "u32 \<Rightarrow> freq_ctr \<Rightarrow> u32 \<Rightarrow> u32 \<Rightarrow> u32 \<Rightarrow> u32 c_result option" where
  "next_event_delay_period now ctr period freq pend = map_option (\<lambda>total.
     let limit = (ucast freq :: u64) * ucast period
     in if total < limit then Inr 0
        else c_bind (div64_32 (total - limit) (if freq \<noteq> 0 then freq else 1)) (\<lambda>wait. Inr (max wait 1))) (freq_ctr_total now ctr period pend)"

definition next_event_delay :: "u32 \<Rightarrow> freq_ctr \<Rightarrow> u32 \<Rightarrow> u32 \<Rightarrow> u32 c_result option" where
  "next_event_delay now ctr freq pend = next_event_delay_period now ctr 1000 freq pend"

definition c_udiv :: "u32 \<Rightarrow> u32 \<Rightarrow> u32 c_result" where
  "c_udiv a b = (if b = 0 then Inl DivideByZero else Inr (a div b))"

definition swrate_add :: "u32 \<Rightarrow> u32 \<Rightarrow> u32 \<Rightarrow> u32 c_result" where
  "swrate_add old_sum n v = c_bind (c_udiv (old_sum + n - 1) n) (\<lambda>d. Inr (old_sum - d + v))"

definition swrate_add_dynamic :: "u32 \<Rightarrow> u32 \<Rightarrow> u32 \<Rightarrow> u32" where
  "swrate_add_dynamic old_sum n v = old_sum - (if n \<noteq> 0 then (old_sum + n - 1) div n else 0) + v"

definition swrate_add_scaled :: "u32 \<Rightarrow> u32 \<Rightarrow> u32 \<Rightarrow> u32 \<Rightarrow> u32 c_result" where
  "swrate_add_scaled old_sum n v s = c_bind (div64_32 (ucast (old_sum + n) * ucast s) n) (\<lambda>d. Inr (old_sum + v * s - d))"

definition swrate_avg :: "u32 \<Rightarrow> u32 \<Rightarrow> u32 c_result" where
  "swrate_avg acc n = c_udiv (acc + n - 1) n"

text \<open>A sequence of samples.\<close>

fun swrate_adds :: "u32 \<Rightarrow> u32 list \<Rightarrow> u32 \<Rightarrow> u32 c_result" where
  "swrate_adds n [] acc = Inr acc"
| "swrate_adds n (v # vs) acc = c_bind (swrate_add acc n v) (swrate_adds n vs)"

section \<open>Sliding averages\<close>

definition ceil_div :: "nat \<Rightarrow> nat \<Rightarrow> nat" where
  "ceil_div x n = (x + n - 1) div n"

definition sw_next :: "nat \<Rightarrow> nat \<Rightarrow> nat \<Rightarrow> nat" where
  "sw_next n v x = x - ceil_div x n + v"

lemma ceil_div_le: "0 < n \<Longrightarrow> ceil_div x n \<le> m \<longleftrightarrow> x \<le> m * n"
proof -
  assume n: "0 < n"
  have "ceil_div x n \<le> m \<longleftrightarrow> (x + n - 1) div n < Suc m" by (auto simp: ceil_div_def)
  also have "\<dots> \<longleftrightarrow> x + n - 1 < Suc m * n" using n by (simp add: div_less_iff_less_mult)
  also have "\<dots> \<longleftrightarrow> x \<le> m * n" using n by auto
  finally show ?thesis .
qed

lemma ceil_div_self: "0 < n \<Longrightarrow> ceil_div x n \<le> x"
  by (simp add: ceil_div_le)

lemma sw_next_mono:
  assumes n: "0 < n" and le: "x \<le> y"
  shows "sw_next n v x \<le> sw_next n v y"
proof -
  have "x \<le> ceil_div x n * n" using ceil_div_le [OF n, of x "ceil_div x n"] by simp
  then have "x + (y - x) \<le> (ceil_div x n + (y - x)) * n" using n
    by (metis add_mono distrib_right le_add1 mult_le_mono2 nat_mult_1_right not_less_eq_eq Suc_leI One_nat_def)
  then have "ceil_div y n \<le> ceil_div x n + (y - x)" using ceil_div_le [OF n, of y "ceil_div x n + (y - x)"] le by simp
  then show ?thesis using le ceil_div_self [OF n, of x] ceil_div_self [OF n, of y] by (simp add: sw_next_def)
qed

text \<open>The sum moves towards \<open>n * v\<close> until its average is \<open>v\<close>.\<close>

lemma sw_next_towards:
  assumes n: "0 < n"
  shows "ceil_div x n = v \<Longrightarrow> sw_next n v x = x"
    and "ceil_div x n < v \<Longrightarrow> x < sw_next n v x \<and> sw_next n v x \<le> n * v"
    and "v < ceil_div x n \<Longrightarrow> n * v \<le> sw_next n v x \<and> sw_next n v x < x"
proof -
  have "v = 0 \<or> \<not> ceil_div (n * v) n \<le> v - 1" using n by (cases v) (simp_all add: ceil_div_le [OF n] mult.commute)
  moreover have "ceil_div (n * v) n \<le> v" by (simp add: ceil_div_le [OF n])
  ultimately have top: "ceil_div (n * v) n = v" by linarith
  then have same: "sw_next n v (n * v) = n * v" using ceil_div_self [OF n, of "n * v"] by (simp add: sw_next_def)
  note self = ceil_div_self [OF n, of x] and le = ceil_div_le [OF n, of x v]
  show "ceil_div x n = v \<Longrightarrow> sw_next n v x = x" using self by (simp add: sw_next_def)
  show "x < sw_next n v x \<and> sw_next n v x \<le> n * v" if "ceil_div x n < v"
    using that self le sw_next_mono [OF n, of x "n * v" v] same by (simp add: sw_next_def mult.commute)
  show "n * v \<le> sw_next n v x \<and> sw_next n v x < x" if "v < ceil_div x n"
    using that self le sw_next_mono [OF n, of "n * v" x v] same by (auto simp: sw_next_def mult.commute)
qed

lemma sw_next_bound: "0 < n \<Longrightarrow> x \<le> b \<Longrightarrow> n * v \<le> b \<Longrightarrow> sw_next n v x \<le> b"
  using sw_next_towards(1,2) [of n x v] sw_next_towards(3) [of n v x] by (cases "ceil_div x n" v rule: linorder_cases) auto

text \<open>The code computes these values as long as nothing overflows.\<close>

lemma swrate_avg_nat:
  assumes "n \<noteq> 0" and "unat acc + unat n \<le> 2 ^ 32"
  shows "swrate_avg acc n = Inr (of_nat (ceil_div (unat acc) (unat n)))" and "unat ((acc + n - 1) div n) = ceil_div (unat acc) (unat n)"
proof -
  have n: "0 < unat n" using assms(1) by (simp add: unat_gt_0)
  have "unat (acc + (n - 1)) = unat acc + (unat n - 1)"
    using assms n by (subst unat_add_lem [THEN iffD1]) (simp_all add: unat_minus_one)
  then have "unat (acc + n - 1) = unat acc + unat n - 1" using n by (simp add: add_diff_eq)
  then show u: "unat ((acc + n - 1) div n) = ceil_div (unat acc) (unat n)" by (simp add: unat_div ceil_div_def)
  show "swrate_avg acc n = Inr (of_nat (ceil_div (unat acc) (unat n)))"
    using assms(1) u by (simp add: swrate_avg_def c_udiv_def flip: u)
qed

lemma swrate_add_nat:
  assumes n: "n \<noteq> 0" and b: "unat acc + unat n \<le> 2 ^ 32" "unat n * unat v + unat n \<le> 2 ^ 32"
  shows "\<exists>t. swrate_add acc n v = Inr t \<and> unat t = sw_next (unat n) (unat v) (unat acc)"
proof -
  let ?d = "(acc + n - 1) div n"
  have n0: "0 < unat n" using n by (simp add: unat_gt_0)
  have d: "unat ?d = ceil_div (unat acc) (unat n)" using swrate_avg_nat(2) [OF n b(1)] .
  then have "unat (acc - ?d) = unat acc - unat ?d" using ceil_div_self [OF n0, of "unat acc"] by (simp add: unat_sub word_le_nat_alt)
  moreover have "sw_next (unat n) (unat v) (unat acc) < 2 ^ 32"
    using sw_next_bound [OF n0, of "unat acc" "2 ^ 32 - unat n" "unat v"] b n0 by linarith
  ultimately have "unat (acc - ?d + v) = sw_next (unat n) (unat v) (unat acc)"
    by (subst unat_add_lem [THEN iffD1]) (simp_all add: sw_next_def d)
  then show ?thesis using n by (simp add: swrate_add_def c_udiv_def)
qed

lemma sw_next_settles:
  assumes n: "0 < n" and d: "ceil_div x n = v \<or> (x - n * v) + (n * v - x) \<le> Suc k"
  shows "ceil_div (sw_next n v x) n = v \<or> (sw_next n v x - n * v) + (n * v - sw_next n v x) \<le> k"
  using sw_next_towards(1,2) [OF n, of x v] sw_next_towards(3) [OF n, of v x] d
  by (cases "ceil_div x n" v rule: linorder_cases) auto

lemma swrate_adds_converge:
  assumes n: "n \<noteq> 0" and b: "unat n * unat v + unat n \<le> 2 ^ 32" and "unat acc + unat n \<le> 2 ^ 32"
    and "ceil_div (unat acc) (unat n) = unat v \<or> (unat acc - unat n * unat v) + (unat n * unat v - unat acc) \<le> k"
  shows "\<exists>t. swrate_adds n (replicate k v) acc = Inr t \<and> unat t + unat n \<le> 2 ^ 32 \<and> ceil_div (unat t) (unat n) = unat v"
  using assms(3,4)
proof (induction k arbitrary: acc)
  case 0
  have n0: "0 < unat n" using n by (simp add: unat_gt_0)
  have "ceil_div (unat acc) (unat n) = unat v"
    using 0(2) sw_next_towards(2) [OF n0, of "unat acc" "unat v"] sw_next_towards(3) [OF n0, of "unat v" "unat acc"] by linarith
  then show ?case using 0(1) by simp
next
  case (Suc k)
  have n0: "0 < unat n" using n by (simp add: unat_gt_0)
  obtain t where t: "swrate_add acc n v = Inr t" "unat t = sw_next (unat n) (unat v) (unat acc)" using swrate_add_nat [OF n Suc.prems(1) b] by blast
  have "unat t + unat n \<le> 2 ^ 32"
    using sw_next_bound [OF n0, of "unat acc" "2 ^ 32 - unat n" "unat v"] t(2) Suc.prems(1) b by linarith
  moreover have "ceil_div (unat t) (unat n) = unat v \<or> (unat t - unat n * unat v) + (unat n * unat v - unat t) \<le> k"
    using sw_next_settles [OF n0 Suc.prems(2)] t(2) by simp
  ultimately show ?case using Suc.IH [of t] t(1) by simp
qed

section \<open>The window of a counter\<close>

text \<open>The events of the current and of the last period, the latter for the part of it that is still within one
  period of now.\<close>

definition window_total :: "nat \<Rightarrow> nat \<Rightarrow> nat \<Rightarrow> nat \<Rightarrow> nat \<Rightarrow> nat" where
  "window_total period elapsed past now_ctr pend =
     (if elapsed \<le> period then past * (period - elapsed) + (now_ctr + pend) * period
      else now_ctr * (2 * period - elapsed) + pend * period)"

lemma signed_take_bit_in:
  fixes k :: int
  shows "- (2 ^ 31) \<le> k \<Longrightarrow> k < 2 ^ 31 \<Longrightarrow> signed_take_bit 31 k = k"
  by (rule signed_take_bit_int_eq_self)

lemma sint_small:
  assumes "uint a < 2 ^ 31"
  shows "sint (a :: u32) = uint a"
proof -
  have "- (2 ^ 31) \<le> uint a" by (rule order_trans [OF _ uint_ge_0]) simp
  from signed_take_bit_in [OF this assms] show ?thesis by (simp add: sint_uint)
qed

lemma sint_diff_small:
  fixes a b :: u32
  assumes "uint a < 2 ^ 31" and "uint b < 2 ^ 31"
  shows "sint (a - b) = uint a - uint b"
proof -
  have "- (2 ^ 31) \<le> uint a - uint b" "uint a - uint b < 2 ^ 31" using assms uint_ge_0 [of a] uint_ge_0 [of b] by linarith+
  from signed_take_bit_in [OF this] show ?thesis using assms by (simp add: sint_word_ariths sint_small)
qed

lemma sint_sum_small:
  fixes a b :: u32
  assumes "uint b < 2 ^ 31" and "sint a \<le> 0"
  shows "sint (a + b) = sint a + uint b"
proof -
  have "- (2 ^ 31) \<le> sint a" using sint_ge [of a] by simp
  then have "- (2 ^ 31) \<le> sint a + uint b" "sint a + uint b < 2 ^ 31" using assms uint_ge_0 [of b] by linarith+
  from signed_take_bit_in [OF this] show ?thesis using assms by (simp add: sint_word_ariths sint_small)
qed

lemma scast_sint: "sint (r :: u32) = k \<Longrightarrow> (scast r :: u64) = of_int k"
  by (metis of_int_sint)

lemma freq_ctr_total_window:
  fixes now period :: u32
  assumes even: "curr_tick ctr AND 1 = 0" and pend: "uint pend < 2 ^ 31" and p: "uint period < 2 ^ 30"
    and e: "uint (now - curr_tick ctr) < 2 ^ 31"
  shows "freq_ctr_total now ctr period pend = Some (of_nat
    (window_total (unat period) (unat (now - curr_tick ctr)) (unat (prev_ctr ctr)) (unat (curr_ctr ctr)) (unat pend)))"
proof -
  let ?E = "now - curr_tick ctr"
  define r where "r = curr_tick ctr + period - now"
  have r: "sint r = uint period - uint ?E" using sint_diff_small [of period ?E] p e by (simp add: r_def algebra_simps)
  have pd: "sint pend = uint pend" using pend by (rule sint_small)
  have pc: "(scast pend :: u64) = ucast pend" using scast_sint [OF pd] by simp
  have le: "unat a \<le> unat b \<longleftrightarrow> uint a \<le> uint b" for a b :: u32 using zle_int [of "unat a" "unat b"] by simp
  show ?thesis
  proof (cases "uint ?E \<le> uint period")
    case True
    have "(scast r :: u64) = ucast period - ucast ?E" using scast_sint [OF r] by simp
    moreover have "of_nat (unat period - unat ?E) = (ucast period - ucast ?E :: u64)" using True by (simp add: le of_nat_diff)
    ultimately show ?thesis using True r even pd
      by (simp add: freq_ctr_total_def Let_def word_sless_alt window_total_def pc le flip: r_def)
  next
    case False
    have r2: "sint (r + period) = 2 * uint period - uint ?E" using sint_sum_small [of period r] r False p by simp
    have le2: "unat ?E \<le> 2 * unat period \<longleftrightarrow> uint ?E \<le> 2 * uint period" using zle_int [of "unat ?E" "2 * unat period"] by simp
    have n: "\<not> unat ?E \<le> unat period" using False by (simp add: le)
    show ?thesis
    proof (cases "uint ?E \<le> 2 * uint period")
      case True
      have "(scast (r + period) :: u64) = 2 * ucast period - ucast ?E" using scast_sint [OF r2] by simp
      moreover have "of_nat (2 * unat period - unat ?E) = (2 * ucast period - ucast ?E :: u64)" using True by (simp add: le2 of_nat_diff)
      ultimately show ?thesis using True False r r2 even pd n
        by (simp add: freq_ctr_total_def Let_def word_sless_alt word_sle_eq window_total_def pc flip: r_def)
    next
      case F2: False
      have "2 * unat period - unat ?E = 0" using F2 le2 by simp
      then show ?thesis using F2 False r r2 even pd n
        by (simp add: freq_ctr_total_def Let_def word_sless_alt word_sle_eq window_total_def pc flip: r_def)
    qed
  qed
qed

section \<open>Limiting a rate\<close>

text \<open>A counter that is fed only while events remain. The clock may show any time.\<close>

inductive limited :: "u32 \<Rightarrow> u32 \<Rightarrow> freq_ctr \<Rightarrow> bool" for period freq where
  limited_start: "limited period freq \<lparr>curr_tick = 0, curr_ctr = 0, prev_ctr = 0\<rparr>"
| limited_event: "limited period freq ctr \<Longrightarrow> freq_ctr_remain_period now ctr period freq 0 = Some (Inr left) \<Longrightarrow> left \<noteq> 0 \<Longrightarrow>
    update_freq_ctr_period now ctr period 1 = Some (ctr', n) \<Longrightarrow> limited period freq ctr'"

lemma unat_ucast_u64 [simp]: "unat (ucast (x :: u32) :: u64) = unat x"
  using unsigned_less [where 'a = nat, of x] by (simp add: unsigned_ucast_eq take_bit_nat_eq_self)

lemma remain_in_period:
  fixes now period freq :: u32
  assumes left: "freq_ctr_remain_period now ctr period freq 0 = Some (Inr left)" "left \<noteq> 0" and even: "curr_tick ctr AND 1 = 0"
    and p: "uint period < 2 ^ 30" and f: "uint freq < 2 ^ 31" and c: "curr_ctr ctr \<le> freq" "prev_ctr ctr \<le> freq"
    and e: "now - curr_tick ctr < period"
  shows "curr_ctr ctr < freq"
proof -
  let ?P = "unat period" and ?e = "unat (now - curr_tick ctr)"
  define W where "W = unat (prev_ctr ctr) * (?P - ?e) + unat (curr_ctr ctr) * ?P"
  have P: "?P < 2 ^ 30" "?e < ?P" and F: "unat (prev_ctr ctr) < 2 ^ 31" "unat (curr_ctr ctr) < 2 ^ 31"
    using p f e c of_nat_less_iff [where 'a = int, of ?P "2 ^ 30"] of_nat_less_iff [where 'a = int, of "unat freq" "2 ^ 31"] by (simp_all add: word_less_nat_alt word_le_nat_alt)
  have eu: "uint (now - curr_tick ctr) < 2 ^ 31" using e p by (simp add: word_less_def)
  have tot: "freq_ctr_total now ctr period 0 = Some (of_nat W)"
    using freq_ctr_total_window [OF even _ p eu, of 0] P(2) by (simp add: W_def window_total_def)
  have "W \<le> unat (prev_ctr ctr) * ?P + unat (curr_ctr ctr) * ?P" unfolding W_def by (intro add_mono mult_le_mono) simp_all
  then have W: "W \<le> (unat (prev_ctr ctr) + unat (curr_ctr ctr)) * ?P" by (simp add: add_mult_distrib)
  also have "\<dots> \<le> 2 ^ 32 * 2 ^ 30" using F P(1) by (intro mult_le_mono) simp_all
  finally have W64: "unat (of_nat W :: u64) = W" by (simp add: unat_of_nat)
  have D: "W div ?P \<le> unat (prev_ctr ctr) + unat (curr_ctr ctr)" using div_le_mono [OF W, of ?P] P(2) by simp
  define avg :: u32 where "avg = ucast ((of_nat W :: u64) div ucast period)"
  have "unat ((of_nat W :: u64) div ucast period) = W div ?P" by (simp add: unat_div W64)
  then have avg: "unat avg = W div ?P" using D F by (simp add: avg_def unsigned_ucast_eq take_bit_nat_eq_self)
  have "period \<noteq> 0" using P(2) by auto
  then have "left = freq - (if freq < avg then freq else avg)" using left(1) tot by (auto simp: freq_ctr_remain_period_def div64_32_def avg_def)
  then have "avg < freq" using left(2) by (auto split: if_splits simp: not_less order_le_less)
  moreover have "unat (curr_ctr ctr) \<le> W div ?P" using P(2) by (simp add: W_def)
  ultimately show ?thesis using avg by (simp add: word_less_nat_alt)
qed

lemma limited_inv:
  assumes "limited period freq ctr" and p: "uint period < 2 ^ 30" and f: "uint freq < 2 ^ 31"
  shows "curr_tick ctr AND 1 = 0 \<and> curr_ctr ctr \<le> freq \<and> prev_ctr ctr \<le> freq"
  using assms(1)
proof induction
  case (limited_event ctr now left ctr' n)
  note ih = limited_event.IH
  have "freq \<noteq> 0" using limited_event.hyps(2,3) by (auto simp: freq_ctr_remain_period_def div64_32_def word_gt_0 split: if_splits)
  then have one: "1 \<le> freq" by (simp add: word_le_nat_alt Suc_le_eq unat_gt_0)
  show ?case
  proof (cases "now - curr_tick ctr < period")
    case True
    have "curr_ctr ctr < freq" using remain_in_period [OF limited_event.hyps(2,3) _ p f _ _ True] ih by blast
    then have "curr_ctr ctr + 1 \<le> freq" by (rule inc_le)
    then show ?thesis using True limited_event.hyps(4) ih by (auto simp: update_freq_ctr_period_def)
  next
    case False
    then show ?thesis using limited_event.hyps(4) ih one by (auto simp: update_freq_ctr_period_def Let_def and.assoc split: if_splits)
  qed
qed simp

lemma freq_ctr_never_spins:
  assumes "curr_tick ctr AND 1 = 0" and "period \<noteq> 0"
  shows "\<exists>left. freq_ctr_remain_period now ctr period freq pend = Some (Inr left)" and "\<exists>r. update_freq_ctr_period now ctr period inc = Some r"
  using assms by (simp_all add: freq_ctr_remain_period_def freq_ctr_total_def div64_32_def update_freq_ctr_period_def Let_def split: prod.splits)

section \<open>Properties\<close>

text \<open>(C17) Events that are counted only when \<^verbatim>\<open>freq_ctr_remain_period\<close> still allows one stay within the
  limit: neither the current nor the last period of the counter ever holds more than \<open>freq\<close> of them, whatever
  the clock shows and even when it wraps around, and neither asking nor counting ever blocks.\<close>

theorem freq_limit_respected:
  assumes "limited period freq ctr" and "period \<noteq> 0" and "uint period < 2 ^ 30" and "uint freq < 2 ^ 31"
  shows "curr_ctr ctr \<le> freq \<and> prev_ctr ctr \<le> freq \<and>
    (\<exists>left. freq_ctr_remain_period now ctr period freq pend = Some (Inr left)) \<and> (\<exists>r. update_freq_ctr_period now ctr period inc = Some r)"
  using limited_inv [OF assms(1,3,4)] freq_ctr_never_spins [OF _ assms(2)] by blast

theorem freq_limit_respected_witness:
  "\<exists>ctr n. update_freq_ctr_period 1500 \<lparr>curr_tick = 0, curr_ctr = 0, prev_ctr = 0\<rparr> 1000 1 = Some (ctr, n) \<and> curr_ctr ctr = 1 \<and>
     curr_ctr ctr \<le> 5 \<and> prev_ctr ctr \<le> 5"
proof -
  let ?old = "\<lparr>curr_tick = 0, curr_ctr = 0, prev_ctr = 0\<rparr>" and ?c = "\<lparr>curr_tick = 1000, curr_ctr = 1, prev_ctr = 0\<rparr>"
  have u: "update_freq_ctr_period 1500 ?old 1000 1 = Some (?c, 1)" by (simp add: update_freq_ctr_period_def)
  have "freq_ctr_remain_period 1500 ?old 1000 5 0 = Some (Inr 5)"
    by (simp add: freq_ctr_remain_period_def freq_ctr_total_def div64_32_def word_sless_alt word_sle_eq)
  from limited_event [OF limited_start this _ u] have "limited 1000 5 ?c" by simp
  then show ?thesis using freq_limit_respected [of 1000 5 ?c] u by simp
qed

text \<open>(C14) The sliding average converges: after enough samples of the same value \<open>v\<close>, no more than the distance
  of the sum from \<open>n * v\<close>, the average is exactly \<open>v\<close>, provided that the sums fit into 32 bits.\<close>

theorem swrate_converges:
  assumes "n \<noteq> 0" and "unat n * unat v + unat n \<le> 2 ^ 32" and "unat acc + unat n \<le> 2 ^ 32"
    and "(unat acc - unat n * unat v) + (unat n * unat v - unat acc) \<le> k"
  shows "\<exists>t. swrate_adds n (replicate k v) acc = Inr t \<and> swrate_avg t n = Inr v"
proof -
  obtain t where "swrate_adds n (replicate k v) acc = Inr t" "unat t + unat n \<le> 2 ^ 32" "ceil_div (unat t) (unat n) = unat v"
    using swrate_adds_converge [OF assms(1-3)] assms(4) by blast
  then show ?thesis using swrate_avg_nat(1) [OF assms(1), of t] by simp
qed

theorem swrate_converges_witness:
  "\<exists>t. swrate_adds 4 (replicate 20 5) 3 = Inr t \<and> swrate_avg t 4 = Inr 5"
  by (rule swrate_converges) simp_all

end
