(* ===== verification/Spec2Isabelle.thy ===== *)
theory Spec2Isabelle
  imports Eb32_Signed Pendconn_Order Backend_Param Backend_Run Si_Loop Lb_Fas Lb_Fwlc Lb_Map Chash_Lookup Fwrr_Lookup Hash Whitelist Smartdrop_Gate Sdsock Freq_Ctr
begin

text \<open>
  \<^bold>\<open>SmartHAProxy: a verification development of its load balancing\<close>

  The program is HAProxy 2.5-dev (\<^verbatim>\<open>src/haproxy\<close>) modified for SmartDrop
  (\<^verbatim>\<open>src/smartdrop\<close>). A stream that needs a server asks the balancing algorithm of its
  backend; the modified algorithms first consult a whitelist that tells which servers may answer a
  kind of request. SmartDrop writes that whitelist to a file, HAProxy reads it, and both exchange
  bytes over a socket so as not to do so at the same time. If the servers are full the stream waits
  in a queue. The development models these parts: the data, every operation on them, and the order
  in which they call each other.

  \<^bold>\<open>Conventions.\<close> C integers are 32-bit words with the wrap-around of \<^verbatim>\<open>-fwrapv\<close>; an
  \<^verbatim>\<open>int\<close> is read with \<open>sint\<close> and compared by \<open><s\<close>. A function that may run into a fault
  (a null pointer, an index out of bounds, a division by zero, an \<^verbatim>\<open>abort\<close>) returns
  \<open>c_fault + 'a\<close>, so that freedom from faults is a theorem. A server is its position in the list of
  its proxy, a pending connection and a stream are numbers. Functions that hold a lock are one step;
  where locking itself is the subject (the socket) the steps are those of the protocol. Values from
  outside (the time, the clock, the file, the result of an allocation and the size of the block it gives, the random
  draws) are arguments.
  Loops are total functions with a measure; the two walks that the C code may not end (the ring of
  consistent hashing and the map) and the loops of a stream over its attempts to connect take fuel, and
  theorems say how much is enough or that none is.

  \<^bold>\<open>Theories\<close>
  \<^item> \<^verbatim>\<open>Ha_Prelude\<close>: words, faults, loops, lemma collections.
  \<^item> \<^verbatim>\<open>Eb32_Spec\<close>: what the callers of \<^verbatim>\<open>eb32tree.h\<close> rely on: a tree is the sequence of its
    leaves in key order, equal keys in insertion order. \<^verbatim>\<open>Eb32_Tree\<close>, \<^verbatim>\<open>Eb32_Refine\<close>,
    \<^verbatim>\<open>Eb32_Ops\<close>, \<^verbatim>\<open>Eb32_Signed\<close>: the trees of \<^verbatim>\<open>ebtree.h\<close>, \<^verbatim>\<open>eb32tree.h\<close> and
    \<^verbatim>\<open>eb32tree.c\<close> (\<^verbatim>\<open>__eb32_insert\<close>, \<^verbatim>\<open>__eb_insert_dup\<close>, \<^verbatim>\<open>__eb_delete\<close>, walks and
    lookups, signed variants). They implement the sequences: the locale \<open>eb_tree\<close> states the contract
    and is interpreted on the unsigned and on the signed trees. The bit position in a tree of
    duplicates is an unbounded integer where C has a \<^verbatim>\<open>short\<close>.
  \<^item> \<^verbatim>\<open>Server_Model\<close>: \<^verbatim>\<open>struct server\<close>, \<^verbatim>\<open>struct proxy\<close> with \<^verbatim>\<open>struct lbprm\<close>, the
    predicates of \<^verbatim>\<open>backend.h\<close>, \<^verbatim>\<open>recount_servers\<close>, \<^verbatim>\<open>update_backend_weight\<close>,
    \<^verbatim>\<open>srv_dynamic_maxconn\<close>. \<^verbatim>\<open>Lb_Account\<close>: the totals of the proxy are those of its usable
    servers; the locale \<open>lb_algorithm\<close> is the contract of the three status callbacks, with the
    reachable states. \<^verbatim>\<open>Lb_Tree\<close>: the shape the tree-based algorithms share (locales
    \<open>tree_callbacks\<close>, \<open>srv_trees\<close>, \<open>srv_tree_algorithm\<close>).
  \<^item> \<^verbatim>\<open>Lb_Fas\<close> (\<^verbatim>\<open>lb_fas.c\<close>), \<^verbatim>\<open>Lb_Fwlc\<close> (\<^verbatim>\<open>lb_fwlc.c\<close>), \<^verbatim>\<open>Lb_Fwrr\<close>,
    \<^verbatim>\<open>Fwrr_Inv\<close>, \<^verbatim>\<open>Fwrr_Lookup\<close> (\<^verbatim>\<open>lb_fwrr.c\<close>), \<^verbatim>\<open>Lb_Chash\<close>, \<^verbatim>\<open>Chash_Lookup\<close>
    (\<^verbatim>\<open>lb_chash.c\<close>), \<^verbatim>\<open>Lb_Map\<close> (\<^verbatim>\<open>lb_map.c\<close>): every function of each algorithm. For each:
    through any sequence of status and weight changes the trees hold exactly the usable servers with
    the right keys, and the totals are right; and what the lookup returns. For consistent hashing the runs
    contain the round-robin lookups too, which move \<^verbatim>\<open>chash.last\<close>, and faults are results.
  \<^item> \<^verbatim>\<open>Hash\<close> (\<^verbatim>\<open>hash.c\<close>, \<^verbatim>\<open>full_hash\<close>): the optimised loops equal their references.
  \<^item> \<^verbatim>\<open>Pendconn\<close>, \<^verbatim>\<open>Pendconn_Inv\<close>, \<^verbatim>\<open>Pendconn_Run\<close>, \<^verbatim>\<open>Pendconn_Serve\<close>,
    \<^verbatim>\<open>Pendconn_Order\<close> (\<^verbatim>\<open>queue.c\<close>, \<^verbatim>\<open>queue.h\<close>): the queues of the servers and of the proxy
    stay consistent under every operation in any order (the callback of the algorithm satisfies the
    locale \<open>conn_callback\<close>, interpreted on \<^verbatim>\<open>fwlc_srv_reposition\<close> and
    \<^verbatim>\<open>fas_srv_reposition\<close>: it faults at most by dividing by the weight of a server that has none,
    which the first of them does); the most urgent stream is served first; whoever waits for a server
    with a free slot is served.
  \<^item> \<^verbatim>\<open>Backend_Hash\<close>, \<^verbatim>\<open>Backend_Param\<close> (\<^verbatim>\<open>gen_hash\<close> and the \<^verbatim>\<open>get_server_*\<close> of
    \<^verbatim>\<open>backend.c\<close>): what is hashed of the address, URI, parameter, header or cookie, and the random
    draws. \<^verbatim>\<open>Backend_Assign\<close> (\<^verbatim>\<open>assign_server\<close>, \<^verbatim>\<open>assign_server_and_queue\<close>,
    \<^verbatim>\<open>sess_change_server\<close> of \<^verbatim>\<open>stream.c\<close>): how a stream gets its server, by whatever
    algorithm. \<^verbatim>\<open>Backend_Slots\<close>, \<^verbatim>\<open>Slots_Queue\<close>: \<^verbatim>\<open>served\<close> counts the streams that hold
    a slot, through every operation. \<^verbatim>\<open>Backend_Outcome\<close>, \<^verbatim>\<open>Backend_Run\<close>: the locale
    \<open>lb_conn\<close> states what the callbacks of a balancing algorithm owe to the slots, and is interpreted on
    those of every algorithm; \<open>lb_backend\<close> adds that the lookup answers and no callback divides by zero, and
    is interpreted on first-available balancing, static round robin and the hashes into the map. For these,
    if the stream has an HTTP transaction and the allocator a spare byte, a stream ends with a slot, in a
    queue, or with neither, as the status says, and any number of streams keeps queues and slots consistent.
    The lookups that go through the whitelist (\<^verbatim>\<open>roundrobin\<close>, \<^verbatim>\<open>leastconn\<close>, \<^verbatim>\<open>random\<close>)
    may crash in its block, and that of consistent hashing may not end: they are outside \<open>lb_backend\<close>.
  \<^item> \<^verbatim>\<open>Si_Conn\<close>, \<^verbatim>\<open>Si_Run\<close>, \<^verbatim>\<open>Si_Retry\<close>, \<^verbatim>\<open>Si_Loop\<close> (\<^verbatim>\<open>srv_redispatch_connect\<close> and the handlers
    \<^verbatim>\<open>back_*\<close> of \<^verbatim>\<open>backend.c\<close>, \<^verbatim>\<open>stream_choose_redispatch\<close> of \<^verbatim>\<open>stream.h\<close>, the
    shutdowns of \<^verbatim>\<open>stream_interface.c\<close>, the loop of \<^verbatim>\<open>process_stream\<close>): the server side of a
    stream up to the established connection. For the algorithms of \<open>lb_backend\<close> getting a server ends after
    at most two rounds, and the loop around the handlers after at most two rounds more than there are retries.
    For the callbacks of every algorithm failed connections are retried no more often than configured, slots
    are given back, and the states are those the handlers document; least-connection balancing needs servers
    of weight other than 0 for this, and the interval of \<^verbatim>\<open>option redispatch\<close> must not make the divisor
    zero.
  \<^item> \<^verbatim>\<open>Whitelist\<close> (\<^verbatim>\<open>whitelist.c\<close>), \<^verbatim>\<open>Smartdrop_Gate\<close> (the SmartDrop block of the lookups
    and the utilities of \<^verbatim>\<open>backend.c\<close>), \<^verbatim>\<open>Sdsock\<close> (\<^verbatim>\<open>sdsock.c\<close> and the writer of
    \<^verbatim>\<open>smartdrop.py\<close> as a transition system over the socket): the table refines a map, when it is
    refreshed, what is refused; mutual exclusion holds exactly if no socket call fails and every message is
    one byte.
  \<^item> \<^verbatim>\<open>Freq_Ctr\<close> (\<^verbatim>\<open>freq_ctr.c\<close>, \<^verbatim>\<open>freq_ctr.h\<close>): event counters over periods and sliding
    averages; limits are respected and averages converge.

  \<^bold>\<open>Defects.\<close> Theorems of kind \<open>error\<close> pin down inputs on which the code faults, loops or ignores the
  whitelist; they are listed as findings of the manifest.

  \<^bold>\<open>Not modelled.\<close> Process start, configuration parsing, HTTP analysers, multiplexers, TLS, Lua,
  channels and polling, statistics, logs, command line, samples, stick tables, peers, name resolution:
  input, output and protocol code around the decisions above. The walks over duplicates of
  \<^verbatim>\<open>ebtree.h\<close> and the prefix and string trees are not used by balancing. Concurrency below the
  level of the locks (atomic counters read without one) is not modelled. \<^verbatim>\<open>connect_server\<close>, which
  chooses between idle and new connections and opens them, and \<^verbatim>\<open>http_perform_server_redirect\<close> are
  arguments of the handlers, and applets as targets are left out. Left to model next: server weights set at
  run time (\<^verbatim>\<open>server.c\<close>).
\<close>

end
